(* ===== verification/Xv6_Prelude.thy ===== *)
theory Xv6_Prelude
  imports Main "HOL-Library.Word"
begin

section \<open>Prelude: machine integers, kernel results, shared list lemmas\<close>

text \<open>
  What every theory of the development shares: the names of the machine types, the result
  type of a kernel routine, its sequencing operator, the compile-time constants of
  \<^verbatim>\<open>param.h\<close>, and the lemmas on lists and results that the component proofs use.

  A kernel routine either returns (\<open>Ok\<close>), calls \<^verbatim>\<open>panic\<close> (\<open>Panic\<close>, with the
  message), has to wait for somebody else before it can go on (\<open>Blocked\<close>: it spins on a lock
  that another CPU holds, or it sleeps), or performs a memory access outside of the C object
  it indexes (\<open>Fault\<close>, where C gives the program no meaning).
\<close>

type_synonym u8 = "8 word"
type_synonym u16 = "16 word"
type_synonym u32 = "32 word"

datatype 'a res = Ok 'a | Panic string | Blocked | Fault

named_theorems res_simps \<open>rewriting of sequenced kernel results\<close>

definition rbind :: "'a res \<Rightarrow> ('a \<Rightarrow> 'b res) \<Rightarrow> 'b res" where
  "rbind m f = (case m of Ok x \<Rightarrow> f x | Panic e \<Rightarrow> Panic e | Blocked \<Rightarrow> Blocked | Fault \<Rightarrow> Fault)"

fun is_ok :: "'a res \<Rightarrow> bool" where
  "is_ok (Ok _) = True"
| "is_ok _ = False"

lemma rbind_simps [simp, res_simps]:
  "rbind (Ok x) f = f x"
  "rbind (Panic e) f = Panic e"
  "rbind Blocked f = Blocked"
  "rbind Fault f = Fault"
  by (simp_all add: rbind_def)

lemma rbind_cong [fundef_cong]:
  "m = m' \<Longrightarrow> (\<And>x. m' = Ok x \<Longrightarrow> f x = g x) \<Longrightarrow> rbind m f = rbind m' g"
  by (cases m') auto

lemma rbind_assoc: "rbind (rbind m f) g = rbind m (\<lambda>x. rbind (f x) g)"
  by (cases m) auto

lemma rbind_eq_Ok [res_simps]: "rbind m f = Ok y \<longleftrightarrow> (\<exists>x. m = Ok x \<and> f x = Ok y)"
  by (cases m) auto

lemma rbind_if: "rbind (if b then m else n) f = (if b then rbind m f else rbind n f)"
  by simp

lemma is_ok_iff: "is_ok m \<longleftrightarrow> (\<exists>x. m = Ok x)"
  by (cases m) auto

subsection \<open>Constants of \<^verbatim>\<open>param.h\<close>\<close>

definition NPROC :: nat where "NPROC = 64"
definition NOFILE :: nat where "NOFILE = 16"
definition NFILE :: nat where "NFILE = 100"
definition NINODE :: nat where "NINODE = 50"
definition NDEV :: nat where "NDEV = 10"
definition MAXARG :: nat where "MAXARG = 32"
definition MAXOPBLOCKS :: nat where "MAXOPBLOCKS = 10"
definition LOGSIZE :: nat where "LOGSIZE = MAXOPBLOCKS * 3"
definition NBUF :: nat where "NBUF = MAXOPBLOCKS * 3"
definition FSSIZE :: nat where "FSSIZE = 1000"
definition ROOTDEV :: u32 where "ROOTDEV = 1"

definition INTERV :: int where "INTERV = 10"
definition NUMFILAS :: nat where "NUMFILAS = 4"
definition PRIO :: int where "PRIO = 1"
definition AGE_1TO2 :: int where "AGE_1TO2 = 200"
definition AGE_2TO3 :: int where "AGE_2TO3 = 150"
definition AGE_3TO4 :: int where "AGE_3TO4 = 100"

definition KERNBASE :: u32 where "KERNBASE = 0x80000000"
definition PGSIZE :: u32 where "PGSIZE = 4096"
definition PHYSTOP :: u32 where "PHYSTOP = 0xE000000"

definition V2P :: "u32 \<Rightarrow> u32" where "V2P x = x - KERNBASE"
definition P2V :: "u32 \<Rightarrow> u32" where "P2V x = x + KERNBASE"

subsection \<open>Lists\<close>

lemma nth_upd: "xs[i := x] ! j = (if i = j \<and> j < length xs then x else xs ! j)"
  by (cases "i < length xs") (auto simp: nth_list_update list_update_beyond)

lemma take_Suc_update:
  "n < length xs \<Longrightarrow> take (Suc n) (xs[n := x]) = take n xs @ [x]"
  by (simp add: take_Suc_conv_app_nth)

lemma find_SomeD: "find Q xs = Some x \<Longrightarrow> Q x \<and> x \<in> set xs"
  by (induction xs) (auto split: if_splits)

lemma distinct_bounded_length:
  assumes "distinct xs" and "set xs \<subseteq> {..<n}"
  shows "length xs \<le> n"
proof -
  have "length xs = card (set xs)" using assms(1) by (simp add: distinct_card)
  also have "\<dots> \<le> card {..<n}" using assms(2) by (intro card_mono) auto
  finally show ?thesis by simp
qed

lemma distinct_bounded_length_less:
  assumes "distinct xs" and "set xs \<subseteq> {..<n}" and "p < n" and "p \<notin> set xs"
  shows "length xs < n"
proof -
  have "length (p # xs) \<le> n" using assms by (intro distinct_bounded_length) auto
  then show ?thesis by simp
qed

end
