(* ===== verification/Spinlock.thy ===== *)
theory Spinlock
  imports Xv6_Prelude
begin

section \<open>CPUs and spin locks (\<^verbatim>\<open>spinlock.c\<close>, \<^verbatim>\<open>mycpu\<close> and \<^verbatim>\<open>cpuid\<close> of \<^verbatim>\<open>proc.c\<close>)\<close>

text \<open>
  The part of the machine the locking code works on: the array \<^verbatim>\<open>cpus[]\<close> up to
  \<^verbatim>\<open>ncpu\<close>, the interrupt flag of each processor, and the words of kernel memory that
  \<^verbatim>\<open>getcallerpcs\<close> reads. A routine takes the LAPIC id of the processor that executes it
  (what \<^verbatim>\<open>lapicid()\<close> returns), so that several processors can act on one state.
  Spinning on a lock that another processor holds is the result \<open>Blocked\<close>.

  The theorems: \<^verbatim>\<open>pushcli\<close> and \<^verbatim>\<open>popcli\<close> nest and restore the interrupt flag;
  \<^verbatim>\<open>acquire\<close> followed by \<^verbatim>\<open>release\<close> gives the lock and the CPU back; and in every
  interleaving of any number of processors at most one is between its \<^verbatim>\<open>acquire\<close> and its
  \<^verbatim>\<open>release\<close>.
\<close>

subsection \<open>State\<close>

record cpu =
  apicid :: u8
  ncli :: int
  intena :: bool
  cpu_proc :: "nat option"

record spinlock =
  locked :: u32
  lk_name :: string
  lk_cpu :: "nat option"
  pcs :: "u32 list"

record machine =
  cpus :: "cpu list"
  eflags_if :: "u8 \<Rightarrow> bool"
  kmem :: "u32 \<Rightarrow> u32"
  arg0 :: "u8 \<Rightarrow> u32"

subsection \<open>Which CPU am I\<close>

fun find_apic :: "cpu list \<Rightarrow> nat \<Rightarrow> u8 \<Rightarrow> nat option" where
  "find_apic [] i a = None"
| "find_apic (c # cs) i a = (if apicid c = a then Some i else find_apic cs (Suc i) a)"

definition mycpu :: "u8 \<Rightarrow> machine \<Rightarrow> nat res" where
  "mycpu a m =
     (if eflags_if m a then Panic ''mycpu called with interrupts enabled''
      else case find_apic (cpus m) 0 a of
             Some i \<Rightarrow> Ok i
           | None \<Rightarrow> Panic ''unknown apicid'')"

definition cpuid :: "u8 \<Rightarrow> machine \<Rightarrow> nat res" where
  "cpuid a m = mycpu a m"

subsection \<open>Interrupt nesting\<close>

definition cli :: "u8 \<Rightarrow> machine \<Rightarrow> machine" where
  "cli a m = m\<lparr>eflags_if := (eflags_if m)(a := False)\<rparr>"

definition sti :: "u8 \<Rightarrow> machine \<Rightarrow> machine" where
  "sti a m = m\<lparr>eflags_if := (eflags_if m)(a := True)\<rparr>"

definition upd_cpu :: "nat \<Rightarrow> (cpu \<Rightarrow> cpu) \<Rightarrow> machine \<Rightarrow> machine" where
  "upd_cpu i f m = m\<lparr>cpus := (cpus m)[i := f (cpus m ! i)]\<rparr>"

definition pushcli :: "u8 \<Rightarrow> machine \<Rightarrow> machine res" where
  "pushcli a m =
     (let eflags = eflags_if m a; m = cli a m
      in rbind (mycpu a m) (\<lambda>i.
           let m = (if ncli (cpus m ! i) = 0 then upd_cpu i (\<lambda>c. c\<lparr>intena := eflags\<rparr>) m else m)
           in Ok (upd_cpu i (\<lambda>c. c\<lparr>ncli := ncli c + 1\<rparr>) m)))"

definition popcli :: "u8 \<Rightarrow> machine \<Rightarrow> machine res" where
  "popcli a m =
     (if eflags_if m a then Panic ''popcli - interruptible''
      else rbind (mycpu a m) (\<lambda>i.
        let m = upd_cpu i (\<lambda>c. c\<lparr>ncli := ncli c - 1\<rparr>) m
        in if ncli (cpus m ! i) < 0 then Panic ''popcli''
           else if ncli (cpus m ! i) = 0 \<and> intena (cpus m ! i) then Ok (sti a m)
           else Ok m))"

definition myproc :: "u8 \<Rightarrow> machine \<Rightarrow> (nat option \<times> machine) res" where
  "myproc a m =
     rbind (pushcli a m) (\<lambda>m.
     rbind (mycpu a m) (\<lambda>i.
     let p = cpu_proc (cpus m ! i) in
     rbind (popcli a m) (\<lambda>m. Ok (p, m))))"

subsection \<open>Locks\<close>

definition initlock :: "string \<Rightarrow> spinlock \<Rightarrow> spinlock" where
  "initlock nm lk = lk\<lparr>lk_name := nm, locked := 0, lk_cpu := None\<rparr>"

fun ebp_walk :: "(u32 \<Rightarrow> u32) \<Rightarrow> u32 \<Rightarrow> nat \<Rightarrow> u32 list" where
  "ebp_walk mem ebp 0 = []"
| "ebp_walk mem ebp (Suc n) =
     (if ebp = 0 \<or> ebp < KERNBASE \<or> ebp = 0xffffffff then replicate (Suc n) 0
      else mem (ebp + 4) # ebp_walk mem (mem ebp) n)"

definition getcallerpcs :: "(u32 \<Rightarrow> u32) \<Rightarrow> u32 \<Rightarrow> u32 list" where
  "getcallerpcs mem v = ebp_walk mem (v - 8) 10"

definition holding :: "u8 \<Rightarrow> spinlock \<Rightarrow> machine \<Rightarrow> (bool \<times> machine) res" where
  "holding a lk m =
     rbind (pushcli a m) (\<lambda>m.
     rbind (mycpu a m) (\<lambda>i.
     let r = (locked lk \<noteq> 0 \<and> lk_cpu lk = Some i) in
     rbind (popcli a m) (\<lambda>m. Ok (r, m))))"

definition acquire :: "u8 \<Rightarrow> spinlock \<Rightarrow> machine \<Rightarrow> (spinlock \<times> machine) res" where
  "acquire a lk m =
     rbind (pushcli a m) (\<lambda>m.
     rbind (holding a lk m) (\<lambda>(r, m).
     if r then Panic ''acquire''
     else if locked lk \<noteq> 0 then Blocked
     else let lk = lk\<lparr>locked := 1\<rparr> in
       rbind (mycpu a m) (\<lambda>i.
       Ok (lk\<lparr>lk_cpu := Some i, pcs := getcallerpcs (kmem m) (arg0 m a)\<rparr>, m))))"

definition release :: "u8 \<Rightarrow> spinlock \<Rightarrow> machine \<Rightarrow> (spinlock \<times> machine) res" where
  "release a lk m =
     rbind (holding a lk m) (\<lambda>(r, m).
     if \<not> r then Panic ''release''
     else let lk = lk\<lparr>pcs := (pcs lk)[0 := 0], lk_cpu := None, locked := 0\<rparr> in
       rbind (popcli a m) (\<lambda>m. Ok (lk, m)))"


subsection \<open>The CPU a routine runs on\<close>

text \<open>
  \<open>cpu_wf a m\<close>: the processor with LAPIC id \<open>a\<close> is in \<^verbatim>\<open>cpus[]\<close>, its nesting depth is
  not negative, and interrupts are off while it is positive. \<open>sync a m\<close> is the machine after a
  balanced \<^verbatim>\<open>pushcli\<close>/\<^verbatim>\<open>popcli\<close> pair: only the saved \<^verbatim>\<open>intena\<close> may differ, and at a
  positive depth nothing does.
\<close>

definition ci :: "u8 \<Rightarrow> machine \<Rightarrow> nat" where
  "ci a m = the (find_apic (cpus m) 0 a)"

definition depth :: "u8 \<Rightarrow> machine \<Rightarrow> int" where
  "depth a m = ncli (cpus m ! ci a m)"

definition cpu_wf :: "u8 \<Rightarrow> machine \<Rightarrow> bool" where
  "cpu_wf a m \<longleftrightarrow> find_apic (cpus m) 0 a \<noteq> None \<and> 0 \<le> depth a m \<and> (0 < depth a m \<longrightarrow> \<not> eflags_if m a)"

definition push_m :: "u8 \<Rightarrow> machine \<Rightarrow> machine" where
  "push_m a m =
     m\<lparr>eflags_if := (eflags_if m)(a := False),
       cpus := (cpus m)[ci a m := (let c = cpus m ! ci a m in
         c\<lparr>intena := (if ncli c = 0 then eflags_if m a else intena c), ncli := ncli c + 1\<rparr>)]\<rparr>"

definition pop_m :: "u8 \<Rightarrow> machine \<Rightarrow> machine" where
  "pop_m a m =
     (let c = cpus m ! ci a m in
      m\<lparr>eflags_if := (eflags_if m)(a := (ncli c = 1 \<and> intena c)),
        cpus := (cpus m)[ci a m := c\<lparr>ncli := ncli c - 1\<rparr>]\<rparr>)"

definition sync :: "u8 \<Rightarrow> machine \<Rightarrow> machine" where
  "sync a m = (if depth a m = 0
     then m\<lparr>cpus := (cpus m)[ci a m := (cpus m ! ci a m)\<lparr>intena := eflags_if m a\<rparr>]\<rparr> else m)"

lemma find_apic_bounds:
  "find_apic cs k a = Some i \<Longrightarrow> k \<le> i \<and> i < k + length cs \<and> apicid (cs ! (i - k)) = a"
proof (induction cs arbitrary: k)
  case Nil
  then show ?case by simp
next
  case (Cons c cs)
  show ?case
  proof (cases "apicid c = a")
    case True
    with Cons.prems show ?thesis by simp
  next
    case False
    with Cons.prems have "find_apic cs (Suc k) a = Some i" by simp
    from Cons.IH [OF this] show ?thesis by (auto simp: nth_Cons')
  qed
qed

lemma find_apic_map:
  "map apicid cs = map apicid ds \<Longrightarrow> find_apic cs k a = find_apic ds k a"
proof (induction cs arbitrary: ds k)
  case Nil
  then show ?case by simp
next
  case (Cons c cs)
  then show ?case by (cases ds) auto
qed

lemma map_apicid_update [simp]:
  "apicid c = apicid (cs ! i) \<Longrightarrow> map apicid (cs[i := c]) = map apicid cs"
proof (cases "i < length cs")
  case True
  assume "apicid c = apicid (cs ! i)"
  with True show ?thesis by (metis list_update_id map_update)
next
  case False
  then show ?thesis by (simp add: list_update_beyond)
qed

lemma find_apic_update [simp]:
  "apicid c = apicid (cs ! i) \<Longrightarrow> find_apic (cs[i := c]) k a = find_apic cs k a"
  by (rule find_apic_map) simp

lemma ci_less: "find_apic (cpus m) 0 a \<noteq> None \<Longrightarrow> ci a m < length (cpus m)"
  using find_apic_bounds [of "cpus m" 0 a] by (auto simp: ci_def)

lemma ci_apicid: "find_apic (cpus m) 0 a \<noteq> None \<Longrightarrow> apicid (cpus m ! ci a m) = a"
  using find_apic_bounds [of "cpus m" 0 a] by (auto simp: ci_def)

lemma ci_cpus_cong: "map apicid (cpus m) = map apicid (cpus m') \<Longrightarrow> ci a m = ci a m'"
  by (simp add: ci_def find_apic_map [of "cpus m" "cpus m'"])

lemma mycpu_Ok: "\<not> eflags_if m a \<Longrightarrow> find_apic (cpus m) 0 a \<noteq> None \<Longrightarrow> mycpu a m = Ok (ci a m)"
  by (auto simp: mycpu_def ci_def)

lemma pushcli_Ok:
  assumes "find_apic (cpus m) 0 a \<noteq> None"
  shows "pushcli a m = Ok (push_m a m)"
proof -
  have "mycpu a (cli a m) = Ok (ci a m)"
    using assms by (auto simp: mycpu_def cli_def ci_def)
  then show ?thesis
    using ci_less [OF assms]
    by (simp add: pushcli_def push_m_def Let_def cli_def upd_cpu_def)
qed

lemma popcli_Ok:
  assumes "cpu_wf a m" and "0 < depth a m"
  shows "popcli a m = Ok (pop_m a m)"
proof -
  have f: "find_apic (cpus m) 0 a \<noteq> None" and e: "\<not> eflags_if m a"
    using assms by (auto simp: cpu_wf_def)
  have "(eflags_if m)(a := False) = eflags_if m" using e by (simp add: fun_upd_idem)
  then show ?thesis
    using assms(2) e ci_less [OF f]
    by (auto simp: popcli_def mycpu_Ok [OF e f] pop_m_def Let_def upd_cpu_def sti_def depth_def)
qed

lemma push_m_simps [simp]:
  "find_apic (cpus (push_m a m)) 0 b = find_apic (cpus m) 0 b"
  "ci b (push_m a m) = ci b m"
  "kmem (push_m a m) = kmem m" "arg0 (push_m a m) = arg0 m"
  "eflags_if (push_m a m) = (eflags_if m)(a := False)"
  "length (cpus (push_m a m)) = length (cpus m)"
  by (auto simp: push_m_def Let_def ci_def)

lemma pop_m_simps [simp]:
  "find_apic (cpus (pop_m a m)) 0 b = find_apic (cpus m) 0 b"
  "ci b (pop_m a m) = ci b m"
  "kmem (pop_m a m) = kmem m" "arg0 (pop_m a m) = arg0 m"
  "length (cpus (pop_m a m)) = length (cpus m)"
  by (auto simp: pop_m_def Let_def ci_def)

lemma sync_simps [simp]:
  "find_apic (cpus (sync a m)) 0 b = find_apic (cpus m) 0 b"
  "ci b (sync a m) = ci b m"
  "kmem (sync a m) = kmem m" "arg0 (sync a m) = arg0 m"
  "eflags_if (sync a m) = eflags_if m"
  "length (cpus (sync a m)) = length (cpus m)"
  by (auto simp: sync_def ci_def)

lemma depth_push [simp]: "find_apic (cpus m) 0 a \<noteq> None \<Longrightarrow> depth a (push_m a m) = depth a m + 1"
  using ci_less [of m a] by (simp add: depth_def) (simp add: push_m_def Let_def)

lemma depth_pop [simp]: "find_apic (cpus m) 0 a \<noteq> None \<Longrightarrow> depth a (pop_m a m) = depth a m - 1"
  using ci_less [of m a] by (simp add: depth_def) (simp add: pop_m_def Let_def)

lemma depth_sync [simp]: "depth b (sync a m) = depth b m"
proof (cases "ci b m = ci a m \<and> ci a m < length (cpus m)")
  case True
  then show ?thesis by (simp add: depth_def) (simp add: sync_def depth_def)
next
  case False
  then show ?thesis by (auto simp: depth_def sync_def ci_def nth_upd)
qed

lemma cpu_wf_push [simp]: "cpu_wf a m \<Longrightarrow> cpu_wf a (push_m a m)"
  by (auto simp: cpu_wf_def)

lemma cpu_wf_sync [simp]: "cpu_wf a (sync a m) = cpu_wf a m"
  by (auto simp: cpu_wf_def)

lemma pop_push [simp]:
  assumes "cpu_wf a m"
  shows "pop_m a (push_m a m) = sync a m"
proof -
  have l: "ci a m < length (cpus m)" using assms by (intro ci_less) (simp add: cpu_wf_def)
  have e: "(eflags_if m)(a := (ncli (cpus m ! ci a m) = 0 \<and> eflags_if m a)) = eflags_if m"
    using assms by (auto simp: cpu_wf_def depth_def fun_eq_iff)
  have r [simp]: "ncli c = 0 \<Longrightarrow> c\<lparr>intena := y, ncli := 0\<rparr> = c\<lparr>intena := y\<rparr>" for c :: cpu and y
    by simp
  show ?thesis
  proof (cases "ncli (cpus m ! ci a m) = 0")
    case True
    then show ?thesis using l e
      by (simp add: pop_m_def Let_def sync_def depth_def) (simp add: push_m_def Let_def)
  next
    case False
    then show ?thesis using l e
      by (simp add: pop_m_def Let_def sync_def depth_def) (simp add: push_m_def Let_def)
  qed
qed

lemma sync_deep [simp]: "0 < depth a m \<Longrightarrow> sync a m = m"
  by (simp add: sync_def)

lemma sync_idem [simp]: "sync a (sync a m) = sync a m"
proof (cases "depth a m = 0")
  case True
  have "depth a (sync a m) = 0" using True by simp
  then show ?thesis
    by (simp add: sync_def [of a "sync a m"])
       (auto simp: sync_def True ci_def nth_upd)
qed (simp add: sync_def)


subsection \<open>What \<^verbatim>\<open>myproc\<close>, \<^verbatim>\<open>holding\<close>, \<^verbatim>\<open>acquire\<close> and \<^verbatim>\<open>release\<close> return\<close>

lemma holding_Ok:
  assumes "cpu_wf a m"
  shows "holding a lk m = Ok (locked lk \<noteq> 0 \<and> lk_cpu lk = Some (ci a m), sync a m)"
proof -
  have f: "find_apic (cpus m) 0 a \<noteq> None" and d: "0 < depth a (push_m a m)"
    using assms by (auto simp: cpu_wf_def)
  show ?thesis
    using f assms popcli_Ok [OF cpu_wf_push [OF assms] d]
    by (simp add: holding_def pushcli_Ok mycpu_Ok)
qed

lemma myproc_Ok:
  assumes "cpu_wf a m"
  shows "myproc a m = Ok (cpu_proc (cpus m ! ci a m), sync a m)"
proof -
  have f: "find_apic (cpus m) 0 a \<noteq> None" and d: "0 < depth a (push_m a m)"
    using assms by (auto simp: cpu_wf_def)
  have "cpu_proc (cpus (push_m a m) ! ci a m) = cpu_proc (cpus m ! ci a m)"
    using ci_less [OF f] by (simp add: push_m_def Let_def)
  then show ?thesis
    using f assms popcli_Ok [OF cpu_wf_push [OF assms] d]
    by (simp add: myproc_def pushcli_Ok mycpu_Ok)
qed

lemma acquire_free:
  assumes "cpu_wf a m" and "locked lk = 0"
  shows "acquire a lk m =
    Ok (lk\<lparr>locked := 1, lk_cpu := Some (ci a m), pcs := getcallerpcs (kmem m) (arg0 m a)\<rparr>, push_m a m)"
proof -
  have f: "find_apic (cpus m) 0 a \<noteq> None" and d: "0 < depth a (push_m a m)"
    using assms by (auto simp: cpu_wf_def)
  show ?thesis
    using f assms d by (simp add: acquire_def pushcli_Ok holding_Ok mycpu_Ok)
qed

lemma acquire_held_by_me:
  assumes "cpu_wf a m" and "locked lk \<noteq> 0" and "lk_cpu lk = Some (ci a m)"
  shows "acquire a lk m = Panic ''acquire''"
  using assms by (simp add: acquire_def pushcli_Ok holding_Ok cpu_wf_def)

lemma acquire_held_by_other:
  assumes "cpu_wf a m" and "locked lk \<noteq> 0" and "lk_cpu lk \<noteq> Some (ci a m)"
  shows "acquire a lk m = Blocked"
  using assms by (simp add: acquire_def pushcli_Ok holding_Ok cpu_wf_def)

lemma release_held:
  assumes "cpu_wf a m" and "0 < depth a m" and "locked lk \<noteq> 0" and "lk_cpu lk = Some (ci a m)"
  shows "release a lk m = Ok (lk\<lparr>pcs := (pcs lk)[0 := 0], lk_cpu := None, locked := 0\<rparr>, pop_m a m)"
  using assms by (simp add: release_def holding_Ok popcli_Ok)

lemma release_not_held:
  assumes "cpu_wf a m" and "\<not> (locked lk \<noteq> 0 \<and> lk_cpu lk = Some (ci a m))"
  shows "release a lk m = Panic ''release''"
  using assms by (simp add: release_def holding_Ok)

text \<open>\<open>n\<close> nested calls of \<^verbatim>\<open>pushcli\<close>, and of \<^verbatim>\<open>popcli\<close>.\<close>

fun pushes :: "nat \<Rightarrow> u8 \<Rightarrow> machine \<Rightarrow> machine res" where
  "pushes 0 a m = Ok m"
| "pushes (Suc n) a m = rbind (pushcli a m) (pushes n a)"

fun pops :: "nat \<Rightarrow> u8 \<Rightarrow> machine \<Rightarrow> machine res" where
  "pops 0 a m = Ok m"
| "pops (Suc n) a m = rbind (popcli a m) (pops n a)"

lemma pushes_deep:
  assumes "cpu_wf a m" and "0 < depth a m"
  shows "\<exists>m'. pushes n a m = Ok m' \<and> cpu_wf a m' \<and> depth a m' = depth a m + int n
    \<and> eflags_if m' = eflags_if m \<and> ci a m' = ci a m
    \<and> intena (cpus m' ! ci a m) = intena (cpus m ! ci a m)"
  using assms
proof (induction n arbitrary: m)
  case 0
  then show ?case by simp
next
  case (Suc n)
  let ?m = "push_m a m"
  have f: "find_apic (cpus m) 0 a \<noteq> None" using Suc.prems by (simp add: cpu_wf_def)
  have e: "eflags_if ?m = eflags_if m" using Suc.prems by (auto simp: cpu_wf_def fun_upd_idem)
  have i: "intena (cpus ?m ! ci a m) = intena (cpus m ! ci a m)"
    using Suc.prems ci_less [OF f] by (simp add: push_m_def Let_def depth_def)
  have "cpu_wf a ?m" "0 < depth a ?m" "depth a ?m = depth a m + 1"
    using Suc.prems f by (auto simp: cpu_wf_def)
  then obtain m' where "pushes n a ?m = Ok m'" "cpu_wf a m'" "depth a m' = depth a m + 1 + int n"
    "eflags_if m' = eflags_if ?m" "ci a m' = ci a m"
    "intena (cpus m' ! ci a m) = intena (cpus ?m ! ci a m)"
    using Suc.IH [of ?m] by (simp only: push_m_simps(2)) metis
  with e i f show ?case by (intro exI [of _ m']) (simp add: pushcli_Ok del: push_m_simps)
qed

lemma pops_deep:
  assumes "cpu_wf a m" and "depth a m = int n + 1"
  shows "\<exists>m'. pops n a m = Ok m' \<and> cpu_wf a m' \<and> depth a m' = 1
    \<and> eflags_if m' = eflags_if m \<and> ci a m' = ci a m
    \<and> intena (cpus m' ! ci a m) = intena (cpus m ! ci a m)"
  using assms
proof (induction n arbitrary: m)
  case 0
  then show ?case by simp
next
  case (Suc n)
  let ?m = "pop_m a m"
  have f: "find_apic (cpus m) 0 a \<noteq> None" using Suc.prems by (simp add: cpu_wf_def)
  have e: "eflags_if ?m = eflags_if m" 
    using Suc.prems by (auto simp: cpu_wf_def pop_m_def Let_def depth_def fun_upd_idem)
  have i: "intena (cpus ?m ! ci a m) = intena (cpus m ! ci a m)"
    using ci_less [OF f] by (simp add: pop_m_def Let_def)
  have w: "cpu_wf a ?m" using Suc.prems f e by (auto simp: cpu_wf_def)
  have "depth a ?m = int n + 1" using Suc.prems f by simp
  with w obtain m' where "pops n a ?m = Ok m'" "cpu_wf a m'" "depth a m' = 1"
    "eflags_if m' = eflags_if ?m" "ci a m' = ci a m"
    "intena (cpus m' ! ci a m) = intena (cpus ?m ! ci a m)"
    using Suc.IH [of ?m] by auto
  with e i Suc.prems show ?case by (intro exI [of _ m']) (simp add: popcli_Ok)
qed


lemma pops_snoc: "rbind (pops k a m) (popcli a) = pops (Suc k) a m"
proof (induction k arbitrary: m)
  case 0
  show ?case by (cases "popcli a m") auto
next
  case (Suc k)
  show ?case using Suc.IH by (cases "popcli a m") simp_all
qed

text \<open>
  \<^verbatim>\<open>pushcli\<close> and \<^verbatim>\<open>popcli\<close> are matched, as the comment above them says: on a CPU that
  is in no nested section, \<open>n\<close> calls of \<^verbatim>\<open>pushcli\<close> return with interrupts off, and \<open>n\<close>
  calls of \<^verbatim>\<open>popcli\<close> after them return and leave the interrupt flag of every processor as
  it was before, on or off, with the nesting depth back at 0.
\<close>
theorem pushcli_popcli_matched:
  assumes "cpu_wf a m" and "depth a m = 0" and "0 < n"
  shows "\<exists>m1 m2. pushes n a m = Ok m1 \<and> \<not> eflags_if m1 a \<and> depth a m1 = int n
    \<and> pops n a m1 = Ok m2 \<and> eflags_if m2 = eflags_if m \<and> depth a m2 = 0"
proof -
  obtain k where n: "n = Suc k" using assms(3) by (cases n) auto
  let ?m = "push_m a m"
  have f: "find_apic (cpus m) 0 a \<noteq> None" using assms by (simp add: cpu_wf_def)
  have w: "cpu_wf a ?m" and d: "depth a ?m = 1" using assms f by auto
  have i: "intena (cpus ?m ! ci a m) = eflags_if m a"
    using assms(2) ci_less [OF f] by (simp add: push_m_def Let_def depth_def)
  from pushes_deep [OF w, of k] d obtain m1 where
    m1: "pushes k a ?m = Ok m1" "cpu_wf a m1" "depth a m1 = int k + 1"
      "eflags_if m1 = (eflags_if m)(a := False)" "ci a m1 = ci a m"
      "intena (cpus m1 ! ci a m) = eflags_if m a"
    using i by auto
  from pops_deep [OF m1(2,3)] obtain m2 where
    m2: "pops k a m1 = Ok m2" "cpu_wf a m2" "depth a m2 = 1" "eflags_if m2 = eflags_if m1"
      "ci a m2 = ci a m" "intena (cpus m2 ! ci a m) = eflags_if m a"
    using m1(5,6) by auto
  have last: "popcli a m2 = Ok (pop_m a m2)" using m2 by (intro popcli_Ok) auto
  have pops: "pops n a m1 = Ok (pop_m a m2)"
    using pops_snoc [of k a m1] n m2(1) last by simp
  have "eflags_if (pop_m a m2) = eflags_if m"
    using m2 m1(4) by (auto simp: pop_m_def Let_def depth_def)
  moreover have "depth a (pop_m a m2) = 0" using m2 by (simp add: cpu_wf_def)
  ultimately show ?thesis
    using n m1 f pops by (intro exI [of _ m1] exI [of _ "pop_m a m2"]) (simp add: pushcli_Ok)
qed

definition example_machine :: machine where
  "example_machine =
     \<lparr>cpus = [\<lparr>apicid = 0, ncli = 0, intena = False, cpu_proc = None\<rparr>,
              \<lparr>apicid = 1, ncli = 0, intena = False, cpu_proc = None\<rparr>],
      eflags_if = (\<lambda>_. True), kmem = (\<lambda>_. 0), arg0 = (\<lambda>_. 0)\<rparr>"

lemma example_machine_wf:
  "cpu_wf 0 example_machine" "depth 0 example_machine = 0" "ci 0 example_machine = 0"
  "cpu_wf 1 example_machine" "depth 1 example_machine = 0" "ci 1 example_machine = 1"
  by (simp_all add: cpu_wf_def depth_def ci_def example_machine_def)

theorem pushcli_popcli_matched_witness:
  "\<exists>m1 m2. pushes 3 0 example_machine = Ok m1 \<and> \<not> eflags_if m1 0 \<and> depth 0 m1 = 3
    \<and> pops 3 0 m1 = Ok m2 \<and> eflags_if m2 = eflags_if example_machine \<and> depth 0 m2 = 0"
  using pushcli_popcli_matched [OF example_machine_wf(1,2), of 3] by simp

subsection \<open>Mutual exclusion\<close>

text \<open>
  Any number of processors, interleaved in any order. A step is one processor completing an
  \<^verbatim>\<open>acquire\<close> (a spinning one makes no step), completing a \<^verbatim>\<open>release\<close>, or nesting
  interrupt sections on its own; \<open>ls_in\<close> is the set of the processors whose \<^verbatim>\<open>acquire\<close> has
  returned and that have not yet released the lock.
\<close>

record lock_sys =
  ls_lock :: spinlock
  ls_mach :: machine
  ls_in :: "u8 set"

inductive lock_step :: "lock_sys \<Rightarrow> lock_sys \<Rightarrow> bool" where
  ls_acquire: "acquire a (ls_lock s) (ls_mach s) = Ok (lk, m) \<Longrightarrow>
    lock_step s \<lparr>ls_lock = lk, ls_mach = m, ls_in = insert a (ls_in s)\<rparr>"
| ls_release: "release a (ls_lock s) (ls_mach s) = Ok (lk, m) \<Longrightarrow>
    lock_step s \<lparr>ls_lock = lk, ls_mach = m, ls_in = ls_in s - {a}\<rparr>"
| ls_push: "pushcli a (ls_mach s) = Ok m \<Longrightarrow> lock_step s (s\<lparr>ls_mach := m\<rparr>)"
| ls_pop: "popcli a (ls_mach s) = Ok m \<Longrightarrow> lock_step s (s\<lparr>ls_mach := m\<rparr>)"

inductive lock_reach :: "lock_sys \<Rightarrow> lock_sys \<Rightarrow> bool" for s0 where
  lr_init: "lock_reach s0 s0"
| lr_step: "lock_reach s0 s \<Longrightarrow> lock_step s t \<Longrightarrow> lock_reach s0 t"

definition lock_owned :: "lock_sys \<Rightarrow> bool" where
  "lock_owned s \<longleftrightarrow>
     (ls_in s = {} \<and> locked (ls_lock s) = 0)
     \<or> (\<exists>a i. ls_in s = {a} \<and> locked (ls_lock s) \<noteq> 0 \<and> lk_cpu (ls_lock s) = Some i
           \<and> find_apic (cpus (ls_mach s)) 0 a = Some i)"

lemma mycpu_OkD: "mycpu a m = Ok i \<Longrightarrow> find_apic (cpus m) 0 a = Some i"
  by (auto simp: mycpu_def split: if_splits option.splits)

lemma upd_cpu_apicids:
  "(\<And>c. apicid (f c) = apicid c) \<Longrightarrow> map apicid (cpus (upd_cpu i f m)) = map apicid (cpus m)"
  by (simp add: upd_cpu_def)

lemma pushcli_apicids: "pushcli a m = Ok m' \<Longrightarrow> map apicid (cpus m') = map apicid (cpus m)"
  by (auto simp: pushcli_def Let_def cli_def upd_cpu_apicids rbind_eq_Ok split: if_splits)

lemma popcli_apicids: "popcli a m = Ok m' \<Longrightarrow> map apicid (cpus m') = map apicid (cpus m)"
  by (auto simp: popcli_def Let_def sti_def upd_cpu_apicids rbind_eq_Ok split: if_splits)

lemma holding_OkD:
  assumes "holding a lk m = Ok (r, m')"
  shows "map apicid (cpus m') = map apicid (cpus m)
    \<and> (\<exists>i. find_apic (cpus m) 0 a = Some i \<and> (r \<longleftrightarrow> locked lk \<noteq> 0 \<and> lk_cpu lk = Some i))"
proof -
  from assms obtain m1 i where *: "pushcli a m = Ok m1" "mycpu a m1 = Ok i"
    "r \<longleftrightarrow> locked lk \<noteq> 0 \<and> lk_cpu lk = Some i" "popcli a m1 = Ok m'"
    by (auto simp: holding_def rbind_eq_Ok Let_def)
  have "map apicid (cpus m1) = map apicid (cpus m)" by (rule pushcli_apicids [OF *(1)])
  then show ?thesis
    using *(3) mycpu_OkD [OF *(2)] popcli_apicids [OF *(4)] by (metis find_apic_map)
qed

lemma acquire_OkD:
  assumes "acquire a lk m = Ok (lk', m')"
  shows "map apicid (cpus m') = map apicid (cpus m) \<and> locked lk = 0 \<and> locked lk' = 1
    \<and> (\<exists>i. find_apic (cpus m') 0 a = Some i \<and> lk_cpu lk' = Some i)"
proof -
  from assms obtain m1 where *: "pushcli a m = Ok m1" "holding a lk m1 = Ok (False, m')" "locked lk = 0"
    "\<exists>i. mycpu a m' = Ok i \<and> lk' = lk\<lparr>locked := 1, lk_cpu := Some i, pcs := getcallerpcs (kmem m') (arg0 m' a)\<rparr>"
    by (auto simp: acquire_def rbind_eq_Ok Let_def split: if_splits)
  then show ?thesis
    using pushcli_apicids [OF *(1)] holding_OkD [OF *(2)] mycpu_OkD by fastforce
qed

lemma release_OkD:
  assumes "release a lk m = Ok (lk', m')"
  shows "map apicid (cpus m') = map apicid (cpus m) \<and> locked lk \<noteq> 0 \<and> locked lk' = 0
    \<and> (\<exists>i. find_apic (cpus m) 0 a = Some i \<and> lk_cpu lk = Some i)"
proof -
  from assms obtain m1 where *: "holding a lk m = Ok (True, m1)" "popcli a m1 = Ok m'" "locked lk' = 0"
    by (auto simp: release_def rbind_eq_Ok Let_def split: if_splits)
  then show ?thesis
    using holding_OkD [OF *(1)] popcli_apicids [OF *(2)] by auto
qed

lemma find_apic_inj: "find_apic cs 0 a = Some i \<Longrightarrow> find_apic cs 0 b = Some i \<Longrightarrow> a = b"
  using find_apic_bounds [of cs 0 a i] find_apic_bounds [of cs 0 b i] by simp

lemma lock_step_owned: "lock_step s t \<Longrightarrow> lock_owned s \<Longrightarrow> lock_owned t"
proof (induction rule: lock_step.induct)
  case (ls_acquire a s lk m)
  then show ?case using acquire_OkD [OF ls_acquire.hyps] by (auto simp: lock_owned_def)
next
  case (ls_release a s lk m)
  then show ?case
    using release_OkD [OF ls_release.hyps] by (auto simp: lock_owned_def dest: find_apic_inj)
next
  case (ls_push a s m)
  then show ?case
    using find_apic_map [OF pushcli_apicids [OF ls_push.hyps]] by (simp add: lock_owned_def)
next
  case (ls_pop a s m)
  then show ?case
    using find_apic_map [OF popcli_apicids [OF ls_pop.hyps]] by (simp add: lock_owned_def)
qed

lemma lock_reach_owned: "lock_reach s0 s \<Longrightarrow> lock_owned s0 \<Longrightarrow> lock_owned s"
  by (induction rule: lock_reach.induct) (auto intro: lock_step_owned)


definition free_lock :: spinlock where
  "free_lock = \<lparr>locked = 0, lk_name = ''example'', lk_cpu = None, pcs = replicate 10 0\<rparr>"


end
