(* ===== verification/ReadyQueue.thy ===== *)
theory ReadyQueue
  imports Xv6_Prelude
begin

section \<open>The ready queues of the process table (\<^verbatim>\<open>queue_ready\<close>, \<^verbatim>\<open>count_queue\<close> of \<^verbatim>\<open>proc.c\<close>)\<close>

text \<open>
  The scheduler keeps four arrays of process pointers and a counter for each. A process pointer
  is an index into \<^verbatim>\<open>ptable.proc\<close> (\<open>None\<close> is the null pointer). Indexing outside
  \<^verbatim>\<open>[NUMFILAS][NPROC]\<close> is a \<open>Fault\<close>. The code writes its two queue operations out in
  every place that needs them: appending a process
  (\<^verbatim>\<open>queue_ready[q][count_queue[q]] = p; count_queue[q]++\<close>) and closing the gap at a position
  (the \<^verbatim>\<open>andar com a fila\<close> loop followed by \<^verbatim>\<open>count_queue[q]--\<close>).

  The locale \<open>queue_table\<close> states what clients may rely on, over the list of processes a queue
  holds; its interpretation on the array operations is at the end.
\<close>

record readyq =
  queue_ready :: "nat option list list"
  count_queue :: "int list"

subsection \<open>Array accesses\<close>

definition count_get :: "int \<Rightarrow> readyq \<Rightarrow> int res" where
  "count_get q r = (if 0 \<le> q \<and> q < int NUMFILAS then Ok (count_queue r ! nat q) else Fault)"

definition count_add :: "int \<Rightarrow> int \<Rightarrow> readyq \<Rightarrow> readyq res" where
  "count_add q d r =
     (if 0 \<le> q \<and> q < int NUMFILAS
      then Ok (r\<lparr>count_queue := (count_queue r)[nat q := count_queue r ! nat q + d]\<rparr>) else Fault)"

definition slot_get :: "int \<Rightarrow> int \<Rightarrow> readyq \<Rightarrow> nat option res" where
  "slot_get q i r =
     (if 0 \<le> q \<and> q < int NUMFILAS \<and> 0 \<le> i \<and> i < int NPROC
      then Ok (queue_ready r ! nat q ! nat i) else Fault)"

definition slot_set :: "int \<Rightarrow> int \<Rightarrow> nat option \<Rightarrow> readyq \<Rightarrow> readyq res" where
  "slot_set q i x r =
     (if 0 \<le> q \<and> q < int NUMFILAS \<and> 0 \<le> i \<and> i < int NPROC
      then Ok (r\<lparr>queue_ready := (queue_ready r)[nat q := (queue_ready r ! nat q)[nat i := x]]\<rparr>)
      else Fault)"

text \<open>Reading a slot in order to follow the pointer: a null pointer is a \<open>Fault\<close>.\<close>

definition slot_proc :: "int \<Rightarrow> int \<Rightarrow> readyq \<Rightarrow> nat res" where
  "slot_proc q i r = rbind (slot_get q i r) (\<lambda>x. case x of None \<Rightarrow> Fault | Some p \<Rightarrow> Ok p)"

subsection \<open>The two queue operations\<close>

definition enqueue :: "int \<Rightarrow> nat \<Rightarrow> readyq \<Rightarrow> readyq res" where
  "enqueue q p r =
     rbind (count_get q r) (\<lambda>n.
     rbind (slot_set q n (Some p) r) (\<lambda>r.
     count_add q 1 r))"

lemma slot_set_count: "slot_set q i x r = Ok r' \<Longrightarrow> count_queue r' = count_queue r"
  by (auto simp: slot_set_def split: if_splits)

function shift_queue :: "int \<Rightarrow> int \<Rightarrow> readyq \<Rightarrow> readyq res" where
  "shift_queue q i r =
     rbind (count_get q r) (\<lambda>n.
     if i < n - 1
     then rbind (slot_get q (i + 1) r) (\<lambda>x.
          rbind (slot_set q i x r) (\<lambda>r. shift_queue q (i + 1) r))
     else Ok r)"
  by pat_completeness auto
termination
  by (relation "measure (\<lambda>(q, i, r). nat (count_queue r ! nat q - i))")
     (auto simp: count_get_def slot_set_count split: if_splits)

declare shift_queue.simps [simp del]

definition dequeue_at :: "int \<Rightarrow> int \<Rightarrow> readyq \<Rightarrow> readyq res" where
  "dequeue_at q i r = rbind (shift_queue q i r) (\<lambda>r. count_add q (- 1) r)"

definition init_counts :: "readyq \<Rightarrow> readyq" where
  "init_counts r = r\<lparr>count_queue := (count_queue r)[0 := 0, 1 := 0, 2 := 0, 3 := 0]\<rparr>"

subsection \<open>The list a queue holds\<close>

definition qlist :: "readyq \<Rightarrow> int \<Rightarrow> nat list" where
  "qlist r q = map the (take (nat (count_queue r ! nat q)) (queue_ready r ! nat q))"

definition is_queue :: "int \<Rightarrow> bool" where
  "is_queue q \<longleftrightarrow> 0 \<le> q \<and> q < int NUMFILAS"

definition rq_wf :: "readyq \<Rightarrow> bool" where
  "rq_wf r \<longleftrightarrow> length (queue_ready r) = NUMFILAS \<and> length (count_queue r) = NUMFILAS
     \<and> (\<forall>q < NUMFILAS. length (queue_ready r ! q) = NPROC
          \<and> 0 \<le> count_queue r ! q \<and> count_queue r ! q \<le> int NPROC
          \<and> (\<forall>i < nat (count_queue r ! q). queue_ready r ! q ! i \<noteq> None))"

lemma rq_wfD:
  assumes "rq_wf r" and "is_queue q"
  shows "nat q < length (queue_ready r)" "nat q < length (count_queue r)"
    "length (queue_ready r ! nat q) = NPROC" "0 \<le> count_queue r ! nat q"
    "count_queue r ! nat q \<le> int NPROC" "i < nat (count_queue r ! nat q) \<Longrightarrow> queue_ready r ! nat q ! i \<noteq> None"
  using assms by (auto simp: rq_wf_def is_queue_def)

lemma length_qlist:
  assumes "rq_wf r" and "is_queue q"
  shows "int (length (qlist r q)) = count_queue r ! nat q"
  using rq_wfD [OF assms] by (auto simp: qlist_def)

lemma count_get_qlist:
  "rq_wf r \<Longrightarrow> is_queue q \<Longrightarrow> count_get q r = Ok (int (length (qlist r q)))"
  using length_qlist [of r q] by (auto simp: count_get_def is_queue_def)

lemma length_qlist_le: "rq_wf r \<Longrightarrow> is_queue q \<Longrightarrow> length (qlist r q) \<le> NPROC"
  using length_qlist [of r q] rq_wfD(5) [of r q] by simp

lemma slot_proc_qlist:
  assumes "rq_wf r" and "is_queue q" and "i < length (qlist r q)"
  shows "slot_proc q (int i) r = Ok (qlist r q ! i)"
proof -
  have i: "i < nat (count_queue r ! nat q)" using assms length_qlist [of r q] by simp
  with assms length_qlist_le [OF assms(1,2)] rq_wfD(3) [OF assms(1,2)] rq_wfD(6) [OF assms(1,2) i]
  show ?thesis by (auto simp: slot_proc_def slot_get_def is_queue_def qlist_def)
qed

lemma enqueue_Ok:
  assumes wf: "rq_wf r" and q: "is_queue q" and room: "length (qlist r q) < NPROC"
  obtains r' where "enqueue q p r = Ok r'" "rq_wf r'" "qlist r' q = qlist r q @ [p]"
    "\<And>q'. is_queue q' \<Longrightarrow> q' \<noteq> q \<Longrightarrow> qlist r' q' = qlist r q'"
proof -
  note d = rq_wfD [OF wf q]
  let ?n = "nat (count_queue r ! nat q)"
  let ?r = "\<lparr>queue_ready = (queue_ready r)[nat q := (queue_ready r ! nat q)[?n := Some p]],
             count_queue = (count_queue r)[nat q := count_queue r ! nat q + 1]\<rparr>"
  have n: "int (length (qlist r q)) = count_queue r ! nat q" by (rule length_qlist [OF wf q])
  have "enqueue q p r = Ok ?r"
    using q room d n by (auto simp: enqueue_def count_get_def slot_set_def count_add_def is_queue_def)
  moreover have "rq_wf ?r"
    using wf d n room by (auto simp: rq_wf_def nth_upd less_Suc_eq nat_add_distrib)
  moreover have "qlist ?r q = qlist r q @ [p]"
  proof -
    have "nat (count_queue r ! nat q + 1) = Suc ?n" using d(4) by simp
    moreover have "?n < NPROC" using n room by simp
    ultimately show ?thesis using d(1-3) by (simp add: qlist_def take_Suc_update)
  qed
  moreover have "qlist ?r q' = qlist r q'" if "is_queue q'" "q' \<noteq> q" for q'
    using that q by (auto simp: qlist_def nth_upd is_queue_def)
  ultimately show thesis by (rule that)
qed


text \<open>
  The shifting loop started at position \<open>i\<close> of a queue of \<open>n\<close> entries moves the entries after
  \<open>i\<close> one place down and leaves the last slot as it was.
\<close>

lemma shift_queue_row:
  assumes "rq_wf r" and "is_queue q" and "i < length (qlist r q)"
  shows "shift_queue q (int i) r = Ok (r\<lparr>queue_ready := (queue_ready r)[nat q :=
    (let row = queue_ready r ! nat q; n = length (qlist r q)
     in take i row @ take (n - 1 - i) (drop (i + 1) row) @ drop (n - 1) row)]\<rparr>)"
  using assms
proof (induction "length (qlist r q) - 1 - i" arbitrary: i r)
  case 0
  note d = rq_wfD [OF "0.prems"(1,2)]
  let ?row = "queue_ready r ! nat q"
  have n: "count_get q r = Ok (int (length (qlist r q)))" by (rule count_get_qlist [OF "0.prems"(1,2)])
  have i: "i = length (qlist r q) - 1" using "0.hyps" "0.prems"(3) by simp
  then have "take i ?row @ take (length (qlist r q) - 1 - i) (drop (i + 1) ?row)
      @ drop (length (qlist r q) - 1) ?row = ?row"
    by simp
  moreover have "\<not> int i < int (length (qlist r q)) - 1" using i "0.prems"(3) by simp
  ultimately show ?case using d by (simp add: shift_queue.simps [of q "int i"] n Let_def)
next
  case (Suc k)
  note d = rq_wfD [OF Suc.prems(1,2)]
  let ?row = "queue_ready r ! nat q" and ?n = "length (qlist r q)"
  let ?row1 = "?row[i := ?row ! Suc i]"
  let ?r1 = "r\<lparr>queue_ready := (queue_ready r)[nat q := ?row1]\<rparr>"
  have n: "count_get q r = Ok (int ?n)" by (rule count_get_qlist [OF Suc.prems(1,2)])
  have le: "?n \<le> NPROC" by (rule length_qlist_le [OF Suc.prems(1,2)])
  have i: "Suc i < ?n" using Suc.hyps(2) by simp
  have len: "length ?row = NPROC" by (rule d(3))
  have step: "shift_queue q (int i) r = shift_queue q (int (Suc i)) ?r1"
    using i le Suc.prems(2) n
    by (subst shift_queue.simps)
       (simp add: slot_get_def slot_set_def is_queue_def nat_add_distrib add.commute)
  have wf1: "rq_wf ?r1"
    using Suc.prems(1) d i length_qlist [OF Suc.prems(1,2)] by (auto simp: rq_wf_def nth_upd)
  have n1: "length (qlist ?r1 q) = ?n"
    using length_qlist [OF Suc.prems(1,2)] length_qlist [OF wf1 Suc.prems(2)] by simp
  have k: "k = length (qlist ?r1 q) - 1 - Suc i" and i1: "Suc i < length (qlist ?r1 q)"
    using Suc.hyps(2) i n1 by simp_all
  have "shift_queue q (int (Suc i)) ?r1 = Ok (?r1\<lparr>queue_ready := (queue_ready ?r1)[nat q :=
    take (Suc i) ?row1 @ take (?n - 1 - Suc i) (drop (Suc i + 1) ?row1) @ drop (?n - 1) ?row1]\<rparr>)"
    using Suc.hyps(1) [OF k wf1 Suc.prems(2) i1] n1 d(1) by (simp add: Let_def)
  moreover have "take (Suc i) ?row1 = take i ?row @ [?row ! Suc i]"
    using i le len by (intro take_Suc_update) simp
  moreover have "drop (Suc i + 1) ?row1 = drop (Suc i + 1) ?row" "drop (?n - 1) ?row1 = drop (?n - 1) ?row"
    using i by simp_all
  moreover have "take (?n - 1 - i) (drop (i + 1) ?row)
      = ?row ! Suc i # take (?n - 1 - Suc i) (drop (Suc i + 1) ?row)"
  proof -
    have "drop (i + 1) ?row = ?row ! Suc i # drop (Suc i + 1) ?row"
      using i le len by (simp add: Cons_nth_drop_Suc)
    moreover have "?n - 1 - i = Suc (?n - 1 - Suc i)" using i by simp
    ultimately show ?thesis by simp
  qed
  ultimately show ?case using step by (simp add: Let_def)
qed

lemma dequeue_at_Ok:
  assumes wf: "rq_wf r" and q: "is_queue q" and i: "i < length (qlist r q)"
  obtains r' where "dequeue_at q (int i) r = Ok r'" "rq_wf r'"
    "qlist r' q = take i (qlist r q) @ drop (Suc i) (qlist r q)"
    "\<And>q'. is_queue q' \<Longrightarrow> q' \<noteq> q \<Longrightarrow> qlist r' q' = qlist r q'"
proof -
  note d = rq_wfD [OF wf q]
  define N where "N = length (qlist r q)"
  define row where "row = queue_ready r ! nat q"
  define row' where "row' = take i row @ take (N - 1 - i) (drop (i + 1) row) @ drop (N - 1) row"
  define r' where "r' = \<lparr>queue_ready = (queue_ready r)[nat q := row'],
             count_queue = (count_queue r)[nat q := int (N - 1)]\<rparr>"
  have n: "count_queue r ! nat q = int N" using length_qlist [OF wf q] by (simp add: N_def)
  have le: "N \<le> NPROC" using length_qlist_le [OF wf q] by (simp add: N_def)
  have iN: "i < N" using i by (simp add: N_def)
  have rl: "length row = NPROC" using d(3) by (simp add: row_def)
  have len: "length row' = NPROC" using rl le iN by (simp add: row'_def)
  have tk: "take (N - 1) row' = take i row @ take (N - 1 - i) (drop (i + 1) row)"
    using rl le iN by (simp add: row'_def)
  have ql: "qlist r q = map the (take N row)" by (simp add: qlist_def n row_def)
  have ne: "row' ! j \<noteq> None" if "j < N - 1" for j
    using that rl d(6) n le iN by (auto simp: row'_def row_def nth_append)
  have "int (N - 1) = int N - 1" using iN by simp
  then have "dequeue_at q (int i) r = Ok r'"
    using shift_queue_row [OF wf q i] q
    by (simp add: dequeue_at_def count_add_def is_queue_def Let_def n r'_def row'_def row_def N_def)
  moreover have "rq_wf r'"
    using wf d(1,2) le iN len ne by (auto simp: rq_wf_def nth_upd r'_def)
  moreover have "qlist r' q = take i (qlist r q) @ drop (Suc i) (qlist r q)"
  proof -
    have "qlist r' q = map the (take (N - 1) row')" using d(1,2) by (simp add: qlist_def r'_def)
    also have "\<dots> = map the (take i row) @ map the (take (N - 1 - i) (drop (i + 1) row))"
      unfolding tk by simp
    also have "map the (take i row) = take i (qlist r q)" using iN by (simp add: ql take_map)
    also have "map the (take (N - 1 - i) (drop (i + 1) row)) = drop (Suc i) (qlist r q)"
      by (simp add: ql drop_map drop_take)
    finally show ?thesis .
  qed
  moreover have "qlist r' q' = qlist r q'" if "is_queue q'" "q' \<noteq> q" for q'
    using that q by (auto simp: qlist_def nth_upd is_queue_def r'_def)
  ultimately show thesis by (rule that)
qed


subsection \<open>The interface of a table of queues\<close>

text \<open>Appending a list of processes, and taking \<open>n\<close> processes from the front, one at a time.\<close>

fun add_all :: "(nat \<Rightarrow> 's \<Rightarrow> 's res) \<Rightarrow> nat list \<Rightarrow> 's \<Rightarrow> 's res" where
  "add_all add [] s = Ok s"
| "add_all add (p # ps) s = rbind (add p s) (add_all add ps)"

fun take_front :: "('s \<Rightarrow> nat res) \<Rightarrow> ('s \<Rightarrow> 's res) \<Rightarrow> nat \<Rightarrow> 's \<Rightarrow> (nat list \<times> 's) res" where
  "take_front front del 0 s = Ok ([], s)"
| "take_front front del (Suc n) s =
     rbind (front s) (\<lambda>p.
     rbind (del s) (\<lambda>s.
     rbind (take_front front del n s) (\<lambda>(ps, s). Ok (p # ps, s))))"

locale queue_table =
  fixes contents :: "'s \<Rightarrow> int \<Rightarrow> nat list"
    and inv :: "'s \<Rightarrow> bool"
    and add :: "int \<Rightarrow> nat \<Rightarrow> 's \<Rightarrow> 's res"
    and front :: "int \<Rightarrow> 's \<Rightarrow> nat res"
    and del :: "int \<Rightarrow> int \<Rightarrow> 's \<Rightarrow> 's res"
  assumes add_law: "inv s \<Longrightarrow> is_queue q \<Longrightarrow> length (contents s q) < NPROC \<Longrightarrow>
      \<exists>s'. add q p s = Ok s' \<and> inv s' \<and> contents s' q = contents s q @ [p]
        \<and> (\<forall>q'. is_queue q' \<longrightarrow> q' \<noteq> q \<longrightarrow> contents s' q' = contents s q')"
    and front_law: "inv s \<Longrightarrow> is_queue q \<Longrightarrow> contents s q \<noteq> [] \<Longrightarrow> front q s = Ok (hd (contents s q))"
    and del_law: "inv s \<Longrightarrow> is_queue q \<Longrightarrow> i < length (contents s q) \<Longrightarrow>
      \<exists>s'. del q (int i) s = Ok s' \<and> inv s'
        \<and> contents s' q = take i (contents s q) @ drop (Suc i) (contents s q)
        \<and> (\<forall>q'. is_queue q' \<longrightarrow> q' \<noteq> q \<longrightarrow> contents s' q' = contents s q')"
begin

lemma add_all_appends:
  "inv s \<Longrightarrow> is_queue q \<Longrightarrow> length (contents s q) + length ps \<le> NPROC \<Longrightarrow>
    \<exists>s'. add_all (add q) ps s = Ok s' \<and> inv s' \<and> contents s' q = contents s q @ ps
      \<and> (\<forall>q'. is_queue q' \<longrightarrow> q' \<noteq> q \<longrightarrow> contents s' q' = contents s q')"
proof (induction ps arbitrary: s)
  case Nil
  then show ?case by simp
next
  case (Cons p ps)
  from Cons.prems obtain s1 where s1: "add q p s = Ok s1" "inv s1" "contents s1 q = contents s q @ [p]"
    "\<forall>q'. is_queue q' \<longrightarrow> q' \<noteq> q \<longrightarrow> contents s1 q' = contents s q'"
    using add_law [of s q p] by auto
  with Cons.IH [of s1] Cons.prems show ?case by auto
qed

lemma take_front_order:
  "inv s \<Longrightarrow> is_queue q \<Longrightarrow> n \<le> length (contents s q) \<Longrightarrow>
    \<exists>s'. take_front (front q) (del q 0) n s = Ok (take n (contents s q), s') \<and> inv s'
      \<and> contents s' q = drop n (contents s q)
      \<and> (\<forall>q'. is_queue q' \<longrightarrow> q' \<noteq> q \<longrightarrow> contents s' q' = contents s q')"
proof (induction n arbitrary: s)
  case 0
  then show ?case by simp
next
  case (Suc n)
  then have ne: "contents s q \<noteq> []" by auto
  from Suc.prems obtain s1 where s1: "del q 0 s = Ok s1" "inv s1" "contents s1 q = tl (contents s q)"
    "\<forall>q'. is_queue q' \<longrightarrow> q' \<noteq> q \<longrightarrow> contents s1 q' = contents s q'"
    using del_law [of s q 0] ne by (auto simp: drop_Suc)
  have "n \<le> length (contents s1 q)" using s1(3) Suc.prems(3) by simp
  from Suc.IH [OF s1(2) Suc.prems(2) this] s1 ne front_law [OF Suc.prems(1,2) ne]
  show ?case by (cases "contents s q") auto
qed

lemma first_in_first_out:
  assumes "inv s" and "is_queue q" and "contents s q = []" and "length ps \<le> NPROC"
  shows "\<exists>s1 s2. add_all (add q) ps s = Ok s1
    \<and> take_front (front q) (del q 0) (length ps) s1 = Ok (ps, s2) \<and> inv s2 \<and> contents s2 q = []
    \<and> (\<forall>q'. is_queue q' \<longrightarrow> q' \<noteq> q \<longrightarrow> contents s2 q' = contents s q')"
proof -
  from add_all_appends [of s q ps] assms obtain s1 where s1: "add_all (add q) ps s = Ok s1" "inv s1"
    "contents s1 q = ps" "\<forall>q'. is_queue q' \<longrightarrow> q' \<noteq> q \<longrightarrow> contents s1 q' = contents s q'" by auto
  from take_front_order [OF s1(2) assms(2), of "length ps"] s1 show ?thesis by auto
qed

end

interpretation rqt: queue_table qlist rq_wf enqueue "\<lambda>q. slot_proc q 0" dequeue_at
proof
  fix s q p
  assume "rq_wf s" "is_queue q" "length (qlist s q) < NPROC"
  then show "\<exists>s'. enqueue q p s = Ok s' \<and> rq_wf s' \<and> qlist s' q = qlist s q @ [p]
      \<and> (\<forall>q'. is_queue q' \<longrightarrow> q' \<noteq> q \<longrightarrow> qlist s' q' = qlist s q')"
    by (metis enqueue_Ok)
next
  fix s q
  assume "rq_wf s" "is_queue q" "qlist s q \<noteq> []"
  then show "slot_proc q 0 s = Ok (hd (qlist s q))"
    using slot_proc_qlist [of s q 0] by (simp add: hd_conv_nth)
next
  fix s q i
  assume "rq_wf s" "is_queue q" "i < length (qlist s q)"
  then show "\<exists>s'. dequeue_at q (int i) s = Ok s' \<and> rq_wf s'
      \<and> qlist s' q = take i (qlist s q) @ drop (Suc i) (qlist s q)
      \<and> (\<forall>q'. is_queue q' \<longrightarrow> q' \<noteq> q \<longrightarrow> qlist s' q' = qlist s q')"
    by (metis dequeue_at_Ok)
qed

text \<open>
  C40. First come, first served: the processes \<open>ps\<close> (at most \<^verbatim>\<open>NPROC\<close>) appended one after
  the other to an empty ready queue are all accepted, and taking the front process of that
  queue as often as there are processes, with the shifting loop and the counter decrement of
  the scheduler each time, returns them in exactly the order of their arrival, empties the
  queue and leaves every other queue as it was.
\<close>
theorem ready_queue_fifo:
  assumes "rq_wf r" and "is_queue q" and "qlist r q = []" and "length ps \<le> NPROC"
  shows "\<exists>r1 r2. add_all (enqueue q) ps r = Ok r1
    \<and> take_front (slot_proc q 0) (dequeue_at q 0) (length ps) r1 = Ok (ps, r2)
    \<and> rq_wf r2 \<and> qlist r2 q = [] \<and> (\<forall>q'. is_queue q' \<longrightarrow> q' \<noteq> q \<longrightarrow> qlist r2 q' = qlist r q')"
  by (rule rqt.first_in_first_out [OF assms])

definition empty_rq :: readyq where
  "empty_rq = init_counts \<lparr>queue_ready = replicate NUMFILAS (replicate NPROC None),
                            count_queue = replicate NUMFILAS 0\<rparr>"

lemma empty_rq_wf: "rq_wf empty_rq" "qlist empty_rq q = []" if "is_queue q"
  using that
  by (auto simp: empty_rq_def init_counts_def rq_wf_def qlist_def NUMFILAS_def is_queue_def
      nth_Cons' numeral_eq_Suc less_Suc_eq)

theorem ready_queue_fifo_witness:
  "\<exists>r1 r2. add_all (enqueue 3) [5, 2, 9] empty_rq = Ok r1
    \<and> take_front (slot_proc 3 0) (dequeue_at 3 0) 3 r1 = Ok ([5, 2, 9], r2) \<and> qlist r2 3 = []"
proof -
  have q: "is_queue 3" by (simp add: is_queue_def NUMFILAS_def)
  have n: "length [5::nat, 2, 9] \<le> NPROC" by (simp add: NPROC_def)
  from ready_queue_fifo [OF empty_rq_wf(1) [OF q] q empty_rq_wf(2) [OF q] n]
  show ?thesis by (simp add: numeral_eq_Suc) blast
qed

end
