(* ===== verification/Proc.thy ===== *)
theory Proc
  imports Spinlock ReadyQueue "HOL-Library.Signed_Division"
begin

section \<open>Processes (\<^verbatim>\<open>proc.c\<close>, \<^verbatim>\<open>proc.h\<close>)\<close>

text \<open>
  The process table and the routines that create, block, wake and reap processes. The kernel
  state \<open>kst\<close> holds the globals of \<^verbatim>\<open>proc.c\<close> and \<^verbatim>\<open>trap.c\<close>; a process pointer is an
  index into \<^verbatim>\<open>ptable.proc\<close>. \<^verbatim>\<open>acquire(&ptable.lock)\<close> and \<^verbatim>\<open>release\<close> are calls of
  the routines of theory \<open>Spinlock\<close> on the lock in the state.

  A routine that gives up the CPU is split at its \<^verbatim>\<open>swtch\<close>: \<open>yield_out\<close>, \<open>sleep_out\<close>,
  \<open>sched\<close>, \<open>exit_out\<close> run up to it and \<open>yield_in\<close>, \<open>sleep_in\<close>, \<open>sched_in\<close> are what the
  process does when the scheduler switches back to it. \<^verbatim>\<open>struct context\<close> is kept as where
  the process resumes: in \<^verbatim>\<open>forkret\<close> (as \<^verbatim>\<open>allocproc\<close> sets it up) or inside
  \<^verbatim>\<open>sched\<close>, with the \<^verbatim>\<open>intena\<close> it keeps on its stack.

  The memory allocator, the page tables and the file system are reached through the record
  \<open>kops\<close> of their operations on a state \<open>'w\<close> of their own; where one of them may wake
  processes (closing a pipe, ending a transaction), it returns the channels it wakes.
\<close>

subsection \<open>Data\<close>

datatype procstate = UNUSED | EMBRYO | SLEEPING | RUNNABLE | RUNNING | ZOMBIE

text \<open>A \<^verbatim>\<open>void *chan\<close>: the address of a process, of the tick counter, or of another object.\<close>

datatype chan = ProcChan nat | TicksChan | ObjChan u32

datatype kcontext = Ctx_none | Ctx_forkret | Ctx_sched bool

record trapframe =
  tf_edi :: u32  tf_esi :: u32  tf_ebp :: u32  tf_ebx :: u32
  tf_edx :: u32  tf_ecx :: u32  tf_eax :: u32
  tf_gs :: u16  tf_fs :: u16  tf_es :: u16  tf_ds :: u16
  tf_trapno :: u32
  tf_err :: u32  tf_eip :: u32  tf_cs :: u16  tf_eflags :: u32
  tf_esp :: u32  tf_ss :: u16

record proc =
  p_sz :: u32
  p_pgdir :: u32
  p_kstack :: u32
  p_state :: procstate
  p_pid :: int
  p_parent :: "nat option"
  p_tf_at :: u32
  p_tf :: trapframe
  p_context_at :: u32
  p_context :: kcontext
  p_chan :: "chan option"
  p_killed :: bool
  p_ofile :: "nat option list"
  p_cwd :: "nat option"
  p_name :: string
  p_ctime :: u32
  p_stime :: int
  p_retime :: int
  p_rutime :: int
  p_bstime :: int
  p_clock :: int
  p_priority :: int
  p_tickets :: int
  p_estimatedburst :: int
  p_previousburst :: int
  p_readyTimeAging :: int

record kst =
  mach :: machine
  cr3 :: "u8 \<Rightarrow> u32"
  ts_esp0 :: "u8 \<Rightarrow> u32"
  kpgdir :: u32
  ptlock :: spinlock
  procs :: "proc list"
  rq :: readyq
  initproc :: "nat option"
  nextpid :: int
  rand_next :: int
  first :: bool
  tickslock :: spinlock
  ticks :: u32

record 'w kops =
  k_kalloc :: "'w \<Rightarrow> u32 \<times> 'w"
  k_kfree :: "u32 \<Rightarrow> 'w \<Rightarrow> 'w res"
  k_setupkvm :: "'w \<Rightarrow> (u32 \<times> 'w) res"
  k_inituvm :: "u32 \<Rightarrow> 'w \<Rightarrow> 'w res"
  k_copyuvm :: "u32 \<Rightarrow> u32 \<Rightarrow> 'w \<Rightarrow> (u32 \<times> 'w) res"
  k_allocuvm :: "u32 \<Rightarrow> u32 \<Rightarrow> u32 \<Rightarrow> 'w \<Rightarrow> (u32 \<times> 'w) res"
  k_deallocuvm :: "u32 \<Rightarrow> u32 \<Rightarrow> u32 \<Rightarrow> 'w \<Rightarrow> (u32 \<times> 'w) res"
  k_freevm :: "u32 \<Rightarrow> 'w \<Rightarrow> 'w res"
  k_filedup :: "nat \<Rightarrow> 'w \<Rightarrow> (nat \<times> 'w) res"
  k_fileclose :: "nat \<Rightarrow> 'w \<Rightarrow> (chan list \<times> 'w) res"
  k_idup :: "nat option \<Rightarrow> 'w \<Rightarrow> (nat option \<times> 'w) res"
  k_begin_op :: "'w \<Rightarrow> 'w res"
  k_iput :: "nat option \<Rightarrow> 'w \<Rightarrow> (chan list \<times> 'w) res"
  k_end_op :: "'w \<Rightarrow> (chan list \<times> 'w) res"
  k_namei :: "string \<Rightarrow> 'w \<Rightarrow> (nat option \<times> 'w) res"
  k_fsinit :: "'w \<Rightarrow> 'w res"

definition KSTACKSIZE :: u32 where "KSTACKSIZE = 4096"
definition sizeof_trapframe :: u32 where "sizeof_trapframe = 76"
definition sizeof_context :: u32 where "sizeof_context = 20"

subsection \<open>Access to the state\<close>

abbreviation P :: "kst \<Rightarrow> nat \<Rightarrow> proc" where
  "P s p \<equiv> procs s ! p"

definition upd_proc :: "nat \<Rightarrow> (proc \<Rightarrow> proc) \<Rightarrow> kst \<Rightarrow> kst" where
  "upd_proc p f s = s\<lparr>procs := (procs s)[p := f (procs s ! p)]\<rparr>"

definition pt_acquire :: "u8 \<Rightarrow> kst \<Rightarrow> kst res" where
  "pt_acquire a s = rbind (acquire a (ptlock s) (mach s)) (\<lambda>(lk, m). Ok (s\<lparr>ptlock := lk, mach := m\<rparr>))"

definition pt_release :: "u8 \<Rightarrow> kst \<Rightarrow> kst res" where
  "pt_release a s = rbind (release a (ptlock s) (mach s)) (\<lambda>(lk, m). Ok (s\<lparr>ptlock := lk, mach := m\<rparr>))"

text \<open>\<^verbatim>\<open>myproc()\<close>, and the same where the code goes on to follow the pointer.\<close>

definition my_proc :: "u8 \<Rightarrow> kst \<Rightarrow> (nat option \<times> kst) res" where
  "my_proc a s = rbind (myproc a (mach s)) (\<lambda>(p, m). Ok (p, s\<lparr>mach := m\<rparr>))"

definition curproc :: "u8 \<Rightarrow> kst \<Rightarrow> (nat \<times> kst) res" where
  "curproc a s = rbind (my_proc a s) (\<lambda>(p, s). case p of None \<Rightarrow> Fault | Some p \<Rightarrow> Ok (p, s))"

fun find_proc :: "(proc \<Rightarrow> bool) \<Rightarrow> proc list \<Rightarrow> nat \<Rightarrow> nat option" where
  "find_proc f [] i = None"
| "find_proc f (p # ps) i = (if f p then Some i else find_proc f ps (Suc i))"

text \<open>
  Appending to the queue of a process's priority; the code writes these two lines out in
  \<^verbatim>\<open>userinit\<close>, \<^verbatim>\<open>fork\<close>, \<^verbatim>\<open>yield\<close>, \<^verbatim>\<open>wakeup1\<close> and \<^verbatim>\<open>kill\<close>.
\<close>

definition add_ready :: "int \<Rightarrow> nat \<Rightarrow> kst \<Rightarrow> kst res" where
  "add_ready q p s = rbind (enqueue q p (rq s)) (\<lambda>r. Ok (s\<lparr>rq := r\<rparr>))"

subsection \<open>Initialisation and allocation\<close>

definition pinit :: "kst \<Rightarrow> kst" where
  "pinit s = s\<lparr>ptlock := initlock ''ptable'' (ptlock s), rq := init_counts (rq s)\<rparr>"

definition allocproc :: "'w kops \<Rightarrow> u8 \<Rightarrow> kst \<times> 'w \<Rightarrow> (nat option \<times> kst \<times> 'w) res" where
  "allocproc ops a = (\<lambda>(s, w).
     rbind (pt_acquire a s) (\<lambda>s.
     case find_proc (\<lambda>p. p_state p = UNUSED) (procs s) 0 of
       None \<Rightarrow> rbind (pt_release a s) (\<lambda>s. Ok (None, s, w))
     | Some p \<Rightarrow>
         let s = upd_proc p (\<lambda>x. x\<lparr>p_state := EMBRYO, p_pid := nextpid s\<rparr>) s;
             s = s\<lparr>nextpid := nextpid s + 1\<rparr>;
             s = upd_proc p (\<lambda>x. x\<lparr>p_ctime := ticks s, p_stime := 0, p_retime := 0, p_rutime := 0,
                   p_tickets := 10, p_estimatedburst := 2, p_previousburst := 0, p_bstime := 0,
                   p_readyTimeAging := 0\<rparr>) s
         in rbind (pt_release a s) (\<lambda>s.
            let (k, w) = k_kalloc ops w;
                s = upd_proc p (\<lambda>x. x\<lparr>p_kstack := k\<rparr>) s
            in if k = 0 then Ok (None, upd_proc p (\<lambda>x. x\<lparr>p_state := UNUSED\<rparr>) s, w)
               else let sp = k + KSTACKSIZE;
                        sp = sp - sizeof_trapframe;
                        s = upd_proc p (\<lambda>x. x\<lparr>p_tf_at := sp\<rparr>) s;
                        sp = sp - 4;
                        sp = sp - sizeof_context;
                        s = upd_proc p (\<lambda>x. x\<lparr>p_context_at := sp, p_context := Ctx_forkret\<rparr>) s
                    in Ok (Some p, s, w))))"

definition zero_tf :: trapframe where
  "zero_tf = \<lparr>tf_edi = 0, tf_esi = 0, tf_ebp = 0, tf_ebx = 0, tf_edx = 0, tf_ecx = 0, tf_eax = 0,
     tf_gs = 0, tf_fs = 0, tf_es = 0, tf_ds = 0, tf_trapno = 0, tf_err = 0, tf_eip = 0, tf_cs = 0,
     tf_eflags = 0, tf_esp = 0, tf_ss = 0\<rparr>"

definition FL_IF :: u32 where "FL_IF = 0x200"
definition SEG_UCODE :: u16 where "SEG_UCODE = 3"
definition SEG_UDATA :: u16 where "SEG_UDATA = 4"
definition DPL_USER :: u16 where "DPL_USER = 3"

definition user_tf :: trapframe where
  "user_tf = (let ds = or (push_bit 3 SEG_UDATA) DPL_USER in
     zero_tf\<lparr>tf_cs := or (push_bit 3 SEG_UCODE) DPL_USER, tf_ds := ds, tf_es := ds, tf_ss := ds,
       tf_eflags := FL_IF, tf_esp := PGSIZE, tf_eip := 0\<rparr>)"

definition userinit :: "'w kops \<Rightarrow> u8 \<Rightarrow> kst \<times> 'w \<Rightarrow> (kst \<times> 'w) res" where
  "userinit ops a sw =
     rbind (allocproc ops a sw) (\<lambda>(p, s, w).
     let s = s\<lparr>initproc := p\<rparr> in
     case p of None \<Rightarrow> Fault
     | Some p \<Rightarrow>
       rbind (k_setupkvm ops w) (\<lambda>(d, w).
       let s = upd_proc p (\<lambda>x. x\<lparr>p_pgdir := d\<rparr>) s in
       if d = 0 then Panic ''userinit: out of memory?''
       else
       rbind (k_inituvm ops d w) (\<lambda>w.
       let s = upd_proc p (\<lambda>x. x\<lparr>p_ctime := ticks s, p_sz := PGSIZE, p_tf := user_tf,
                                p_name := ''initcode''\<rparr>) s in
       rbind (k_namei ops ''/'' w) (\<lambda>(ip, w).
       let s = upd_proc p (\<lambda>x. x\<lparr>p_cwd := ip\<rparr>) s in
       rbind (pt_acquire a s) (\<lambda>s.
       let s = upd_proc p (\<lambda>x. x\<lparr>p_priority := PRIO\<rparr>) s in
       rbind (add_ready PRIO p s) (\<lambda>s.
       let s = upd_proc p (\<lambda>x. x\<lparr>p_state := RUNNABLE\<rparr>) s in
       rbind (pt_release a s) (\<lambda>s. Ok (s, w))))))))"


subsection \<open>Address-space switches (\<^verbatim>\<open>vm.c\<close>)\<close>

text \<open>
  Of \<^verbatim>\<open>switchuvm\<close> the state keeps what the kernel stack pointer in the task segment and the
  page-directory register become; the segment descriptor it also loads is constant.
\<close>


definition switchuvm :: "u8 \<Rightarrow> nat \<Rightarrow> kst \<Rightarrow> kst res" where
  "switchuvm a p s =
     (if p_kstack (P s p) = 0 then Panic ''switchuvm: no kstack''
      else if p_pgdir (P s p) = 0 then Panic ''switchuvm: no pgdir''
      else rbind (pushcli a (mach s)) (\<lambda>m.
        rbind (mycpu a m) (\<lambda>_.
        let s = s\<lparr>mach := m, ts_esp0 := (ts_esp0 s)(a := p_kstack (P s p) + KSTACKSIZE),
                  cr3 := (cr3 s)(a := V2P (p_pgdir (P s p)))\<rparr> in
        rbind (popcli a (mach s)) (\<lambda>m. Ok (s\<lparr>mach := m\<rparr>)))))"

definition switchkvm :: "u8 \<Rightarrow> kst \<Rightarrow> kst" where
  "switchkvm a s = s\<lparr>cr3 := (cr3 s)(a := V2P (kpgdir s))\<rparr>"

subsection \<open>Growing and forking\<close>

definition growproc :: "'w kops \<Rightarrow> u8 \<Rightarrow> int \<Rightarrow> kst \<times> 'w \<Rightarrow> (int \<times> kst \<times> 'w) res" where
  "growproc ops a n = (\<lambda>(s, w).
     rbind (curproc a s) (\<lambda>(cp, s).
     let sz = p_sz (P s cp); d = p_pgdir (P s cp) in
     rbind (if n > 0 then k_allocuvm ops d sz (sz + word_of_int n) w
            else if n < 0 then k_deallocuvm ops d sz (sz + word_of_int n) w
            else Ok (sz, w)) (\<lambda>(sz', w).
     if n \<noteq> 0 \<and> sz' = 0 then Ok (- 1, s, w)
     else
       let s = upd_proc cp (\<lambda>x. x\<lparr>p_sz := sz'\<rparr>) s in
       rbind (switchuvm a cp s) (\<lambda>s. Ok (0, s, w)))))"

text \<open>The loop of \<^verbatim>\<open>fork\<close> over the open files.\<close>

fun dup_files :: "'w kops \<Rightarrow> nat \<Rightarrow> nat \<Rightarrow> nat list \<Rightarrow> kst \<times> 'w \<Rightarrow> (kst \<times> 'w) res" where
  "dup_files ops cp np [] (s, w) = Ok (s, w)"
| "dup_files ops cp np (i # is) (s, w) =
     (case p_ofile (P s cp) ! i of
        None \<Rightarrow> dup_files ops cp np is (s, w)
      | Some f \<Rightarrow> rbind (k_filedup ops f w) (\<lambda>(f, w).
          dup_files ops cp np is (upd_proc np (\<lambda>x. x\<lparr>p_ofile := (p_ofile x)[i := Some f]\<rparr>) s, w)))"

text \<open>\<^verbatim>\<open>fork\<close> once the process \<open>np\<close> is allocated, then the whole routine.\<close>

definition fork_child :: "'w kops \<Rightarrow> u8 \<Rightarrow> nat \<Rightarrow> nat \<Rightarrow> kst \<times> 'w \<Rightarrow> (int \<times> kst \<times> 'w) res" where
  "fork_child ops a cp np = (\<lambda>(s, w).
     rbind (k_copyuvm ops (p_pgdir (P s cp)) (p_sz (P s cp)) w) (\<lambda>(d, w).
     let s = upd_proc np (\<lambda>x. x\<lparr>p_pgdir := d\<rparr>) s in
     if d = 0 then
       rbind (k_kfree ops (p_kstack (P s np)) w) (\<lambda>w.
       Ok (- 1, upd_proc np (\<lambda>x. x\<lparr>p_kstack := 0, p_state := UNUSED\<rparr>) s, w))
     else
       let s = upd_proc np (\<lambda>x. x\<lparr>p_sz := p_sz (P s cp), p_parent := Some cp,
                 p_tf := (p_tf (P s cp))\<lparr>tf_eax := 0\<rparr>\<rparr>) s in
       rbind (dup_files ops cp np [0..<NOFILE] (s, w)) (\<lambda>(s, w).
       rbind (k_idup ops (p_cwd (P s cp)) w) (\<lambda>(ip, w).
       let s = upd_proc np (\<lambda>x. x\<lparr>p_cwd := ip, p_name := take 15 (p_name (P s cp))\<rparr>) s;
           pid = p_pid (P s np) in
       rbind (pt_acquire a s) (\<lambda>s.
       let s = upd_proc np (\<lambda>x. x\<lparr>p_priority := PRIO\<rparr>) s in
       rbind (add_ready PRIO np s) (\<lambda>s.
       let s = upd_proc np (\<lambda>x. x\<lparr>p_state := RUNNABLE\<rparr>) s in
       rbind (pt_release a s) (\<lambda>s. Ok (pid, s, w))))))))"

definition fork :: "'w kops \<Rightarrow> u8 \<Rightarrow> kst \<times> 'w \<Rightarrow> (int \<times> kst \<times> 'w) res" where
  "fork ops a = (\<lambda>(s, w).
     rbind (curproc a s) (\<lambda>(cp, s).
     rbind (allocproc ops a (s, w)) (\<lambda>(np, s, w).
     case np of None \<Rightarrow> Ok (- 1, s, w) | Some np \<Rightarrow> fork_child ops a cp np (s, w))))"

subsection \<open>Giving up the CPU\<close>

definition sched :: "u8 \<Rightarrow> kst \<Rightarrow> kst res" where
  "sched a s =
     rbind (my_proc a s) (\<lambda>(p, s).
     rbind (holding a (ptlock s) (mach s)) (\<lambda>(h, m).
     let s = s\<lparr>mach := m\<rparr> in
     if \<not> h then Panic ''sched ptable.lock''
     else rbind (mycpu a (mach s)) (\<lambda>i.
       if ncli (cpus (mach s) ! i) \<noteq> 1 then Panic ''sched locks''
       else case p of None \<Rightarrow> Fault
       | Some p \<Rightarrow>
         if p_state (P s p) = RUNNING then Panic ''sched running''
         else if eflags_if (mach s) a then Panic ''sched interruptible''
         else Ok (upd_proc p (\<lambda>x. x\<lparr>p_context := Ctx_sched (intena (cpus (mach s) ! i))\<rparr>) s))))"

definition sched_in :: "u8 \<Rightarrow> bool \<Rightarrow> kst \<Rightarrow> kst res" where
  "sched_in a ena s =
     rbind (mycpu a (mach s)) (\<lambda>i. Ok (s\<lparr>mach := upd_cpu i (\<lambda>c. c\<lparr>intena := ena\<rparr>) (mach s)\<rparr>))"

definition yield_out :: "u8 \<Rightarrow> kst \<Rightarrow> kst res" where
  "yield_out a s =
     rbind (pt_acquire a s) (\<lambda>s.
     rbind (curproc a s) (\<lambda>(p, s).
     let prioridade = p_priority (P s p) in
     rbind (add_ready prioridade p s) (\<lambda>s.
     sched a (upd_proc p (\<lambda>x. x\<lparr>p_state := RUNNABLE\<rparr>) s))))"

definition yield_in :: "u8 \<Rightarrow> bool \<Rightarrow> kst \<Rightarrow> kst res" where
  "yield_in a ena s = rbind (sched_in a ena s) (pt_release a)"

definition forkret :: "'w kops \<Rightarrow> u8 \<Rightarrow> kst \<times> 'w \<Rightarrow> (kst \<times> 'w) res" where
  "forkret ops a = (\<lambda>(s, w).
     rbind (pt_release a s) (\<lambda>s.
     if first s then rbind (k_fsinit ops w) (\<lambda>w. Ok (s\<lparr>first := False\<rparr>, w)) else Ok (s, w)))"

definition updateBurst :: "proc \<Rightarrow> proc" where
  "updateBurst p = p\<lparr>p_estimatedburst := (p_estimatedburst p + p_previousburst p) sdiv 2\<rparr>"

text \<open>The second argument of \<^verbatim>\<open>sleep\<close>: null, \<^verbatim>\<open>&ptable.lock\<close>, or another lock.\<close>

datatype sleep_lock = NullLock | PtableLock | OtherLock spinlock

definition sleep_out :: "u8 \<Rightarrow> chan option \<Rightarrow> sleep_lock \<Rightarrow> kst \<Rightarrow> (sleep_lock \<times> kst) res" where
  "sleep_out a ch lk s =
     rbind (my_proc a s) (\<lambda>(p, s).
     case p of None \<Rightarrow> Panic ''sleep''
     | Some p \<Rightarrow>
       rbind (case lk of
           NullLock \<Rightarrow> Panic ''sleep without lk''
         | PtableLock \<Rightarrow> Ok (lk, s)
         | OtherLock l \<Rightarrow> rbind (pt_acquire a s) (\<lambda>s. rbind (release a l (mach s)) (\<lambda>(l, m).
             Ok (OtherLock l, s\<lparr>mach := m\<rparr>)))) (\<lambda>(lk, s).
       let s = upd_proc p (\<lambda>x. updateBurst (x\<lparr>p_previousburst := p_bstime x\<rparr>)) s;
           s = upd_proc p (\<lambda>x. x\<lparr>p_chan := ch, p_state := SLEEPING, p_bstime := 0\<rparr>) s in
       rbind (sched a s) (\<lambda>s. Ok (lk, s))))"

definition sleep_in :: "u8 \<Rightarrow> nat \<Rightarrow> bool \<Rightarrow> sleep_lock \<Rightarrow> kst \<Rightarrow> (sleep_lock \<times> kst) res" where
  "sleep_in a p ena lk s =
     rbind (sched_in a ena s) (\<lambda>s.
     let s = upd_proc p (\<lambda>x. x\<lparr>p_chan := None\<rparr>) s in
     case lk of
       NullLock \<Rightarrow> Fault
     | PtableLock \<Rightarrow> Ok (lk, s)
     | OtherLock l \<Rightarrow> rbind (pt_release a s) (\<lambda>s. rbind (acquire a l (mach s)) (\<lambda>(l, m).
         Ok (OtherLock l, s\<lparr>mach := m\<rparr>))))"

subsection \<open>Waking and killing\<close>

fun wakeup_loop :: "chan option \<Rightarrow> nat list \<Rightarrow> kst \<Rightarrow> kst res" where
  "wakeup_loop ch [] s = Ok s"
| "wakeup_loop ch (p # ps) s =
     (if p_state (P s p) = SLEEPING \<and> p_chan (P s p) = ch
      then rbind (add_ready (p_priority (P s p)) p s) (\<lambda>s.
           wakeup_loop ch ps (upd_proc p (\<lambda>x. x\<lparr>p_state := RUNNABLE\<rparr>) s))
      else wakeup_loop ch ps s)"

definition wakeup1 :: "chan option \<Rightarrow> kst \<Rightarrow> kst res" where
  "wakeup1 ch s = wakeup_loop ch [0..<NPROC] s"

definition wakeup :: "u8 \<Rightarrow> chan option \<Rightarrow> kst \<Rightarrow> kst res" where
  "wakeup a ch s = rbind (pt_acquire a s) (\<lambda>s. rbind (wakeup1 ch s) (pt_release a))"

definition kill :: "u8 \<Rightarrow> int \<Rightarrow> kst \<Rightarrow> (int \<times> kst) res" where
  "kill a pid s =
     rbind (pt_acquire a s) (\<lambda>s.
     case find_proc (\<lambda>p. p_pid p = pid) (procs s) 0 of
       None \<Rightarrow> rbind (pt_release a s) (\<lambda>s. Ok (- 1, s))
     | Some p \<Rightarrow>
         let s = upd_proc p (\<lambda>x. x\<lparr>p_killed := True\<rparr>) s in
         rbind (if p_state (P s p) = SLEEPING
                then rbind (add_ready (p_priority (P s p)) p s) (\<lambda>s.
                     Ok (upd_proc p (\<lambda>x. x\<lparr>p_state := RUNNABLE\<rparr>) s))
                else Ok s) (\<lambda>s.
         rbind (pt_release a s) (\<lambda>s. Ok (0, s))))"

subsection \<open>Exit and wait\<close>

fun wakeups :: "u8 \<Rightarrow> chan list \<Rightarrow> kst \<Rightarrow> kst res" where
  "wakeups a [] s = Ok s"
| "wakeups a (ch # chs) s = rbind (wakeup a (Some ch) s) (wakeups a chs)"

fun close_files :: "'w kops \<Rightarrow> u8 \<Rightarrow> nat \<Rightarrow> nat list \<Rightarrow> kst \<times> 'w \<Rightarrow> (kst \<times> 'w) res" where
  "close_files ops a cp [] (s, w) = Ok (s, w)"
| "close_files ops a cp (fd # fds) (s, w) =
     (case p_ofile (P s cp) ! fd of
        None \<Rightarrow> close_files ops a cp fds (s, w)
      | Some f \<Rightarrow>
          rbind (k_fileclose ops f w) (\<lambda>(chs, w).
          rbind (wakeups a chs s) (\<lambda>s.
          close_files ops a cp fds (upd_proc cp (\<lambda>x. x\<lparr>p_ofile := (p_ofile x)[fd := None]\<rparr>) s, w))))"

fun reparent :: "nat \<Rightarrow> nat list \<Rightarrow> kst \<Rightarrow> kst res" where
  "reparent cp [] s = Ok s"
| "reparent cp (p # ps) s =
     (if p_parent (P s p) = Some cp then
        let s = upd_proc p (\<lambda>x. x\<lparr>p_parent := initproc s\<rparr>) s in
        rbind (if p_state (P s p) = ZOMBIE then wakeup1 (map_option ProcChan (initproc s)) s else Ok s)
          (reparent cp ps)
      else reparent cp ps s)"

text \<open>\<^verbatim>\<open>exit\<close> up to the table lock: closing the files and the working directory.\<close>

definition exit_close :: "'w kops \<Rightarrow> u8 \<Rightarrow> nat \<Rightarrow> kst \<times> 'w \<Rightarrow> (kst \<times> 'w) res" where
  "exit_close ops a cp = (\<lambda>(s, w).
     rbind (close_files ops a cp [0..<NOFILE] (s, w)) (\<lambda>(s, w).
     rbind (k_begin_op ops w) (\<lambda>w.
     rbind (k_iput ops (p_cwd (P s cp)) w) (\<lambda>(chs, w).
     rbind (wakeups a chs s) (\<lambda>s.
     rbind (k_end_op ops w) (\<lambda>(chs, w).
     rbind (wakeups a chs s) (\<lambda>s. Ok (upd_proc cp (\<lambda>x. x\<lparr>p_cwd := None\<rparr>) s, w))))))))"

definition exit_out :: "'w kops \<Rightarrow> u8 \<Rightarrow> kst \<times> 'w \<Rightarrow> (kst \<times> 'w) res" where
  "exit_out ops a = (\<lambda>(s, w).
     rbind (curproc a s) (\<lambda>(cp, s).
     if initproc s = Some cp then Panic ''init exiting''
     else
       rbind (exit_close ops a cp (s, w)) (\<lambda>(s, w).
       rbind (pt_acquire a s) (\<lambda>s.
       rbind (wakeup1 (map_option ProcChan (p_parent (P s cp))) s) (\<lambda>s.
       rbind (reparent cp [0..<NPROC] s) (\<lambda>s.
       rbind (sched a (upd_proc cp (\<lambda>x. x\<lparr>p_state := ZOMBIE\<rparr>) s)) (\<lambda>s. Ok (s, w))))))))"

text \<open>
  \<^verbatim>\<open>wait\<close>: the scan of the table returns the process to reap, if there is one, and
  whether the caller has children. One iteration of its loop either returns or puts the caller
  to sleep; when the caller is woken it runs \<open>wait_again\<close>.
\<close>

fun wait_scan :: "nat \<Rightarrow> nat list \<Rightarrow> bool \<Rightarrow> kst \<Rightarrow> nat option \<times> bool" where
  "wait_scan cp [] kids s = (None, kids)"
| "wait_scan cp (p # ps) kids s =
     (if p_parent (P s p) \<noteq> Some cp then wait_scan cp ps kids s
      else if p_state (P s p) = ZOMBIE then (Some p, True)
      else wait_scan cp ps True s)"

datatype 'r wait_result = Returned 'r | Slept

definition wait_body :: "'w kops \<Rightarrow> u8 \<Rightarrow> nat \<Rightarrow> kst \<times> 'w \<Rightarrow> (int wait_result \<times> kst \<times> 'w) res" where
  "wait_body ops a cp = (\<lambda>(s, w).
     case wait_scan cp [0..<NPROC] False s of
       (Some p, _) \<Rightarrow>
         let pid = p_pid (P s p) in
         rbind (k_kfree ops (p_kstack (P s p)) w) (\<lambda>w.
         let s = upd_proc p (\<lambda>x. x\<lparr>p_kstack := 0\<rparr>) s in
         rbind (k_freevm ops (p_pgdir (P s p)) w) (\<lambda>w.
         let s = upd_proc p (\<lambda>x. x\<lparr>p_pid := 0, p_parent := None, p_name := [], p_killed := False,
                                  p_ctime := 0, p_state := UNUSED\<rparr>) s in
         rbind (pt_release a s) (\<lambda>s. Ok (Returned pid, s, w))))
     | (None, kids) \<Rightarrow>
         if \<not> kids \<or> p_killed (P s cp)
         then rbind (pt_release a s) (\<lambda>s. Ok (Returned (- 1), s, w))
         else rbind (sleep_out a (Some (ProcChan cp)) PtableLock s) (\<lambda>(_, s). Ok (Slept, s, w)))"

definition wait :: "'w kops \<Rightarrow> u8 \<Rightarrow> kst \<times> 'w \<Rightarrow> (int wait_result \<times> kst \<times> 'w) res" where
  "wait ops a = (\<lambda>(s, w).
     rbind (curproc a s) (\<lambda>(cp, s).
     rbind (pt_acquire a s) (\<lambda>s. wait_body ops a cp (s, w))))"

definition wait_again :: "'w kops \<Rightarrow> u8 \<Rightarrow> nat \<Rightarrow> bool \<Rightarrow> kst \<times> 'w \<Rightarrow> (int wait_result \<times> kst \<times> 'w) res" where
  "wait_again ops a cp ena = (\<lambda>(s, w).
     rbind (sleep_in a cp ena PtableLock s) (\<lambda>(_, s). wait_body ops a cp (s, w)))"

text \<open>\<^verbatim>\<open>wait2\<close> also stores the three times of the child through its pointer arguments.\<close>

record wait2_out =
  w2_pid :: int
  w2_retime :: int
  w2_rutime :: int
  w2_stime :: int

definition wait2_body ::
  "'w kops \<Rightarrow> u8 \<Rightarrow> nat \<Rightarrow> kst \<times> 'w \<Rightarrow> (wait2_out option wait_result \<times> kst \<times> 'w) res" where
  "wait2_body ops a cp = (\<lambda>(s, w).
     case wait_scan cp [0..<NPROC] False s of
       (Some p, _) \<Rightarrow>
         let out = \<lparr>w2_pid = p_pid (P s p), w2_retime = p_retime (P s p),
                    w2_rutime = p_rutime (P s p), w2_stime = p_stime (P s p)\<rparr> in
         rbind (k_kfree ops (p_kstack (P s p)) w) (\<lambda>w.
         let s = upd_proc p (\<lambda>x. x\<lparr>p_kstack := 0\<rparr>) s in
         rbind (k_freevm ops (p_pgdir (P s p)) w) (\<lambda>w.
         let s = upd_proc p (\<lambda>x. x\<lparr>p_state := UNUSED, p_pid := 0, p_parent := None, p_name := [],
                                  p_killed := False, p_ctime := 0, p_retime := 0, p_rutime := 0,
                                  p_stime := 0\<rparr>) s in
         rbind (pt_release a s) (\<lambda>s. Ok (Returned (Some out), s, w))))
     | (None, kids) \<Rightarrow>
         rbind (curproc a s) (\<lambda>(me, s).
         if \<not> kids \<or> p_killed (P s me)
         then rbind (pt_release a s) (\<lambda>s. Ok (Returned None, s, w))
         else rbind (sleep_out a (Some (ProcChan me)) PtableLock s) (\<lambda>(_, s). Ok (Slept, s, w))))"

definition wait2 ::
  "'w kops \<Rightarrow> u8 \<Rightarrow> kst \<times> 'w \<Rightarrow> (wait2_out option wait_result \<times> kst \<times> 'w) res" where
  "wait2 ops a = (\<lambda>(s, w).
     rbind (pt_acquire a s) (\<lambda>s.
     rbind (curproc a s) (\<lambda>(cp, s). wait2_body ops a cp (s, w))))"

definition wait2_again ::
  "'w kops \<Rightarrow> u8 \<Rightarrow> nat \<Rightarrow> bool \<Rightarrow> kst \<times> 'w \<Rightarrow> (wait2_out option wait_result \<times> kst \<times> 'w) res" where
  "wait2_again ops a cp ena = (\<lambda>(s, w).
     rbind (sleep_in a cp ena PtableLock s) (\<lambda>(_, s). wait2_body ops a cp (s, w)))"

end
