(* ===== verification/ProcTable.thy ===== *)
theory ProcTable
  imports Proc
begin

section \<open>The invariant of the process table\<close>

text \<open>
  \<open>tinv s\<close> ties the ready queues to the process table: each queue lists, without repetition,
  exactly the \<open>RUNNABLE\<close> processes of its priority, and every process that is asleep, ready or
  running has one of the four priorities. \<open>pinv s\<close> is about process ids: those in use are
  positive, below \<^verbatim>\<open>nextpid\<close> and pairwise different.

  The lemmas give, for each routine of theory \<open>Proc\<close>, the state it returns and that it keeps
  both invariants. \<open>acq a s\<close> and \<open>rel a s\<close> are the state after a successful
  \<^verbatim>\<open>acquire(&ptable.lock)\<close> and \<^verbatim>\<open>release(&ptable.lock)\<close> on the CPU \<open>a\<close>.
\<close>

named_theorems pt_simps

subsection \<open>Taking and releasing the table lock\<close>

definition acq :: "u8 \<Rightarrow> kst \<Rightarrow> kst" where
  "acq a s = s\<lparr>ptlock := (ptlock s)\<lparr>locked := 1, lk_cpu := Some (ci a (mach s)),
                 pcs := getcallerpcs (kmem (mach s)) (arg0 (mach s) a)\<rparr>, mach := push_m a (mach s)\<rparr>"

definition rel :: "u8 \<Rightarrow> kst \<Rightarrow> kst" where
  "rel a s = s\<lparr>ptlock := (ptlock s)\<lparr>pcs := (pcs (ptlock s))[0 := 0], lk_cpu := None, locked := 0\<rparr>,
               mach := pop_m a (mach s)\<rparr>"

text \<open>The CPU \<open>a\<close> may take the lock; the CPU \<open>a\<close> holds it and no other lock.\<close>

definition idle_lock :: "u8 \<Rightarrow> kst \<Rightarrow> bool" where
  "idle_lock a s \<longleftrightarrow> cpu_wf a (mach s) \<and> locked (ptlock s) = 0"

definition held :: "u8 \<Rightarrow> kst \<Rightarrow> bool" where
  "held a s \<longleftrightarrow> cpu_wf a (mach s) \<and> 0 < depth a (mach s) \<and> locked (ptlock s) \<noteq> 0
     \<and> lk_cpu (ptlock s) = Some (ci a (mach s))"

lemma acq_simps [simp]:
  "procs (acq a s) = procs s" "rq (acq a s) = rq s" "initproc (acq a s) = initproc s"
  "nextpid (acq a s) = nextpid s" "ticks (acq a s) = ticks s" "rand_next (acq a s) = rand_next s"
  "first (acq a s) = first s" "tickslock (acq a s) = tickslock s" "kpgdir (acq a s) = kpgdir s"
  "cr3 (acq a s) = cr3 s" "ts_esp0 (acq a s) = ts_esp0 s" "mach (acq a s) = push_m a (mach s)"
  by (simp_all add: acq_def)

lemma rel_simps [simp]:
  "procs (rel a s) = procs s" "rq (rel a s) = rq s" "initproc (rel a s) = initproc s"
  "nextpid (rel a s) = nextpid s" "ticks (rel a s) = ticks s" "rand_next (rel a s) = rand_next s"
  "first (rel a s) = first s" "tickslock (rel a s) = tickslock s" "kpgdir (rel a s) = kpgdir s"
  "cr3 (rel a s) = cr3 s" "ts_esp0 (rel a s) = ts_esp0 s" "mach (rel a s) = pop_m a (mach s)"
  "locked (ptlock (rel a s)) = 0"
  by (simp_all add: rel_def)

lemma pt_acquire_Ok [pt_simps]: "idle_lock a s \<Longrightarrow> pt_acquire a s = Ok (acq a s)"
  by (simp add: pt_acquire_def idle_lock_def acquire_free acq_def)

lemma pt_release_Ok [pt_simps]: "held a s \<Longrightarrow> pt_release a s = Ok (rel a s)"
  by (simp add: pt_release_def held_def release_held rel_def)

lemma held_acq [simp]: "idle_lock a s \<Longrightarrow> held a (acq a s)"
  by (auto simp: idle_lock_def held_def acq_def cpu_wf_def)

lemma held_cong:
  "mach s' = mach s \<Longrightarrow> ptlock s' = ptlock s \<Longrightarrow> held a s' = held a s"
  by (simp add: held_def)

lemma held_upd [simp]: "held a (upd_proc p f s) = held a s"
  by (simp add: held_def upd_proc_def)

lemma held_rq [simp]: "held a (s\<lparr>rq := r\<rparr>) = held a s" "held a (s\<lparr>nextpid := n\<rparr>) = held a s"
  by (simp_all add: held_def)

lemma upd_proc_simps [simp]:
  "procs (upd_proc p f s) = (procs s)[p := f (procs s ! p)]" "rq (upd_proc p f s) = rq s"
  "mach (upd_proc p f s) = mach s" "ptlock (upd_proc p f s) = ptlock s"
  "initproc (upd_proc p f s) = initproc s" "nextpid (upd_proc p f s) = nextpid s"
  "ticks (upd_proc p f s) = ticks s" "rand_next (upd_proc p f s) = rand_next s"
  "first (upd_proc p f s) = first s" "tickslock (upd_proc p f s) = tickslock s"
  "kpgdir (upd_proc p f s) = kpgdir s" "cr3 (upd_proc p f s) = cr3 s"
  "ts_esp0 (upd_proc p f s) = ts_esp0 s"
  by (simp_all add: upd_proc_def)

lemma curproc_held [pt_simps]:
  "held a s \<Longrightarrow> cpu_proc (cpus (mach s) ! ci a (mach s)) = Some p \<Longrightarrow> curproc a s = Ok (p, s)"
  by (simp add: curproc_def my_proc_def held_def myproc_Ok)

lemma curproc_Ok [pt_simps]:
  "cpu_wf a (mach s) \<Longrightarrow> cpu_proc (cpus (mach s) ! ci a (mach s)) = Some p \<Longrightarrow>
    curproc a s = Ok (p, s\<lparr>mach := sync a (mach s)\<rparr>)"
  by (simp add: curproc_def my_proc_def myproc_Ok)

text \<open>The process the CPU \<open>a\<close> runs, \<^verbatim>\<open>mycpu()->proc\<close>.\<close>

definition running_on :: "u8 \<Rightarrow> kst \<Rightarrow> nat option" where
  "running_on a s = cpu_proc (cpus (mach s) ! ci a (mach s))"

subsection \<open>The invariant\<close>

definition live :: "procstate \<Rightarrow> bool" where
  "live st \<longleftrightarrow> st = SLEEPING \<or> st = RUNNABLE \<or> st = RUNNING"

definition tinv :: "kst \<Rightarrow> bool" where
  "tinv s \<longleftrightarrow> length (procs s) = NPROC \<and> rq_wf (rq s)
     \<and> (\<forall>q. is_queue q \<longrightarrow> distinct (qlist (rq s) q)
          \<and> set (qlist (rq s) q) = {p. p < NPROC \<and> p_state (P s p) = RUNNABLE \<and> p_priority (P s p) = q})
     \<and> (\<forall>p < NPROC. live (p_state (P s p)) \<longrightarrow> is_queue (p_priority (P s p)))"

definition pinv :: "kst \<Rightarrow> bool" where
  "pinv s \<longleftrightarrow> 0 < nextpid s
     \<and> (\<forall>p < NPROC. p_state (P s p) \<noteq> UNUSED \<longrightarrow> 0 < p_pid (P s p) \<and> p_pid (P s p) < nextpid s)
     \<and> (\<forall>p < NPROC. \<forall>p' < NPROC. p_state (P s p) \<noteq> UNUSED \<longrightarrow> p_state (P s p') \<noteq> UNUSED \<longrightarrow>
          p_pid (P s p) = p_pid (P s p') \<longrightarrow> p = p')"

lemma tinv_cong: "procs s' = procs s \<Longrightarrow> rq s' = rq s \<Longrightarrow> tinv s' = tinv s"
  by (simp add: tinv_def)

lemma tinv_acq [simp]: "tinv (acq a s) = tinv s" "tinv (rel a s) = tinv s"
  "tinv (s\<lparr>mach := m\<rparr>) = tinv s" "tinv (s\<lparr>nextpid := n\<rparr>) = tinv s" "tinv (s\<lparr>initproc := ip\<rparr>) = tinv s"
  by (simp_all add: tinv_def)

lemma tinvD:
  assumes "tinv s"
  shows "length (procs s) = NPROC" "rq_wf (rq s)" "is_queue q \<Longrightarrow> distinct (qlist (rq s) q)"
    "is_queue q \<Longrightarrow> p \<in> set (qlist (rq s) q) \<longleftrightarrow>
       p < NPROC \<and> p_state (P s p) = RUNNABLE \<and> p_priority (P s p) = q"
    "p < NPROC \<Longrightarrow> live (p_state (P s p)) \<Longrightarrow> is_queue (p_priority (P s p))"
  using assms by (auto simp: tinv_def)

text \<open>
  Changing a process keeps the invariant when it leaves state and priority alone, or when it is
  ready neither before nor after.
\<close>

lemma tinv_upd:
  assumes "tinv s" and "p < NPROC"
    and "p_state (f (P s p)) = p_state (P s p) \<and> p_priority (f (P s p)) = p_priority (P s p)
      \<or> p_state (P s p) \<noteq> RUNNABLE \<and> p_state (f (P s p)) \<noteq> RUNNABLE
        \<and> (live (p_state (f (P s p))) \<longrightarrow> is_queue (p_priority (f (P s p))))"
  shows "tinv (upd_proc p f s)"
  using assms unfolding tinv_def by (auto simp: nth_upd)

text \<open>What the state holds besides the table and the queues.\<close>

definition frame :: "kst \<Rightarrow> kst" where
  "frame s = s\<lparr>procs := [], rq := empty_rq\<rparr>"

lemma frame_simps [simp]:
  "frame (upd_proc p f s) = frame s" "frame (s\<lparr>procs := x\<rparr>) = frame s" "frame (s\<lparr>rq := r\<rparr>) = frame s"
  by (simp_all add: frame_def upd_proc_def)

lemma frameD:
  assumes "frame s' = frame s"
  shows "mach s' = mach s" "ptlock s' = ptlock s" "initproc s' = initproc s" "nextpid s' = nextpid s"
    "ticks s' = ticks s" "tickslock s' = tickslock s" "first s' = first s" "rand_next s' = rand_next s"
    "cr3 s' = cr3 s" "ts_esp0 s' = ts_esp0 s" "kpgdir s' = kpgdir s"
  using assms by (cases s, cases s', simp add: frame_def)+

text \<open>
  Making a process that is not ready ready: appended to the queue of its priority and marked
  \<open>RUNNABLE\<close>. There is always room, since a queue lists distinct processes of the table.
\<close>

definition made_ready :: "nat \<Rightarrow> kst \<Rightarrow> kst \<Rightarrow> bool" where
  "made_ready p s s' \<longleftrightarrow>
     procs s' = (procs s)[p := (P s p)\<lparr>p_state := RUNNABLE\<rparr>]
     \<and> qlist (rq s') (p_priority (P s p)) = qlist (rq s) (p_priority (P s p)) @ [p]
     \<and> (\<forall>q. is_queue q \<longrightarrow> q \<noteq> p_priority (P s p) \<longrightarrow> qlist (rq s') q = qlist (rq s) q)
     \<and> frame s' = frame s"

lemma queue_room:
  assumes "tinv s" and "is_queue q" and "p < NPROC" and "p_state (P s p) \<noteq> RUNNABLE"
  shows "length (qlist (rq s) q) < NPROC"
proof (rule distinct_bounded_length_less)
  show "distinct (qlist (rq s) q)" using tinvD(3) [OF assms(1,2)] .
  show "set (qlist (rq s) q) \<subseteq> {..<NPROC}" using tinvD(4) [OF assms(1,2)] by blast
  show "p < NPROC" by fact
  show "p \<notin> set (qlist (rq s) q)" using tinvD(4) [OF assms(1,2)] assms(4) by blast
qed

lemma make_ready:
  assumes t: "tinv s" and p: "p < NPROC" and st: "p_state (P s p) \<noteq> RUNNABLE"
    and q: "is_queue (p_priority (P s p))"
  obtains s' where "add_ready (p_priority (P s p)) p s = Ok s'"
    "made_ready p s (upd_proc p (\<lambda>x. x\<lparr>p_state := RUNNABLE\<rparr>) s')"
    "tinv (upd_proc p (\<lambda>x. x\<lparr>p_state := RUNNABLE\<rparr>) s')" "procs s' = procs s"
proof -
  let ?q = "p_priority (P s p)"
  obtain r' where r: "enqueue ?q p (rq s) = Ok r'" "rq_wf r'" "qlist r' ?q = qlist (rq s) ?q @ [p]"
    "\<And>q'. is_queue q' \<Longrightarrow> q' \<noteq> ?q \<Longrightarrow> qlist r' q' = qlist (rq s) q'"
    using enqueue_Ok [OF tinvD(2) [OF t] q queue_room [OF t q p st], of p] by blast
  let ?s = "s\<lparr>rq := r'\<rparr>"
  have "add_ready ?q p s = Ok ?s" by (simp add: add_ready_def r)
  moreover have "made_ready p s (upd_proc p (\<lambda>x. x\<lparr>p_state := RUNNABLE\<rparr>) ?s)"
    using r(3,4) by (simp add: made_ready_def)
  moreover have "tinv (upd_proc p (\<lambda>x. x\<lparr>p_state := RUNNABLE\<rparr>) ?s)"
    unfolding tinv_def
  proof (intro conjI allI impI)
    fix q' assume q': "is_queue q'"
    have np: "p \<notin> set (qlist (rq s) q')" using tinvD(4) [OF t q'] st by blast
    show "distinct (qlist (rq (upd_proc p (\<lambda>x. x\<lparr>p_state := RUNNABLE\<rparr>) ?s)) q')"
      using tinvD(3) [OF t q'] np r(3,4) q' by (cases "q' = ?q") auto
    show "set (qlist (rq (upd_proc p (\<lambda>x. x\<lparr>p_state := RUNNABLE\<rparr>) ?s)) q') =
      {p'. p' < NPROC \<and> p_state (P (upd_proc p (\<lambda>x. x\<lparr>p_state := RUNNABLE\<rparr>) ?s) p') = RUNNABLE
         \<and> p_priority (P (upd_proc p (\<lambda>x. x\<lparr>p_state := RUNNABLE\<rparr>) ?s) p') = q'}"
      using tinvD(4) [OF t q'] tinvD(1) [OF t] st p r(3,4) q'
      by (cases "q' = ?q") (auto simp: nth_upd)
  qed (use tinvD(1,5) [OF t] r(2) q p in \<open>auto simp: nth_upd split: if_splits\<close>)
  ultimately show thesis by (rule that) simp
qed


subsection \<open>Waking\<close>

definition sleeping_on :: "chan option \<Rightarrow> proc \<Rightarrow> bool" where
  "sleeping_on ch x \<longleftrightarrow> p_state x = SLEEPING \<and> p_chan x = ch"

text \<open>
  \<open>woke ch ps s s'\<close>: exactly the processes among \<open>ps\<close> that sleep on \<open>ch\<close> have become ready, at the
  end of the queue of their priority, in the order of \<open>ps\<close>; nothing else has changed.
\<close>

definition woke :: "chan option \<Rightarrow> nat list \<Rightarrow> kst \<Rightarrow> kst \<Rightarrow> bool" where
  "woke ch ps s s' \<longleftrightarrow>
     frame s' = frame s \<and> length (procs s') = length (procs s)
     \<and> (\<forall>p < NPROC. P s' p =
          (if p \<in> set ps \<and> sleeping_on ch (P s p) then (P s p)\<lparr>p_state := RUNNABLE\<rparr> else P s p))
     \<and> (\<forall>q. is_queue q \<longrightarrow> qlist (rq s') q =
          qlist (rq s) q @ filter (\<lambda>p. sleeping_on ch (P s p) \<and> p_priority (P s p) = q) ps)"

lemma wakeup_loop_Ok:
  assumes "tinv s" and "set ps \<subseteq> {..<NPROC}" and "distinct ps"
  shows "\<exists>s'. wakeup_loop ch ps s = Ok s' \<and> tinv s' \<and> woke ch ps s s'"
  using assms
proof (induction ps arbitrary: s)
  case Nil
  then show ?case by (auto simp: woke_def)
next
  case (Cons p ps)
  have p: "p < NPROC" using Cons.prems by simp
  have len: "length (procs s) = NPROC" by (rule tinvD(1) [OF Cons.prems(1)])
  show ?case
  proof (cases "sleeping_on ch (P s p)")
    case True
    then have sl: "p_state (P s p) = SLEEPING" "p_chan (P s p) = ch" by (auto simp: sleeping_on_def)
    then have q: "is_queue (p_priority (P s p))" using tinvD(5) [OF Cons.prems(1) p] by (simp add: live_def)
    from make_ready [OF Cons.prems(1) p _ q] sl(1) obtain s1 where
      s1: "add_ready (p_priority (P s p)) p s = Ok s1"
        "made_ready p s (upd_proc p (\<lambda>x. x\<lparr>p_state := RUNNABLE\<rparr>) s1)"
        "tinv (upd_proc p (\<lambda>x. x\<lparr>p_state := RUNNABLE\<rparr>) s1)" by auto
    define s2 where "s2 = upd_proc p (\<lambda>x. x\<lparr>p_state := RUNNABLE\<rparr>) s1"
    from Cons.IH [of s2] s1(3) Cons.prems(2,3) obtain s' where
      s': "wakeup_loop ch ps s2 = Ok s'" "tinv s'" "woke ch ps s2 s'" by (auto simp: s2_def)
    have m: "procs s2 = (procs s)[p := (P s p)\<lparr>p_state := RUNNABLE\<rparr>]"
      "qlist (rq s2) (p_priority (P s p)) = qlist (rq s) (p_priority (P s p)) @ [p]"
      "\<And>q. is_queue q \<Longrightarrow> q \<noteq> p_priority (P s p) \<Longrightarrow> qlist (rq s2) q = qlist (rq s) q"
      "frame s2 = frame s"
      using s1(2) by (auto simp: made_ready_def s2_def [symmetric])
    have other: "P s2 p' = P s p'" if "p' \<in> set ps" for p'
      using that Cons.prems(3) by (auto simp: m(1) nth_upd)
    have f: "filter (\<lambda>p. sleeping_on ch (P s2 p) \<and> p_priority (P s2 p) = q) ps =
        filter (\<lambda>p. sleeping_on ch (P s p) \<and> p_priority (P s p) = q) ps" for q
      using other by (intro filter_cong) auto
    have "woke ch (p # ps) s s'"
      unfolding woke_def
    proof (intro conjI allI impI)
      show "frame s' = frame s" using s'(3) m(4) by (simp add: woke_def)
      show "length (procs s') = length (procs s)" using s'(3) m(1) by (simp add: woke_def)
    next
      fix p' assume "p' < NPROC"
      then show "P s' p' = (if p' \<in> set (p # ps) \<and> sleeping_on ch (P s p')
          then (P s p')\<lparr>p_state := RUNNABLE\<rparr> else P s p')"
        using s'(3) True Cons.prems(3) len p by (auto simp: woke_def m(1) nth_upd sleeping_on_def)
    next
      fix q assume "is_queue q"
      then show "qlist (rq s') q = qlist (rq s) q @
          filter (\<lambda>p. sleeping_on ch (P s p) \<and> p_priority (P s p) = q) (p # ps)"
        using s'(3) True m(2,3) f by (cases "q = p_priority (P s p)") (auto simp: woke_def)
    qed
    moreover have "wakeup_loop ch (p # ps) s = Ok s'" using sl s1(1) s'(1) by (simp add: s2_def)
    ultimately show ?thesis using s'(2) by blast
  next
    case False
    then have *: "\<not> (p_state (P s p) = SLEEPING \<and> p_chan (P s p) = ch)" by (simp add: sleeping_on_def)
    from Cons.IH [of s] Cons.prems obtain s' where
      s': "wakeup_loop ch ps s = Ok s'" "tinv s'" "woke ch ps s s'" by auto
    have "woke ch (p # ps) s s'" using s'(3) False by (auto simp: woke_def)
    with s'(1,2) * show ?thesis by auto
  qed
qed

lemma wakeup1_Ok:
  assumes "tinv s"
  obtains s' where "wakeup1 ch s = Ok s'" "tinv s'" "woke ch [0..<NPROC] s s'"
  using wakeup_loop_Ok [OF assms, of "[0..<NPROC]" ch] that by (auto simp: wakeup1_def lessThan_atLeast0)


lemma wokeD:
  assumes "woke ch ps s s'"
  shows "frame s' = frame s" "length (procs s') = length (procs s)"
    "p < NPROC \<Longrightarrow> P s' p =
       (if p \<in> set ps \<and> sleeping_on ch (P s p) then (P s p)\<lparr>p_state := RUNNABLE\<rparr> else P s p)"
    "is_queue q \<Longrightarrow> qlist (rq s') q =
       qlist (rq s) q @ filter (\<lambda>p. sleeping_on ch (P s p) \<and> p_priority (P s p) = q) ps"
  using assms by (simp_all add: woke_def)

lemma held_frame: "frame s' = frame s \<Longrightarrow> held a s' = held a s"
  using frameD(1,2) [of s' s] by (simp add: held_def)

lemma idle_lock_rel [simp]: "held a s \<Longrightarrow> idle_lock a (rel a s)"
proof -
  assume h: "held a s"
  then have f: "find_apic (cpus (mach s)) 0 a \<noteq> None" "\<not> eflags_if (mach s) a" "1 \<le> depth a (mach s)"
    by (auto simp: held_def cpu_wf_def)
  then have "cpu_wf a (pop_m a (mach s))"
    by (auto simp: cpu_wf_def) (auto simp: pop_m_def depth_def Let_def)
  then show ?thesis by (simp add: idle_lock_def)
qed

lemma running_on_simps [simp]:
  "running_on a (upd_proc p f s) = running_on a s" "running_on a (s\<lparr>rq := r\<rparr>) = running_on a s"
  by (simp_all add: running_on_def)

lemma running_on_acq [simp]: "idle_lock a s \<Longrightarrow> running_on a (acq a s) = running_on a s"
  using ci_less [of "mach s" a]
  by (simp add: running_on_def idle_lock_def cpu_wf_def) (simp add: push_m_def Let_def)

lemma running_on_rel [simp]: "held a s \<Longrightarrow> running_on a (rel a s) = running_on a s"
  using ci_less [of "mach s" a]
  by (simp add: running_on_def held_def cpu_wf_def) (simp add: pop_m_def Let_def)

lemma running_on_frame: "frame s' = frame s \<Longrightarrow> running_on a s' = running_on a s"
  using frameD(1) [of s' s] by (simp add: running_on_def)

lemma depth_acq [simp]: "idle_lock a s \<Longrightarrow> depth a (mach (acq a s)) = depth a (mach s) + 1"
  by (simp add: idle_lock_def cpu_wf_def)

subsection \<open>Giving up the CPU\<close>

definition saved_in :: "u8 \<Rightarrow> kst \<Rightarrow> kcontext" where
  "saved_in a s = Ctx_sched (intena (cpus (mach s) ! ci a (mach s)))"

lemma sched_Ok:
  assumes "held a s" and "depth a (mach s) = 1" and "running_on a s = Some p"
    and "p_state (P s p) \<noteq> RUNNING"
  shows "sched a s = Ok (upd_proc p (\<lambda>x. x\<lparr>p_context := saved_in a s\<rparr>) s)"
proof -
  have w: "cpu_wf a (mach s)" and e: "\<not> eflags_if (mach s) a" "find_apic (cpus (mach s)) 0 a \<noteq> None"
    using assms(1) by (auto simp: held_def cpu_wf_def)
  have d: "ncli (cpus (mach s) ! ci a (mach s)) = 1" using assms(2) by (simp add: depth_def)
  show ?thesis
    using assms w d e
    by (simp add: sched_def my_proc_def myproc_Ok holding_Ok mycpu_Ok held_def running_on_def saved_in_def)
qed

lemma yield_out_Ok:
  assumes t: "tinv s" and i: "idle_lock a s" "depth a (mach s) = 0" and r: "running_on a s = Some p"
    and p: "p < NPROC" "p_state (P s p) = RUNNING"
  shows "\<exists>s'. yield_out a s = Ok s' \<and> tinv s' \<and> held a s' \<and> frame s' = frame (acq a s)
    \<and> procs s' = (procs s)[p := (P s p)\<lparr>p_state := RUNNABLE, p_context := saved_in a (acq a s)\<rparr>]
    \<and> qlist (rq s') (p_priority (P s p)) = qlist (rq s) (p_priority (P s p)) @ [p]
    \<and> (\<forall>q. is_queue q \<longrightarrow> q \<noteq> p_priority (P s p) \<longrightarrow> qlist (rq s') q = qlist (rq s) q)"
proof -
  let ?a = "acq a s"
  have q: "is_queue (p_priority (P ?a p))" using tinvD(5) [OF t p(1)] p(2) by (simp add: live_def)
  have t': "tinv ?a" and ns: "p_state (P ?a p) \<noteq> RUNNABLE" using t p by simp_all
  obtain s1 where s1: "add_ready (p_priority (P ?a p)) p ?a = Ok s1"
      "made_ready p ?a (upd_proc p (\<lambda>x. x\<lparr>p_state := RUNNABLE\<rparr>) s1)"
      "tinv (upd_proc p (\<lambda>x. x\<lparr>p_state := RUNNABLE\<rparr>) s1)" "procs s1 = procs ?a"
    using make_ready [OF t' p(1) ns q] by blast
  define s2 where "s2 = upd_proc p (\<lambda>x. x\<lparr>p_state := RUNNABLE\<rparr>) s1"
  have f: "frame s2 = frame ?a" using s1(2) by (simp add: made_ready_def s2_def)
  have len: "p < length (procs s)" using tinvD(1) [OF t] p by simp
  have pr: "procs s2 = (procs s)[p := (P s p)\<lparr>p_state := RUNNABLE\<rparr>]" using s1(4) by (simp add: s2_def)
  have "sched a s2 = Ok (upd_proc p (\<lambda>x. x\<lparr>p_context := saved_in a s2\<rparr>) s2)"
    using i r p len pr held_frame [OF f, of a] running_on_frame [OF f, of a] frameD(1) [OF f]
    by (intro sched_Ok) (auto simp: idle_lock_def cpu_wf_def)
  moreover have "saved_in a s2 = saved_in a ?a" using frameD(1) [OF f] by (simp add: saved_in_def)
  moreover have "yield_out a s = sched a s2"
    using i r s1 by (simp add: yield_out_def pt_simps running_on_def [symmetric] s2_def del: acq_simps(12))
  moreover have "tinv (upd_proc p (\<lambda>x. x\<lparr>p_context := saved_in a ?a\<rparr>) s2)"
    using s1(3) p by (intro tinv_upd) (auto simp: s2_def)
  moreover have "held a s2" using held_frame [OF f, of a] i by simp
  ultimately show ?thesis using f pr len s1(2) by (auto simp: made_ready_def s2_def)
qed


text \<open>A process that has gone to sleep on \<open>ch\<close>.\<close>

definition slept :: "chan option \<Rightarrow> kcontext \<Rightarrow> proc \<Rightarrow> proc" where
  "slept ch ctx x = x\<lparr>p_previousburst := p_bstime x,
     p_estimatedburst := (p_estimatedburst x + p_bstime x) sdiv 2,
     p_chan := ch, p_state := SLEEPING, p_bstime := 0, p_context := ctx\<rparr>"

lemma tinv_slept:
  assumes "tinv s" and "p < NPROC" and "p_state (P s p) = RUNNING"
  shows "tinv (upd_proc p (slept ch ctx) s)"
  using tinvD(5) [OF assms(1,2)] assms by (intro tinv_upd) (auto simp: slept_def live_def)

lemma sleep_update:
  assumes "p < length (procs s)"
  shows "upd_proc p (\<lambda>x. x\<lparr>p_context := ctx\<rparr>) (upd_proc p (\<lambda>x. x\<lparr>p_chan := ch, p_state := SLEEPING, p_bstime := 0\<rparr>)
      (upd_proc p (\<lambda>x. updateBurst (x\<lparr>p_previousburst := p_bstime x\<rparr>)) s)) = upd_proc p (slept ch ctx) s"
  using assms by (simp add: upd_proc_def slept_def updateBurst_def)

lemma my_proc_Ok:
  assumes "cpu_wf a (mach s)" and "running_on a s = Some p"
  shows "my_proc a s = Ok (Some p, s\<lparr>mach := sync a (mach s)\<rparr>)"
  using assms by (simp add: my_proc_def myproc_Ok running_on_def)

lemma sleep_ptable_Ok:
  assumes t: "tinv s" and h: "held a s" "depth a (mach s) = 1" and r: "running_on a s = Some p"
    and p: "p < NPROC" "p_state (P s p) = RUNNING"
  shows "sleep_out a ch PtableLock s = Ok (PtableLock, upd_proc p (slept ch (saved_in a s)) s)"
proof -
  let ?s = "upd_proc p (\<lambda>x. x\<lparr>p_chan := ch, p_state := SLEEPING, p_bstime := 0\<rparr>)
      (upd_proc p (\<lambda>x. updateBurst (x\<lparr>p_previousburst := p_bstime x\<rparr>)) s)"
  have len: "p < length (procs s)" using tinvD(1) [OF t] p by simp
  have "sched a ?s = Ok (upd_proc p (\<lambda>x. x\<lparr>p_context := saved_in a ?s\<rparr>) ?s)"
    using h r len by (intro sched_Ok) simp_all
  moreover have "saved_in a ?s = saved_in a s" by (simp add: saved_in_def)
  moreover have "my_proc a s = Ok (Some p, s)" using my_proc_Ok [of a s p] h r by (simp add: held_def)
  ultimately show ?thesis using sleep_update [OF len] by (simp add: sleep_out_def Let_def)
qed

text \<open>The CPU \<open>a\<close> holds the lock \<open>lk\<close> and no other.\<close>

definition only_lock :: "u8 \<Rightarrow> spinlock \<Rightarrow> machine \<Rightarrow> bool" where
  "only_lock a lk m \<longleftrightarrow> cpu_wf a m \<and> depth a m = 1 \<and> locked lk \<noteq> 0 \<and> lk_cpu lk = Some (ci a m)"

definition unlocked :: "spinlock \<Rightarrow> spinlock" where
  "unlocked lk = lk\<lparr>pcs := (pcs lk)[0 := 0], lk_cpu := None, locked := 0\<rparr>"

lemma sleep_other_Ok:
  assumes t: "tinv s" and i: "locked (ptlock s) = 0" and o: "only_lock a lk (mach s)"
    and r: "running_on a s = Some p" and p: "p < NPROC" "p_state (P s p) = RUNNING"
  shows "\<exists>s'. sleep_out a ch (OtherLock lk) s = Ok (OtherLock (unlocked lk), s') \<and> tinv s' \<and> held a s'
    \<and> depth a (mach s') = 1 \<and> running_on a s' = Some p \<and> rq s' = rq s
    \<and> (\<exists>ctx. procs s' = (procs s)[p := slept ch ctx (P s p)])"
proof -
  have il: "idle_lock a s" using i o by (simp add: idle_lock_def only_lock_def)
  let ?a = "acq a s"
  define s1 where "s1 = ?a\<lparr>mach := pop_m a (mach ?a)\<rparr>"
  have f: "find_apic (cpus (mach s)) 0 a \<noteq> None" "cpu_wf a (mach s)" "0 < depth a (mach s)"
    using o by (auto simp: only_lock_def cpu_wf_def)
  have m1: "mach s1 = mach s" using f by (simp add: s1_def)
  have rel: "release a lk (mach ?a) = Ok (unlocked lk, mach s1)"
    using o f by (simp add: release_held only_lock_def unlocked_def s1_def cpu_wf_def)
  have h: "held a s1" "depth a (mach s1) = 1"
    using held_acq [OF il] o m1 by (auto simp: held_def only_lock_def s1_def acq_def)
  have e: "procs s1 = procs s" "rq s1 = rq s" "?a\<lparr>mach := mach s1\<rparr> = s1" by (simp_all add: s1_def)
  have r1: "running_on a s1 = Some p" using r m1 by (simp add: running_on_def)
  have t1: "tinv s1" using t e by (simp add: tinv_def)
  have mp: "my_proc a s = Ok (Some p, s)" "my_proc a s1 = Ok (Some p, s1)"
    using my_proc_Ok [of a s p] my_proc_Ok [of a s1 p] f r r1 m1 h by (simp_all add: held_def)
  have "sleep_out a ch (OtherLock lk) s = rbind (sleep_out a ch PtableLock s1) (\<lambda>(_, s). Ok (OtherLock (unlocked lk), s))"
    using il rel by (simp add: sleep_out_def mp pt_simps e(3) Let_def rbind_assoc)
  moreover have "sleep_out a ch PtableLock s1 = Ok (PtableLock, upd_proc p (slept ch (saved_in a s1)) s1)"
    using sleep_ptable_Ok [OF t1 h r1] p e by simp
  moreover have "tinv (upd_proc p (slept ch (saved_in a s1)) s1)"
    using tinv_slept [OF t1] p e by simp
  ultimately show ?thesis using h e r1 m1 by auto
qed

subsection \<open>Waking and killing\<close>

lemma wakeup_Ok:
  assumes "tinv s" and i: "idle_lock a s"
  obtains s1 where "wakeup a ch s = Ok (rel a s1)" "tinv s1" "woke ch [0..<NPROC] (acq a s) s1" "held a s1"
proof -
  obtain s1 where s1: "wakeup1 ch (acq a s) = Ok s1" "tinv s1" "woke ch [0..<NPROC] (acq a s) s1"
    using wakeup1_Ok [of "acq a s" ch] assms by auto
  moreover have "held a s1" using held_frame [OF wokeD(1) [OF s1(3)]] i by simp
  ultimately show thesis using that i by (simp add: wakeup_def pt_simps)
qed

lemma wakeup_blocked:
  assumes "cpu_wf b (mach s)" and "locked (ptlock s) \<noteq> 0" and "lk_cpu (ptlock s) \<noteq> Some (ci b (mach s))"
  shows "wakeup b ch s = Blocked"
  using acquire_held_by_other [OF assms] by (simp add: wakeup_def pt_acquire_def)


lemma find_proc_Some:
  "find_proc f ps k = Some i \<Longrightarrow> k \<le> i \<and> i < k + length ps \<and> f (ps ! (i - k)) \<and> (\<forall>j < i - k. \<not> f (ps ! j))"
proof (induction ps arbitrary: k)
  case Nil
  then show ?case by simp
next
  case (Cons x ps)
  show ?case
  proof (cases "f x")
    case True
    with Cons.prems show ?thesis by simp
  next
    case False
    with Cons.prems have "find_proc f ps (Suc k) = Some i" by simp
    from Cons.IH [OF this] False show ?thesis by (auto simp: nth_Cons' less_diff_conv)
  qed
qed

lemma find_proc_None: "find_proc f ps k = None \<longleftrightarrow> (\<forall>x \<in> set ps. \<not> f x)"
  by (induction ps arbitrary: k) auto

lemma find_proc_tableD:
  assumes "find_proc f (procs s) 0 = Some p" and "tinv s"
  shows "p < NPROC" "f (P s p)" "j < p \<Longrightarrow> \<not> f (P s j)"
  using find_proc_Some [OF assms(1)] tinvD(1) [OF assms(2)] by auto

text \<open>What \<^verbatim>\<open>kill\<close> does to the process it finds.\<close>

definition killed_proc :: "proc \<Rightarrow> proc" where
  "killed_proc x = x\<lparr>p_killed := True, p_state := (if p_state x = SLEEPING then RUNNABLE else p_state x)\<rparr>"

lemma kill_none:
  assumes "tinv s" and "idle_lock a s" and "\<forall>p < NPROC. p_pid (P s p) \<noteq> pid"
  shows "kill a pid s = Ok (- 1, rel a (acq a s))"
proof -
  have "find_proc (\<lambda>p. p_pid p = pid) (procs s) 0 = None"
    using assms(3) tinvD(1) [OF assms(1)] by (auto simp: find_proc_None in_set_conv_nth)
  then show ?thesis using assms(2) by (simp add: kill_def pt_simps)
qed

lemma kill_Ok:
  assumes t: "tinv s" and i: "idle_lock a s"
    and f: "find_proc (\<lambda>p. p_pid p = pid) (procs s) 0 = Some p"
  obtains s' where "kill a pid s = Ok (0, s')" "tinv s'" "idle_lock a s'"
    "procs s' = (procs s)[p := killed_proc (P s p)]"
    "\<And>q. is_queue q \<Longrightarrow> qlist (rq s') q = qlist (rq s) q @
        (if p_state (P s p) = SLEEPING \<and> p_priority (P s p) = q then [p] else [])"
proof -
  note p = find_proc_tableD(1) [OF f t]
  let ?k = "upd_proc p (\<lambda>x. x\<lparr>p_killed := True\<rparr>) (acq a s)"
  have tk: "tinv ?k" using t p by (intro tinv_upd) auto
  have len: "p < length (procs s)" using tinvD(1) [OF t] p by simp
  have h: "held a ?k" using i by simp
  show thesis
  proof (cases "p_state (P s p) = SLEEPING")
    case False
    have "kill a pid s = Ok (0, rel a ?k)" using i f False len h by (simp add: kill_def pt_simps Let_def)
    with False tk h show thesis by (intro that [of "rel a ?k"]) (auto simp: killed_proc_def)
  next
    case True
    then have q: "is_queue (p_priority (P ?k p))" and ns: "p_state (P ?k p) \<noteq> RUNNABLE"
      using tinvD(5) [OF t p] len by (simp_all add: live_def)
    obtain s1 where s1: "add_ready (p_priority (P ?k p)) p ?k = Ok s1"
      "made_ready p ?k (upd_proc p (\<lambda>x. x\<lparr>p_state := RUNNABLE\<rparr>) s1)"
      "tinv (upd_proc p (\<lambda>x. x\<lparr>p_state := RUNNABLE\<rparr>) s1)" "procs s1 = procs ?k"
      using make_ready [OF tk p ns q] by blast
    define s2 where "s2 = upd_proc p (\<lambda>x. x\<lparr>p_state := RUNNABLE\<rparr>) s1"
    have h2: "held a s2"
      using s1(2) h held_frame [of s2 ?k] by (simp add: made_ready_def s2_def)
    have "kill a pid s = Ok (0, rel a s2)"
      using i f True len s1 h2 by (simp add: kill_def pt_simps Let_def s2_def)
    moreover have "procs s2 = (procs s)[p := killed_proc (P s p)]"
      using s1(4) True len by (simp add: s2_def killed_proc_def)
    moreover have "qlist (rq s2) q = qlist (rq s) q @ (if p_state (P s p) = SLEEPING \<and> p_priority (P s p) = q then [p] else [])"
      if "is_queue q" for q
      using s1(2) that True len by (auto simp: made_ready_def s2_def)
    ultimately show thesis using s1(3) h2 by (intro that [of "rel a s2"]) (auto simp: s2_def)
  qed
qed


subsection \<open>Process ids\<close>

lemma pinv_cong:
  assumes "nextpid s' = nextpid s"
    and "\<And>p. p < NPROC \<Longrightarrow> p_pid (P s' p) = p_pid (P s p)
      \<and> (p_state (P s' p) = UNUSED \<longleftrightarrow> p_state (P s p) = UNUSED)"
  shows "pinv s' = pinv s"
  by (simp add: pinv_def assms)

lemma pinv_upd:
  assumes "pinv s" and "length (procs s) = NPROC"
    and "p_state (f (P s p)) = UNUSED
      \<or> p_state (P s p) \<noteq> UNUSED \<and> p_pid (f (P s p)) = p_pid (P s p)"
  shows "pinv (upd_proc p f s)"
  using assms unfolding pinv_def by (auto simp: nth_upd)

lemma pinv_frame: "procs s' = procs s \<Longrightarrow> nextpid s' = nextpid s \<Longrightarrow> pinv s' = pinv s"
  by (simp add: pinv_def)

lemma pinv_acq [simp]: "pinv (acq a s) = pinv s" "pinv (rel a s) = pinv s" "pinv (s\<lparr>mach := m\<rparr>) = pinv s"
  "pinv (s\<lparr>rq := r\<rparr>) = pinv s" "pinv (s\<lparr>initproc := ip\<rparr>) = pinv s"
  by (simp_all add: pinv_def)

lemma pinv_woke:
  assumes "pinv s" and "woke ch ps s s'"
  shows "pinv s'"
proof -
  have "pinv s' = pinv s"
    using wokeD(3) [OF assms(2)] frameD(4) [OF wokeD(1) [OF assms(2)]]
    by (intro pinv_cong) (auto simp: sleeping_on_def)
  with assms(1) show ?thesis by simp
qed

lemma pinv_alloc:
  assumes "pinv s" and "length (procs s) = NPROC" and "p_state (P s p) = UNUSED"
    and "p_pid (f (P s p)) = nextpid s" and "nextpid s' = nextpid s + 1"
    and "procs s' = (procs s)[p := f (P s p)]"
  shows "pinv s'"
  using assms unfolding pinv_def by (auto simp: nth_upd less_le_not_le)

subsection \<open>Allocating a process\<close>

definition allocated :: "int \<Rightarrow> u32 \<Rightarrow> proc \<Rightarrow> proc" where
  "allocated pid now x = x\<lparr>p_state := EMBRYO, p_pid := pid, p_ctime := now, p_stime := 0, p_retime := 0,
     p_rutime := 0, p_tickets := 10, p_estimatedburst := 2, p_previousburst := 0, p_bstime := 0,
     p_readyTimeAging := 0\<rparr>"

definition with_stack :: "u32 \<Rightarrow> proc \<Rightarrow> proc" where
  "with_stack k x = x\<lparr>p_kstack := k, p_tf_at := k + KSTACKSIZE - sizeof_trapframe,
     p_context_at := k + KSTACKSIZE - sizeof_trapframe - 4 - sizeof_context, p_context := Ctx_forkret\<rparr>"

lemma allocproc_full:
  assumes "tinv s" and "idle_lock a s" and "\<forall>p < NPROC. p_state (P s p) \<noteq> UNUSED"
  shows "allocproc ops a (s, w) = Ok (None, rel a (acq a s), w)"
proof -
  have "find_proc (\<lambda>p. p_state p = UNUSED) (procs s) 0 = None"
    using assms(3) tinvD(1) [OF assms(1)] by (auto simp: find_proc_None in_set_conv_nth)
  then show ?thesis using assms(2) by (simp add: allocproc_def pt_simps)
qed

lemma allocproc_found:
  assumes t: "tinv s" and i: "idle_lock a s"
    and f: "find_proc (\<lambda>p. p_state p = UNUSED) (procs s) 0 = Some p" and k: "k_kalloc ops w = (k, w')"
  shows "allocproc ops a (s, w) =
    (let s1 = (rel a (acq a s))\<lparr>nextpid := nextpid s + 1\<rparr> in
     if k = 0 then Ok (None, upd_proc p (\<lambda>x. (allocated (nextpid s) (ticks s) x)\<lparr>p_kstack := 0, p_state := UNUSED\<rparr>) s1, w')
     else Ok (Some p, upd_proc p (\<lambda>x. with_stack k (allocated (nextpid s) (ticks s) x)) s1, w'))"
proof -
  let ?s = "upd_proc p (allocated (nextpid s) (ticks s)) ((acq a s)\<lparr>nextpid := nextpid s + 1\<rparr>)"
  have len: "p < length (procs s)" using tinvD(1) [OF t] find_proc_tableD(1) [OF f t] by simp
  have h: "held a ?s" using i by simp
  have u: "upd_proc p (\<lambda>x. x\<lparr>p_ctime := ticks s, p_stime := 0, p_retime := 0, p_rutime := 0,
        p_tickets := 10, p_estimatedburst := 2, p_previousburst := 0, p_bstime := 0, p_readyTimeAging := 0\<rparr>)
      ((upd_proc p (\<lambda>x. x\<lparr>p_state := EMBRYO, p_pid := nextpid s\<rparr>) (acq a s))\<lparr>nextpid := nextpid s + 1\<rparr>) = ?s"
    using len by (simp add: upd_proc_def allocated_def)
  have r: "rel a ?s = upd_proc p (allocated (nextpid s) (ticks s)) ((rel a (acq a s))\<lparr>nextpid := nextpid s + 1\<rparr>)"
    by (simp add: rel_def upd_proc_def acq_def)
  show ?thesis
    using i f k len h u r
    by (simp add: allocproc_def pt_simps Let_def)
       (simp add: upd_proc_def allocated_def with_stack_def diff_diff_eq)
qed


lemma idle_lock_simps [simp]:
  "idle_lock a (upd_proc p f s) = idle_lock a s" "idle_lock a (s\<lparr>nextpid := n\<rparr>) = idle_lock a s"
  "idle_lock a (s\<lparr>rq := r\<rparr>) = idle_lock a s" "idle_lock a (s\<lparr>initproc := ip\<rparr>) = idle_lock a s"
  "idle_lock a (s\<lparr>mach := sync b m\<rparr>) = idle_lock a (s\<lparr>mach := m\<rparr>)" if "b = a"
  using that by (simp_all add: idle_lock_def)

lemma allocproc_OkD:
  assumes t: "tinv s" and pi: "pinv s" and i: "idle_lock a s"
    and al: "allocproc ops a (s, w) = Ok (x, s', w')"
  shows "tinv s'" "pinv s'" "idle_lock a s'" "rq s' = rq s" "running_on a s' = running_on a s"
    "x = None \<Longrightarrow> \<forall>p < NPROC. p_state (P s p) \<noteq> UNUSED \<longrightarrow> P s' p = P s p"
    "x = Some p \<Longrightarrow> p < NPROC \<and> p_state (P s p) = UNUSED \<and> nextpid s' = nextpid s + 1
       \<and> (\<exists>k. k \<noteq> 0 \<and> procs s' = (procs s)[p := with_stack k (allocated (nextpid s) (ticks s) (P s p))])"
proof -
  have ra: "tinv (rel a (acq a s))" "pinv (rel a (acq a s))" "idle_lock a (rel a (acq a s))"
    "running_on a (rel a (acq a s)) = running_on a s"
    using t pi i by simp_all
  have *: "tinv s' \<and> pinv s' \<and> idle_lock a s' \<and> rq s' = rq s \<and> running_on a s' = running_on a s
    \<and> (x = None \<longrightarrow> (\<forall>p < NPROC. p_state (P s p) \<noteq> UNUSED \<longrightarrow> P s' p = P s p))
    \<and> (\<forall>p. x = Some p \<longrightarrow> p < NPROC \<and> p_state (P s p) = UNUSED \<and> nextpid s' = nextpid s + 1
       \<and> (\<exists>k. k \<noteq> 0 \<and> procs s' = (procs s)[p := with_stack k (allocated (nextpid s) (ticks s) (P s p))]))"
  proof (cases "find_proc (\<lambda>p. p_state p = UNUSED) (procs s) 0")
    case None
    then have "\<forall>p < NPROC. p_state (P s p) \<noteq> UNUSED"
      using tinvD(1) [OF t] by (auto simp: find_proc_None)
    from allocproc_full [OF t i this, of ops w] al ra show ?thesis by auto
  next
    case (Some p)
    note p = find_proc_tableD [OF Some t]
    have len: "length (procs s) = NPROC" by (rule tinvD(1) [OF t])
    obtain k w1 where k: "k_kalloc ops w = (k, w1)" by (cases "k_kalloc ops w")
    let ?s1 = "(rel a (acq a s))\<lparr>nextpid := nextpid s + 1\<rparr>"
    let ?f = "if k = 0 then (\<lambda>x. (allocated (nextpid s) (ticks s) x)\<lparr>p_kstack := 0, p_state := UNUSED\<rparr>)
      else (\<lambda>x. with_stack k (allocated (nextpid s) (ticks s) x))"
    have e: "s' = upd_proc p ?f ?s1" "x = (if k = 0 then None else Some p)"
      using allocproc_found [OF t i Some k] al by (auto simp: Let_def split: if_splits)
    have "tinv s'" unfolding e(1) using t p
      by (intro tinv_upd) (auto simp: allocated_def with_stack_def live_def)
    moreover have "pinv s'"
      by (rule pinv_alloc [OF pi len p(2), of ?f]) (auto simp: e(1) allocated_def with_stack_def)
    moreover have "P s' p' = P s p'" if "p' < NPROC" "p_state (P s p') \<noteq> UNUSED" for p'
      using that p(2) by (auto simp: e(1) nth_upd)
    ultimately show ?thesis using e p ra by (auto simp: running_on_def)
  qed
  then show "tinv s'" "pinv s'" "idle_lock a s'" "rq s' = rq s" "running_on a s' = running_on a s"
    "x = None \<Longrightarrow> \<forall>p < NPROC. p_state (P s p) \<noteq> UNUSED \<longrightarrow> P s' p = P s p"
    "x = Some p \<Longrightarrow> p < NPROC \<and> p_state (P s p) = UNUSED \<and> nextpid s' = nextpid s + 1
       \<and> (\<exists>k. k \<noteq> 0 \<and> procs s' = (procs s)[p := with_stack k (allocated (nextpid s) (ticks s) (P s p))])"
    by blast+
qed

lemma allocproc_returns:
  assumes "tinv s" and "idle_lock a s"
  shows "\<exists>x s' w'. allocproc ops a (s, w) = Ok (x, s', w')"
proof (cases "find_proc (\<lambda>p. p_state p = UNUSED) (procs s) 0")
  case None
  then show ?thesis using assms(2) by (simp add: allocproc_def pt_simps)
next
  case (Some p)
  obtain k w1 where "k_kalloc ops w = (k, w1)" by (cases "k_kalloc ops w")
  from allocproc_found [OF assms Some this] show ?thesis by (auto simp: Let_def)
qed

subsection \<open>Forking\<close>

text \<open>\<^verbatim>\<open>filedup\<close> and \<^verbatim>\<open>idup\<close> return the pointer they are given.\<close>

definition dup_laws :: "'w kops \<Rightarrow> bool" where
  "dup_laws ops \<longleftrightarrow> (\<forall>f w f' w'. k_filedup ops f w = Ok (f', w') \<longrightarrow> f' = f)
     \<and> (\<forall>ip w ip' w'. k_idup ops ip w = Ok (ip', w') \<longrightarrow> ip' = ip)"

text \<open>The table of open files of a child after the loop of \<^verbatim>\<open>fork\<close>.\<close>

fun dup_ofile :: "nat list \<Rightarrow> nat option list \<Rightarrow> nat option list \<Rightarrow> nat option list" where
  "dup_ofile [] src dst = dst"
| "dup_ofile (i # is) src dst = dup_ofile is src (if src ! i = None then dst else dst[i := src ! i])"

lemma length_dup_ofile [simp]: "length (dup_ofile is src dst) = length dst"
  by (induction "is" arbitrary: dst) auto

lemma nth_dup_ofile:
  "j < length dst \<Longrightarrow> dup_ofile is src dst ! j = (if j \<in> set is \<and> src ! j \<noteq> None then src ! j else dst ! j)"
  by (induction "is" arbitrary: dst) (auto simp: nth_upd)

lemma dup_files_OkD:
  assumes "dup_files ops cp np is (s, w) = Ok (s', w')" and "cp \<noteq> np" and "np < length (procs s)"
    and law: "dup_laws ops"
  shows "s' = upd_proc np (\<lambda>x. x\<lparr>p_ofile := dup_ofile is (p_ofile (P s cp)) (p_ofile x)\<rparr>) s"
  using assms(1-3)
proof (induction "is" arbitrary: s w)
  case Nil
  then show ?case by (simp add: upd_proc_def)
next
  case (Cons i "is")
  show ?case
  proof (cases "p_ofile (P s cp) ! i")
    case None
    with Cons show ?thesis by simp
  next
    case (Some f)
    with Cons.prems obtain f' w1 where f: "k_filedup ops f w = Ok (f', w1)"
      and d: "dup_files ops cp np is (upd_proc np (\<lambda>x. x\<lparr>p_ofile := (p_ofile x)[i := Some f']\<rparr>) s, w1) = Ok (s', w')"
      by (auto simp: rbind_eq_Ok)
    have "f' = f" using law f by (auto simp: dup_laws_def)
    with Cons.IH [OF d Cons.prems(2)] Cons.prems(2,3) Some show ?thesis by (simp add: upd_proc_def)
  qed
qed

end
