(* ===== verification/ProcLife.thy ===== *)
theory ProcLife
  imports ProcTable
begin

section \<open>Life of a process: fork, sleep and wakeup, kill, exit, wait\<close>

text \<open>
  The properties of the routines of \<^verbatim>\<open>proc.c\<close> that create, block, wake, kill and reap
  processes, over the invariants of theory \<open>ProcTable\<close>.
\<close>

subsection \<open>Forking\<close>

text \<open>A child of \<open>cp\<close> with process id \<open>pid\<close>, as \<^verbatim>\<open>fork\<close> leaves it.\<close>

definition forked_from :: "proc \<Rightarrow> nat \<Rightarrow> int \<Rightarrow> proc \<Rightarrow> bool" where
  "forked_from par cp pid x \<longleftrightarrow> p_state x = RUNNABLE \<and> p_pid x = pid \<and> p_parent x = Some cp
     \<and> p_priority x = PRIO \<and> p_sz x = p_sz par \<and> p_tf x = (p_tf par)\<lparr>tf_eax := 0\<rparr>
     \<and> p_cwd x = p_cwd par \<and> p_name x = take 15 (p_name par) \<and> p_context x = Ctx_forkret
     \<and> (\<forall>i < NOFILE. i < length (p_ofile x) \<longrightarrow> p_ofile par ! i \<noteq> None \<longrightarrow> p_ofile x ! i = p_ofile par ! i)
     \<and> p_rutime x = 0 \<and> p_retime x = 0 \<and> p_stime x = 0 \<and> p_readyTimeAging x = 0"

definition child_of :: "u32 \<Rightarrow> nat \<Rightarrow> nat option \<Rightarrow> proc \<Rightarrow> proc \<Rightarrow> proc" where
  "child_of d cp ip par x = x\<lparr>p_pgdir := d, p_sz := p_sz par, p_parent := Some cp,
     p_tf := (p_tf par)\<lparr>tf_eax := 0\<rparr>, p_ofile := dup_ofile [0..<NOFILE] (p_ofile par) (p_ofile x),
     p_cwd := ip, p_name := take 15 (p_name par)\<rparr>"

lemma fork_enqueue:
  assumes t: "tinv s" and pi: "pinv s" and i: "idle_lock a s" and p: "np < NPROC" "p_state (P s np) = EMBRYO"
  obtains s' where "rbind (pt_acquire a s) (\<lambda>s'.
         rbind (add_ready PRIO np (upd_proc np (\<lambda>x. x\<lparr>p_priority := PRIO\<rparr>) s')) (\<lambda>s'.
         rbind (pt_release a (upd_proc np (\<lambda>x. x\<lparr>p_state := RUNNABLE\<rparr>) s')) (\<lambda>s'. Ok (p_pid (P s np), s', w))))
       = Ok (p_pid (P s np), s', w)"
    "tinv s'" "pinv s'" "idle_lock a s'"
    "procs s' = (procs s)[np := (P s np)\<lparr>p_priority := PRIO, p_state := RUNNABLE\<rparr>]"
    "qlist (rq s') PRIO = qlist (rq s) PRIO @ [np]"
    "\<And>q. is_queue q \<Longrightarrow> q \<noteq> PRIO \<Longrightarrow> qlist (rq s') q = qlist (rq s) q"
proof -
  let ?s = "upd_proc np (\<lambda>x. x\<lparr>p_priority := PRIO\<rparr>) (acq a s)"
  have len: "np < length (procs s)" "length (procs s) = NPROC" using tinvD(1) [OF t] p by simp_all
  have q: "is_queue PRIO" by (simp add: is_queue_def PRIO_def NUMFILAS_def)
  have t1: "tinv ?s" using t p q by (intro tinv_upd) (auto simp: live_def)
  have pr: "p_priority (P ?s np) = PRIO" "p_state (P ?s np) \<noteq> RUNNABLE" using len p by simp_all
  have q1: "is_queue (p_priority (P ?s np))" using q pr by simp
  obtain s1 where s1: "add_ready PRIO np ?s = Ok s1"
      "made_ready np ?s (upd_proc np (\<lambda>x. x\<lparr>p_state := RUNNABLE\<rparr>) s1)"
      "tinv (upd_proc np (\<lambda>x. x\<lparr>p_state := RUNNABLE\<rparr>) s1)" "procs s1 = procs ?s"
    using make_ready [OF t1 p(1) pr(2) q1] pr(1) by auto
  let ?s2 = "upd_proc np (\<lambda>x. x\<lparr>p_state := RUNNABLE\<rparr>) s1"
  have f: "frame ?s2 = frame ?s" using s1(2) by (simp only: made_ready_def)
  have h: "held a ?s2" using held_frame [OF f] i by simp
  have ps: "procs ?s2 = (procs s)[np := (P s np)\<lparr>p_priority := PRIO, p_state := RUNNABLE\<rparr>]"
    using s1(4) len by simp
  have "pinv ?s2 = pinv s"
    using ps p len frameD(4) [OF f] by (intro pinv_cong) (auto simp: nth_upd)
  with pi have "pinv ?s2" by simp
  with s1 h i ps pr(1) len show thesis
    by (intro that [of "rel a ?s2"]) (auto simp: pt_simps made_ready_def)
qed


lemma fork_child_setup:
  assumes "cp \<noteq> np" and "np < length (procs s)"
    and "dup_files ops cp np [0..<NOFILE]
      (upd_proc np (\<lambda>x. x\<lparr>p_sz := p_sz (P (upd_proc np (\<lambda>x. x\<lparr>p_pgdir := d\<rparr>) s) cp), p_parent := Some cp,
          p_tf := (p_tf (P (upd_proc np (\<lambda>x. x\<lparr>p_pgdir := d\<rparr>) s) cp))\<lparr>tf_eax := 0\<rparr>\<rparr>)
        (upd_proc np (\<lambda>x. x\<lparr>p_pgdir := d\<rparr>) s), w) = Ok (s2, w2)"
    and law: "dup_laws ops"
  shows "upd_proc np (\<lambda>x. x\<lparr>p_cwd := ip, p_name := take 15 (p_name (P s2 cp))\<rparr>) s2
      = upd_proc np (child_of d cp ip (P s cp)) s" "p_cwd (P s2 cp) = p_cwd (P s cp)"
  using dup_files_OkD [OF assms(3) assms(1) _ law] assms(1,2)
  by (simp_all add: upd_proc_def child_of_def)

lemma fork_child_OkD:
  assumes t: "tinv s" and pi: "pinv s" and i: "idle_lock a s" and cp: "cp \<noteq> np"
    and p: "np < NPROC" "p_state (P s np) = EMBRYO"
    and ok: "fork_child ops a cp np (s, w) = Ok (r, s', w')"
    and law: "dup_laws ops"
  shows "tinv s' \<and> pinv s' \<and> idle_lock a s' \<and>
    (r = - 1 \<and> rq s' = rq s \<and> (\<forall>p < NPROC. p \<noteq> np \<longrightarrow> P s' p = P s p) \<and> p_state (P s' np) = UNUSED
     \<or> r = p_pid (P s np)
       \<and> (\<exists>d. procs s' = (procs s)[np :=
            (child_of d cp (p_cwd (P s cp)) (P s cp) (P s np))\<lparr>p_priority := PRIO, p_state := RUNNABLE\<rparr>])
       \<and> qlist (rq s') PRIO = qlist (rq s) PRIO @ [np]
       \<and> (\<forall>q. is_queue q \<longrightarrow> q \<noteq> PRIO \<longrightarrow> qlist (rq s') q = qlist (rq s) q))"
proof -
  have len: "np < length (procs s)" "length (procs s) = NPROC" using tinvD(1) [OF t] p by simp_all
  obtain d w1 where d: "k_copyuvm ops (p_pgdir (P s cp)) (p_sz (P s cp)) w = Ok (d, w1)"
    using ok by (auto simp: fork_child_def rbind_eq_Ok)
  let ?s1 = "upd_proc np (\<lambda>x. x\<lparr>p_pgdir := d\<rparr>) s"
  show ?thesis
  proof (cases "d = 0")
    case True
    have r: "r = - 1" and s': "s' = upd_proc np (\<lambda>x. x\<lparr>p_kstack := 0, p_state := UNUSED\<rparr>) ?s1"
      using ok d True by (auto simp: fork_child_def rbind_eq_Ok Let_def)
    have t1: "tinv ?s1" "pinv ?s1" using t pi p len by (auto intro!: tinv_upd pinv_upd)
    then have "tinv s'" "pinv s'" unfolding s' using p len by (auto intro!: tinv_upd pinv_upd simp: live_def)
    with r i len show ?thesis by (auto simp: s')
  next
    case False
    let ?s2 = "upd_proc np (\<lambda>x. x\<lparr>p_sz := p_sz (P ?s1 cp), p_parent := Some cp,
        p_tf := (p_tf (P ?s1 cp))\<lparr>tf_eax := 0\<rparr>\<rparr>) ?s1"
    obtain s3 w3 ip w4 where df: "dup_files ops cp np [0..<NOFILE] (?s2, w1) = Ok (s3, w3)"
      and ip: "k_idup ops (p_cwd (P s3 cp)) w3 = Ok (ip, w4)"
      using ok d False by (auto simp: fork_child_def rbind_eq_Ok Let_def)
    note set_up = fork_child_setup [OF cp len(1) df law]
    define s4 where "s4 = upd_proc np (child_of d cp ip (P s cp)) s"
    have ips: "ip = p_cwd (P s cp)" using law ip set_up(2) unfolding dup_laws_def by metis
    have e4: "upd_proc np (\<lambda>x. x\<lparr>p_cwd := ip, p_name := take 15 (p_name (P s3 cp))\<rparr>) s3 = s4"
      unfolding s4_def by (rule set_up(1))
    have t4: "tinv s4" "pinv s4" "idle_lock a s4" and p4: "p_state (P s4 np) = EMBRYO" "p_pid (P s4 np) = p_pid (P s np)"
      unfolding s4_def using t pi i p len
      by (auto intro!: tinv_upd pinv_upd simp: child_of_def)
    obtain s5 where s5: "rbind (pt_acquire a s4) (\<lambda>s'.
         rbind (add_ready PRIO np (upd_proc np (\<lambda>x. x\<lparr>p_priority := PRIO\<rparr>) s')) (\<lambda>s'.
         rbind (pt_release a (upd_proc np (\<lambda>x. x\<lparr>p_state := RUNNABLE\<rparr>) s')) (\<lambda>s'. Ok (p_pid (P s4 np), s', w4))))
       = Ok (p_pid (P s4 np), s5, w4)"
      "tinv s5" "pinv s5" "idle_lock a s5"
      "procs s5 = (procs s4)[np := (P s4 np)\<lparr>p_priority := PRIO, p_state := RUNNABLE\<rparr>]"
      "qlist (rq s5) PRIO = qlist (rq s4) PRIO @ [np]"
      "\<And>q. is_queue q \<Longrightarrow> q \<noteq> PRIO \<Longrightarrow> qlist (rq s5) q = qlist (rq s4) q"
      using fork_enqueue [OF t4 p(1) p4(1)] by metis
    have "fork_child ops a cp np (s, w) = Ok (p_pid (P s4 np), s5, w4)"
      using d False df ip e4 s5(1) by (simp add: fork_child_def Let_def del: upd_proc_simps(1))
    with ok have "r = p_pid (P s np)" "s' = s5" using p4 by auto
    with s5 len ips show ?thesis by (auto simp: s4_def)
  qed
qed


lemma dup_files_returns:
  assumes "\<And>f w. \<exists>f' w'. k_filedup ops f w = Ok (f', w')"
  shows "\<exists>s' w'. dup_files ops cp np is (s, w) = Ok (s', w')"
proof (induction "is" arbitrary: s w)
  case Nil
  then show ?case by simp
next
  case (Cons i "is")
  show ?case
  proof (cases "p_ofile (P s cp) ! i")
    case None
    with Cons show ?thesis by simp
  next
    case (Some f)
    obtain f' w1 where "k_filedup ops f w = Ok (f', w1)" using assms by blast
    with Some Cons show ?thesis by simp
  qed
qed

text \<open>
  The services \<^verbatim>\<open>fork\<close> uses return: \<^verbatim>\<open>copyuvm\<close> may return 0 and \<^verbatim>\<open>kalloc\<close> may fail, but
  none of them panics.
\<close>

definition fork_services :: "'w kops \<Rightarrow> bool" where
  "fork_services ops \<longleftrightarrow> dup_laws ops
     \<and> (\<forall>d sz w. \<exists>r. k_copyuvm ops d sz w = Ok r) \<and> (\<forall>k w. \<exists>w'. k_kfree ops k w = Ok w')
     \<and> (\<forall>f w. \<exists>r. k_filedup ops f w = Ok r) \<and> (\<forall>ip w. \<exists>r. k_idup ops ip w = Ok r)"

lemma fork_child_returns:
  assumes t: "tinv s" and pi: "pinv s" and i: "idle_lock a s" and cp: "cp \<noteq> np"
    and p: "np < NPROC" "p_state (P s np) = EMBRYO" and sv: "fork_services ops"
  shows "\<exists>r s' w'. fork_child ops a cp np (s, w) = Ok (r, s', w')"
proof -
  have len: "np < length (procs s)" "length (procs s) = NPROC" using tinvD(1) [OF t] p by simp_all
  have law: "dup_laws ops" using sv by (simp add: fork_services_def)
  have fd: "\<exists>f' w'. k_filedup ops f w = Ok (f', w')" for f w
    using sv by (simp add: fork_services_def)
  obtain d w1 where d: "k_copyuvm ops (p_pgdir (P s cp)) (p_sz (P s cp)) w = Ok (d, w1)"
    using sv by (simp add: fork_services_def) (metis surj_pair)
  let ?s1 = "upd_proc np (\<lambda>x. x\<lparr>p_pgdir := d\<rparr>) s"
  show ?thesis
  proof (cases "d = 0")
    case True
    obtain w2 where "k_kfree ops (p_kstack (P ?s1 np)) w1 = Ok w2"
      using sv unfolding fork_services_def by blast
    with d True show ?thesis by (simp add: fork_child_def Let_def)
  next
    case False
    let ?s2 = "upd_proc np (\<lambda>x. x\<lparr>p_sz := p_sz (P ?s1 cp), p_parent := Some cp,
        p_tf := (p_tf (P ?s1 cp))\<lparr>tf_eax := 0\<rparr>\<rparr>) ?s1"
    obtain s3 w3 where df: "dup_files ops cp np [0..<NOFILE] (?s2, w1) = Ok (s3, w3)"
      using dup_files_returns [OF fd] by blast
    obtain ip w4 where ip: "k_idup ops (p_cwd (P s3 cp)) w3 = Ok (ip, w4)"
      using sv by (simp add: fork_services_def) (metis surj_pair)
    define s4 where "s4 = upd_proc np (child_of d cp ip (P s cp)) s"
    have e4: "upd_proc np (\<lambda>x. x\<lparr>p_cwd := ip, p_name := take 15 (p_name (P s3 cp))\<rparr>) s3 = s4"
      unfolding s4_def by (rule fork_child_setup(1) [OF cp len(1) df law])
    have t4: "tinv s4" "pinv s4" "idle_lock a s4" "p_state (P s4 np) = EMBRYO"
      unfolding s4_def using t pi i p len by (auto intro!: tinv_upd pinv_upd simp: child_of_def)
    show ?thesis
      by (rule fork_enqueue [OF t4(1-3) p(1) t4(4), of w4])
         (use d False df ip e4 in \<open>simp add: fork_child_def Let_def del: upd_proc_simps(1)\<close>)
  qed
qed



subsection \<open>A concrete state\<close>

text \<open>
  One CPU (LAPIC id 0) running process 0, process 1 asleep on the tick counter at the lowest
  priority, every other slot free; and services that always succeed.
\<close>

definition unused_proc :: proc where
  "unused_proc = \<lparr>p_sz = 0, p_pgdir = 0, p_kstack = 0, p_state = UNUSED, p_pid = 0, p_parent = None,
     p_tf_at = 0, p_tf = zero_tf, p_context_at = 0, p_context = Ctx_none, p_chan = None,
     p_killed = False, p_ofile = replicate NOFILE None, p_cwd = None, p_name = [], p_ctime = 0,
     p_stime = 0, p_retime = 0, p_rutime = 0, p_bstime = 0, p_clock = 0, p_priority = 0,
     p_tickets = 0, p_estimatedburst = 0, p_previousburst = 0, p_readyTimeAging = 0\<rparr>"

definition demo_running :: proc where
  "demo_running = unused_proc\<lparr>p_state := RUNNING, p_pid := 1, p_priority := 1, p_kstack := 0x80100000,
     p_pgdir := 0x80200000, p_sz := PGSIZE, p_tf := user_tf, p_cwd := Some 0, p_name := ''init'',
     p_ofile := (replicate NOFILE None)[0 := Some 7], p_tickets := 10, p_bstime := 6, p_context := Ctx_sched True\<rparr>"

definition demo_sleeper :: proc where
  "demo_sleeper = unused_proc\<lparr>p_state := SLEEPING, p_pid := 2, p_parent := Some 0, p_priority := 0,
     p_kstack := 0x80300000, p_pgdir := 0x80400000, p_chan := Some TicksChan, p_tickets := 10,
     p_context := Ctx_sched True\<rparr>"

definition demo_machine :: machine where
  "demo_machine = \<lparr>cpus = [\<lparr>apicid = 0, ncli = 0, intena = False, cpu_proc = Some 0\<rparr>],
     eflags_if = (\<lambda>_. True), kmem = (\<lambda>_. 0), arg0 = (\<lambda>_. 0)\<rparr>"

definition demo :: kst where
  "demo = \<lparr>mach = demo_machine, cr3 = (\<lambda>_. 0), ts_esp0 = (\<lambda>_. 0), kpgdir = 0, ptlock = free_lock,
     procs = demo_running # demo_sleeper # replicate (NPROC - 2) unused_proc, rq = empty_rq,
     initproc = Some 0, nextpid = 3, rand_next = 3251, first = False, tickslock = free_lock, ticks = 0\<rparr>"

definition demo_ops :: "unit kops" where
  "demo_ops = \<lparr>k_kalloc = (\<lambda>w. (0x80500000, w)), k_kfree = (\<lambda>_ w. Ok w), k_setupkvm = (\<lambda>w. Ok (0x80600000, w)),
     k_inituvm = (\<lambda>_ w. Ok w), k_copyuvm = (\<lambda>_ _ w. Ok (0x80600000, w)), k_allocuvm = (\<lambda>_ _ n w. Ok (n, w)),
     k_deallocuvm = (\<lambda>_ _ n w. Ok (n, w)), k_freevm = (\<lambda>_ w. Ok w), k_filedup = (\<lambda>f w. Ok (f, w)),
     k_fileclose = (\<lambda>_ w. Ok ([], w)), k_idup = (\<lambda>ip w. Ok (ip, w)), k_begin_op = Ok,
     k_iput = (\<lambda>_ w. Ok ([], w)), k_end_op = (\<lambda>w. Ok ([], w)), k_namei = (\<lambda>_ w. Ok (Some 0, w)),
     k_fsinit = Ok\<rparr>"

lemma demo_procs:
  "length (procs demo) = NPROC" "P demo 0 = demo_running" "P demo (Suc 0) = demo_sleeper"
  "p < NPROC \<Longrightarrow> 1 < p \<Longrightarrow> P demo p = unused_proc"
  by (simp_all add: demo_def NPROC_def nth_Cons' nth_Cons_numeral numeral_eq_Suc)

lemma demo_states:
  "p < NPROC \<Longrightarrow> P demo p = (if p = 0 then demo_running else if p = 1 then demo_sleeper else unused_proc)"
  using demo_procs(4) [of p] demo_procs(2,3) by (cases "p = 0"; cases "p = 1") auto

lemma demo_fields:
  "p_state demo_running = RUNNING" "p_state demo_sleeper = SLEEPING" "p_state unused_proc = UNUSED"
  "p_priority demo_running = 1" "p_priority demo_sleeper = 0" "p_pid demo_running = 1" "p_pid demo_sleeper = 2"
  "p_chan demo_sleeper = Some TicksChan" "p_parent demo_sleeper = Some 0" "p_parent demo_running = None"
  "p_parent unused_proc = None" "p_killed demo_running = False" "p_pid unused_proc = 0"
  "p_kstack demo_running = 0x80100000" "p_pgdir demo_running = 0x80200000" "p_context demo_running = Ctx_sched True"
  "p_kstack demo_sleeper = 0x80300000" "p_pgdir demo_sleeper = 0x80400000" "p_context demo_sleeper = Ctx_sched True"
  "p_tickets demo_running = 10" "p_tickets demo_sleeper = 10"
  by (simp_all add: demo_running_def demo_sleeper_def unused_proc_def)

lemma demo_inv: "tinv demo" "pinv demo" "idle_lock 0 demo" "running_on 0 demo = Some 0" "depth 0 (mach demo) = 0"
proof -
  have q: "rq demo = empty_rq" by (simp add: demo_def)
  show "tinv demo"
    using empty_rq_wf empty_rq_wf(1) [of 0] q demo_procs(1)
    by (auto simp: tinv_def demo_states demo_fields live_def is_queue_def NUMFILAS_def split: if_splits)
  show "pinv demo"
    by (auto simp: pinv_def demo_states demo_fields) (simp_all add: demo_def)
  show "idle_lock 0 demo" "running_on 0 demo = Some 0" "depth 0 (mach demo) = 0"
    by (simp_all add: idle_lock_def running_on_def demo_def demo_machine_def free_lock_def cpu_wf_def depth_def ci_def)
qed

lemma demo_services: "fork_services demo_ops"
  by (simp add: fork_services_def dup_laws_def demo_ops_def)



subsection \<open>Sleep and wakeup\<close>

text \<open>
  \<^verbatim>\<open>wakeup(chan)\<close> returns with the table lock free and the invariants intact; it makes
  every process that sleeps on \<^verbatim>\<open>chan\<close> runnable, and no other process changes; each queue
  is extended, in table order, by exactly the woken processes of its priority.
\<close>
theorem wakeup_wakes_exactly:
  assumes "tinv s" and "pinv s" and "idle_lock a s"
  shows "\<exists>s'. wakeup a ch s = Ok s' \<and> tinv s' \<and> pinv s' \<and> idle_lock a s'
    \<and> (\<forall>p < NPROC. P s' p = (if sleeping_on ch (P s p) then (P s p)\<lparr>p_state := RUNNABLE\<rparr> else P s p))
    \<and> (\<forall>q. is_queue q \<longrightarrow> qlist (rq s') q =
         qlist (rq s) q @ filter (\<lambda>p. sleeping_on ch (P s p) \<and> p_priority (P s p) = q) [0..<NPROC])"
proof -
  obtain s1 where s1: "wakeup a ch s = Ok (rel a s1)" "tinv s1" "woke ch [0..<NPROC] (acq a s) s1" "held a s1"
    using wakeup_Ok [OF assms(1,3)] .
  have "pinv s1" using pinv_woke [OF _ s1(3)] assms(2) by simp
  then show ?thesis
    using s1 wokeD(3,4) [OF s1(3)] by (intro exI [of _ "rel a s1"]) simp
qed

theorem wakeup_wakes_exactly_witness:
  "\<exists>s'. wakeup 0 (Some TicksChan) demo = Ok s' \<and> p_state (P s' 1) = RUNNABLE \<and> p_state (P s' 0) = RUNNING"
proof -
  have "0 < NPROC" "1 < NPROC" by (simp_all add: NPROC_def)
  moreover obtain s' where "wakeup 0 (Some TicksChan) demo = Ok s'"
    "\<forall>p < NPROC. P s' p = (if sleeping_on (Some TicksChan) (P demo p) then (P demo p)\<lparr>p_state := RUNNABLE\<rparr> else P demo p)"
    using wakeup_wakes_exactly [OF demo_inv(1-3), of "Some TicksChan"] by blast
  ultimately show ?thesis by (simp add: sleeping_on_def demo_states demo_fields)
qed


definition demo_lock :: spinlock where
  "demo_lock = free_lock\<lparr>locked := 1, lk_cpu := Some 0\<rparr>"

definition demo_locked :: kst where
  "demo_locked = demo\<lparr>mach := push_m 0 demo_machine\<rparr>"

lemma demo_locked_facts:
  "tinv demo_locked" "locked (ptlock demo_locked) = 0" "only_lock 0 demo_lock (mach demo_locked)"
  "running_on 0 demo_locked = Some 0" "0 < NPROC" "p_state (P demo_locked 0) = RUNNING"
proof -
  have e: "procs demo_locked = procs demo" "rq demo_locked = rq demo" "ptlock demo_locked = free_lock"
    by (simp_all add: demo_locked_def) (simp add: demo_def)
  show "tinv demo_locked" using demo_inv(1) e by (simp add: tinv_def)
  show "locked (ptlock demo_locked) = 0" using e by (simp add: free_lock_def)
  show "only_lock 0 demo_lock (mach demo_locked)" "running_on 0 demo_locked = Some 0" "0 < NPROC"
    by (simp_all add: only_lock_def running_on_def demo_locked_def demo_lock_def cpu_wf_def NPROC_def
        demo_machine_def push_m_def ci_def depth_def)
  show "p_state (P demo_locked 0) = RUNNING" using e demo_procs(2) by (simp add: demo_fields)
qed


text \<open>
  \<^verbatim>\<open>kill(pid)\<close>: if no process has the id it returns -1 and changes no process. Otherwise
  it returns 0; the first process with that id is marked killed and, if it was asleep, is made
  runnable and appended to the queue of its priority (so that it runs and can exit); nothing
  else changes and the invariants hold.
\<close>
theorem kill_marks_and_wakes:
  assumes "tinv s" and "idle_lock a s"
  shows "\<exists>r s'. kill a pid s = Ok (r, s') \<and> tinv s' \<and> idle_lock a s'
    \<and> (if \<exists>p < NPROC. p_pid (P s p) = pid
       then r = 0 \<and> (\<exists>p < NPROC. p_pid (P s p) = pid \<and> (\<forall>j < p. p_pid (P s j) \<noteq> pid)
              \<and> procs s' = (procs s)[p := killed_proc (P s p)]
              \<and> (\<forall>q. is_queue q \<longrightarrow> qlist (rq s') q = qlist (rq s) q @
                   (if p_state (P s p) = SLEEPING \<and> p_priority (P s p) = q then [p] else [])))
       else r = - 1 \<and> procs s' = procs s \<and> rq s' = rq s)"
proof (cases "find_proc (\<lambda>p. p_pid p = pid) (procs s) 0")
  case None
  then have "\<forall>p < NPROC. p_pid (P s p) \<noteq> pid"
    using tinvD(1) [OF assms(1)] by (auto simp: find_proc_None)
  with kill_none [OF assms this] show ?thesis using assms by auto
next
  case (Some p)
  note p = find_proc_tableD [OF Some assms(1)]
  obtain s' where s': "kill a pid s = Ok (0, s')" "tinv s'" "idle_lock a s'"
    "procs s' = (procs s)[p := killed_proc (P s p)]"
    "\<And>q. is_queue q \<Longrightarrow> qlist (rq s') q = qlist (rq s) q @
        (if p_state (P s p) = SLEEPING \<and> p_priority (P s p) = q then [p] else [])"
    using kill_Ok [OF assms Some] by blast
  have ex: "\<exists>p < NPROC. p_pid (P s p) = pid" using p by blast
  show ?thesis
    unfolding if_P [OF ex] using s' p by blast
qed

theorem kill_marks_and_wakes_witness:
  "\<exists>s'. kill 0 2 demo = Ok (0, s') \<and> p_killed (P s' 1) \<and> p_state (P s' 1) = RUNNABLE \<and> qlist (rq s') 0 = [1]"
proof -
  have n: "1 < NPROC" by (simp add: NPROC_def)
  then have ex: "\<exists>p < NPROC. p_pid (P demo p) = 2" using demo_states demo_fields by (intro exI [of _ 1]) simp
  from kill_marks_and_wakes [OF demo_inv(1,3), of 2] obtain s' p where s': "kill 0 2 demo = Ok (0, s')"
    "p < NPROC" "p_pid (P demo p) = 2" "procs s' = (procs demo)[p := killed_proc (P demo p)]"
    "\<forall>q. is_queue q \<longrightarrow> qlist (rq s') q = qlist (rq demo) q @
       (if p_state (P demo p) = SLEEPING \<and> p_priority (P demo p) = q then [p] else [])"
    unfolding if_P [OF ex] by blast
  have p: "p = 1" using s'(2,3) by (simp add: demo_states demo_fields split: if_splits)
  have "qlist (rq s') 0 = [1]"
    using s'(5) p n empty_rq_wf(2) [of 0]
    by (simp add: demo_states demo_fields is_queue_def NUMFILAS_def) (simp add: demo_def)
  with s' p n demo_procs(1) show ?thesis by (simp add: killed_proc_def demo_states demo_fields)
qed

end
