(* ===== verification/ProcExit.thy ===== *)
theory ProcExit
  imports ProcLife
begin

section \<open>Exit and wait\<close>

text \<open>
  \<^verbatim>\<open>exit\<close> closes the files of the process, hands its children to \<^verbatim>\<open>init\<close>, wakes its parent
  and enters the scheduler as a zombie; \<^verbatim>\<open>wait\<close> and \<^verbatim>\<open>wait2\<close> reap a zombie child, give up
  when there is nothing to wait for, or sleep. The lemmas follow the loops of the code; \<open>stable\<close>
  relates the states before and after the calls that may only wake other processes.
\<close>

text \<open>A process was left alone, or was asleep and has been made runnable.\<close>

definition wakes :: "proc \<Rightarrow> proc \<Rightarrow> bool" where
  "wakes x y \<longleftrightarrow> y = x \<or> p_state x = SLEEPING \<and> y = x\<lparr>p_state := RUNNABLE\<rparr>"

lemma wakes_refl [simp]: "wakes x x"
  by (simp add: wakes_def)

lemma wakes_trans: "wakes x y \<Longrightarrow> wakes y z \<Longrightarrow> wakes x z"
  by (auto simp: wakes_def)

lemma wakes_awake: "wakes x y \<Longrightarrow> p_state x \<noteq> SLEEPING \<Longrightarrow> y = x"
  by (simp add: wakes_def)

definition stable :: "u8 \<Rightarrow> kst \<Rightarrow> kst \<Rightarrow> bool" where
  "stable a s s' \<longleftrightarrow> tinv s' \<and> pinv s' \<and> idle_lock a s' \<and> depth a (mach s') = depth a (mach s)
     \<and> running_on a s' = running_on a s \<and> initproc s' = initproc s
     \<and> (\<forall>p < NPROC. wakes (P s p) (P s' p))"

lemma stable_trans: "stable a s s1 \<Longrightarrow> stable a s1 s2 \<Longrightarrow> stable a s s2"
  by (auto simp: stable_def intro: wakes_trans)

lemma woke_wakes: "woke ch ps s s' \<Longrightarrow> p < NPROC \<Longrightarrow> wakes (P s p) (P s' p)"
  using wokeD(3) [of ch ps s s' p] by (auto simp: wakes_def sleeping_on_def)

lemma wakeup_stable:
  assumes "tinv s" and "pinv s" and "idle_lock a s"
  shows "\<exists>s'. wakeup a ch s = Ok s' \<and> stable a s s'"
proof -
  obtain s1 where s1: "wakeup a ch s = Ok (rel a s1)" "tinv s1" "woke ch [0..<NPROC] (acq a s) s1" "held a s1"
    using wakeup_Ok [OF assms(1,3)] .
  note f = frameD [OF wokeD(1) [OF s1(3)]]
  have "pinv s1" using pinv_woke [OF _ s1(3)] assms(2) by simp
  moreover have "depth a (mach (rel a s1)) = depth a (mach s)"
    using f(1) assms(3) s1(4) by (simp add: held_def cpu_wf_def idle_lock_def)
  moreover have "running_on a (rel a s1) = running_on a s"
    using running_on_frame [OF wokeD(1) [OF s1(3)], of a] assms(3) s1(4) by simp
  moreover have "wakes (P s p) (P (rel a s1) p)" if "p < NPROC" for p
    using woke_wakes [OF s1(3) that] by simp
  ultimately show ?thesis using s1 f(3) by (auto simp: stable_def)
qed

lemma wakeups_stable:
  assumes "tinv s" and "pinv s" and "idle_lock a s"
  shows "\<exists>s'. wakeups a chs s = Ok s' \<and> stable a s s'"
  using assms
proof (induction chs arbitrary: s)
  case Nil
  then show ?case by (simp add: stable_def)
next
  case (Cons ch chs)
  then obtain s1 where s1: "wakeup a (Some ch) s = Ok s1" "stable a s s1" using wakeup_stable by blast
  then obtain s2 where "wakeups a chs s1 = Ok s2" "stable a s1 s2"
    using Cons.IH [of s1] by (auto simp: stable_def)
  with s1 show ?case by (auto intro: stable_trans)
qed

subsection \<open>Closing the files\<close>

text \<open>A process without its open files and working directory.\<close>

definition bare :: "proc \<Rightarrow> proc" where
  "bare x = x\<lparr>p_ofile := [], p_cwd := None\<rparr>"

lemma bare_simps [simp]:
  "bare (x\<lparr>p_ofile := fs\<rparr>) = bare x" "bare (x\<lparr>p_cwd := ip\<rparr>) = bare x"
  by (simp_all add: bare_def)

lemma bareD:
  assumes "bare x = bare y"
  shows "p_state x = p_state y" "p_pid x = p_pid y" "p_parent x = p_parent y" "p_priority x = p_priority y"
    "p_killed x = p_killed y" "p_chan x = p_chan y" "p_kstack x = p_kstack y" "p_pgdir x = p_pgdir y"
  using assms by (cases x, cases y, simp add: bare_def)+

text \<open>What the calls of \<^verbatim>\<open>exit\<close> on process \<open>cp\<close> keep before it takes the table lock.\<close>

definition closing :: "u8 \<Rightarrow> nat \<Rightarrow> kst \<Rightarrow> kst \<Rightarrow> bool" where
  "closing a cp s s' \<longleftrightarrow> tinv s' \<and> pinv s' \<and> idle_lock a s' \<and> depth a (mach s') = depth a (mach s)
     \<and> running_on a s' = running_on a s \<and> initproc s' = initproc s
     \<and> bare (P s' cp) = bare (P s cp) \<and> (\<forall>p < NPROC. p \<noteq> cp \<longrightarrow> wakes (P s p) (P s' p))"

lemma closing_trans: "closing a cp s s1 \<Longrightarrow> closing a cp s1 s2 \<Longrightarrow> closing a cp s s2"
  by (auto simp: closing_def intro: wakes_trans)

lemma stable_closing:
  assumes "stable a s s'" and "cp < NPROC" and "p_state (P s cp) = RUNNING"
  shows "closing a cp s s'" "P s' cp = P s cp"
  using assms wakes_awake [of "P s cp" "P s' cp"] by (auto simp: closing_def stable_def)

lemma closing_upd:
  assumes "tinv s" "pinv s" "idle_lock a s" and "cp < NPROC" and "bare (f (P s cp)) = bare (P s cp)"
  shows "closing a cp s (upd_proc cp f s)"
proof -
  have len: "length (procs s) = NPROC" by (rule tinvD(1) [OF assms(1)])
  note b = bareD [OF assms(5)]
  have "tinv (upd_proc cp f s)" using assms(1,4) b by (intro tinv_upd) auto
  moreover have "pinv (upd_proc cp f s) = pinv s"
    using b assms(4) len by (intro pinv_cong) (auto simp: nth_upd)
  ultimately show ?thesis using assms len by (auto simp: closing_def nth_upd)
qed

lemma close_files_Ok:
  assumes "tinv s" and "pinv s" and "idle_lock a s" and "cp < NPROC" and "p_state (P s cp) = RUNNING"
    and sv: "\<And>f w. \<exists>chs w'. k_fileclose ops f w = Ok (chs, w')"
  shows "\<exists>s' w'. close_files ops a cp fds (s, w) = Ok (s', w') \<and> closing a cp s s'
    \<and> length (p_ofile (P s' cp)) = length (p_ofile (P s cp))
    \<and> (\<forall>i < length (p_ofile (P s cp)). p_ofile (P s' cp) ! i = (if i \<in> set fds then None else p_ofile (P s cp) ! i))"
  using assms(1-5)
proof (induction fds arbitrary: s w)
  case Nil
  then show ?case by (simp add: closing_def)
next
  case (Cons fd fds)
  have len: "cp < length (procs s)" using tinvD(1) [OF Cons.prems(1)] Cons.prems(4) by simp
  show ?case
  proof (cases "p_ofile (P s cp) ! fd")
    case None
    then show ?thesis using Cons.IH [OF Cons.prems, of w] by auto
  next
    case (Some f)
    obtain chs w1 where c: "k_fileclose ops f w = Ok (chs, w1)" using sv by blast
    obtain s1 where s1: "wakeups a chs s = Ok s1" "stable a s s1"
      using wakeups_stable [OF Cons.prems(1-3)] by blast
    note st = stable_closing [OF s1(2) Cons.prems(4,5)]
    have i1: "tinv s1" "pinv s1" "idle_lock a s1" using s1(2) by (simp_all add: stable_def)
    define s2 where "s2 = upd_proc cp (\<lambda>x. x\<lparr>p_ofile := (p_ofile x)[fd := None]\<rparr>) s1"
    have c2: "closing a cp s1 s2" unfolding s2_def by (rule closing_upd [OF i1 Cons.prems(4)]) simp
    have len1: "cp < length (procs s1)" using tinvD(1) [OF i1(1)] Cons.prems(4) by simp
    have p2: "P s2 cp = (P s cp)\<lparr>p_ofile := (p_ofile (P s cp))[fd := None]\<rparr>"
      using len1 st(2) by (simp add: s2_def)
    have "tinv s2" "pinv s2" "idle_lock a s2" "p_state (P s2 cp) = RUNNING"
      using c2 p2 Cons.prems(5) by (simp_all add: closing_def)
    from Cons.IH [OF this(1-3) Cons.prems(4) this(4), of w1] obtain s' w' where
      s': "close_files ops a cp fds (s2, w1) = Ok (s', w')" "closing a cp s2 s'"
        "length (p_ofile (P s' cp)) = length (p_ofile (P s2 cp))"
        "\<forall>i < length (p_ofile (P s2 cp)). p_ofile (P s' cp) ! i = (if i \<in> set fds then None else p_ofile (P s2 cp) ! i)"
      by blast
    have "closing a cp s s'" using closing_trans [OF closing_trans [OF st(1) c2] s'(2)] .
    moreover have "close_files ops a cp (fd # fds) (s, w) = Ok (s', w')"
      using Some c s1(1) s'(1) by (simp add: s2_def)
    ultimately show ?thesis using s'(3,4) p2 by (auto simp: nth_upd)
  qed
qed

subsection \<open>Passing the children to init\<close>

text \<open>
  \<open>adopted\<close>: the children of \<open>cp\<close> among \<open>ps\<close> have become children of \<^verbatim>\<open>init\<close>; besides that a
  process may only have been woken.
\<close>

definition adopted :: "nat \<Rightarrow> nat list \<Rightarrow> kst \<Rightarrow> kst \<Rightarrow> bool" where
  "adopted cp ps s s' \<longleftrightarrow> frame s' = frame s \<and> (\<forall>p < NPROC.
     wakes (if p \<in> set ps \<and> p_parent (P s p) = Some cp then (P s p)\<lparr>p_parent := initproc s\<rparr> else P s p) (P s' p))"

lemma wakes_parent: "wakes x y \<Longrightarrow> p_parent y = p_parent x \<and> (p_state y = ZOMBIE \<longleftrightarrow> p_state x = ZOMBIE)"
  by (auto simp: wakes_def)

lemma wakes_upd_parent: "wakes x y \<Longrightarrow> wakes (x\<lparr>p_parent := q\<rparr>) (y\<lparr>p_parent := q\<rparr>)"
  by (auto simp: wakes_def)

lemma reparent_Ok:
  assumes "tinv s" and "set ps \<subseteq> {..<NPROC}" and "distinct ps" and "initproc s \<noteq> Some cp"
  shows "\<exists>s'. reparent cp ps s = Ok s' \<and> tinv s' \<and> adopted cp ps s s'
    \<and> ((\<exists>p \<in> set ps. p_parent (P s p) = Some cp \<and> p_state (P s p) = ZOMBIE) \<longrightarrow>
        (\<forall>p < NPROC. \<not> sleeping_on (map_option ProcChan (initproc s)) (P s' p)))"
  using assms
proof (induction ps arbitrary: s)
  case Nil
  then show ?case by (simp add: adopted_def)
next
  case (Cons p ps)
  have p: "p < NPROC" "p \<notin> set ps" using Cons.prems by simp_all
  have len: "p < length (procs s)" using tinvD(1) [OF Cons.prems(1)] p by simp
  show ?case
  proof (cases "p_parent (P s p) = Some cp")
    case False
    then have e: "(j \<in> set (p # ps) \<and> p_parent (P s j) = Some cp) = (j \<in> set ps \<and> p_parent (P s j) = Some cp)" for j
      by auto
    have "adopted cp (p # ps) s s' = adopted cp ps s s'" for s' unfolding adopted_def e ..
    with Cons.IH [of s] Cons.prems False show ?thesis by auto
  next
    case True
    define s1 where "s1 = upd_proc p (\<lambda>x. x\<lparr>p_parent := initproc s\<rparr>) s"
    have t1: "tinv s1" unfolding s1_def using Cons.prems(1) p by (intro tinv_upd) auto
    have p1: "P s1 p = (P s p)\<lparr>p_parent := initproc s\<rparr>" "\<And>j. j \<noteq> p \<Longrightarrow> P s1 j = P s j"
      "initproc s1 = initproc s" using len by (simp_all add: s1_def)
    obtain s2 where s2: "(if p_state (P s1 p) = ZOMBIE then wakeup1 (map_option ProcChan (initproc s)) s1 else Ok s1) = Ok s2"
      "tinv s2" "frame s2 = frame s1" "\<And>j. j < NPROC \<Longrightarrow> wakes (P s1 j) (P s2 j)"
      "p_state (P s1 p) = ZOMBIE \<Longrightarrow> j < NPROC \<Longrightarrow> \<not> sleeping_on (map_option ProcChan (initproc s)) (P s2 j)" for j
    proof (cases "p_state (P s1 p) = ZOMBIE")
      case True
      obtain s2 where "wakeup1 (map_option ProcChan (initproc s)) s1 = Ok s2" "tinv s2"
        "woke (map_option ProcChan (initproc s)) [0..<NPROC] s1 s2" using wakeup1_Ok [OF t1] .
      with True that [of s2] wokeD [of "map_option ProcChan (initproc s)" "[0..<NPROC]" s1 s2]
        woke_wakes [of "map_option ProcChan (initproc s)" "[0..<NPROC]" s1 s2]
      show thesis by (auto simp: sleeping_on_def)
    next
      case False
      then show thesis using that [of s1] t1 by simp
    qed
    have ini: "initproc s2 = initproc s" using frameD(3) [OF s2(3)] p1(3) by simp
    obtain s' where s': "reparent cp ps s2 = Ok s'" "tinv s'" "adopted cp ps s2 s'"
      "(\<exists>p \<in> set ps. p_parent (P s2 p) = Some cp \<and> p_state (P s2 p) = ZOMBIE) \<longrightarrow>
        (\<forall>p < NPROC. \<not> sleeping_on (map_option ProcChan (initproc s2)) (P s' p))"
      using Cons.IH [OF s2(2)] Cons.prems ini by auto
    have par: "p_parent (P s2 j) = p_parent (P s1 j)" "p_state (P s2 j) = ZOMBIE \<longleftrightarrow> p_state (P s1 j) = ZOMBIE"
      if "j < NPROC" for j using wakes_parent [OF s2(4) [OF that]] by blast+
    have w2: "wakes (P s1 j) (P s2 j)" "wakes (if j \<in> set ps \<and> p_parent (P s2 j) = Some cp
        then (P s2 j)\<lparr>p_parent := initproc s\<rparr> else P s2 j) (P s' j)" if "j < NPROC" for j
      using s2(4) s'(3) that ini by (auto simp: adopted_def)
    have "adopted cp (p # ps) s s'"
      unfolding adopted_def
    proof (intro conjI allI impI)
      show "frame s' = frame s" using s'(3) s2(3) by (simp add: adopted_def s1_def)
      fix j assume j: "j < NPROC"
      show "wakes (if j \<in> set (p # ps) \<and> p_parent (P s j) = Some cp then (P s j)\<lparr>p_parent := initproc s\<rparr> else P s j) (P s' j)"
        using w2 [OF j] par [OF j] p1(1) p1(2) [of j] True Cons.prems(4) p(2)
          wakes_upd_parent [OF w2(1) [OF j], of "initproc s"]
        by (cases "j = p") (auto intro: wakes_trans)
    qed
    moreover have "\<not> sleeping_on (map_option ProcChan (initproc s)) (P s' j)"
      if z: "\<exists>q \<in> set (p # ps). p_parent (P s q) = Some cp \<and> p_state (P s q) = ZOMBIE" and j: "j < NPROC" for j
    proof (cases "p_state (P s p) = ZOMBIE")
      case True
      then have "\<not> sleeping_on (map_option ProcChan (initproc s)) (P s2 j)" using s2(5) [OF _ j] p1(1) by simp
      then show ?thesis using w2(2) [OF j] by (auto simp: wakes_def sleeping_on_def split: if_splits)
    next
      case False
      with z obtain q where q: "q \<in> set ps" "p_parent (P s q) = Some cp" "p_state (P s q) = ZOMBIE" by auto
      then have "q < NPROC" "q \<noteq> p" using Cons.prems p by auto
      then have "p_parent (P s2 q) = Some cp \<and> p_state (P s2 q) = ZOMBIE" using par [of q] p1(2) q by simp
      then show ?thesis using s'(4) q(1) j ini by auto
    qed
    moreover have "reparent cp (p # ps) s = Ok s'" using True s2(1) s'(1) p1(3)
      by (simp add: s1_def [symmetric] Let_def del: upd_proc_simps split: if_splits)
    ultimately show ?thesis using s'(2) by blast
  qed
qed


subsection \<open>The properties\<close>

text \<open>The services \<^verbatim>\<open>exit\<close> uses return (they may wake processes).\<close>

definition exit_services :: "'w kops \<Rightarrow> bool" where
  "exit_services ops \<longleftrightarrow> (\<forall>f w. \<exists>chs w'. k_fileclose ops f w = Ok (chs, w'))
     \<and> (\<forall>w. \<exists>w'. k_begin_op ops w = Ok w') \<and> (\<forall>ip w. \<exists>chs w'. k_iput ops ip w = Ok (chs, w'))
     \<and> (\<forall>w. \<exists>chs w'. k_end_op ops w = Ok (chs, w'))"

lemma exit_close_Ok:
  assumes i: "tinv s" "pinv s" "idle_lock a s" and cp: "cp < NPROC" "p_state (P s cp) = RUNNING"
    and n: "length (p_ofile (P s cp)) = NOFILE" and sv: "exit_services ops"
  shows "\<exists>s' w'. exit_close ops a cp (s, w) = Ok (s', w') \<and> closing a cp s s'
    \<and> p_cwd (P s' cp) = None \<and> p_ofile (P s' cp) = replicate NOFILE None"
proof -
  have cl: "\<And>f w. \<exists>chs w'. k_fileclose ops f w = Ok (chs, w')" using sv by (simp add: exit_services_def)
  obtain s1 w1 where s1: "close_files ops a cp [0..<NOFILE] (s, w) = Ok (s1, w1)" "closing a cp s s1"
    "length (p_ofile (P s1 cp)) = NOFILE" "\<forall>i < NOFILE. p_ofile (P s1 cp) ! i = None"
    using close_files_Ok [OF i cp cl, of "[0..<NOFILE]" w] n by auto
  have i1: "tinv s1" "pinv s1" "idle_lock a s1" "p_state (P s1 cp) = RUNNING"
    using s1(2) cp bareD(1) [of "P s1 cp" "P s cp"] by (simp_all add: closing_def)
  obtain w2 where w2: "k_begin_op ops w1 = Ok w2" using sv unfolding exit_services_def by blast
  obtain chs w3 where w3: "k_iput ops (p_cwd (P s1 cp)) w2 = Ok (chs, w3)"
    using sv unfolding exit_services_def by blast
  obtain s2 where s2: "wakeups a chs s1 = Ok s2" "stable a s1 s2" using wakeups_stable [OF i1(1-3)] by blast
  obtain chs' w4 where w4: "k_end_op ops w3 = Ok (chs', w4)" using sv unfolding exit_services_def by blast
  have i2: "tinv s2" "pinv s2" "idle_lock a s2" using s2(2) by (simp_all add: stable_def)
  obtain s3 where s3: "wakeups a chs' s2 = Ok s3" "stable a s2 s3" using wakeups_stable [OF i2] by blast
  note c3 = stable_closing [OF stable_trans [OF s2(2) s3(2)] cp(1) i1(4)]
  have i3: "tinv s3" "pinv s3" "idle_lock a s3" using s3(2) by (simp_all add: stable_def)
  let ?s = "upd_proc cp (\<lambda>x. x\<lparr>p_cwd := None\<rparr>) s3"
  have "closing a cp s3 ?s" by (rule closing_upd [OF i3 cp(1)]) simp
  then have "closing a cp s ?s" using closing_trans [OF closing_trans [OF s1(2) c3(1)]] by blast
  moreover have len: "cp < length (procs s3)" using tinvD(1) [OF i3(1)] cp by simp
  moreover have "p_ofile (P s1 cp) = replicate NOFILE None" using s1(3,4) by (intro nth_equalityI) auto
  ultimately show ?thesis using s1(1) w2 w3 s2(1) w4 s3(1) c3(2) by (simp add: exit_close_def)
qed

text \<open>The locked part of \<^verbatim>\<open>exit\<close>, in a state where the process \<open>cp\<close> runs and holds no lock.\<close>

lemma exit_locked:
  assumes i: "tinv s" "idle_lock a s" "depth a (mach s) = 0" "running_on a s = Some cp" "initproc s \<noteq> Some cp"
    and cp: "cp < NPROC" "p_state (P s cp) = RUNNING" "p_parent (P s cp) \<noteq> Some cp"
  obtains s' where "rbind (pt_acquire a s) (\<lambda>s.
       rbind (wakeup1 (map_option ProcChan (p_parent (P s cp))) s) (\<lambda>s.
       rbind (reparent cp [0..<NPROC] s) (\<lambda>s.
       rbind (sched a (upd_proc cp (\<lambda>x. x\<lparr>p_state := ZOMBIE\<rparr>) s)) (\<lambda>s. Ok (s, w))))) = Ok (s', w)"
    "tinv s'" "held a s'" "\<exists>ctx. P s' cp = (P s cp)\<lparr>p_state := ZOMBIE, p_context := ctx\<rparr>"
    "\<forall>p < NPROC. \<not> sleeping_on (map_option ProcChan (p_parent (P s cp))) (P s' p)"
    "\<And>p. p < NPROC \<Longrightarrow> p \<noteq> cp \<Longrightarrow>
       wakes (if p_parent (P s p) = Some cp then (P s p)\<lparr>p_parent := initproc s\<rparr> else P s p) (P s' p)"
    "(\<exists>p < NPROC. p_parent (P s p) = Some cp \<and> p_state (P s p) = ZOMBIE) \<longrightarrow>
       (\<forall>p < NPROC. \<not> sleeping_on (map_option ProcChan (initproc s)) (P s' p))"
proof -
  let ?par = "map_option ProcChan (p_parent (P s cp))"
  obtain s2 where s2: "wakeup1 ?par (acq a s) = Ok s2" "tinv s2" "woke ?par [0..<NPROC] (acq a s) s2"
    using wakeup1_Ok [of "acq a s"] i(1) by auto
  note f2 = wokeD(1) [OF s2(3)]
  have ini2: "initproc s2 = initproc s" using frameD(3) [OF f2] by simp
  have w2: "wakes (P s p) (P s2 p)" "\<not> sleeping_on ?par (P s2 p)" if "p < NPROC" for p
    using woke_wakes [OF s2(3) that] wokeD(3) [OF s2(3) that] that by (auto simp: sleeping_on_def)
  obtain s3 where s3: "reparent cp [0..<NPROC] s2 = Ok s3" "tinv s3" "adopted cp [0..<NPROC] s2 s3"
    "(\<exists>p \<in> set [0..<NPROC]. p_parent (P s2 p) = Some cp \<and> p_state (P s2 p) = ZOMBIE) \<longrightarrow>
        (\<forall>p < NPROC. \<not> sleeping_on (map_option ProcChan (initproc s2)) (P s3 p))"
    using reparent_Ok [OF s2(2), of "[0..<NPROC]" cp] ini2 i(5) by (auto simp: lessThan_atLeast0)
  have w3: "wakes (if p_parent (P s2 p) = Some cp then (P s2 p)\<lparr>p_parent := initproc s\<rparr> else P s2 p) (P s3 p)"
    if "p < NPROC" for p using s3(3) that ini2 by (auto simp: adopted_def)
  have f3: "frame s3 = frame (acq a s)" using s3(3) f2 by (simp add: adopted_def)
  have P2: "P s2 cp = P s cp" using wakes_awake [OF w2(1) [OF cp(1)]] cp(2) by simp
  have P3: "P s3 cp = P s cp" using w3 [OF cp(1)] P2 cp(2,3) wakes_awake [of "P s cp" "P s3 cp"] by auto
  let ?z = "upd_proc cp (\<lambda>x. x\<lparr>p_state := ZOMBIE\<rparr>) s3"
  have len: "cp < length (procs s3)" using tinvD(1) [OF s3(2)] cp(1) by simp
  have hz: "held a ?z" "running_on a ?z = Some cp" "depth a (mach ?z) = 1"
    using held_frame [OF f3] running_on_frame [OF f3, of a] frameD(1) [OF f3] i by (simp_all add: idle_lock_def cpu_wf_def)
  have sc: "sched a ?z = Ok (upd_proc cp (\<lambda>x. x\<lparr>p_context := saved_in a ?z\<rparr>) ?z)"
    using hz len by (intro sched_Ok) simp_all
  define s4 where "s4 = upd_proc cp (\<lambda>x. x\<lparr>p_context := saved_in a ?z\<rparr>) ?z"
  have P4: "P s4 cp = (P s cp)\<lparr>p_state := ZOMBIE, p_context := saved_in a ?z\<rparr>" "\<And>p. p \<noteq> cp \<Longrightarrow> P s4 p = P s3 p"
    using len P3 by (simp_all add: s4_def)
  have zs: "sleeping_on ch (P s4 p) \<Longrightarrow> sleeping_on ch (P s3 p)" for ch p
    using P4 by (cases "p = cp") (auto simp: sleeping_on_def)
  have par: "p_parent (P s2 p) = p_parent (P s p)" "p_state (P s2 p) = ZOMBIE \<longleftrightarrow> p_state (P s p) = ZOMBIE"
    if "p < NPROC" for p using wakes_parent [OF w2(1) [OF that]] by blast+
  show thesis
  proof (rule that [of s4])
    show "tinv s4" unfolding s4_def using s3(2) cp P3
      by (intro tinv_upd) (auto simp: live_def)
    show "held a s4" using hz by (simp add: s4_def)
    show "\<exists>ctx. P s4 cp = (P s cp)\<lparr>p_state := ZOMBIE, p_context := ctx\<rparr>" using P4(1) by blast
    show "\<forall>p < NPROC. \<not> sleeping_on ?par (P s4 p)"
    proof (intro allI impI notI)
      fix p assume p: "p < NPROC" and "sleeping_on ?par (P s4 p)"
      then have "sleeping_on ?par (P s3 p)" using zs by blast
      then show False using w2(2) [OF p] w3 [OF p] by (auto simp: wakes_def sleeping_on_def split: if_splits)
    qed
    show "wakes (if p_parent (P s p) = Some cp then (P s p)\<lparr>p_parent := initproc s\<rparr> else P s p) (P s4 p)"
      if "p < NPROC" "p \<noteq> cp" for p
      using w3 [OF that(1)] w2(1) [OF that(1)] par(1) [OF that(1)] P4(2) [OF that(2)]
        wakes_upd_parent [OF w2(1) [OF that(1)], of "initproc s"] by (auto intro: wakes_trans)
    show "(\<exists>p < NPROC. p_parent (P s p) = Some cp \<and> p_state (P s p) = ZOMBIE) \<longrightarrow>
       (\<forall>p < NPROC. \<not> sleeping_on (map_option ProcChan (initproc s)) (P s4 p))"
      using s3(4) par zs ini2 by auto
  qed (use i(2) s2(1) s3(1) sc in \<open>simp add: pt_simps s4_def del: upd_proc_simps\<close>)
qed

lemma running_on_sync [simp]:
  "cpu_wf a (mach s) \<Longrightarrow> running_on a (s\<lparr>mach := sync a (mach s)\<rparr>) = running_on a s"
  using ci_less [of "mach s" a] by (simp add: running_on_def cpu_wf_def) (simp add: sync_def)



text \<open>\<^verbatim>\<open>init\<close> asleep in \<^verbatim>\<open>wait\<close>, its child 1 running.\<close>

definition demo_waiting :: kst where
  "demo_waiting = demo\<lparr>procs := (procs demo)[0 := demo_running\<lparr>p_state := SLEEPING, p_chan := Some (ProcChan 0)\<rparr>,
       1 := demo_sleeper\<lparr>p_state := RUNNING, p_chan := None\<rparr>],
     mach := demo_machine\<lparr>cpus := [\<lparr>apicid = 0, ncli = 0, intena = False, cpu_proc = Some 1\<rparr>]\<rparr>\<rparr>"

lemma demo_waiting_states:
  "p < NPROC \<Longrightarrow> P demo_waiting p =
     (if p = 0 then demo_running\<lparr>p_state := SLEEPING, p_chan := Some (ProcChan 0)\<rparr>
      else if p = 1 then demo_sleeper\<lparr>p_state := RUNNING, p_chan := None\<rparr> else unused_proc)"
  using demo_states [of p] demo_procs(1) by (auto simp: demo_waiting_def nth_upd)

lemma demo_waiting_inv:
  "tinv demo_waiting" "pinv demo_waiting" "idle_lock 0 demo_waiting" "depth 0 (mach demo_waiting) = 0"
  "running_on 0 demo_waiting = Some 1" "initproc demo_waiting = Some 0" "1 < NPROC"
proof -
  have q: "rq demo_waiting = empty_rq" "length (procs demo_waiting) = NPROC"
    using demo_procs(1) by (simp_all add: demo_waiting_def) (simp add: demo_def)
  show "tinv demo_waiting"
    using empty_rq_wf empty_rq_wf(1) [of 0] q
    by (auto simp: tinv_def demo_waiting_states demo_fields live_def is_queue_def NUMFILAS_def split: if_splits)
  show "pinv demo_waiting"
    by (auto simp: pinv_def demo_waiting_states demo_fields) (simp_all add: demo_waiting_def demo_def)
  show "idle_lock 0 demo_waiting" "depth 0 (mach demo_waiting) = 0" "running_on 0 demo_waiting = Some 1"
    "initproc demo_waiting = Some 0" "1 < NPROC"
    by (simp_all add: idle_lock_def running_on_def demo_waiting_def demo_def demo_machine_def free_lock_def
        cpu_wf_def depth_def ci_def NPROC_def)
qed


text \<open>The result of the scan of \<^verbatim>\<open>wait\<close>: the first zombie child, or whether there is a child.\<close>

lemma wait_scan_find:
  "wait_scan cp ps kids s =
    (case find (\<lambda>p. p_parent (P s p) = Some cp \<and> p_state (P s p) = ZOMBIE) ps of
       Some p \<Rightarrow> (Some p, True)
     | None \<Rightarrow> (None, kids \<or> (\<exists>p \<in> set ps. p_parent (P s p) = Some cp)))"
  by (induction ps arbitrary: kids) (auto split: option.splits)

definition first_zombie :: "nat \<Rightarrow> kst \<Rightarrow> nat option" where
  "first_zombie cp s = find (\<lambda>p. p_parent (P s p) = Some cp \<and> p_state (P s p) = ZOMBIE) [0..<NPROC]"

lemma first_zombie_Some:
  "first_zombie cp s = Some p \<Longrightarrow> p < NPROC \<and> p_parent (P s p) = Some cp \<and> p_state (P s p) = ZOMBIE"
  by (auto simp: first_zombie_def find_Some_iff)

definition has_child :: "nat \<Rightarrow> kst \<Rightarrow> bool" where
  "has_child cp s \<longleftrightarrow> (\<exists>p < NPROC. p_parent (P s p) = Some cp)"

definition reaped :: "proc \<Rightarrow> proc" where
  "reaped x = x\<lparr>p_kstack := 0, p_pid := 0, p_parent := None, p_name := [], p_killed := False,
     p_ctime := 0, p_state := UNUSED\<rparr>"

definition wait_services :: "'w kops \<Rightarrow> bool" where
  "wait_services ops \<longleftrightarrow> (\<forall>k w. \<exists>w'. k_kfree ops k w = Ok w') \<and> (\<forall>d w. \<exists>w'. k_freevm ops d w = Ok w')"

lemma wait_body_reap:
  assumes "tinv s" and "held a s" and z: "first_zombie cp s = Some p" and "wait_services ops"
  shows "\<exists>w'. wait_body ops a cp (s, w) = Ok (Returned (p_pid (P s p)), rel a (upd_proc p reaped s), w')"
proof -
  have len: "p < length (procs s)" using first_zombie_Some [OF z] tinvD(1) [OF assms(1)] by simp
  let ?s1 = "upd_proc p (\<lambda>x. x\<lparr>p_kstack := 0\<rparr>) s"
  obtain w1 where w1: "k_kfree ops (p_kstack (P s p)) w = Ok w1" using assms(4) unfolding wait_services_def by blast
  obtain w2 where w2: "k_freevm ops (p_pgdir (P ?s1 p)) w1 = Ok w2" using assms(4) unfolding wait_services_def by blast
  have e: "upd_proc p (\<lambda>x. x\<lparr>p_pid := 0, p_parent := None, p_name := [], p_killed := False, p_ctime := 0, p_state := UNUSED\<rparr>) ?s1
      = upd_proc p reaped s" using len by (simp add: upd_proc_def reaped_def)
  show ?thesis
    using z w1 w2 e assms(2)
    by (simp add: wait_body_def wait_scan_find first_zombie_def Let_def pt_simps del: upd_proc_simps(1))
qed



end
