(* ===== verification/Scheduler.thy ===== *)
theory Scheduler
  imports ProcExit
begin

section \<open>The scheduler (\<^verbatim>\<open>scheduler\<close> of \<^verbatim>\<open>proc.c\<close> and its helpers)\<close>

text \<open>
  One round of the scheduler's loop is \<open>scheduler_out\<close>, up to its \<^verbatim>\<open>swtch\<close> to the chosen process
  (or the release of the lock when no queue has a process), and \<open>scheduler_in\<close>, from the switch
  back. Queue 3 is first come first served, queue 2 shortest burst first, queue 1 round robin,
  queue 0 a lottery. The four branches of the code run the same statements on their queue;
  \<open>run_proc\<close> takes the queue, the position and the counter it decrements as arguments, because
  the lottery branch decrements the counter of queue 2.
\<close>

subsection \<open>Choosing\<close>

fun shortest_loop :: "nat list \<Rightarrow> int \<Rightarrow> int \<Rightarrow> kst \<Rightarrow> int res" where
  "shortest_loop [] shortest pos s = Ok pos"
| "shortest_loop (i # is) shortest pos s =
     rbind (slot_proc 2 (int i) (rq s)) (\<lambda>p.
     if p_estimatedburst (P s p) < shortest
     then shortest_loop is (p_estimatedburst (P s p)) (int i) s
     else shortest_loop is shortest pos s)"

definition shortestBurst :: "kst \<Rightarrow> int res" where
  "shortestBurst s = rbind (count_get 2 (rq s)) (\<lambda>n. shortest_loop [0..<nat n] 10000 0 s)"

definition Random :: "kst \<Rightarrow> int \<times> kst" where
  "Random s = (let n = ((rand_next s * rand_next s) sdiv 100) smod 10000 in (n, s\<lparr>rand_next := n\<rparr>))"

definition RandomInRange :: "int \<Rightarrow> int \<Rightarrow> kst \<Rightarrow> (int \<times> kst) res" where
  "RandomInRange lo hi s =
     (if hi + 1 - lo = 0 then Fault
      else let (n, s) = Random s in Ok (n smod (hi + 1 - lo) + lo, s))"

fun loteria_loop :: "nat list \<Rightarrow> int \<Rightarrow> kst \<Rightarrow> int res" where
  "loteria_loop [] tickets_totais s = Ok tickets_totais"
| "loteria_loop (i # is) tickets_totais s =
     rbind (slot_proc 0 (int i) (rq s)) (\<lambda>p.
     if p_state (P s p) \<noteq> RUNNABLE then loteria_loop is tickets_totais s
     else loteria_loop is (tickets_totais + p_tickets (P s p)) s)"

definition loteria_Total :: "kst \<Rightarrow> int res" where
  "loteria_Total s = rbind (count_get 0 (rq s)) (\<lambda>n. loteria_loop [0..<nat n] 0 s)"

text \<open>The search for the golden ticket: the position where it stops and the process it saw last.\<close>

fun lottery_loop :: "int \<Rightarrow> nat list \<Rightarrow> int \<Rightarrow> nat \<Rightarrow> nat option \<Rightarrow> kst \<Rightarrow> (nat \<times> nat option) res" where
  "lottery_loop golden [] count aux p s = Ok (aux, p)"
| "lottery_loop golden (i # is) count aux p s =
     rbind (slot_proc 0 (int i) (rq s)) (\<lambda>p.
     if count + p_tickets (P s p) < golden
     then lottery_loop golden is (count + p_tickets (P s p)) (Suc i) (Some p) s
     else Ok (i, Some p))"

subsection \<open>Switching\<close>

definition run_proc :: "u8 \<Rightarrow> nat \<Rightarrow> int \<Rightarrow> int \<Rightarrow> int \<Rightarrow> nat \<Rightarrow> kst \<Rightarrow> kst res" where
  "run_proc a c q pos cq p s =
     (let s = upd_proc p (\<lambda>x. x\<lparr>p_clock := 0, p_readyTimeAging := 0\<rparr>) s;
          s = s\<lparr>mach := upd_cpu c (\<lambda>x. x\<lparr>cpu_proc := Some p\<rparr>) (mach s)\<rparr> in
      rbind (switchuvm a p s) (\<lambda>s.
      rbind (shift_queue q pos (rq s)) (\<lambda>r.
      rbind (count_add cq (- 1) r) (\<lambda>r.
      Ok (upd_proc p (\<lambda>x. x\<lparr>p_state := RUNNING\<rparr>) (s\<lparr>rq := r\<rparr>))))))"

datatype sched_event = Dispatched nat | NoProcess

definition lottery_branch :: "u8 \<Rightarrow> nat \<Rightarrow> kst \<Rightarrow> (sched_event \<times> kst) res" where
  "lottery_branch a c s =
     rbind (loteria_Total s) (\<lambda>total_tickets.
     rbind (RandomInRange 0 total_tickets s) (\<lambda>(golden_ticket, s).
     rbind (count_get 0 (rq s)) (\<lambda>n.
     rbind (lottery_loop golden_ticket [0..<nat n] 0 0 None s) (\<lambda>(aux, p).
     case p of None \<Rightarrow> Fault
     | Some p \<Rightarrow> rbind (run_proc a c 0 (int aux) 2 p s) (\<lambda>s. Ok (Dispatched p, s))))))"

definition schedule :: "u8 \<Rightarrow> nat \<Rightarrow> kst \<Rightarrow> (sched_event \<times> kst) res" where
  "schedule a c s =
     rbind (count_get 3 (rq s)) (\<lambda>n3.
     if n3 > 0 then
       rbind (slot_proc 3 0 (rq s)) (\<lambda>p. rbind (run_proc a c 3 0 3 p s) (\<lambda>s. Ok (Dispatched p, s)))
     else rbind (count_get 2 (rq s)) (\<lambda>n2.
     if n2 > 0 then
       rbind (shortestBurst s) (\<lambda>menorBurstPosicao.
       rbind (slot_proc 2 menorBurstPosicao (rq s)) (\<lambda>p.
       rbind (run_proc a c 2 menorBurstPosicao 2 p s) (\<lambda>s. Ok (Dispatched p, s))))
     else rbind (count_get 1 (rq s)) (\<lambda>n1.
     if n1 > 0 then
       rbind (slot_proc 1 0 (rq s)) (\<lambda>p. rbind (run_proc a c 1 0 1 p s) (\<lambda>s. Ok (Dispatched p, s)))
     else rbind (count_get 0 (rq s)) (\<lambda>n0.
     if n0 > 0 then lottery_branch a c s else Ok (NoProcess, s)))))"

definition scheduler_start :: "u8 \<Rightarrow> kst \<Rightarrow> (nat \<times> kst) res" where
  "scheduler_start a s =
     rbind (mycpu a (mach s)) (\<lambda>c.
     Ok (c, s\<lparr>mach := upd_cpu c (\<lambda>x. x\<lparr>cpu_proc := None\<rparr>) (mach s)\<rparr>))"

definition scheduler_out :: "u8 \<Rightarrow> nat \<Rightarrow> kst \<Rightarrow> (sched_event \<times> kst) res" where
  "scheduler_out a c s =
     rbind (pt_acquire a (s\<lparr>mach := sti a (mach s)\<rparr>)) (\<lambda>s.
     rbind (schedule a c s) (\<lambda>(e, s).
     if e = NoProcess then rbind (pt_release a s) (\<lambda>s. Ok (e, s)) else Ok (e, s)))"

definition scheduler_in :: "u8 \<Rightarrow> nat \<Rightarrow> kst \<Rightarrow> kst res" where
  "scheduler_in a c s =
     (let s = switchkvm a s;
          s = s\<lparr>mach := upd_cpu c (\<lambda>x. x\<lparr>cpu_proc := None\<rparr>) (mach s)\<rparr>
      in pt_release a s)"

subsection \<open>Shortest burst\<close>

text \<open>The search over a list of bursts, and what it returns.\<close>

fun best_from :: "int list \<Rightarrow> nat \<Rightarrow> int \<Rightarrow> nat \<Rightarrow> nat" where
  "best_from [] i sh pos = pos"
| "best_from (b # bs) i sh pos = (if b < sh then best_from bs (Suc i) b i else best_from bs (Suc i) sh pos)"

lemma best_from_spec:
  "best_from bs i sh pos = pos \<and> (\<forall>b \<in> set bs. sh \<le> b)
   \<or> (\<exists>k < length bs. best_from bs i sh pos = i + k \<and> bs ! k < sh \<and> (\<forall>b \<in> set bs. bs ! k \<le> b)
        \<and> (\<forall>j < k. bs ! k < bs ! j))"
proof (induction bs arbitrary: i sh pos)
  case Nil
  then show ?case by simp
next
  case (Cons b bs)
  show ?case
  proof (cases "b < sh")
    case False
    from Cons.IH [of "Suc i" sh pos] show ?thesis
    proof (elim disjE exE conjE)
      fix k assume "k < length bs" "best_from bs (Suc i) sh pos = Suc i + k" "bs ! k < sh"
        "\<forall>b \<in> set bs. bs ! k \<le> b" "\<forall>j < k. bs ! k < bs ! j"
      with False show ?thesis by (intro disjI2 exI [of _ "Suc k"]) (auto simp: nth_Cons')
    qed (use False in auto)
  next
    case True
    from Cons.IH [of "Suc i" b i] show ?thesis
    proof (elim disjE exE conjE)
      fix k assume "k < length bs" "best_from bs (Suc i) b i = Suc i + k" "bs ! k < b"
        "\<forall>b \<in> set bs. bs ! k \<le> b" "\<forall>j < k. bs ! k < bs ! j"
      with True show ?thesis by (intro disjI2 exI [of _ "Suc k"]) (auto simp: nth_Cons')
    next
      assume "best_from bs (Suc i) b i = i" "\<forall>x \<in> set bs. b \<le> x"
      with True show ?thesis by (intro disjI2 exI [of _ 0]) auto
    qed
  qed
qed

definition bursts :: "kst \<Rightarrow> int list" where
  "bursts s = map (\<lambda>p. p_estimatedburst (P s p)) (qlist (rq s) 2)"

lemma shortest_loop_best:
  assumes "rq_wf (rq s)" and "i \<le> length (qlist (rq s) 2)"
  shows "shortest_loop [i..<length (qlist (rq s) 2)] sh (int pos) s =
    Ok (int (best_from (drop i (bursts s)) i sh pos))"
  using assms(2)
proof (induction "length (qlist (rq s) 2) - i" arbitrary: i sh pos)
  case 0
  then show ?case by (simp add: bursts_def)
next
  case (Suc n)
  then have i: "i < length (qlist (rq s) 2)" by simp
  have q: "is_queue 2" by (simp add: is_queue_def NUMFILAS_def)
  have "[i..<length (qlist (rq s) 2)] = i # [Suc i..<length (qlist (rq s) 2)]" using i by (simp add: upt_rec)
  moreover have "drop i (bursts s) = p_estimatedburst (P s (qlist (rq s) 2 ! i)) # drop (Suc i) (bursts s)"
    using i by (simp add: bursts_def Cons_nth_drop_Suc [symmetric])
  moreover have "n = length (qlist (rq s) 2) - Suc i" "Suc i \<le> length (qlist (rq s) 2)" using Suc.hyps(2) i by simp_all
  note Suc.hyps(1) [OF this]
  ultimately show ?case using slot_proc_qlist [OF assms(1) q i] by simp
qed

lemma shortestBurst_best:
  assumes "rq_wf (rq s)"
  shows "shortestBurst s = Ok (int (best_from (bursts s) 0 10000 0))"
  using shortest_loop_best [OF assms, of 0 10000 0] count_get_qlist [OF assms, of 2]
  by (simp add: shortestBurst_def is_queue_def NUMFILAS_def)



subsection \<open>Dispatching\<close>

lemma distinct_remove_nth:
  assumes "distinct xs" and "i < length xs"
  shows "set (take i xs @ drop (Suc i) xs) = set xs - {xs ! i}" "distinct (take i xs @ drop (Suc i) xs)"
proof -
  have e: "xs = take i xs @ xs ! i # drop (Suc i) xs" using assms(2) by (rule id_take_nth_drop)
  have "distinct (take i xs @ xs ! i # drop (Suc i) xs)" using assms(1) e by simp
  moreover have "set xs = set (take i xs) \<union> {xs ! i} \<union> set (drop (Suc i) xs)" by (subst e) auto
  ultimately show "set (take i xs @ drop (Suc i) xs) = set xs - {xs ! i}" "distinct (take i xs @ drop (Suc i) xs)"
    by auto
qed

lemma make_running:
  assumes t: "tinv s" and q: "is_queue q" and i: "i < length (qlist (rq s) q)"
  obtains r where "dequeue_at q (int i) (rq s) = Ok r"
    "tinv (upd_proc (qlist (rq s) q ! i) (\<lambda>x. x\<lparr>p_state := RUNNING\<rparr>) (s\<lparr>rq := r\<rparr>))"
    "qlist r q = take i (qlist (rq s) q) @ drop (Suc i) (qlist (rq s) q)"
    "\<And>q'. is_queue q' \<Longrightarrow> q' \<noteq> q \<Longrightarrow> qlist r q' = qlist (rq s) q'"
proof -
  let ?p = "qlist (rq s) q ! i"
  obtain r where r: "dequeue_at q (int i) (rq s) = Ok r" "rq_wf r"
    "qlist r q = take i (qlist (rq s) q) @ drop (Suc i) (qlist (rq s) q)"
    "\<And>q'. is_queue q' \<Longrightarrow> q' \<noteq> q \<Longrightarrow> qlist r q' = qlist (rq s) q'"
    using dequeue_at_Ok [OF tinvD(2) [OF t] q i] by blast
  note d = distinct_remove_nth [OF tinvD(3) [OF t q] i]
  have p: "?p < NPROC" "p_state (P s ?p) = RUNNABLE" "p_priority (P s ?p) = q"
    using nth_mem [OF i] tinvD(4) [OF t q] by blast+
  let ?s = "upd_proc ?p (\<lambda>x. x\<lparr>p_state := RUNNING\<rparr>) (s\<lparr>rq := r\<rparr>)"
  have len: "length (procs s) = NPROC" by (rule tinvD(1) [OF t])
  have "tinv ?s" unfolding tinv_def
  proof (intro conjI allI impI)
    fix q' assume q': "is_queue q'"
    show "distinct (qlist (rq ?s) q')" using d(2) r(3,4) tinvD(3) [OF t q'] q' by (cases "q' = q") auto
    have "p' \<in> set (qlist (rq ?s) q') \<longleftrightarrow> p' < NPROC \<and> p_state (P ?s p') = RUNNABLE \<and> p_priority (P ?s p') = q'" for p'
    proof (cases "q' = q")
      case True
      then have "p' \<in> set (qlist (rq ?s) q') \<longleftrightarrow> p' \<in> set (qlist (rq s) q) \<and> p' \<noteq> ?p" using d(1) r(3) by simp
      then show ?thesis using tinvD(4) [OF t q, of p'] True len p by (auto simp: nth_upd)
    next
      case False
      then have "p' \<in> set (qlist (rq ?s) q') \<longleftrightarrow> p' \<in> set (qlist (rq s) q')" using r(4) [OF q'] by simp
      then show ?thesis using tinvD(4) [OF t q', of p'] False len p by (auto simp: nth_upd)
    qed
    then show "set (qlist (rq ?s) q') = {p'. p' < NPROC \<and> p_state (P ?s p') = RUNNABLE \<and> p_priority (P ?s p') = q'}"
      by blast
  next
    fix p' assume "p' < NPROC" "live (p_state (P ?s p'))"
    then show "is_queue (p_priority (P ?s p'))"
      using tinvD(5) [OF t, of p'] p q len by (cases "p' = ?p") auto
  qed (use r(2) len in simp_all)
  with r show thesis by (intro that [of r]) auto
qed

lemma switchuvm_Ok:
  assumes h: "held a s" and k: "p_kstack (P s p) \<noteq> 0" "p_pgdir (P s p) \<noteq> 0"
  shows "switchuvm a p s = Ok (s\<lparr>ts_esp0 := (ts_esp0 s)(a := p_kstack (P s p) + KSTACKSIZE),
      cr3 := (cr3 s)(a := V2P (p_pgdir (P s p)))\<rparr>)"
proof -
  have m: "cpu_wf a (mach s)" "0 < depth a (mach s)" and f: "find_apic (cpus (mach s)) 0 a \<noteq> None"
    using h by (auto simp: held_def cpu_wf_def)
  have "pushcli a (mach s) = Ok (push_m a (mach s))" by (rule pushcli_Ok [OF f])
  moreover have "mycpu a (push_m a (mach s)) = Ok (ci a (mach s))" using f by (simp add: mycpu_Ok)
  moreover have "popcli a (push_m a (mach s)) = Ok (mach s)"
    using popcli_Ok [OF cpu_wf_push [OF m(1)]] m f by simp
  ultimately show ?thesis using k by (simp add: switchuvm_def)
qed

text \<open>Marking the process a CPU runs.\<close>

definition set_cpu_proc :: "u8 \<Rightarrow> nat option \<Rightarrow> kst \<Rightarrow> kst" where
  "set_cpu_proc a x s = s\<lparr>mach := upd_cpu (ci a (mach s)) (\<lambda>c. c\<lparr>cpu_proc := x\<rparr>) (mach s)\<rparr>"

lemma set_cpu_proc_simps [simp]:
  "procs (set_cpu_proc a x s) = procs s" "rq (set_cpu_proc a x s) = rq s" "ptlock (set_cpu_proc a x s) = ptlock s"
  "nextpid (set_cpu_proc a x s) = nextpid s" "tinv (set_cpu_proc a x s) = tinv s"
  "ci b (mach (set_cpu_proc a x s)) = ci b (mach s)"
  "find_apic (cpus (mach (set_cpu_proc a x s))) 0 b = find_apic (cpus (mach s)) 0 b"
  "eflags_if (mach (set_cpu_proc a x s)) = eflags_if (mach s)"
  by (simp_all add: set_cpu_proc_def upd_cpu_def tinv_def ci_def)

lemma depth_set_cpu_proc [simp]: "depth b (mach (set_cpu_proc a x s)) = depth b (mach s)"
proof -
  have "ncli (cpus (mach (set_cpu_proc a x s)) ! j) = ncli (cpus (mach s) ! j)" for j
    by (auto simp: set_cpu_proc_def upd_cpu_def nth_upd)
  then show ?thesis by (simp add: depth_def)
qed

lemma cpu_wf_set_cpu_proc [simp]: "cpu_wf b (mach (set_cpu_proc a x s)) = cpu_wf b (mach s)"
  by (simp add: cpu_wf_def)

lemma held_set_cpu_proc [simp]: "held b (set_cpu_proc a x s) = held b s"
  by (simp add: held_def)

lemma running_on_set_cpu_proc [simp]:
  "cpu_wf a (mach s) \<Longrightarrow> running_on a (set_cpu_proc a x s) = x"
  using ci_less [of "mach s" a]
  by (simp add: running_on_def cpu_wf_def) (simp add: set_cpu_proc_def upd_cpu_def)

text \<open>The fields of a process the dispatch resets.\<close>

definition dispatched :: "proc \<Rightarrow> proc" where
  "dispatched x = x\<lparr>p_clock := 0, p_readyTimeAging := 0, p_state := RUNNING\<rparr>"

text \<open>\<open>run_proc\<close> up to the queue: the CPU is marked and the address space switched.\<close>

lemma run_proc_switch:
  assumes t: "tinv s" and h: "held a s" and pn: "p < NPROC"
    and k: "p_kstack (P s p) \<noteq> 0" "p_pgdir (P s p) \<noteq> 0" and c: "c = ci a (mach s)"
  obtains s2 where "\<And>q pos cq. run_proc a c q pos cq p s = rbind (shift_queue q pos (rq s)) (\<lambda>r.
      rbind (count_add cq (- 1) r) (\<lambda>r. Ok (upd_proc p (\<lambda>x. x\<lparr>p_state := RUNNING\<rparr>) (s2\<lparr>rq := r\<rparr>))))"
    "tinv s2" "held a s2" "rq s2 = rq s" "procs s2 = (procs s)[p := (P s p)\<lparr>p_clock := 0, p_readyTimeAging := 0\<rparr>]"
    "nextpid s2 = nextpid s" "running_on a s2 = Some p" "depth a (mach s2) = depth a (mach s)"
    "ci a (mach s2) = ci a (mach s)"
proof -
  have len: "length (procs s) = NPROC" by (rule tinvD(1) [OF t])
  define s1 where "s1 = set_cpu_proc a (Some p) (upd_proc p (\<lambda>x. x\<lparr>p_clock := 0, p_readyTimeAging := 0\<rparr>) s)"
  define s2 where "s2 = s1\<lparr>ts_esp0 := (ts_esp0 s1)(a := p_kstack (P s1 p) + KSTACKSIZE),
      cr3 := (cr3 s1)(a := V2P (p_pgdir (P s1 p)))\<rparr>"
  have t1: "tinv s1" using t pn by (auto simp: s1_def intro!: tinv_upd)
  have h1: "held a s1" using h by (simp add: s1_def)
  have sw: "switchuvm a p s1 = Ok s2" unfolding s2_def using switchuvm_Ok [OF h1, of p] k len pn by (simp add: s1_def)
  have t2: "tinv s2" using t1 by (simp add: tinv_def s2_def)
  have e2: "rq s2 = rq s" "procs s2 = (procs s)[p := (P s p)\<lparr>p_clock := 0, p_readyTimeAging := 0\<rparr>]"
    "nextpid s2 = nextpid s" by (simp_all add: s2_def s1_def)
  have "(upd_proc p (\<lambda>x. x\<lparr>p_clock := 0, p_readyTimeAging := 0\<rparr>) s)\<lparr>mach := upd_cpu c (\<lambda>x. x\<lparr>cpu_proc := Some p\<rparr>) (mach s)\<rparr> = s1"
    using c by (simp add: s1_def set_cpu_proc_def)
  then have rp: "run_proc a c q pos cq p s = rbind (shift_queue q pos (rq s)) (\<lambda>r.
      rbind (count_add cq (- 1) r) (\<lambda>r. Ok (upd_proc p (\<lambda>x. x\<lparr>p_state := RUNNING\<rparr>) (s2\<lparr>rq := r\<rparr>))))" for q pos cq
    using sw e2(1) by (simp add: run_proc_def Let_def)
  have wf: "cpu_wf a (mach s)" using h by (simp add: held_def)
  have m2: "mach s2 = mach s1" "ptlock s2 = ptlock s1" by (simp_all add: s2_def)
  have ro: "running_on a s2 = Some p" "held a s2" "depth a (mach s2) = depth a (mach s)"
    "ci a (mach s2) = ci a (mach s)"
    using wf h1 m2 running_on_set_cpu_proc [of a "upd_proc p (\<lambda>x. x\<lparr>p_clock := 0, p_readyTimeAging := 0\<rparr>) s" "Some p"]
    by (simp_all add: running_on_def held_def s1_def)
  show thesis by (rule that [OF rp t2 ro(2) e2 ro(1,3,4)])
qed

lemma run_proc_Ok:
  assumes t: "tinv s" and h: "held a s" and q: "is_queue q" and i: "i < length (qlist (rq s) q)"
    and p: "p = qlist (rq s) q ! i" and k: "p_kstack (P s p) \<noteq> 0" "p_pgdir (P s p) \<noteq> 0"
    and c: "c = ci a (mach s)"
  obtains s' where "run_proc a c q (int i) q p s = Ok s'" "tinv s'" "held a s'" "running_on a s' = Some p"
    "depth a (mach s') = depth a (mach s)" "procs s' = (procs s)[p := dispatched (P s p)]" "nextpid s' = nextpid s"
    "ci a (mach s') = ci a (mach s)"
    "qlist (rq s') q = take i (qlist (rq s) q) @ drop (Suc i) (qlist (rq s) q)"
    "\<And>q'. is_queue q' \<Longrightarrow> q' \<noteq> q \<Longrightarrow> qlist (rq s') q' = qlist (rq s) q'"
proof -
  have pn: "p < NPROC" using nth_mem [OF i] tinvD(4) [OF t q] p by blast
  have len: "length (procs s) = NPROC" by (rule tinvD(1) [OF t])
  obtain s2 where rp: "\<And>q pos cq. run_proc a c q pos cq p s = rbind (shift_queue q pos (rq s)) (\<lambda>r.
      rbind (count_add cq (- 1) r) (\<lambda>r. Ok (upd_proc p (\<lambda>x. x\<lparr>p_state := RUNNING\<rparr>) (s2\<lparr>rq := r\<rparr>))))"
    and t2: "tinv s2" and h2: "held a s2" and e2: "rq s2 = rq s"
      "procs s2 = (procs s)[p := (P s p)\<lparr>p_clock := 0, p_readyTimeAging := 0\<rparr>]" "nextpid s2 = nextpid s"
    and r2: "running_on a s2 = Some p" "depth a (mach s2) = depth a (mach s)" "ci a (mach s2) = ci a (mach s)"
    using run_proc_switch [OF t h pn k c] by blast
  have i2: "i < length (qlist (rq s2) q)" using i e2 by simp
  obtain r where r: "dequeue_at q (int i) (rq s2) = Ok r"
    "tinv (upd_proc p (\<lambda>x. x\<lparr>p_state := RUNNING\<rparr>) (s2\<lparr>rq := r\<rparr>))"
    "qlist r q = take i (qlist (rq s) q) @ drop (Suc i) (qlist (rq s) q)"
    "\<And>q'. is_queue q' \<Longrightarrow> q' \<noteq> q \<Longrightarrow> qlist r q' = qlist (rq s) q'"
    using make_running [OF t2 q i2] e2(1) p by metis
  have "run_proc a c q (int i) q p s = Ok (upd_proc p (\<lambda>x. x\<lparr>p_state := RUNNING\<rparr>) (s2\<lparr>rq := r\<rparr>))"
    using r(1) e2(1) by (auto simp: rp dequeue_at_def rbind_eq_Ok)
  from that [OF this r(2)] show thesis using r2 h2 r(3,4) e2 len pn by (auto simp: dispatched_def)
qed

end
