(* ===== verification/SchedulerProps.thy ===== *)
theory SchedulerProps
  imports Scheduler
begin

section \<open>Which process runs next\<close>

text \<open>
  The properties of one scheduling round and of the round-robin level over any number of rounds.
  \<open>ready_to_run s\<close> says that every process in the table that could be dispatched has a kernel stack, a
  page directory and a saved context, as \<^verbatim>\<open>allocproc\<close>, \<^verbatim>\<open>userinit\<close> and \<^verbatim>\<open>fork\<close> set them up.
\<close>

definition ready_to_run :: "kst \<Rightarrow> bool" where
  "ready_to_run s \<longleftrightarrow> (\<forall>p < NPROC. live (p_state (P s p)) \<longrightarrow> p_kstack (P s p) \<noteq> 0 \<and> p_pgdir (P s p) \<noteq> 0
     \<and> p_context (P s p) \<noteq> Ctx_none)"

text \<open>The level the scheduler serves: the highest of levels 1 to 3 that has a process.\<close>

definition served :: "kst \<Rightarrow> int \<Rightarrow> bool" where
  "served s q \<longleftrightarrow> 0 < q \<and> is_queue q \<and> qlist (rq s) q \<noteq> []
     \<and> (\<forall>q'. is_queue q' \<longrightarrow> q < q' \<longrightarrow> qlist (rq s) q' = [])"

text \<open>The position it takes from that level.\<close>

definition position :: "kst \<Rightarrow> int \<Rightarrow> nat" where
  "position s q = (if q = 2 then best_from (bursts s) 0 10000 0 else 0)"

lemma position_less: "qlist (rq s) q \<noteq> [] \<Longrightarrow> position s q < length (qlist (rq s) q)"
  using best_from_spec [of "bursts s" 0 10000 0] by (auto simp: position_def bursts_def)

lemma queues4 [simp]: "is_queue 0" "is_queue 1" "is_queue 2" "is_queue 3"
  by (simp_all add: is_queue_def NUMFILAS_def)

lemma count_get_pos:
  "rq_wf r \<Longrightarrow> is_queue q \<Longrightarrow> count_get q r = Ok (int (length (qlist r q)))"
  by (rule count_get_qlist)

lemma schedule_served:
  assumes w: "rq_wf (rq s)" and q: "served s q"
  shows "schedule a c s = rbind (run_proc a c q (int (position s q)) q (qlist (rq s) q ! position s q) s)
    (\<lambda>s'. Ok (Dispatched (qlist (rq s) q ! position s q), s'))"
proof -
  have ne: "qlist (rq s) q \<noteq> []" and qq: "is_queue q" and e: "\<And>q'. is_queue q' \<Longrightarrow> q < q' \<Longrightarrow> qlist (rq s) q' = []"
    using q by (auto simp: served_def)
  have sp: "slot_proc q (int (position s q)) (rq s) = Ok (qlist (rq s) q ! position s q)"
    by (rule slot_proc_qlist [OF w qq position_less [OF ne]])
  have c: "count_get q' (rq s) = Ok (int (length (qlist (rq s) q')))" if "is_queue q'" for q'
    by (rule count_get_qlist [OF w that])
  have "q = 1 \<or> q = 2 \<or> q = 3" using q by (auto simp: served_def is_queue_def NUMFILAS_def)
  then show ?thesis
  proof (elim disjE)
    assume [simp]: "q = 1"
    have "qlist (rq s) 2 = []" "qlist (rq s) 3 = []" using e by simp_all
    then show ?thesis using ne sp c by (simp add: schedule_def position_def)
  next
    assume [simp]: "q = 2"
    have "qlist (rq s) 3 = []" using e by simp
    then show ?thesis using ne sp c shortestBurst_best [OF w] by (simp add: schedule_def position_def)
  next
    assume [simp]: "q = 3"
    show ?thesis using ne sp c by (simp add: schedule_def position_def)
  qed
qed

lemma idle_lock_sti:
  assumes "cpu_wf a (mach s)" and "depth a (mach s) = 0" and "locked (ptlock s) = 0"
  shows "idle_lock a (s\<lparr>mach := sti a (mach s)\<rparr>)" "depth a (sti a (mach s)) = 0" "ci a (sti a (mach s)) = ci a (mach s)"
  using assms by (auto simp: idle_lock_def cpu_wf_def sti_def depth_def ci_def)

lemma scheduler_out_served:
  assumes t: "tinv s" and m: "cpu_wf a (mach s)" "depth a (mach s) = 0" "locked (ptlock s) = 0"
    and c: "c = ci a (mach s)" and q: "served s q" and k: "ready_to_run s"
  obtains s' where "scheduler_out a c s = Ok (Dispatched (qlist (rq s) q ! position s q), s')"
    "tinv s'" "held a s'" "depth a (mach s') = 1" "running_on a s' = Some (qlist (rq s) q ! position s q)"
    "procs s' = (procs s)[qlist (rq s) q ! position s q := dispatched (P s (qlist (rq s) q ! position s q))]"
    "qlist (rq s') q = take (position s q) (qlist (rq s) q) @ drop (Suc (position s q)) (qlist (rq s) q)"
    "\<And>q'. is_queue q' \<Longrightarrow> q' \<noteq> q \<Longrightarrow> qlist (rq s') q' = qlist (rq s) q'" "nextpid s' = nextpid s"
    "ci a (mach s') = ci a (mach s)"
proof -
  let ?s = "acq a (s\<lparr>mach := sti a (mach s)\<rparr>)" and ?i = "position s q"
  let ?p = "qlist (rq s) q ! ?i"
  note il = idle_lock_sti [OF m]
  have ne: "qlist (rq s) q \<noteq> []" and qq: "is_queue q" using q by (auto simp: served_def)
  have i: "?i < length (qlist (rq s) q)" by (rule position_less [OF ne])
  have t': "tinv ?s" and h: "held a ?s" using t il(1) by simp_all
  have q': "served ?s q" using q by (simp add: served_def)
  have ps: "position ?s q = ?i" by (simp add: position_def bursts_def)
  have p: "?p < NPROC" "p_state (P s ?p) = RUNNABLE" using nth_mem [OF i] tinvD(4) [OF t qq] by blast+
  have kk: "p_kstack (P ?s ?p) \<noteq> 0" "p_pgdir (P ?s ?p) \<noteq> 0" using k p by (auto simp: ready_to_run_def live_def)
  have i': "?i < length (qlist (rq ?s) q)" and pe: "?p = qlist (rq ?s) q ! ?i" using i by simp_all
  have ce: "c = ci a (mach ?s)" using c il(3) by simp
  obtain s' where s': "run_proc a c q (int ?i) q ?p ?s = Ok s'" "tinv s'" "held a s'" "running_on a s' = Some ?p"
    "depth a (mach s') = depth a (mach ?s)" "procs s' = (procs ?s)[?p := dispatched (P ?s ?p)]" "nextpid s' = nextpid ?s"
    "ci a (mach s') = ci a (mach ?s)"
    "qlist (rq s') q = take ?i (qlist (rq ?s) q) @ drop (Suc ?i) (qlist (rq ?s) q)"
    "\<And>q'. is_queue q' \<Longrightarrow> q' \<noteq> q \<Longrightarrow> qlist (rq s') q' = qlist (rq ?s) q'"
    using run_proc_Ok [OF t' h qq i' pe kk ce] by blast
  have "schedule a c ?s = Ok (Dispatched ?p, s')"
    using schedule_served [OF tinvD(2) [OF t'] q', of a c] s'(1) ps by simp
  then have "scheduler_out a c s = Ok (Dispatched ?p, s')"
    using il(1) by (simp add: scheduler_out_def pt_simps)
  moreover have "depth a (mach s') = 1" using s'(5) il by (simp del: acq_simps(12))
  ultimately show thesis using s' il(3) by (intro that [of s']) auto
qed



subsection \<open>Back from a process\<close>

definition set_intena :: "u8 \<Rightarrow> bool \<Rightarrow> kst \<Rightarrow> kst" where
  "set_intena a e s = s\<lparr>mach := upd_cpu (ci a (mach s)) (\<lambda>c. c\<lparr>intena := e\<rparr>) (mach s)\<rparr>"

lemma set_intena_simps [simp]:
  "procs (set_intena a e s) = procs s" "rq (set_intena a e s) = rq s" "ptlock (set_intena a e s) = ptlock s"
  "nextpid (set_intena a e s) = nextpid s" "tinv (set_intena a e s) = tinv s"
  "ci b (mach (set_intena a e s)) = ci b (mach s)"
  "find_apic (cpus (mach (set_intena a e s))) 0 b = find_apic (cpus (mach s)) 0 b"
  "eflags_if (mach (set_intena a e s)) = eflags_if (mach s)"
  by (simp_all add: set_intena_def upd_cpu_def tinv_def ci_def)

lemma depth_set_intena [simp]: "depth b (mach (set_intena a e s)) = depth b (mach s)"
proof -
  have "ncli (cpus (mach (set_intena a e s)) ! j) = ncli (cpus (mach s) ! j)" for j
    by (auto simp: set_intena_def upd_cpu_def nth_upd)
  then show ?thesis by (simp add: depth_def)
qed

lemma held_set_intena [simp]: "held b (set_intena a e s) = held b s"
  by (simp add: held_def cpu_wf_def)

lemma running_on_set_intena [simp]: "running_on b (set_intena a e s) = running_on b s"
proof -
  have "cpu_proc (cpus (mach (set_intena a e s)) ! j) = cpu_proc (cpus (mach s) ! j)" for j
    by (auto simp: set_intena_def upd_cpu_def nth_upd)
  then show ?thesis by (simp add: running_on_def)
qed

lemma sched_in_Ok: "held a s \<Longrightarrow> sched_in a e s = Ok (set_intena a e s)"
  by (simp add: sched_in_def held_def cpu_wf_def mycpu_Ok set_intena_def)

lemma depth_rel: "held a s \<Longrightarrow> depth a (mach (rel a s)) = depth a (mach s) - 1"
  by (simp add: held_def cpu_wf_def)

lemma scheduler_in_Ok:
  assumes "held a s" and "c = ci a (mach s)"
  obtains s' where "scheduler_in a c s = Ok s'" "procs s' = procs s" "rq s' = rq s" "idle_lock a s'"
    "depth a (mach s') = depth a (mach s) - 1" "running_on a s' = None" "ci a (mach s') = ci a (mach s)"
proof -
  define s1 where "s1 = set_cpu_proc a None (switchkvm a s)"
  have m: "mach (switchkvm a s) = mach s" "ptlock (switchkvm a s) = ptlock s" by (simp_all add: switchkvm_def)
  have h: "held a s1" using assms(1) m by (simp add: s1_def held_def)
  have "scheduler_in a c s = Ok (rel a s1)"
    using h assms(2) m by (simp add: scheduler_in_def Let_def s1_def set_cpu_proc_def pt_simps)
  moreover have "running_on a (rel a s1) = None"
    using running_on_rel [OF h] assms(1) m by (simp add: s1_def held_def)
  moreover have "depth a (mach (rel a s1)) = depth a (mach s) - 1"
    using depth_rel [OF h] m by (simp add: s1_def)
  moreover have "procs s1 = procs s" "rq s1 = rq s" "ci a (mach s1) = ci a (mach s)"
    using m by (simp_all add: s1_def) (simp_all add: switchkvm_def)
  ultimately show thesis using that [of "rel a s1"] h by simp
qed

text \<open>
  A process the scheduler has switched to goes on where it was: in \<^verbatim>\<open>forkret\<close>, or after the
  \<^verbatim>\<open>swtch\<close> of \<^verbatim>\<open>sched\<close>; in both cases it then releases the table lock (here for a process that
  was in \<^verbatim>\<open>yield\<close>).
\<close>

definition resume :: "u8 \<Rightarrow> nat \<Rightarrow> kst \<Rightarrow> kst res" where
  "resume a p s = (case p_context (P s p) of
       Ctx_none \<Rightarrow> Fault | Ctx_forkret \<Rightarrow> pt_release a s | Ctx_sched e \<Rightarrow> yield_in a e s)"

lemma resume_Ok:
  assumes "held a s" and "p_context (P s p) \<noteq> Ctx_none"
  obtains s' where "resume a p s = Ok s'" "procs s' = procs s" "rq s' = rq s" "idle_lock a s'"
    "depth a (mach s') = depth a (mach s) - 1" "running_on a s' = running_on a s" "ci a (mach s') = ci a (mach s)"
proof (cases "p_context (P s p)")
  case Ctx_forkret
  then show thesis using that [of "rel a s"] assms(1) depth_rel [OF assms(1)] by (simp add: resume_def pt_simps)
next
  case (Ctx_sched e)
  let ?s = "set_intena a e s"
  have h: "held a ?s" using assms(1) by simp
  have "resume a p s = Ok (rel a ?s)" using Ctx_sched assms(1) h by (simp add: resume_def yield_in_def sched_in_Ok pt_simps)
  then show thesis using that [of "rel a ?s"] h depth_rel [OF h] running_on_rel [OF h] by simp
qed (use assms in simp)


subsection \<open>Round robin\<close>

text \<open>
  The running process gives up the CPU (its quantum is over), the scheduler runs, and the
  process it picks goes on.
\<close>

definition rr_round :: "u8 \<Rightarrow> nat \<Rightarrow> kst \<Rightarrow> kst res" where
  "rr_round a c s =
     rbind (yield_out a s) (\<lambda>s.
     rbind (scheduler_in a c s) (\<lambda>s.
     rbind (scheduler_out a c s) (\<lambda>(e, s).
     case e of NoProcess \<Rightarrow> Ok s | Dispatched p \<Rightarrow> resume a p s)))"

fun rr_rounds :: "nat \<Rightarrow> u8 \<Rightarrow> nat \<Rightarrow> kst \<Rightarrow> kst res" where
  "rr_rounds 0 a c s = Ok s"
| "rr_rounds (Suc n) a c s = rbind (rr_round a c s) (rr_rounds n a c)"

text \<open>Process \<open>p\<close> runs on CPU \<open>a\<close> at level 1, \<open>ps\<close> wait there, and levels 2 and 3 are empty.\<close>

definition rr_state :: "u8 \<Rightarrow> nat \<Rightarrow> kst \<Rightarrow> nat \<Rightarrow> nat list \<Rightarrow> bool" where
  "rr_state a c s p ps \<longleftrightarrow> tinv s \<and> ready_to_run s \<and> idle_lock a s \<and> depth a (mach s) = 0 \<and> c = ci a (mach s)
     \<and> running_on a s = Some p \<and> p < NPROC \<and> p_state (P s p) = RUNNING \<and> p_priority (P s p) = 1
     \<and> qlist (rq s) 3 = [] \<and> qlist (rq s) 2 = [] \<and> qlist (rq s) 1 = ps"

lemma rr_round_rotates:
  assumes "rr_state a c s p ps"
  shows "\<exists>s'. rr_round a c s = Ok s' \<and> rr_state a c s' (hd (ps @ [p])) (tl (ps @ [p]))"
proof -
  have t: "tinv s" and k: "ready_to_run s" and il: "idle_lock a s" "depth a (mach s) = 0" and c: "c = ci a (mach s)"
    and r: "running_on a s = Some p" and p: "p < NPROC" "p_state (P s p) = RUNNING" "p_priority (P s p) = 1"
    and q: "qlist (rq s) 3 = []" "qlist (rq s) 2 = []" "qlist (rq s) 1 = ps"
    using assms by (auto simp: rr_state_def)
  have len: "length (procs s) = NPROC" by (rule tinvD(1) [OF t])
  define h where "h = hd (ps @ [p])"
  obtain s1 where s1: "yield_out a s = Ok s1" "tinv s1" "held a s1" "frame s1 = frame (acq a s)"
    "procs s1 = (procs s)[p := (P s p)\<lparr>p_state := RUNNABLE, p_context := saved_in a (acq a s)\<rparr>]"
    "qlist (rq s1) 1 = ps @ [p]" "qlist (rq s1) 3 = []" "qlist (rq s1) 2 = []"
    using yield_out_Ok [OF t il r p(1,2)] p(3) q by auto
  have m1: "mach s1 = push_m a (mach s)" using frameD(1) [OF s1(4)] by simp
  have d1: "depth a (mach s1) = 1" "c = ci a (mach s1)" using m1 il c by (auto simp: idle_lock_def cpu_wf_def)
  obtain s2 where s2: "scheduler_in a c s1 = Ok s2" "procs s2 = procs s1" "rq s2 = rq s1" "idle_lock a s2"
    "depth a (mach s2) = depth a (mach s1) - 1" "ci a (mach s2) = ci a (mach s1)"
    using scheduler_in_Ok [OF s1(3) d1(2)] by blast
  have d2: "depth a (mach s2) = 0" "c = ci a (mach s2)" using s2(5,6) d1 by simp_all
  have t2: "tinv s2" using s1(2) s2(2,3) tinv_cong by blast
  have sv: "served s2 1"
  proof -
    have "q' = 2 \<or> q' = 3" if "is_queue q'" "1 < q'" for q' using that by (auto simp: is_queue_def NUMFILAS_def)
    then show ?thesis using s1(6-8) s2(3) by (auto simp: served_def)
  qed
  have k2: "ready_to_run s2"
    using k p len s2(2) s1(5) by (auto simp: ready_to_run_def nth_upd live_def saved_in_def)
  have i2: "cpu_wf a (mach s2)" "locked (ptlock s2) = 0" using s2(4) by (auto simp: idle_lock_def)
  have hp: "qlist (rq s2) 1 ! position s2 1 = h" using s1(6) s2(3) by (simp add: position_def h_def hd_conv_nth)
  obtain s3 where s3: "scheduler_out a c s2 = Ok (Dispatched h, s3)" "tinv s3" "held a s3" "depth a (mach s3) = 1"
    "running_on a s3 = Some h" "procs s3 = (procs s2)[h := dispatched (P s2 h)]"
    "qlist (rq s3) 1 = take (position s2 1) (qlist (rq s2) 1) @ drop (Suc (position s2 1)) (qlist (rq s2) 1)"
    "\<And>q'. is_queue q' \<Longrightarrow> q' \<noteq> 1 \<Longrightarrow> qlist (rq s3) q' = qlist (rq s2) q'" "ci a (mach s3) = ci a (mach s2)"
    using scheduler_out_served [OF t2 i2(1) d2(1) i2(2) d2(2) sv k2, unfolded hp] by blast
  have q3: "qlist (rq s3) 1 = tl (ps @ [p])" "qlist (rq s3) 3 = []" "qlist (rq s3) 2 = []"
    using s3(7) s3(8) [of 2] s3(8) [of 3] s1(6-8) s2(3)
    by (simp_all add: position_def drop_Suc) (cases ps; simp)
  have "h \<in> set (qlist (rq s2) 1)" using s1(6) s2(3) by (cases ps) (simp_all add: h_def)
  then have hn: "h < NPROC" "p_state (P s2 h) = RUNNABLE" "p_priority (P s2 h) = 1"
    using tinvD(4) [OF t2, of 1 h] by simp_all
  have len2: "length (procs s2) = NPROC" by (rule tinvD(1) [OF t2])
  have ph: "P s3 h = dispatched (P s2 h)" using s3(6) hn len2 by simp
  have ctx: "p_context (P s3 h) \<noteq> Ctx_none" using k2 hn ph by (simp add: dispatched_def ready_to_run_def live_def)
  obtain s4 where s4: "resume a h s3 = Ok s4" "procs s4 = procs s3" "rq s4 = rq s3" "idle_lock a s4"
    "depth a (mach s4) = depth a (mach s3) - 1" "running_on a s4 = running_on a s3" "ci a (mach s4) = ci a (mach s3)"
    using resume_Ok [OF s3(3) ctx] by blast
  have "tinv s4" using s3(2) s4(2,3) tinv_cong by blast
  moreover have "ready_to_run s4"
    using k2 hn len2 s4(2) s3(6) by (auto simp: ready_to_run_def nth_upd live_def dispatched_def)
  moreover have "rr_round a c s = Ok s4" using s1(1) s2(1) s3(1) s4(1) by (simp add: rr_round_def)
  moreover have "p_state (P s4 h) = RUNNING" "p_priority (P s4 h) = 1" using s4(2) ph hn by (simp_all add: dispatched_def)
  ultimately show ?thesis
    using s4(3-7) s3(4,5,9) q3 d2(2) hn(1) by (intro exI [of _ s4]) (simp add: rr_state_def h_def)
qed

text \<open>
  C5. Round robin: while only level 1 has processes, \<open>n\<close> rounds of (yield by the running
  process, scheduler, resumption) never panic or block, and rotate the circle formed by the
  running process and the waiting ones \<open>n\<close> places; in particular after as many rounds as there are
  processes each has run once, in queue order, and the first runs again.
\<close>
theorem round_robin_rotates:
  assumes "rr_state a c s p ps"
  shows "\<exists>s'. rr_rounds n a c s = Ok s'
    \<and> rr_state a c s' (hd (rotate n (p # ps))) (tl (rotate n (p # ps)))"
  using assms
proof (induction n arbitrary: s p ps)
  case 0
  then show ?case by simp
next
  case (Suc n)
  from rr_round_rotates [OF Suc.prems] obtain s1 where
    s1: "rr_round a c s = Ok s1" "rr_state a c s1 (hd (ps @ [p])) (tl (ps @ [p]))" by blast
  have "rotate n (hd (ps @ [p]) # tl (ps @ [p])) = rotate (Suc n) (p # ps)"
    by (simp add: rotate1_rotate_swap [symmetric] rotate_def funpow_swap1)
  with Suc.IH [OF s1(2)] s1(1) show ?case by simp
qed


subsection \<open>Concrete states\<close>

text \<open>A table of queues in which only level \<open>q\<close> has processes.\<close>

definition list_rq :: "nat \<Rightarrow> nat list \<Rightarrow> readyq" where
  "list_rq q ps = \<lparr>queue_ready = (replicate NUMFILAS (replicate NPROC None))[q := map Some ps @ replicate (NPROC - length ps) None],
     count_queue = (replicate NUMFILAS 0)[q := int (length ps)]\<rparr>"

lemma list_rq_wf: "q < NUMFILAS \<Longrightarrow> length ps \<le> NPROC \<Longrightarrow> rq_wf (list_rq q ps)"
  by (auto simp: list_rq_def rq_wf_def nth_upd nth_append)

lemma qlist_list: "q < NUMFILAS \<Longrightarrow> is_queue i \<Longrightarrow> qlist (list_rq q ps) i = (if i = int q then ps else [])"
  by (auto simp: list_rq_def qlist_def nth_upd is_queue_def)

text \<open>Process 0 runs at level 1 and process 1 waits at level 1.\<close>

definition demo_rr :: kst where
  "demo_rr = demo\<lparr>procs := (procs demo)[1 := demo_sleeper\<lparr>p_state := RUNNABLE, p_priority := 1\<rparr>], rq := list_rq 1 [1]\<rparr>"

lemma demo_rr_states:
  "p < NPROC \<Longrightarrow> P demo_rr p = (if p = 0 then demo_running
     else if p = 1 then demo_sleeper\<lparr>p_state := RUNNABLE, p_priority := 1\<rparr> else unused_proc)"
  using demo_states [of p] demo_procs(1) by (auto simp: demo_rr_def nth_upd)

lemma demo_rr_state: "rr_state 0 0 demo_rr 0 [1]"
proof -
  have n: "0 < NPROC" "1 < NPROC" "1 < NUMFILAS" by (simp_all add: NPROC_def NUMFILAS_def)
  have l: "length (procs demo_rr) = NPROC" "rq demo_rr = list_rq 1 [1]"
    using demo_procs(1) by (simp_all add: demo_rr_def)
  have "tinv demo_rr"
    using l n qlist_list [OF n(3)] list_rq_wf [OF n(3), of "[1]"]
    by (auto simp: tinv_def demo_rr_states demo_fields live_def is_queue_def NUMFILAS_def split: if_splits)
  moreover have "ready_to_run demo_rr"
    by (auto simp: ready_to_run_def demo_rr_states demo_fields live_def)
  moreover have "mach demo_rr = mach demo" "ptlock demo_rr = ptlock demo" by (simp_all add: demo_rr_def)
  moreover have "ci 0 (mach demo) = 0" by (simp add: demo_def demo_machine_def ci_def)
  ultimately show ?thesis
    using demo_inv(3-5) n l qlist_list [OF n(3), of _ "[1]"]
    by (simp add: rr_state_def idle_lock_def running_on_def demo_rr_states demo_fields)
qed

theorem round_robin_rotates_witness:
  "\<exists>s'. rr_rounds 3 0 0 demo_rr = Ok s' \<and> running_on 0 s' = Some 1 \<and> qlist (rq s') 1 = [0]"
proof -
  have "rotate 3 [0, Suc 0] = [1, 0]" by (simp add: numeral_eq_Suc rotate_def)
  with round_robin_rotates [OF demo_rr_state, of 3] show ?thesis by (auto simp: rr_state_def)
qed

text \<open>The same process table with CPU 0 in its scheduler.\<close>

definition demo_sched :: kst where
  "demo_sched = demo_rr\<lparr>procs := (procs demo_rr)[0 := demo_running\<lparr>p_state := SLEEPING\<rparr>]\<rparr>"


text \<open>Processes 0 and 1 ready at level 2 with estimated bursts 5 and 3.\<close>

definition demo_sjf :: kst where
  "demo_sjf = demo\<lparr>procs := (procs demo)[0 := demo_running\<lparr>p_estimatedburst := 5\<rparr>, 1 := demo_sleeper\<lparr>p_estimatedburst := 3\<rparr>],
     rq := list_rq 2 [0, 1]\<rparr>"


end
