(* ===== verification/Lottery.thy ===== *)
theory Lottery
  imports SchedulerProps
begin

section \<open>The lottery level and its random numbers\<close>

text \<open>
  What the draw of the lottery branch does: which process a golden ticket selects, which values
  \<^verbatim>\<open>Random\<close> produces, and what the branch leaves in the counters of the ready queues.
\<close>

subsection \<open>The random numbers\<close>

definition random_step :: "int \<Rightarrow> int" where
  "random_step n = ((n * n) sdiv 100) smod 10000"

lemma Random_step: "Random s = (random_step (rand_next s), s\<lparr>rand_next := random_step (rand_next s)\<rparr>)"
  by (simp add: Random_def random_step_def Let_def)

lemma rand_next_iter: "rand_next (((\<lambda>s. snd (Random s)) ^^ n) s) = (random_step ^^ n) (rand_next s)"
  by (induction n) (simp_all add: Random_step)

lemma random_step_range: "0 \<le> random_step n \<and> random_step n < 10000"
  by (simp add: random_step_def signed_divide_int_def signed_modulo_int_def sgn_if)

lemma random_step_eq: "random_step n = (n * n div 100) mod 10000"
  by (simp add: random_step_def signed_divide_int_def signed_modulo_int_def sgn_if)

lemma funpow_step: "(f ^^ numeral k) x = (f ^^ pred_numeral k) (f x)"
  by (simp add: numeral_eq_Suc funpow_swap1)

lemma random_101: "(random_step ^^ 101) 3251 = 4100"
  by (simp add: funpow_step random_step_eq)

lemma random_cycle:
  "(random_step ^^ 4) 4100 = 4100" "random_step 4100 = 8100" "random_step 8100 = 6100" "random_step 6100 = 2100"
  by (simp_all add: funpow_step random_step_eq)

lemma random_cycle_mult: "(random_step ^^ (4 * k)) 4100 = 4100"
  by (induction k) (simp_all add: funpow_add random_cycle(1) del: funpow.simps)

lemma random_tail: "(random_step ^^ (101 + n)) 3251 \<in> {4100, 8100, 6100, 2100}"
proof -
  have "(random_step ^^ (101 + n)) 3251 = (random_step ^^ n) 4100"
    by (simp only: add.commute [of 101] funpow_add o_apply random_101)
  also have "\<dots> = (random_step ^^ (n mod 4 + 4 * (n div 4))) 4100" by simp
  also have "\<dots> = (random_step ^^ (n mod 4)) 4100" by (simp only: funpow_add o_apply random_cycle_mult)
  finally have e: "(random_step ^^ (101 + n)) 3251 = (random_step ^^ (n mod 4)) 4100" .
  have "n mod 4 = 0 \<or> n mod 4 = 1 \<or> n mod 4 = 2 \<or> n mod 4 = 3" by linarith
  then show ?thesis unfolding e by (auto simp: funpow_step random_cycle)
qed

text \<open>
  \<^verbatim>\<open>Random\<close> started from its initial value 3251 is periodic with period 4 after 101
  calls: every later call returns one of 4100, 8100, 6100 and 2100.
\<close>
theorem Random_short_cycle:
  assumes "rand_next s = 3251" and "101 < n"
  shows "fst (Random (((\<lambda>s. snd (Random s)) ^^ (n - 1)) s)) \<in> {4100, 8100, 6100, 2100}"
proof -
  have "fst (Random (((\<lambda>s. snd (Random s)) ^^ (n - 1)) s)) = (random_step ^^ Suc (n - 1)) 3251"
    using assms(1) rand_next_iter [of "n - 1" s] by (simp add: Random_step)
  also have "Suc (n - 1) = 101 + (n - 101)" using assms(2) by simp
  finally show ?thesis using random_tail [of "n - 101"] by simp
qed

theorem Random_short_cycle_witness:
  "fst (Random (((\<lambda>s. snd (Random s)) ^^ 199) demo)) \<in> {4100, 8100, 6100, 2100}"
  using Random_short_cycle [of demo 200] by (simp add: demo_def)

lemma RandomInRange_range:
  assumes "0 \<le> hi"
  obtains g s' where "RandomInRange 0 hi s = Ok (g, s')" "0 \<le> g" "g \<le> hi" "s' = s\<lparr>rand_next := random_step (rand_next s)\<rparr>"
proof -
  let ?r = "random_step (rand_next s)"
  have "?r smod (hi + 1) = ?r mod (hi + 1)"
    using random_step_range [of "rand_next s"] assms by (simp add: signed_modulo_int_def signed_divide_int_def sgn_if minus_div_mult_eq_mod)
  moreover have "0 \<le> ?r mod (hi + 1)" "?r mod (hi + 1) \<le> hi" using assms pos_mod_bound [of "hi + 1" ?r] by simp_all
  ultimately show thesis
    using assms by (intro that [of "?r mod (hi + 1)"]) (simp_all add: RandomInRange_def Random_step)
qed

subsection \<open>The draw\<close>

definition tickets :: "kst \<Rightarrow> int list" where
  "tickets s = map (\<lambda>p. p_tickets (P s p)) (qlist (rq s) 0)"

lemma loteria_loop_sum:
  assumes w: "rq_wf (rq s)" and r: "\<forall>p \<in> set (qlist (rq s) 0). p_state (P s p) = RUNNABLE"
    and i: "i \<le> length (qlist (rq s) 0)"
  shows "loteria_loop [i..<length (qlist (rq s) 0)] n s = Ok (n + sum_list (drop i (tickets s)))"
  using i
proof (induction "length (qlist (rq s) 0) - i" arbitrary: i n)
  case 0
  then show ?case by (simp add: tickets_def)
next
  case (Suc k)
  then have i: "i < length (qlist (rq s) 0)" by simp
  have "[i..<length (qlist (rq s) 0)] = i # [Suc i..<length (qlist (rq s) 0)]" using i by (simp add: upt_rec)
  moreover have "drop i (tickets s) = p_tickets (P s (qlist (rq s) 0 ! i)) # drop (Suc i) (tickets s)"
    using i by (simp add: tickets_def Cons_nth_drop_Suc [symmetric])
  moreover have "p_state (P s (qlist (rq s) 0 ! i)) = RUNNABLE" using r i by simp
  moreover have "k = length (qlist (rq s) 0) - Suc i" "Suc i \<le> length (qlist (rq s) 0)" using Suc.hyps(2) i by simp_all
  note Suc.hyps(1) [OF this]
  ultimately show ?case using slot_proc_qlist [OF w queues4(1) i] by (simp add: add.assoc)
qed

lemma loteria_Total_sum:
  assumes "rq_wf (rq s)" and "\<forall>p \<in> set (qlist (rq s) 0). p_state (P s p) = RUNNABLE"
  shows "loteria_Total s = Ok (sum_list (tickets s))"
  using loteria_loop_sum [OF assms, of 0 0] count_get_qlist [OF assms(1) queues4(1)]
  by (simp add: loteria_Total_def)

text \<open>The winner \<open>k\<close>: the tickets before it stay below the golden ticket, with its own they reach it.\<close>

definition wins :: "int list \<Rightarrow> int \<Rightarrow> nat \<Rightarrow> bool" where
  "wins ts g k \<longleftrightarrow> k < length ts \<and> g \<le> sum_list (take (Suc k) ts) \<and> (\<forall>j < k. sum_list (take (Suc j) ts) < g)"

lemma lottery_loop_wins:
  assumes w: "rq_wf (rq s)" and "i < length (qlist (rq s) 0)" and "g \<le> sum_list (tickets s)"
    and "\<forall>j < i. sum_list (take (Suc j) (tickets s)) < g"
  shows "\<exists>k. lottery_loop g [i..<length (qlist (rq s) 0)] (sum_list (take i (tickets s))) aux x s
      = Ok (k, Some (qlist (rq s) 0 ! k)) \<and> wins (tickets s) g k"
  using assms(2,4)
proof (induction "length (qlist (rq s) 0) - i" arbitrary: i aux x)
  case 0
  then show ?case by simp
next
  case (Suc n)
  let ?p = "qlist (rq s) 0 ! i" and ?ts = "tickets s"
  have len: "length ?ts = length (qlist (rq s) 0)" by (simp add: tickets_def)
  have u: "[i..<length (qlist (rq s) 0)] = i # [Suc i..<length (qlist (rq s) 0)]" using Suc.prems(1) by (simp add: upt_rec)
  have sp: "slot_proc 0 (int i) (rq s) = Ok ?p" by (rule slot_proc_qlist [OF w queues4(1) Suc.prems(1)])
  have t: "sum_list (take i ?ts) + p_tickets (P s ?p) = sum_list (take (Suc i) ?ts)"
    using Suc.prems(1) len by (simp add: take_Suc_conv_app_nth) (simp add: tickets_def)
  show ?case
  proof (cases "sum_list (take (Suc i) ?ts) < g")
    case False
    with u sp t Suc.prems len show ?thesis by (auto simp: wins_def)
  next
    case True
    have "Suc i < length (qlist (rq s) 0)"
    proof (rule ccontr)
      assume "\<not> Suc i < length (qlist (rq s) 0)"
      then have "take (Suc i) ?ts = ?ts" using len by simp
      with True assms(3) show False by simp
    qed
    moreover have "n = length (qlist (rq s) 0) - Suc i" using Suc.hyps(2) by simp
    moreover have "\<forall>j < Suc i. sum_list (take (Suc j) ?ts) < g" using Suc.prems(2) True by (simp add: less_Suc_eq)
    ultimately show ?thesis using Suc.hyps(1) [of "Suc i" "Suc i" "Some ?p"] u sp t True by simp
  qed
qed


lemma lottery_draw:
  assumes t: "tinv s" and ne: "qlist (rq s) 0 \<noteq> []" and pos: "\<forall>x \<in> set (tickets s). 0 \<le> x"
  obtains g k where "0 \<le> g" "g \<le> sum_list (tickets s)" "wins (tickets s) g k"
    "lottery_branch a c s = rbind (run_proc a c 0 (int k) 2 (qlist (rq s) 0 ! k)
         (s\<lparr>rand_next := random_step (rand_next s)\<rparr>)) (\<lambda>s'. Ok (Dispatched (qlist (rq s) 0 ! k), s'))"
proof -
  have w: "rq_wf (rq s)" by (rule tinvD(2) [OF t])
  have r: "\<forall>p \<in> set (qlist (rq s) 0). p_state (P s p) = RUNNABLE" using tinvD(4) [OF t queues4(1)] by blast
  have "0 \<le> sum_list (tickets s)" using pos by (intro sum_list_nonneg) auto
  then obtain g s1 where g: "RandomInRange 0 (sum_list (tickets s)) s = Ok (g, s1)" "0 \<le> g" "g \<le> sum_list (tickets s)"
    "s1 = s\<lparr>rand_next := random_step (rand_next s)\<rparr>" using RandomInRange_range [of "sum_list (tickets s)" s] by metis
  have e: "rq s1 = rq s" "tickets s1 = tickets s" by (simp_all add: g(4) tickets_def)
  have l: "0 < length (qlist (rq s1) 0)" using ne e by simp
  obtain k where k: "lottery_loop g [0..<length (qlist (rq s1) 0)] 0 0 None s1 = Ok (k, Some (qlist (rq s1) 0 ! k))"
    "wins (tickets s1) g k"
    using lottery_loop_wins [of s1 0 g 0 None] w l e g(3) by auto
  have "lottery_branch a c s = rbind (run_proc a c 0 (int k) 2 (qlist (rq s) 0 ! k) s1) (\<lambda>s'. Ok (Dispatched (qlist (rq s) 0 ! k), s'))"
    using k(1) g(1) e count_get_qlist [OF w queues4(1)] by (simp add: lottery_branch_def loteria_Total_sum [OF w r])
  with that [OF g(2,3)] k(2) e(2) g(4) show thesis by simp
qed

lemma lottery_run:
  assumes t: "tinv s" and h: "held a s" and c: "c = ci a (mach s)" and k: "k < length (qlist (rq s) 0)"
    and st: "p_kstack (P s (qlist (rq s) 0 ! k)) \<noteq> 0" "p_pgdir (P s (qlist (rq s) 0 ! k)) \<noteq> 0"
  obtains s' where "run_proc a c 0 (int k) 2 (qlist (rq s) 0 ! k) s = Ok s'"
    "running_on a s' = Some (qlist (rq s) 0 ! k)" "p_state (P s' (qlist (rq s) 0 ! k)) = RUNNING"
    "count_queue (rq s') = (count_queue (rq s))[2 := count_queue (rq s) ! 2 - 1]"
proof -
  let ?p = "qlist (rq s) 0 ! k"
  have pn: "?p < NPROC" using nth_mem [OF k] tinvD(4) [OF t queues4(1)] by blast
  obtain s2 where rp: "\<And>q pos cq. run_proc a c q pos cq ?p s = rbind (shift_queue q pos (rq s)) (\<lambda>r.
      rbind (count_add cq (- 1) r) (\<lambda>r. Ok (upd_proc ?p (\<lambda>x. x\<lparr>p_state := RUNNING\<rparr>) (s2\<lparr>rq := r\<rparr>))))"
    and p2: "tinv s2" and h2: "held a s2" and e2: "rq s2 = rq s"
      "procs s2 = (procs s)[?p := (P s ?p)\<lparr>p_clock := 0, p_readyTimeAging := 0\<rparr>]" "nextpid s2 = nextpid s"
    and r2: "running_on a s2 = Some ?p" "depth a (mach s2) = depth a (mach s)" "ci a (mach s2) = ci a (mach s)"
    using run_proc_switch [OF t h pn st c] by blast
  have len: "?p < length (procs s2)" using tinvD(1) [OF p2] pn by simp
  have "\<exists>r. shift_queue 0 (int k) (rq s) = Ok r \<and> count_queue r = count_queue (rq s)"
    using shift_queue_row [OF tinvD(2) [OF t] queues4(1) k] by simp
  then obtain r where r: "shift_queue 0 (int k) (rq s) = Ok r" "count_queue r = count_queue (rq s)" by blast
  define r' where "r' = r\<lparr>count_queue := (count_queue r)[2 := count_queue r ! 2 - 1]\<rparr>"
  have "count_add 2 (- 1) r = Ok r'" by (simp add: count_add_def NUMFILAS_def r'_def)
  then have "run_proc a c 0 (int k) 2 ?p s = Ok (upd_proc ?p (\<lambda>x. x\<lparr>p_state := RUNNING\<rparr>) (s2\<lparr>rq := r'\<rparr>))"
    unfolding rp r(1) by simp
  then show thesis by (rule that) (use r2(1) len r(2) in \<open>simp_all add: r'_def\<close>)
qed

lemma lottery_state:
  assumes "tinv s" and "held a s" and "c = ci a (mach s)" and "ready_to_run s" and "wins (tickets s) g k"
  obtains s' where "run_proc a c 0 (int k) 2 (qlist (rq s) 0 ! k) (s\<lparr>rand_next := r\<rparr>) = Ok s'"
    "running_on a s' = Some (qlist (rq s) 0 ! k)" "p_state (P s' (qlist (rq s) 0 ! k)) = RUNNING"
    "count_queue (rq s') = (count_queue (rq s))[2 := count_queue (rq s) ! 2 - 1]"
proof -
  let ?s = "s\<lparr>rand_next := r\<rparr>"
  have k: "k < length (qlist (rq ?s) 0)" using assms(5) by (simp add: wins_def tickets_def)
  have p: "qlist (rq s) 0 ! k < NPROC" "p_state (P s (qlist (rq s) 0 ! k)) = RUNNABLE"
    using nth_mem [of k "qlist (rq s) 0"] k tinvD(4) [OF assms(1) queues4(1)] by auto
  have "tinv ?s" "held a ?s" "c = ci a (mach ?s)" "p_kstack (P ?s (qlist (rq ?s) 0 ! k)) \<noteq> 0"
    "p_pgdir (P ?s (qlist (rq ?s) 0 ! k)) \<noteq> 0"
    using assms(1-4) p by (auto simp: tinv_def held_def ready_to_run_def live_def)
  from lottery_run [OF this(1-3) k this(4,5)] that show thesis by auto
qed


definition demo_lottery :: kst where
  "demo_lottery = acq 0 (demo\<lparr>procs := (procs demo)[1 := demo_sleeper\<lparr>p_state := RUNNABLE\<rparr>], rq := list_rq 0 [1]\<rparr>)"

lemma demo_lottery_states:
  "p < NPROC \<Longrightarrow> P demo_lottery p = (if p = 0 then demo_running
     else if p = 1 then demo_sleeper\<lparr>p_state := RUNNABLE\<rparr> else unused_proc)"
  using demo_states [of p] demo_procs(1) by (auto simp: demo_lottery_def nth_upd)

lemma demo_lottery_facts:
  "tinv demo_lottery" "held 0 demo_lottery" "0 = ci 0 (mach demo_lottery)" "ready_to_run demo_lottery"
  "qlist (rq demo_lottery) 0 = [1]" "tickets demo_lottery = [10]"
  "qlist (rq demo_lottery) 1 = []" "qlist (rq demo_lottery) 2 = []" "qlist (rq demo_lottery) 3 = []"
proof -
  have n: "0 < NPROC" "1 < NPROC" "0 < NUMFILAS" by (simp_all add: NPROC_def NUMFILAS_def)
  have l: "length (procs demo_lottery) = NPROC" "rq demo_lottery = list_rq 0 [1]"
    using demo_procs(1) by (simp_all add: demo_lottery_def)
  show "tinv demo_lottery"
    using l n qlist_list [OF n(3)] list_rq_wf [OF n(3), of "[1]"]
    by (auto simp: tinv_def demo_lottery_states demo_fields live_def is_queue_def NUMFILAS_def split: if_splits)
  have "idle_lock 0 (demo\<lparr>procs := (procs demo)[1 := demo_sleeper\<lparr>p_state := RUNNABLE\<rparr>], rq := list_rq 0 [1]\<rparr>)"
    using demo_inv(3) by (simp add: idle_lock_def)
  then show "held 0 demo_lottery" unfolding demo_lottery_def by (rule held_acq)
  show "0 = ci 0 (mach demo_lottery)" by (simp add: demo_lottery_def demo_def demo_machine_def ci_def push_m_def)
  show "ready_to_run demo_lottery" by (auto simp: ready_to_run_def demo_lottery_states demo_fields live_def)
  show q: "qlist (rq demo_lottery) 0 = [1]" "qlist (rq demo_lottery) 1 = []" "qlist (rq demo_lottery) 2 = []"
    "qlist (rq demo_lottery) 3 = []"
    using l qlist_list [OF n(3), of _ "[1]"] by simp_all
  show "tickets demo_lottery = [10]" using q(1) n by (simp add: tickets_def demo_lottery_states demo_fields)
qed


text \<open>
  C29. The lottery branch corrupts the ready queues: with processes ready only at level 0, the
  round dispatches one of them, but decrements the counter of level 2 instead of that of level 0.
  Level 0 still counts the process that now runs, the counter of level 2 is -1, the table
  invariant no longer holds, and the next process to become ready at level 2 is written outside
  the queue array.
\<close>
theorem lottery_corrupts_counters:
  assumes "tinv s" and "held a s" and "c = ci a (mach s)" and "ready_to_run s"
    and "qlist (rq s) 0 \<noteq> []" and "\<forall>t \<in> set (tickets s). 0 \<le> t"
    and "qlist (rq s) 1 = []" and "qlist (rq s) 2 = []" and "qlist (rq s) 3 = []"
  shows "\<exists>p s'. schedule a c s = Ok (Dispatched p, s') \<and> p_state (P s' p) = RUNNING
    \<and> count_queue (rq s') ! 0 = int (length (qlist (rq s) 0)) \<and> count_queue (rq s') ! 2 = - 1
    \<and> \<not> tinv s' \<and> (\<forall>p'. add_ready 2 p' s' = Fault)"
proof -
  obtain g k where g: "wins (tickets s) g k"
    "lottery_branch a c s = rbind (run_proc a c 0 (int k) 2 (qlist (rq s) 0 ! k)
         (s\<lparr>rand_next := random_step (rand_next s)\<rparr>)) (\<lambda>s'. Ok (Dispatched (qlist (rq s) 0 ! k), s'))"
    using lottery_draw [OF assms(1,5,6)] by blast
  obtain s' where s': "run_proc a c 0 (int k) 2 (qlist (rq s) 0 ! k) (s\<lparr>rand_next := random_step (rand_next s)\<rparr>) = Ok s'"
    "p_state (P s' (qlist (rq s) 0 ! k)) = RUNNING"
    "count_queue (rq s') = (count_queue (rq s))[2 := count_queue (rq s) ! 2 - 1]"
    using lottery_state [OF assms(1-4) g(1)] by blast
  have w: "rq_wf (rq s)" by (rule tinvD(2) [OF assms(1)])
  have cq: "count_queue (rq s) ! 2 = 0" "count_queue (rq s) ! 0 = int (length (qlist (rq s) 0))" "length (count_queue (rq s)) = 4"
    using length_qlist [OF w queues4(3)] length_qlist [OF w queues4(1)] assms(8) w by (simp_all add: rq_wf_def NUMFILAS_def)
  have c2: "count_queue (rq s') ! 2 = - 1" "count_queue (rq s') ! 0 = int (length (qlist (rq s) 0))" using s'(3) cq by simp_all
  have "\<not> rq_wf (rq s')" using c2(1) rq_wfD(4) [of "rq s'" 2] by auto
  then have "\<not> tinv s'" using tinvD(2) by blast
  moreover have "add_ready 2 p' s' = Fault" for p'
    using c2(1) by (simp add: add_ready_def enqueue_def count_get_def slot_set_def NUMFILAS_def)
  moreover have "schedule a c s = lottery_branch a c s"
    using assms(5,7-9) count_get_qlist [OF w] by (simp add: schedule_def)
  ultimately show ?thesis using g(2) s' c2 by auto
qed

theorem lottery_corrupts_counters_witness:
  "\<exists>p s'. schedule 0 0 demo_lottery = Ok (Dispatched p, s') \<and> count_queue (rq s') ! 0 = 1 \<and> count_queue (rq s') ! 2 = - 1"
  using lottery_corrupts_counters [of demo_lottery 0 0] demo_lottery_facts by fastforce

end
