(* ===== verification/Strings.thy ===== *)
theory Strings
  imports Xv6_Prelude
begin

section \<open>Memory and string routines (\<^verbatim>\<open>string.c\<close>)\<close>

text \<open>
  Memory is a function from 32-bit addresses to bytes; pointer arithmetic wraps as \<^verbatim>\<open>uint\<close>
  arithmetic does. The counted loops recurse on the count; the search for a terminating NUL,
  which has no bound, is \<open>partial_function\<close>, so that not finding one is \<open>None\<close>. \<open>cstr m a xs\<close>
  says that a NUL-terminated string with the bytes \<open>xs\<close> is at address \<open>a\<close>.
\<close>

unbundle bit_operations_syntax

type_synonym mem = "u32 \<Rightarrow> u8"

fun stosb :: "nat \<Rightarrow> u32 \<Rightarrow> u8 \<Rightarrow> mem \<Rightarrow> mem" where
  "stosb 0 a d m = m"
| "stosb (Suc n) a d m = stosb n (a + 1) d (m(a := d))"

definition store32 :: "u32 \<Rightarrow> u32 \<Rightarrow> mem \<Rightarrow> mem" where
  "store32 a d m = m(a := ucast d, a + 1 := ucast (drop_bit 8 d), a + 2 := ucast (drop_bit 16 d), a + 3 := ucast (drop_bit 24 d))"

fun stosl :: "nat \<Rightarrow> u32 \<Rightarrow> u32 \<Rightarrow> mem \<Rightarrow> mem" where
  "stosl 0 a d m = m"
| "stosl (Suc n) a d m = stosl n (a + 4) d (store32 a d m)"

definition memset :: "u32 \<Rightarrow> u32 \<Rightarrow> u32 \<Rightarrow> mem \<Rightarrow> mem" where
  "memset dst c n m =
     (if dst mod 4 = 0 \<and> n mod 4 = 0 then
        let c = c AND 0xFF
        in stosl (unat (n div 4)) dst (push_bit 24 c OR push_bit 16 c OR push_bit 8 c OR c) m
      else stosb (unat n) dst (ucast c) m)"

fun memcmp_loop :: "nat \<Rightarrow> u32 \<Rightarrow> u32 \<Rightarrow> mem \<Rightarrow> int" where
  "memcmp_loop 0 s1 s2 m = 0"
| "memcmp_loop (Suc n) s1 s2 m =
     (if m s1 \<noteq> m s2 then uint (m s1) - uint (m s2) else memcmp_loop n (s1 + 1) (s2 + 1) m)"

definition memcmp :: "u32 \<Rightarrow> u32 \<Rightarrow> u32 \<Rightarrow> mem \<Rightarrow> int" where
  "memcmp v1 v2 n m = memcmp_loop (unat n) v1 v2 m"

fun copy_up :: "nat \<Rightarrow> u32 \<Rightarrow> u32 \<Rightarrow> mem \<Rightarrow> mem" where
  "copy_up 0 d s m = m"
| "copy_up (Suc n) d s m = copy_up n (d + 1) (s + 1) (m(d := m s))"

fun copy_down :: "nat \<Rightarrow> u32 \<Rightarrow> u32 \<Rightarrow> mem \<Rightarrow> mem" where
  "copy_down 0 d s m = m"
| "copy_down (Suc n) d s m = copy_down n (d - 1) (s - 1) (m(d - 1 := m (s - 1)))"

definition memmove :: "u32 \<Rightarrow> u32 \<Rightarrow> u32 \<Rightarrow> mem \<Rightarrow> mem" where
  "memmove dst src n m =
     (if src < dst \<and> src + n > dst then copy_down (unat n) (dst + n) (src + n) m
      else copy_up (unat n) dst src m)"

definition memcpy :: "u32 \<Rightarrow> u32 \<Rightarrow> u32 \<Rightarrow> mem \<Rightarrow> mem" where
  "memcpy dst src n m = memmove dst src n m"

fun strncmp_loop :: "nat \<Rightarrow> u32 \<Rightarrow> u32 \<Rightarrow> mem \<Rightarrow> int" where
  "strncmp_loop 0 p q m = 0"
| "strncmp_loop (Suc n) p q m =
     (if m p \<noteq> 0 \<and> m p = m q then strncmp_loop n (p + 1) (q + 1) m else uint (m p) - uint (m q))"

definition strncmp :: "u32 \<Rightarrow> u32 \<Rightarrow> u32 \<Rightarrow> mem \<Rightarrow> int" where
  "strncmp p q n m = strncmp_loop (unat n) p q m"

text \<open>
  The copying loop of \<^verbatim>\<open>strncpy\<close> and \<^verbatim>\<open>safestrcpy\<close>: at most \<open>n\<close> bytes, the NUL included. It
  returns the bytes still to go when it stopped at the NUL, and the pointer behind the last byte.
\<close>

fun strcpy_loop :: "nat \<Rightarrow> u32 \<Rightarrow> u32 \<Rightarrow> mem \<Rightarrow> nat \<times> u32 \<times> mem" where
  "strcpy_loop 0 s t m = (0, s, m)"
| "strcpy_loop (Suc n) s t m =
     (let m' = m(s := m t) in if m t \<noteq> 0 then strcpy_loop n (s + 1) (t + 1) m' else (n, s + 1, m'))"

definition strncpy :: "u32 \<Rightarrow> u32 \<Rightarrow> int \<Rightarrow> mem \<Rightarrow> mem" where
  "strncpy s t n m = (case strcpy_loop (nat n) s t m of (k, s, m) \<Rightarrow> stosb k s 0 m)"

definition safestrcpy :: "u32 \<Rightarrow> u32 \<Rightarrow> int \<Rightarrow> mem \<Rightarrow> mem" where
  "safestrcpy s t n m =
     (if n \<le> 0 then m
      else case strcpy_loop (nat n - 1) s t m of (k, s, m) \<Rightarrow> m(s := 0))"

partial_function (option) strlen_from :: "u32 \<Rightarrow> int \<Rightarrow> mem \<Rightarrow> int option" where
  "strlen_from s n m = (if m (s + word_of_int n) \<noteq> 0 then strlen_from s (n + 1) m else Some n)"

definition strlen :: "u32 \<Rightarrow> mem \<Rightarrow> int option" where
  "strlen s m = strlen_from s 0 m"

subsection \<open>Filling\<close>

lemma unat_sub_1: "(a :: u32) \<noteq> d \<Longrightarrow> unat (a - (d + 1)) = unat (a - d) - 1"
proof -
  assume "a \<noteq> d"
  then have "a - d \<noteq> 0" by simp
  then have "unat (a - d - 1) = unat (a - d) - 1" by (rule unat_minus_one)
  then show ?thesis by (simp add: diff_diff_eq)
qed

lemma unat_eq_0_diff: "unat ((a :: u32) - d) = 0 \<longleftrightarrow> a = d"
  by (simp add: unat_eq_0)

lemma stosb_apply: "n \<le> 2 ^ 32 \<Longrightarrow> stosb n d c m a = (if unat (a - d) < n then c else m a)"
proof (induction n arbitrary: d m)
  case 0
  then show ?case by simp
next
  case (Suc n)
  show ?case
  proof (cases "a = d")
    case True
    have "unat (a - (d + 1)) = 2 ^ 32 - 1" unfolding True by (simp add: unsigned_minus_1_eq_mask mask_eq_exp_minus_1)
    with Suc True show ?thesis by simp
  next
    case False
    then have "unat (a - d) \<noteq> 0" by (simp add: unat_eq_0_diff)
    then have "unat (a - (d + 1)) < n \<longleftrightarrow> unat (a - d) < Suc n" using unat_sub_1 [OF False] by linarith
    with Suc False show ?thesis by simp
  qed
qed

lemma store32_same:
  assumes "ucast d = c" "ucast (drop_bit 8 d) = c" "ucast (drop_bit 16 d) = c" "ucast (drop_bit 24 d) = c"
  shows "store32 a d m = stosb 4 a c m"
  using assms by (simp add: store32_def numeral_eq_Suc add.assoc)

lemma stosb_add: "stosb (k + n) a c m = stosb n (a + of_nat k) c (stosb k a c m)"
  by (induction k arbitrary: a m) (simp_all add: ac_simps)

lemma stosl_stosb:
  assumes "ucast d = c" "ucast (drop_bit 8 d) = c" "ucast (drop_bit 16 d) = c" "ucast (drop_bit 24 d) = c"
  shows "stosl n a d m = stosb (4 * n) a c m"
proof (induction n arbitrary: a m)
  case 0
  then show ?case by simp
next
  case (Suc n)
  have "stosb (4 * Suc n) a c m = stosb (4 * n) (a + 4) c (stosb 4 a c m)" using stosb_add [of 4 "4 * n" a c m] by simp
  with Suc show ?case by (simp add: store32_same [OF assms])
qed

lemma spread_byte:
  fixes c :: u32
  defines "w \<equiv> push_bit 24 (c AND 0xFF) OR push_bit 16 (c AND 0xFF) OR push_bit 8 (c AND 0xFF) OR (c AND 0xFF)"
  shows "(ucast w :: u8) = ucast c" "(ucast (drop_bit 8 w) :: u8) = ucast c"
    "(ucast (drop_bit 16 w) :: u8) = ucast c" "(ucast (drop_bit 24 w) :: u8) = ucast c"
proof -
  have ff: "(0xFF :: u32) = mask 8" by (simp add: mask_eq_exp_minus_1)
  show "(ucast w :: u8) = ucast c" "(ucast (drop_bit 8 w) :: u8) = ucast c"
    "(ucast (drop_bit 16 w) :: u8) = ucast c" "(ucast (drop_bit 24 w) :: u8) = ucast c"
    unfolding w_def ff by (rule bit_word_eqI, auto simp: bit_simps)+
qed

lemma memset_eq:
  "memset dst c n m = (\<lambda>a. if a - dst < n then ucast c else m a)"
proof
  fix a
  have "unat n \<le> 2 ^ 32" using unsigned_less [of n] by (intro less_imp_le) simp
  moreover have "4 * unat (n div 4) = unat n" if "n mod 4 = 0"
  proof -
    have "unat n mod 4 = 0" using that unat_mod [of n 4] by simp
    then show ?thesis by (simp add: unat_div mult.commute mod_0_imp_dvd)
  qed
  ultimately show "memset dst c n m a = (if a - dst < n then ucast c else m a)"
    unfolding memset_def Let_def stosl_stosb [OF spread_byte] by (simp add: stosb_apply word_less_nat_alt)
qed

text \<open>
  \<^verbatim>\<open>memset\<close> stores the low byte of its argument in exactly the \<^verbatim>\<open>n\<close> bytes from \<^verbatim>\<open>dst\<close>,
  whether it writes words (aligned address and length) or bytes.
\<close>
theorem memset_fills:
  "memset dst c n m = (\<lambda>a. if a - dst < n then ucast c else m a)"
  by (rule memset_eq)

subsection \<open>Copying\<close>

lemma copy_up_apply:
  assumes "n \<le> 2 ^ 32" and "unat (d - s) = 0 \<or> n \<le> unat (d - s)"
  shows "copy_up n d s m a = (if unat (a - d) < n then m (s + (a - d)) else m a)"
  using assms
proof (induction n arbitrary: d s m)
  case 0
  then show ?case by simp
next
  case (Suc n)
  let ?m = "m(d := m s)"
  have "d + 1 - (s + 1) = d - s" by simp
  with Suc have IH: "copy_up (Suc n) d s m a = (if unat (a - (d + 1)) < n then ?m (s + 1 + (a - (d + 1))) else ?m a)" by auto
  show ?case
  proof (cases "a = d")
    case True
    have "unat (a - (d + 1)) = 2 ^ 32 - 1" unfolding True by (simp add: unsigned_minus_1_eq_mask mask_eq_exp_minus_1)
    with IH True Suc.prems(1) show ?thesis by simp
  next
    case False
    then have nz: "unat (a - d) \<noteq> 0" by (simp add: unat_eq_0_diff)
    then have lt: "unat (a - (d + 1)) < n \<longleftrightarrow> unat (a - d) < Suc n" using unat_sub_1 [OF False] by linarith
    have src: "s + 1 + (a - (d + 1)) = s + (a - d)" by simp
    have "s + (a - d) \<noteq> d" if "unat (a - d) < Suc n" "d \<noteq> s"
    proof
      assume "s + (a - d) = d"
      then have "a - d = d - s" by (simp add: algebra_simps)
      with that Suc.prems(2) show False by (auto simp: unat_eq_0_diff)
    qed
    with IH lt src False show ?thesis by (cases "d = s") auto
  qed
qed


lemma copy_down_apply:
  assumes "n \<le> 2 ^ 32" and "unat (s - d) = 0 \<or> n \<le> unat (s - d)"
  shows "copy_down n d s m a = (if unat (d - 1 - a) < n then m (s + (a - d)) else m a)"
  using assms
proof (induction n arbitrary: d s m)
  case 0
  then show ?case by simp
next
  case (Suc n)
  let ?m = "m(d - 1 := m (s - 1))"
  have "s - 1 - (d - 1) = s - d" by simp
  with Suc have IH: "copy_down (Suc n) d s m a = (if unat (d - 1 - 1 - a) < n then ?m (s - 1 + (a - (d - 1))) else ?m a)" by auto
  show ?case
  proof (cases "a = d - 1")
    case True
    have "unat (d - 1 - 1 - a) = 2 ^ 32 - 1" unfolding True by (simp add: unsigned_minus_1_eq_mask mask_eq_exp_minus_1)
    with IH True Suc.prems(1) show ?thesis by simp
  next
    case False
    then have nz: "d - 1 - a \<noteq> 0" by (simp add: algebra_simps)
    then have e: "unat (d - 1 - 1 - a) = unat (d - 1 - a) - 1" using unat_minus_one [OF nz] by (simp add: algebra_simps)
    have "unat (d - 1 - a) \<noteq> 0" using nz by (simp add: unat_eq_0)
    then have lt: "unat (d - 1 - 1 - a) < n \<longleftrightarrow> unat (d - 1 - a) < Suc n" using e by linarith
    have src: "s - 1 + (a - (d - 1)) = s + (a - d)" by simp
    have "s + (a - d) \<noteq> d - 1" if "unat (d - 1 - a) < Suc n" "d \<noteq> s"
    proof
      assume "s + (a - d) = d - 1"
      then have "d - 1 - a = s - d" by (simp add: algebra_simps)
      with that Suc.prems(2) show False by (auto simp: unat_eq_0_diff)
    qed
    with IH lt src False show ?thesis by (cases "d = s") auto
  qed
qed

lemma unat_diff_less: "(x :: u32) < y \<Longrightarrow> unat (y - x) = unat y - unat x"
  by (simp add: unat_sub order_less_imp_le)

lemma unat_diff_wrap: "(x :: u32) < y \<Longrightarrow> unat (x - y) = 2 ^ 32 - (unat y - unat x)"
proof -
  assume "x < y"
  then have "unat x < unat y" by (simp add: word_less_nat_alt)
  then show ?thesis by (simp add: unat_sub_if')
qed

lemma unat_rev_less:
  fixes n y :: u32
  assumes "n \<noteq> 0"
  shows "unat (n - 1 - y) < unat n \<longleftrightarrow> y < n"
proof -
  have n: "unat (n - 1) = unat n - 1" "0 < unat n" using assms by (simp_all add: unat_minus_one unat_gt_0)
  show ?thesis
  proof (cases "y < n")
    case True
    then have "y \<le> n - 1" using n by (simp add: word_le_nat_alt word_less_nat_alt)
    then have "unat (n - 1 - y) = unat n - 1 - unat y" using n(1) by (simp add: unat_sub)
    with True n show ?thesis by simp
  next
    case False
    then have g: "n - 1 < y" using n by (simp add: word_less_nat_alt)
    have "unat (n - 1 - y) = 2 ^ 32 - (unat y - (unat n - 1))" using unat_diff_wrap [OF g] n by simp
    moreover have "unat y < 2 ^ 32" using unsigned_less [of y] by simp
    ultimately show ?thesis using False n by (simp add: word_less_nat_alt)
  qed
qed

text \<open>
  \<^verbatim>\<open>memmove\<close> copies correctly even when source and destination overlap: provided
  neither region runs past the end of the address space, afterwards every byte of the
  destination holds what the corresponding source byte held before the call, and no other byte
  has changed.
\<close>
theorem memmove_copies:
  assumes "unat src + unat n < 2 ^ 32" and "unat dst + unat n < 2 ^ 32"
  shows "memmove dst src n m = (\<lambda>a. if a - dst < n then m (src + (a - dst)) else m a)"
proof
  fix a
  have n: "unat n \<le> 2 ^ 32" using assms(1) by simp
  have un: "unat (src + n) = unat src + unat n" using assms(1) by (subst unat_add_lem [THEN iffD1]) simp_all
  show "memmove dst src n m a = (if a - dst < n then m (src + (a - dst)) else m a)"
  proof (cases "src < dst \<and> dst < src + n")
    case True
    have "unat (src - dst) = 2 ^ 32 - (unat dst - unat src)" using True unat_diff_wrap by blast
    then have c: "unat n \<le> unat (src + n - (dst + n))" using assms True by (simp add: word_less_nat_alt)
    have e: "dst + n - 1 - a = n - 1 - (a - dst)" by simp
    have "n \<noteq> 0" using True by auto
    then have "unat (dst + n - 1 - a) < unat n \<longleftrightarrow> a - dst < n" unfolding e by (rule unat_rev_less)
    then show ?thesis
      using True copy_down_apply [OF n disjI2 [OF c], of m a] by (simp add: memmove_def algebra_simps)
  next
    case False
    have "unat (dst - src) = 0 \<or> unat n \<le> unat (dst - src)"
    proof (cases "src < dst")
      case True
      then have "unat (src + n) \<le> unat dst" using False by (simp add: word_less_nat_alt)
      then have "unat n \<le> unat (dst - src)" using unat_diff_less [OF True] un by linarith
      then show ?thesis ..
    next
      case ge: False
      show ?thesis
      proof (cases "dst = src")
        case False
        then have "dst < src" using ge by auto
        then have "unat n \<le> unat (dst - src)" using unat_diff_wrap [of dst src] assms(1) by simp
        then show ?thesis ..
      qed simp
    qed
    then show ?thesis
      using False copy_up_apply [OF n, of dst src m a] by (auto simp: memmove_def word_less_nat_alt)
  qed
qed


theorem memmove_copies_witness:
  "memmove 0x1002 0x1000 4 (\<lambda>a. ucast a) 0x1005 = 3 \<and> memmove 0x1002 0x1000 4 (\<lambda>a. ucast a) 0x1006 = 6"
  using memmove_copies [of "0x1000" 4 "0x1002" "\<lambda>a. ucast a"] by simp

lemma memcmp_loop_zero:
  "memcmp_loop n p q m = 0 \<longleftrightarrow> (\<forall>i < n. m (p + of_nat i) = m (q + of_nat i))"
proof (induction n arbitrary: p q)
  case 0
  then show ?case by simp
next
  case (Suc n)
  have "(\<forall>i < Suc n. m (p + of_nat i) = m (q + of_nat i)) \<longleftrightarrow>
      m p = m q \<and> (\<forall>i < n. m (p + 1 + of_nat i) = m (q + 1 + of_nat i))"
    by (simp add: All_less_Suc2 add.assoc [symmetric])
  moreover have "memcmp_loop (Suc n) p q m = 0 \<longleftrightarrow> m p = m q \<and> memcmp_loop n (p + 1) (q + 1) m = 0"
    by (simp add: uint_word_of_int_eq word_uint_eq_iff)
  ultimately show ?case using Suc by simp
qed

text \<open>\<^verbatim>\<open>memcmp\<close> returns 0 exactly when the two regions hold the same bytes.\<close>

lemma memcmp_equal:
  "memcmp v1 v2 n m = 0 \<longleftrightarrow> (\<forall>i < unat n. m (v1 + of_nat i) = m (v2 + of_nat i))"
  by (simp add: memcmp_def memcmp_loop_zero)

subsection \<open>Strings\<close>

fun cstr :: "mem \<Rightarrow> u32 \<Rightarrow> u8 list \<Rightarrow> bool" where
  "cstr m a [] \<longleftrightarrow> m a = 0"
| "cstr m a (x # xs) \<longleftrightarrow> m a = x \<and> x \<noteq> 0 \<and> cstr m (a + 1) xs"

lemma cstr_nth:
  "cstr m a xs \<longleftrightarrow> (\<forall>i < length xs. m (a + of_nat i) = xs ! i \<and> xs ! i \<noteq> 0) \<and> m (a + of_nat (length xs)) = 0"
proof (induction xs arbitrary: a)
  case Nil
  then show ?case by simp
next
  case (Cons x xs)
  have "(\<forall>i < length (x # xs). m (a + of_nat i) = (x # xs) ! i \<and> (x # xs) ! i \<noteq> 0) \<longleftrightarrow>
      m a = x \<and> x \<noteq> 0 \<and> (\<forall>i < length xs. m (a + 1 + of_nat i) = xs ! i \<and> xs ! i \<noteq> 0)"
    by (simp add: All_less_Suc2 add.assoc [symmetric])
  with Cons [of "a + 1"] show ?case by (simp add: add.assoc [symmetric])
qed

text \<open>
  The copying loop on a string \<open>xs\<close>: with room for all of it and the NUL it copies both, else it
  copies the first \<open>n\<close> bytes. The source must not be overwritten.
\<close>

lemma u32_of_nat_inj: "i < 2 ^ 32 \<Longrightarrow> j < 2 ^ 32 \<Longrightarrow> (of_nat i :: u32) = of_nat j \<longleftrightarrow> i = j"
  by (simp add: word_of_nat_eq_iff take_bit_nat_eq_self)

lemma offset_neq: "i < n \<Longrightarrow> n < 2 ^ 32 \<Longrightarrow> (s :: u32) \<noteq> s + 1 + of_nat i"
proof
  assume l: "i < n" "n < 2 ^ 32" and "s = s + 1 + of_nat i"
  then have "(of_nat (Suc i) :: u32) = 0" by (simp add: add.assoc)
  then have "2 ^ 32 dvd Suc i" by (simp only: word_of_nat_eq_0_iff) simp
  with l show False using nat_dvd_not_less [of "Suc i" "2 ^ 32"] by simp
qed

lemma strcpy_loop_spec:
  assumes "cstr m t xs" and "\<And>i j. i < n \<Longrightarrow> j \<le> length xs \<Longrightarrow> s + of_nat i \<noteq> t + of_nat j"
    and "n < 2 ^ 32" and "strcpy_loop n s t m = (k, e, m')"
  shows "k = n - length xs - 1 \<and> e = s + of_nat (min n (Suc (length xs)))
    \<and> (\<forall>i < min n (length xs). m' (s + of_nat i) = xs ! i) \<and> (length xs < n \<longrightarrow> m' (s + of_nat (length xs)) = 0)
    \<and> (\<forall>a. (\<forall>i < n. a \<noteq> s + of_nat i) \<longrightarrow> m' a = m a)"
  using assms
proof (induction n arbitrary: s t m xs)
  case 0
  then show ?case by simp
next
  case (Suc n)
  let ?m = "m(s := m t)"
  show ?case
  proof (cases xs)
    case Nil
    with Suc.prems(1,4) show ?thesis by (auto simp: Let_def)
  next
    case (Cons x ys)
    have mt: "m t = x" "x \<noteq> 0" "cstr m (t + 1) ys" using Suc.prems(1) Cons by auto
    have q: "?m (t + 1 + of_nat j) = m (t + 1 + of_nat j)" if "j \<le> length ys" for j
    proof (rule fun_upd_other)
      have "s + of_nat 0 \<noteq> t + of_nat (Suc j)" by (rule Suc.prems(2)) (use that Cons in simp_all)
      then have "s \<noteq> t + (1 + of_nat j)" by simp
      then show "t + 1 + of_nat j \<noteq> s" unfolding add.assoc by (rule not_sym)
    qed
    have c: "cstr ?m (t + 1) ys" using mt(3) q unfolding cstr_nth by (simp del: fun_upd_apply)
    have d: "s + 1 + of_nat i \<noteq> t + 1 + of_nat j" if "i < n" "j \<le> length ys" for i j
      using Suc.prems(2) [of "Suc i" "Suc j"] that Cons by (simp add: add.assoc)
    have step: "strcpy_loop n (s + 1) (t + 1) ?m = (k, e, m')" using Suc.prems(4) mt by (simp add: Let_def)
    have "n < 2 ^ 32" using Suc.prems(3) by simp
    note IH = Suc.IH [OF c d this step]
    note I2 = IH [THEN conjunct2]
    note I3 = I2 [THEN conjunct2]
    note frame = I3 [THEN conjunct2, THEN conjunct2, rule_format]
    have s0: "m' s = x"
    proof -
      have "m' s = ?m s" by (rule frame) (use offset_neq Suc.prems(3) in auto)
      then show ?thesis using mt by simp
    qed
    have sh: "s + 1 + of_nat i = s + of_nat (Suc i)" for i by (simp add: add.assoc)
    have "m' (s + of_nat i) = xs ! i" if "i < min (Suc n) (length xs)" for i
    proof (cases i)
      case 0
      then show ?thesis using s0 Cons by simp
    next
      case (Suc j)
      then have "m' (s + 1 + of_nat j) = ys ! j" using I3 [THEN conjunct1] that Cons by simp
      then show ?thesis using Suc Cons unfolding sh by simp
    qed
    moreover have "m' a = m a" if "\<forall>i < Suc n. a \<noteq> s + of_nat i" for a
    proof -
      have "a \<noteq> s" using that [rule_format, of 0] by simp
      moreover have "m' a = ?m a"
      proof (rule frame)
        fix i assume "i < n"
        then show "a \<noteq> s + 1 + of_nat i" unfolding sh using that by blast
      qed
      ultimately show ?thesis by simp
    qed
    moreover have "length ys < n \<longrightarrow> m' (s + of_nat (Suc (length ys))) = 0"
      using I3 [THEN conjunct2, THEN conjunct1] unfolding sh .
    moreover have "e = s + of_nat (Suc (min n (Suc (length ys))))" using I2 [THEN conjunct1] unfolding sh .
    ultimately show ?thesis using IH [THEN conjunct1] Cons by simp
  qed
qed


text \<open>
  \<^verbatim>\<open>safestrcpy\<close> of a string into a buffer of \<open>n > 0\<close> bytes that does not overlap it
  leaves a NUL-terminated string in the buffer, the first \<open>n - 1\<close> bytes of the source at most,
  and writes nowhere outside the buffer.
\<close>
theorem safestrcpy_truncates:
  assumes "cstr m t xs" and "0 < n" and "n < 2 ^ 31"
    and "\<And>i j. i < nat n \<Longrightarrow> j \<le> length xs \<Longrightarrow> s + of_nat i \<noteq> t + of_nat j"
  shows "cstr (safestrcpy s t n m) s (take (nat n - 1) xs)
    \<and> (\<forall>a. (\<forall>i < nat n. a \<noteq> s + of_nat i) \<longrightarrow> safestrcpy s t n m a = m a)"
proof -
  define N where "N = nat n - 1"
  have N: "N < 2 ^ 32" "Suc N < 2 ^ 32" "nat n = Suc N" using assms(2,3) by (simp_all add: N_def)
  obtain k e m' where l: "strcpy_loop N s t m = (k, e, m')" by (cases "strcpy_loop N s t m")
  have d: "s + of_nat i \<noteq> t + of_nat j" if "i < N" "j \<le> length xs" for i j using assms(4) that N(3) by simp
  note S = strcpy_loop_spec [OF assms(1) d N(1) l]
  have r: "safestrcpy s t n m = m'(e := 0)" using l assms(2) N by (simp add: safestrcpy_def)
  have e: "e = s + of_nat (min N (Suc (length xs)))" using S by blast
  have inj: "s + of_nat i = s + of_nat j \<longleftrightarrow> i = j" if "i < 2 ^ 32" "j < 2 ^ 32" for i j
    using that by (simp add: u32_of_nat_inj)
  have low: "m' (s + of_nat i) = xs ! i" if "i < min N (length xs)" for i using S that by blast
  let ?ys = "take N xs"
  have "cstr (m'(e := 0)) s ?ys" unfolding cstr_nth
  proof (intro conjI allI impI)
    fix i assume i: "i < length ?ys"
    then have "s + of_nat i \<noteq> e" using e inj [of i "min N (Suc (length xs))"] N by auto
    then show "(m'(e := 0)) (s + of_nat i) = ?ys ! i" using low i by simp
    show "?ys ! i \<noteq> 0" using assms(1) i unfolding cstr_nth by simp
  next
    show "(m'(e := 0)) (s + of_nat (length ?ys)) = 0"
    proof (cases "length xs < N")
      case True
      then have "m' (s + of_nat (length xs)) = 0" using S by blast
      with True show ?thesis by simp
    next
      case False
      then have "e = s + of_nat N" using e by simp
      with False show ?thesis by simp
    qed
  qed
  moreover have "safestrcpy s t n m a = m a" if "\<forall>i < nat n. a \<noteq> s + of_nat i" for a
  proof -
    have "m' a = m a" using S that N by simp
    moreover have "a \<noteq> e" using that [rule_format, of "min N (Suc (length xs))"] e N by simp
    ultimately show ?thesis by (simp add: r)
  qed
  ultimately show ?thesis using r N by simp
qed

text \<open>A buffer at \<open>0x100\<close> and the string \<^verbatim>\<open>abc\<close> at \<open>0x200\<close>.\<close>

definition demo_mem :: mem where
  "demo_mem = (\<lambda>_. 255)(0x200 := 97, 0x201 := 98, 0x202 := 99, 0x203 := 0)"

lemma demo_mem_cstr: "cstr demo_mem 0x200 [97, 98, 99]"
  by (simp add: demo_mem_def)

lemma demo_mem_disjoint: "i < 8 \<Longrightarrow> j \<le> 3 \<Longrightarrow> (0x100 :: u32) + of_nat i \<noteq> 0x200 + of_nat j"
proof
  assume l: "i < 8" "j \<le> 3" and "(0x100 :: u32) + of_nat i = 0x200 + of_nat j"
  then have "of_nat i - of_nat j - (0x200 - 0x100 :: u32) = 0" by (simp add: algebra_simps)
  then have "(of_nat i :: u32) = of_nat (256 + j)" by (simp add: algebra_simps)
  with l show False by (simp add: u32_of_nat_inj del: of_nat_add)
qed

theorem safestrcpy_truncates_witness: "cstr (safestrcpy 0x100 0x200 3 demo_mem) 0x100 [97, 98]"
  using safestrcpy_truncates [OF demo_mem_cstr, of 3 "0x100"] demo_mem_disjoint by simp

text \<open>\<^verbatim>\<open>strncpy\<close>: the string, cut to \<open>n\<close> bytes, padded with NULs to exactly \<open>n\<close> bytes.\<close>

lemma strncpy_pads:
  assumes "cstr m t xs" and "0 \<le> n" and "n < 2 ^ 31"
    and "\<And>i j. i < nat n \<Longrightarrow> j \<le> length xs \<Longrightarrow> s + of_nat i \<noteq> t + of_nat j" and "i < nat n"
  shows "strncpy s t n m (s + of_nat i) = (if i < length xs then xs ! i else 0)"
proof -
  obtain k e m' where l: "strcpy_loop (nat n) s t m = (k, e, m')" by (cases "strcpy_loop (nat n) s t m")
  have N: "nat n < 2 ^ 32" using assms(2,3) by simp
  note S = strcpy_loop_spec [OF assms(1,4) N l]
  have k: "k = nat n - length xs - 1" and e: "e = s + of_nat (min (nat n) (Suc (length xs)))" using S by blast+
  have r: "strncpy s t n m a = (if unat (a - e) < k then 0 else m' a)" for a
    using l k N stosb_apply [of k e 0 m' a] by (simp add: strncpy_def)
  show ?thesis
  proof (cases "length xs < nat n")
    case False
    then have "m' (s + of_nat i) = xs ! i" using S assms(5) by simp
    with False k r assms(5) show ?thesis by simp
  next
    case True
    show ?thesis
    proof (cases "i \<le> length xs")
      case le: True
      define L where "L = Suc (length xs)"
      have se: "s + of_nat i - e = of_nat i - (of_nat L :: u32)" using e True by (simp add: L_def min_absorb2)
      moreover have l: "i < L" "L \<le> nat n" using le True by (simp_all add: L_def)
      moreover have "unat (of_nat i :: u32) = i" "unat (of_nat L :: u32) = L" using N l by (simp_all add: unat_of_nat)
      ultimately have "unat (s + of_nat i - e) = i + 2 ^ 32 - L" unfolding se by (simp add: unat_sub_if')
      then have "\<not> unat (s + of_nat i - e) < k" using k N l by (simp add: L_def)
      then show ?thesis using r S le True by auto
    next
      case False
      then have "s + of_nat i - e = of_nat (i - Suc (length xs))" using e True by (simp add: of_nat_diff)
      then have "unat (s + of_nat i - e) = i - Suc (length xs)" using N assms(5) by (simp add: unat_of_nat)
      then have "unat (s + of_nat i - e) < k" using k False assms(5) by simp
      then show ?thesis using r False by simp
    qed
  qed
qed


lemma strlen_from_cstr:
  assumes "cstr m s xs" and "i \<le> length xs"
  shows "strlen_from s (int i) m = Some (int (length xs))"
  using assms(2)
proof (induction "length xs - i" arbitrary: i)
  case 0
  then have "m (s + of_nat i) = 0" using assms(1) unfolding cstr_nth by simp
  with 0 show ?case by (simp add: strlen_from.simps [of s "int i"])
next
  case (Suc n)
  then have i: "i < length xs" by simp
  then have "m (s + of_nat i) \<noteq> 0" using assms(1) unfolding cstr_nth by metis
  moreover have "n = length xs - Suc i" "Suc i \<le> length xs" using Suc.hyps(2) i by simp_all
  note Suc.hyps(1) [OF this]
  ultimately show ?case by (simp add: strlen_from.simps [of s "int i"] add.commute)
qed

text \<open>
  \<^verbatim>\<open>strlen\<close> of a NUL-terminated string returns, and returns its length.
\<close>
theorem strlen_length:
  assumes "cstr m s xs"
  shows "strlen s m = Some (int (length xs))"
  using strlen_from_cstr [OF assms, of 0] by (simp add: strlen_def)

theorem strlen_length_witness: "strlen 0x200 demo_mem = Some 3"
  using strlen_length [OF demo_mem_cstr] by simp

lemma strncmp_loop_prefix:
  assumes "cstr m p xs" and "cstr m q ys"
  shows "strncmp_loop n p q m = 0 \<longleftrightarrow> take n xs = take n ys"
  using assms
proof (induction n arbitrary: p q xs ys)
  case 0
  then show ?case by simp
next
  case (Suc n)
  have sg: "uint (a :: u8) - uint b = 0 \<longleftrightarrow> a = b" for a b by (simp add: word_uint_eq_iff)
  show ?case
  proof (cases xs)
    case Nil
    have "uint (m q) = 0 \<longleftrightarrow> m q = 0" by (simp add: uint_0_iff)
    with Nil Suc.prems show ?thesis by (cases ys) auto
  next
    case (Cons x xs')
    have "uint (m p) = 0 \<longleftrightarrow> m p = 0" by (simp add: uint_0_iff)
    with Cons Suc.prems Suc.IH [of "p + 1" xs' "q + 1"] sg show ?thesis by (cases ys) auto
  qed
qed

text \<open>
  \<^verbatim>\<open>strncmp\<close> returns 0 exactly when the first \<open>n\<close> bytes of the two strings agree.
\<close>

lemma strncmp_prefix:
  "cstr m p xs \<Longrightarrow> cstr m q ys \<Longrightarrow> strncmp p q n m = 0 \<longleftrightarrow> take (unat n) xs = take (unat n) ys"
  by (simp add: strncmp_def strncmp_loop_prefix)

end
