(* ===== verification/Sleeplock.thy ===== *)
theory Sleeplock
  imports Xv6_Prelude
begin

section \<open>Sleep locks (\<^verbatim>\<open>sleeplock.c\<close>)\<close>

text \<open>
  The long-term locks of buffers and inodes. The spin lock inside a sleep lock, and the spin
  locks of the tables the file system keeps, are flags here: theory \<open>Spinlock\<close> models what
  \<^verbatim>\<open>acquire\<close> and \<^verbatim>\<open>release\<close> do on the CPU, and here only that a section is entered when the
  lock is free and left when it is held. A process that has to wait for a sleep lock is
  \<open>Blocked\<close>. A wakeup is recorded by the channel it is sent to.
\<close>

definition lk_acquire :: "bool \<Rightarrow> bool res" where
  "lk_acquire l = (if l then Blocked else Ok True)"

definition lk_release :: "bool \<Rightarrow> bool res" where
  "lk_release l = (if l then Ok False else Panic ''release'')"

lemma lk_simps [simp]:
  "lk_acquire False = Ok True" "lk_acquire True = Blocked"
  "lk_release True = Ok False" "lk_release False = Panic ''release''"
  by (simp_all add: lk_acquire_def lk_release_def)

datatype wchan = LogChan | BufChan nat | InodeChan nat | PipeRead nat | PipeWrite nat | ConsChan

record sleeplock =
  sl_locked :: u32
  sl_lk :: bool
  sl_name :: string
  sl_pid :: int

definition initsleeplock :: "string \<Rightarrow> sleeplock" where
  "initsleeplock nm = \<lparr>sl_locked = 0, sl_lk = False, sl_name = nm, sl_pid = 0\<rparr>"

definition acquiresleep :: "int \<Rightarrow> sleeplock \<Rightarrow> sleeplock res" where
  "acquiresleep me lk =
     rbind (lk_acquire (sl_lk lk)) (\<lambda>l. let lk = lk\<lparr>sl_lk := l\<rparr> in
     if sl_locked lk \<noteq> 0 then Blocked
     else let lk = lk\<lparr>sl_locked := 1, sl_pid := me\<rparr> in
       rbind (lk_release (sl_lk lk)) (\<lambda>l. Ok (lk\<lparr>sl_lk := l\<rparr>)))"

definition releasesleep :: "wchan \<Rightarrow> sleeplock \<Rightarrow> wchan list \<Rightarrow> (sleeplock \<times> wchan list) res" where
  "releasesleep ch lk woken =
     rbind (lk_acquire (sl_lk lk)) (\<lambda>l. let lk = lk\<lparr>sl_lk := l\<rparr>;
       lk = lk\<lparr>sl_locked := 0, sl_pid := 0\<rparr>; woken = woken @ [ch] in
     rbind (lk_release (sl_lk lk)) (\<lambda>l. Ok (lk\<lparr>sl_lk := l\<rparr>, woken)))"

definition holdingsleep :: "int \<Rightarrow> sleeplock \<Rightarrow> (bool \<times> sleeplock) res" where
  "holdingsleep me lk =
     rbind (lk_acquire (sl_lk lk)) (\<lambda>l. let lk = lk\<lparr>sl_lk := l\<rparr>;
       r = (sl_locked lk \<noteq> 0 \<and> sl_pid lk = me) in
     rbind (lk_release (sl_lk lk)) (\<lambda>l. Ok (r, lk\<lparr>sl_lk := l\<rparr>)))"

definition sl_free :: "sleeplock \<Rightarrow> bool" where
  "sl_free lk \<longleftrightarrow> \<not> sl_lk lk \<and> sl_locked lk = 0 \<and> sl_pid lk = 0"

definition sl_held :: "int \<Rightarrow> sleeplock \<Rightarrow> bool" where
  "sl_held me lk \<longleftrightarrow> \<not> sl_lk lk \<and> sl_locked lk = 1 \<and> sl_pid lk = me"

subsection \<open>What a client of a sleep lock may rely on\<close>

locale sleep_lock =
  fixes acq :: "int \<Rightarrow> 'l \<Rightarrow> 'l res"
    and rel :: "wchan \<Rightarrow> 'l \<Rightarrow> wchan list \<Rightarrow> ('l \<times> wchan list) res"
    and holds :: "int \<Rightarrow> 'l \<Rightarrow> (bool \<times> 'l) res"
    and isfree :: "'l \<Rightarrow> bool"
    and heldby :: "int \<Rightarrow> 'l \<Rightarrow> bool"
    and fresh :: 'l
  assumes fresh_free: "isfree fresh"
    and acq_free: "isfree l \<Longrightarrow> \<exists>l'. acq p l = Ok l' \<and> heldby p l'"
    and acq_held: "heldby q l \<Longrightarrow> acq p l = Blocked"
    and rel_held: "heldby p l \<Longrightarrow> \<exists>l'. rel ch l w = Ok (l', w @ [ch]) \<and> isfree l'"
    and holds_held: "heldby p l \<Longrightarrow> holds q l = Ok (q = p, l)"
    and holds_free: "isfree l \<Longrightarrow> holds q l = Ok (False, l)"
begin

lemma heldby_unique: "heldby p l \<Longrightarrow> heldby q l \<Longrightarrow> p = q"
  using holds_held [of p l q] holds_held [of q l q] by simp

lemma free_not_held: "isfree l \<Longrightarrow> \<not> heldby p l"
  using holds_held [of p l p] holds_free [of l p] by auto

lemma acq_Ok: "heldby q l \<or> isfree l \<Longrightarrow> acq p l = Ok l' \<Longrightarrow> heldby p l'"
  using acq_free [of l p] acq_held [of q l p] by auto

lemma rel_Ok: "heldby p l \<Longrightarrow> rel ch l w = Ok (l', w') \<Longrightarrow> isfree l'"
  using rel_held [of p l ch w] by auto

end

interpretation sl: sleep_lock acquiresleep releasesleep holdingsleep sl_free sl_held "initsleeplock nm"
  by unfold_locales
    (auto simp: sl_free_def sl_held_def initsleeplock_def acquiresleep_def releasesleep_def holdingsleep_def)

lemma acquiresleep_free:
  "sl_free lk \<Longrightarrow> acquiresleep me lk = Ok (lk\<lparr>sl_locked := 1, sl_pid := me\<rparr>)"
  by (cases lk) (simp add: sl_free_def acquiresleep_def)

lemma releasesleep_held:
  "sl_held me lk \<Longrightarrow> releasesleep ch lk w = Ok (lk\<lparr>sl_locked := 0, sl_pid := 0\<rparr>, w @ [ch])"
  by (cases lk) (simp add: sl_held_def releasesleep_def)

lemma sl_free_upd: "sl_free lk \<Longrightarrow> sl_held me (lk\<lparr>sl_locked := 1, sl_pid := me\<rparr>)"
  by (simp add: sl_free_def sl_held_def)

lemma sl_held_upd: "sl_held me lk \<Longrightarrow> sl_free (lk\<lparr>sl_locked := 0, sl_pid := 0\<rparr>)"
  by (simp add: sl_free_def sl_held_def)

subsection \<open>Histories of one lock\<close>

text \<open>
  \<open>lock_history nm lk own\<close>: \<open>lk\<close> results from \<^verbatim>\<open>initsleeplock\<close> by acquisitions of arbitrary
  processes that returned and releases by the owner; \<open>own\<close> is the process that acquired it last
  and has not released it.
\<close>

inductive lock_history :: "string \<Rightarrow> sleeplock \<Rightarrow> int option \<Rightarrow> bool" for nm where
  init: "lock_history nm (initsleeplock nm) None"
| acquired: "lock_history nm lk own \<Longrightarrow> acquiresleep p lk = Ok lk' \<Longrightarrow> lock_history nm lk' (Some p)"
| released: "lock_history nm lk (Some p) \<Longrightarrow> releasesleep ch lk w = Ok (lk', w') \<Longrightarrow> lock_history nm lk' None"

lemma lock_history_owner:
  "lock_history nm lk own \<Longrightarrow> (case own of None \<Rightarrow> sl_free lk | Some p \<Rightarrow> sl_held p lk)"
proof (induction rule: lock_history.induct)
  case init
  then show ?case by (simp add: sl.fresh_free)
next
  case (acquired lk own p lk')
  then have "sl_free lk \<or> (\<exists>q. sl_held q lk)" by (cases own) auto
  with acquired.hyps(2) show ?case using sl.acq_Ok [of _ lk p lk'] by auto
next
  case (released lk p ch w lk' w')
  then show ?case by (auto dest: sl.rel_Ok)
qed



end
