(* ===== verification/Kalloc.thy ===== *)
theory Kalloc
  imports Strings Sleeplock
begin

section \<open>The physical page allocator (\<^verbatim>\<open>kalloc.c\<close>)\<close>

text \<open>
  The allocator keeps the free pages in a list threaded through the pages themselves: the first
  word of a free page is the address of the next one. The model has the memory as a function from
  kernel addresses to bytes, and reads and writes the links in it. The address \<^verbatim>\<open>end\<close>, where the
  linker puts the end of the kernel, is the parameter \<open>kend\<close>.
\<close>

unbundle bit_operations_syntax

definition PGROUNDUP :: "u32 \<Rightarrow> u32" where "PGROUNDUP sz = (sz + PGSIZE - 1) AND NOT (PGSIZE - 1)"
definition PGROUNDDOWN :: "u32 \<Rightarrow> u32" where "PGROUNDDOWN a = a AND NOT (PGSIZE - 1)"

definition load32 :: "mem \<Rightarrow> u32 \<Rightarrow> u32" where
  "load32 m a = ucast (m a) OR push_bit 8 (ucast (m (a + 1))) OR push_bit 16 (ucast (m (a + 2))) OR push_bit 24 (ucast (m (a + 3)))"

fun store_bytes :: "u32 \<Rightarrow> u8 list \<Rightarrow> mem \<Rightarrow> mem" where
  "store_bytes a [] m = m"
| "store_bytes a (b # bs) m = store_bytes (a + 1) bs (m(a := b))"

record kmem =
  km_lock :: bool
  km_use_lock :: bool
  km_freelist :: u32
  km_mem :: mem

definition km_acquire :: "kmem \<Rightarrow> kmem res" where
  "km_acquire s = (if km_use_lock s then rbind (lk_acquire (km_lock s)) (\<lambda>l. Ok (s\<lparr>km_lock := l\<rparr>)) else Ok s)"

definition km_release :: "kmem \<Rightarrow> kmem res" where
  "km_release s = (if km_use_lock s then rbind (lk_release (km_lock s)) (\<lambda>l. Ok (s\<lparr>km_lock := l\<rparr>)) else Ok s)"

definition kfree :: "u32 \<Rightarrow> u32 \<Rightarrow> kmem \<Rightarrow> kmem res" where
  "kfree kend v s =
     (if v mod PGSIZE \<noteq> 0 \<or> v < kend \<or> V2P v \<ge> PHYSTOP then Panic ''kfree''
      else let s = s\<lparr>km_mem := memset v 1 PGSIZE (km_mem s)\<rparr> in
        rbind (km_acquire s) (\<lambda>s.
        let s = s\<lparr>km_mem := store32 v (km_freelist s) (km_mem s), km_freelist := v\<rparr> in
        km_release s))"

definition kalloc :: "kmem \<Rightarrow> (u32 \<times> kmem) res" where
  "kalloc s =
     rbind (km_acquire s) (\<lambda>s.
     let r = km_freelist s;
         s = (if r \<noteq> 0 then s\<lparr>km_freelist := load32 (km_mem s) r\<rparr> else s) in
     rbind (km_release s) (\<lambda>s. Ok (r, s)))"

text \<open>The loop of \<^verbatim>\<open>freerange\<close> goes on only after a \<^verbatim>\<open>kfree\<close> that returned, so the address it
  steps from is below \<^verbatim>\<open>PHYSTOP\<close> and cannot wrap around.\<close>

definition kpage :: "u32 \<Rightarrow> u32 \<Rightarrow> bool" where
  "kpage kend p \<longleftrightarrow> p mod PGSIZE = 0 \<and> kend \<le> p \<and> V2P p < PHYSTOP"

lemma kfree_Ok_kpage: "kfree kend v s = Ok s' \<Longrightarrow> kpage kend v"
  by (auto simp: kfree_def kpage_def split: if_splits)

lemma kpage_unat:
  assumes "kpage kend p"
  shows "0x80000000 \<le> unat p" "unat p < 0x8E000000"
proof -
  have "unat (p - 0x80000000) < 0xE000000" using assms by (simp add: kpage_def V2P_def PHYSTOP_def KERNBASE_def word_less_nat_alt)
  then show "0x80000000 \<le> unat p" "unat p < 0x8E000000"
    using unsigned_less [of p, where 'a = nat] by (auto simp: unat_sub_if_size word_size split: if_splits)
qed

lemma kpage_next:
  assumes "kpage kend p"
  shows "unat (p + PGSIZE) = unat p + 4096"
  using kpage_unat [OF assms] by (subst unat_add_lem [THEN iffD1]) (simp_all add: PGSIZE_def)

function freerange_loop :: "u32 \<Rightarrow> u32 \<Rightarrow> u32 \<Rightarrow> kmem \<Rightarrow> kmem res" where
  "freerange_loop kend p vend s =
     (if p + PGSIZE \<le> vend then rbind (kfree kend p s) (\<lambda>s. freerange_loop kend (p + PGSIZE) vend s) else Ok s)"
  by auto
termination
proof (relation "measure (\<lambda>(kend, p, vend, s). 2 ^ 32 - unat p)", simp)
  fix kend p vend s s'
  assume "kfree kend p s = Ok s'"
  then have k: "kpage kend p" by (rule kfree_Ok_kpage)
  then show "((kend, p + PGSIZE, vend, s'), kend, p, vend, s) \<in> measure (\<lambda>(kend, p, vend, s). 2 ^ 32 - unat p)"
    using kpage_unat [OF k] kpage_next [OF k] by simp
qed

definition freerange :: "u32 \<Rightarrow> u32 \<Rightarrow> u32 \<Rightarrow> kmem \<Rightarrow> kmem res" where
  "freerange kend vstart vend s = freerange_loop kend (PGROUNDUP vstart) vend s"

definition kinit1 :: "u32 \<Rightarrow> u32 \<Rightarrow> u32 \<Rightarrow> kmem \<Rightarrow> kmem res" where
  "kinit1 kend vstart vend s = freerange kend vstart vend (s\<lparr>km_lock := False, km_use_lock := False\<rparr>)"

definition kinit2 :: "u32 \<Rightarrow> u32 \<Rightarrow> u32 \<Rightarrow> kmem \<Rightarrow> kmem res" where
  "kinit2 kend vstart vend s = rbind (freerange kend vstart vend s) (\<lambda>s. Ok (s\<lparr>km_use_lock := True\<rparr>))"

declare freerange_loop.simps [simp del]

subsection \<open>Words in memory\<close>

lemma word_offsets_distinct:
  "(a :: u32) + 1 \<noteq> a" "a + 2 \<noteq> a" "a + 3 \<noteq> a" "a + 2 \<noteq> a + 1" "a + 3 \<noteq> a + 1" "a + 3 \<noteq> a + 2"
  by (simp_all add: add_left_cancel)

lemma load32_store32 [simp]: "load32 (store32 a w m) a = w"
proof (rule bit_word_eqI)
  fix n
  assume n: "n < LENGTH(32)"
  have "24 \<le> n \<Longrightarrow> 24 + (n - 24) = n" "16 \<le> n \<Longrightarrow> 16 + (n - 16) = n" "8 \<le> n \<Longrightarrow> 8 + (n - 8) = n" by simp_all
  then show "bit (load32 (store32 a w m) a) n = bit w n"
    using n by (cases "n < 8"; cases "n < 16"; cases "n < 24") (auto simp: load32_def store32_def bit_simps word_offsets_distinct)
qed

text \<open>\<open>in_page p a\<close>: the byte at \<open>a\<close> is in the page of \<open>p\<close>.\<close>

definition in_page :: "u32 \<Rightarrow> u32 \<Rightarrow> bool" where
  "in_page p a \<longleftrightarrow> unat a div 4096 = unat p div 4096"

definition aligned :: "u32 \<Rightarrow> bool" where
  "aligned p \<longleftrightarrow> p mod PGSIZE = 0"

lemma aligned_unat: "aligned p \<longleftrightarrow> unat p mod 4096 = 0"
  unfolding aligned_def using unat_mod [of p PGSIZE] by (simp add: PGSIZE_def unat_eq_0 [symmetric])

lemma kpage_aligned: "kpage kend p \<Longrightarrow> aligned p"
  by (simp add: kpage_def aligned_def)

lemma page_div:
  assumes "(p :: nat) mod 4096 = 0"
  shows "a div 4096 = p div 4096 \<longleftrightarrow> p \<le> a \<and> a - p < 4096"
proof -
  obtain k where k: "p = 4096 * k" using assms by (auto simp: mod_eq_0_iff_dvd)
  have a: "a = 4096 * (a div 4096) + a mod 4096" "a mod 4096 < 4096" by simp_all
  show ?thesis
  proof
    assume "a div 4096 = p div 4096"
    then show "p \<le> a \<and> a - p < 4096" using a by (simp add: k)
  next
    assume "p \<le> a \<and> a - p < 4096"
    then have "4096 * k \<le> a" "a < 4096 + 4096 * k" unfolding k by linarith+
    then show "a div 4096 = p div 4096" by (simp add: k)
  qed
qed

lemma aligned_bound: "aligned p \<Longrightarrow> unat p + 4096 \<le> 2 ^ 32"
proof -
  assume "aligned p"
  then obtain k where "unat p = 4096 * k" by (auto simp: aligned_unat mod_eq_0_iff_dvd)
  then show ?thesis using unsigned_less [of p, where 'a = nat] by simp
qed

lemma in_page_iff:
  assumes "aligned p"
  shows "in_page p a \<longleftrightarrow> a - p < PGSIZE"
proof -
  have p: "unat p mod 4096 = 0" "unat p + 4096 \<le> 4294967296" using assms aligned_bound [OF assms] by (simp_all add: aligned_unat)
  have "a - p < PGSIZE \<longleftrightarrow> unat (a - p) < 4096" by (simp add: word_less_nat_alt PGSIZE_def)
  also have "\<dots> \<longleftrightarrow> unat p \<le> unat a \<and> unat a - unat p < 4096"
    using p(2) unsigned_less [of a, where 'a = nat] by (auto simp: unat_sub_if_size word_size)
  also have "\<dots> \<longleftrightarrow> unat a div 4096 = unat p div 4096" by (rule page_div [OF p(1), symmetric])
  finally show ?thesis by (simp add: in_page_def)
qed

lemma in_page_unique: "aligned p \<Longrightarrow> aligned q \<Longrightarrow> in_page p a \<Longrightarrow> in_page q a \<Longrightarrow> p = q"
proof -
  assume a: "aligned p" "aligned q" and i: "in_page p a" "in_page q a"
  have "unat p div 4096 = unat q div 4096" using i by (simp add: in_page_def)
  then have "unat p = unat q" using a by (simp add: aligned_unat) (metis mult_div_mod_eq)
  then show ?thesis by (simp add: word_unat_eq_iff)
qed

lemma in_page_offset:
  assumes "aligned p" "d < PGSIZE"
  shows "in_page p (p + d)"
  using assms by (simp add: in_page_iff)

lemma load32_page_cong:
  assumes "aligned p" "\<And>a. in_page p a \<Longrightarrow> m a = m' a" "d + 3 < PGSIZE" "d < PGSIZE" "d + 1 < PGSIZE" "d + 2 < PGSIZE"
  shows "load32 m (p + d) = load32 m' (p + d)"
  using assms(2) [OF in_page_offset [OF assms(1,3)]] assms(2) [OF in_page_offset [OF assms(1,4)]]
    assms(2) [OF in_page_offset [OF assms(1,5)]] assms(2) [OF in_page_offset [OF assms(1,6)]]
  by (simp add: load32_def add.assoc)

lemma load32_head_cong:
  assumes "aligned p" "\<And>a. in_page p a \<Longrightarrow> m a = m' a"
  shows "load32 m p = load32 m' p"
  using load32_page_cong [OF assms(1), of m m' 0] assms(2) by (simp add: PGSIZE_def)

lemma store32_page_other:
  assumes "aligned p" "\<not> in_page p a" "d + 3 < PGSIZE" "d < PGSIZE" "d + 1 < PGSIZE" "d + 2 < PGSIZE"
  shows "store32 (p + d) w m a = m a"
proof -
  have "a \<noteq> p + e" if "e < PGSIZE" for e using in_page_offset [OF assms(1) that] assms(2) by auto
  from this [OF assms(3)] this [OF assms(4)] this [OF assms(5)] this [OF assms(6)]
  show ?thesis by (simp add: store32_def add.assoc)
qed

lemma store32_head_other: "aligned p \<Longrightarrow> \<not> in_page p a \<Longrightarrow> store32 p w m a = m a"
  using store32_page_other [of p a 0] by (simp add: PGSIZE_def)

lemma memset_page: "aligned p \<Longrightarrow> memset p c PGSIZE m = (\<lambda>a. if in_page p a then ucast c else m a)"
  by (simp add: memset_eq in_page_iff)

subsection \<open>The free list\<close>

fun freechain :: "mem \<Rightarrow> u32 \<Rightarrow> u32 list \<Rightarrow> bool" where
  "freechain m a [] \<longleftrightarrow> a = 0"
| "freechain m a (p # ps) \<longleftrightarrow> a = p \<and> p \<noteq> 0 \<and> freechain m (load32 m p) ps"

definition km_inv :: "u32 \<Rightarrow> kmem \<Rightarrow> u32 list \<Rightarrow> bool" where
  "km_inv kend s ps \<longleftrightarrow> freechain (km_mem s) (km_freelist s) ps \<and> distinct ps \<and> (\<forall>p\<in>set ps. kpage kend p) \<and> \<not> km_lock s"

lemma freechain_cong:
  assumes "\<And>p a. p \<in> set ps \<Longrightarrow> in_page p a \<Longrightarrow> m a = m' a" "\<And>p. p \<in> set ps \<Longrightarrow> aligned p"
  shows "freechain m a ps = freechain m' a ps"
  using assms
proof (induction ps arbitrary: a)
  case (Cons p ps)
  have "load32 m p = load32 m' p" by (rule load32_head_cong) (use Cons.prems in auto)
  moreover have "freechain m b ps = freechain m' b ps" for b by (rule Cons.IH) (use Cons.prems in auto)
  ultimately show ?case by simp
qed simp

lemma freechain_unique: "freechain m a ps \<Longrightarrow> freechain m a qs \<Longrightarrow> ps = qs"
proof (induction ps arbitrary: a qs)
  case (Cons p ps)
  then show ?case by (cases qs) auto
qed (metis freechain.simps list.exhaust)

lemma km_inv_unique: "km_inv kend s ps \<Longrightarrow> km_inv kend s qs \<Longrightarrow> ps = qs"
  using freechain_unique by (auto simp: km_inv_def)

lemma km_locks [simp]:
  "\<not> km_lock s \<Longrightarrow> km_acquire s = Ok (s\<lparr>km_lock := km_use_lock s\<rparr>)"
  "km_lock s = km_use_lock s \<Longrightarrow> km_release s = Ok (s\<lparr>km_lock := False\<rparr>)"
  by (auto simp: km_acquire_def km_release_def)

lemma kpage_nonzero: "kpage kend p \<Longrightarrow> p \<noteq> 0"
  using kpage_unat [of kend p] by auto

lemma kfree_spec:
  assumes inv: "km_inv kend s ps" and v: "kpage kend v" "v \<notin> set ps"
  shows "\<exists>s'. kfree kend v s = Ok s' \<and> km_inv kend s' (v # ps) \<and> km_use_lock s' = km_use_lock s
    \<and> (\<forall>a. \<not> in_page v a \<longrightarrow> km_mem s' a = km_mem s a)"
proof -
  note al = kpage_aligned [OF v(1)]
  let ?m = "store32 v (km_freelist s) (memset v 1 PGSIZE (km_mem s))"
  have out: "?m a = km_mem s a" if "\<not> in_page v a" for a
    using store32_head_other [OF al that] that by (simp add: memset_page [OF al])
  have "freechain ?m (km_freelist s) ps = freechain (km_mem s) (km_freelist s) ps"
  proof (rule freechain_cong)
    fix p a
    assume p: "p \<in> set ps" "in_page p a"
    then have "aligned p" "p \<noteq> v" using inv v(2) kpage_aligned by (auto simp: km_inv_def)
    then have "\<not> in_page v a" using in_page_unique [OF _ al] p(2) by blast
    then show "?m a = km_mem s a" by (rule out)
  qed (use inv kpage_aligned in \<open>auto simp: km_inv_def\<close>)
  then show ?thesis
    using inv v kpage_nonzero [OF v(1)] out
    by (simp add: kfree_def kpage_def km_inv_def not_le not_less Let_def)
qed

lemma kalloc_spec:
  assumes inv: "km_inv kend s ps"
  shows "\<exists>s'. kalloc s = Ok (if ps = [] then 0 else hd ps, s') \<and> km_inv kend s' (tl ps)
    \<and> km_use_lock s' = km_use_lock s \<and> km_mem s' = km_mem s"
  using inv by (cases ps) (auto simp: kalloc_def km_inv_def Let_def)

subsection \<open>The contract of a page allocator\<close>

text \<open>
  What the rest of the kernel relies on: \<open>alloc\<close> takes the first page of the free list and changes
  no byte, \<open>free\<close> puts a page back and changes no byte outside of it, and whoever owns a page that
  is not on the list may write to it.
\<close>

locale page_allocator =
  fixes alloc :: "'s \<Rightarrow> (u32 \<times> 's) res"
    and free :: "u32 \<Rightarrow> 's \<Rightarrow> 's res"
    and inv :: "'s \<Rightarrow> u32 list \<Rightarrow> bool"
    and bytes :: "'s \<Rightarrow> mem"
    and set_bytes :: "mem \<Rightarrow> 's \<Rightarrow> 's"
    and page :: "u32 \<Rightarrow> bool"
  assumes alloc_law: "inv s ps \<Longrightarrow> \<exists>s'. alloc s = Ok (if ps = [] then 0 else hd ps, s') \<and> inv s' (tl ps) \<and> bytes s' = bytes s"
    and free_law: "inv s ps \<Longrightarrow> page v \<Longrightarrow> v \<notin> set ps \<Longrightarrow>
      \<exists>s'. free v s = Ok s' \<and> inv s' (v # ps) \<and> (\<forall>a. \<not> in_page v a \<longrightarrow> bytes s' a = bytes s a)"
    and write_law: "inv s ps \<Longrightarrow> (\<And>p a. p \<in> set ps \<Longrightarrow> in_page p a \<Longrightarrow> m a = bytes s a) \<Longrightarrow> inv (set_bytes m s) ps"
    and list_law: "inv s ps \<Longrightarrow> distinct ps \<and> (\<forall>p\<in>set ps. page p)"
    and page_law: "page p \<Longrightarrow> aligned p \<and> p \<noteq> 0"
begin

text \<open>A page in use is not on the free list, and the owner's writes keep the list intact.\<close>

lemma owner_write:
  assumes inv: "inv s ps" and p: "page p" "p \<notin> set ps" and m: "\<And>a. \<not> in_page p a \<Longrightarrow> m a = bytes s a"
  shows "inv (set_bytes m s) ps"
proof (rule write_law [OF inv])
  fix q a
  assume q: "q \<in> set ps" "in_page q a"
  then have "aligned q" "q \<noteq> p" using list_law [OF inv] page_law p(2) by auto
  then have "\<not> in_page p a" using in_page_unique [of q p a] page_law [OF p(1)] q(2) by auto
  then show "m a = bytes s a" by (rule m)
qed

lemma alloc_fresh:
  assumes inv: "inv s ps" and al: "alloc s = Ok (p, s')" and nz: "p \<noteq> 0"
  shows "ps = p # tl ps" "inv s' (tl ps)" "p \<notin> set (tl ps)" "page p"
proof -
  obtain s'' where 1: "alloc s = Ok (if ps = [] then 0 else hd ps, s'')" "inv s'' (tl ps)" using alloc_law [OF inv] by blast
  then have "ps \<noteq> []" using al nz by (auto split: if_splits)
  then show ps: "ps = p # tl ps" using 1(1) al by simp
  show "inv s' (tl ps)" using 1 al by simp
  show "p \<notin> set (tl ps)" "page p" using list_law [OF inv] ps by (metis distinct.simps(2), metis list.set_intros(1))
qed

lemma alloc_null:
  assumes inv: "inv s ps" and al: "alloc s = Ok (0, s')"
  shows "ps = []"
proof (rule ccontr)
  assume "ps \<noteq> []"
  then have "hd ps = 0" using alloc_law [OF inv] al by auto
  moreover have "hd ps \<in> set ps" using \<open>ps \<noteq> []\<close> by (rule hd_in_set)
  ultimately show False using list_law [OF inv] page_law by metis
qed

text \<open>Giving a page back and asking again returns the same page.\<close>

lemma free_alloc:
  assumes "inv s ps" "page v" "v \<notin> set ps"
  shows "\<exists>s' s''. free v s = Ok s' \<and> alloc s' = Ok (v, s'') \<and> inv s'' ps"
proof -
  obtain s' where 1: "free v s = Ok s'" "inv s' (v # ps)" using free_law [OF assms] by blast
  then show ?thesis using alloc_law [OF 1(2)] by auto
qed

end

interpretation km: page_allocator kalloc "kfree kend" "km_inv kend" km_mem "\<lambda>m s. s\<lparr>km_mem := m\<rparr>" "kpage kend"
proof
  fix s ps v m p
  show "km_inv kend s ps \<Longrightarrow> \<exists>s'. kalloc s = Ok (if ps = [] then 0 else hd ps, s') \<and> km_inv kend s' (tl ps) \<and> km_mem s' = km_mem s"
    using kalloc_spec by blast
  show "km_inv kend s ps \<Longrightarrow> kpage kend v \<Longrightarrow> v \<notin> set ps \<Longrightarrow>
      \<exists>s'. kfree kend v s = Ok s' \<and> km_inv kend s' (v # ps) \<and> (\<forall>a. \<not> in_page v a \<longrightarrow> km_mem s' a = km_mem s a)"
    using kfree_spec by blast
  show "km_inv kend (s\<lparr>km_mem := m\<rparr>) ps"
    if inv: "km_inv kend s ps" and m: "\<And>p a. p \<in> set ps \<Longrightarrow> in_page p a \<Longrightarrow> m a = km_mem s a"
  proof -
    have "freechain m (km_freelist s) ps = freechain (km_mem s) (km_freelist s) ps"
      by (rule freechain_cong) (use inv m kpage_aligned in \<open>auto simp: km_inv_def\<close>)
    then show ?thesis using inv by (simp add: km_inv_def)
  qed
  show "km_inv kend s ps \<Longrightarrow> distinct ps \<and> (\<forall>p\<in>set ps. kpage kend p)" by (simp add: km_inv_def)
  show "kpage kend p \<Longrightarrow> aligned p \<and> p \<noteq> 0" using kpage_aligned kpage_nonzero by blast
qed

subsection \<open>Boot: every page from \<^verbatim>\<open>end\<close> to \<^verbatim>\<open>PHYSTOP\<close> becomes free\<close>

definition pages_between :: "u32 \<Rightarrow> u32 \<Rightarrow> u32 set" where
  "pages_between p vend = {q. aligned q \<and> unat p \<le> unat q \<and> unat q + 4096 \<le> unat vend}"

lemma pages_between_step:
  assumes p: "aligned p" "unat (p + PGSIZE) = unat p + 4096" and le: "unat p + 4096 \<le> unat vend"
  shows "pages_between p vend = insert p (pages_between (p + PGSIZE) vend)" "aligned (p + PGSIZE)"
proof -
  show "aligned (p + PGSIZE)" using p by (simp add: aligned_unat)
  have "q = p" if q: "aligned q" "unat p \<le> unat q" "unat q < unat p + 4096" for q
    by (rule in_page_unique [OF q(1) p(1), of q]) (use q p(1) page_div [of "unat p" "unat q"] in \<open>simp_all add: in_page_def aligned_unat\<close>)
  then show "pages_between p vend = insert p (pages_between (p + PGSIZE) vend)"
    using p le by (force simp: pages_between_def not_le)
qed

lemma kpageI: "aligned p \<Longrightarrow> kend \<le> p \<Longrightarrow> 0x80000000 \<le> unat p \<Longrightarrow> unat p < 0x8E000000 \<Longrightarrow> kpage kend p"
  by (simp add: kpage_def aligned_def V2P_def PHYSTOP_def KERNBASE_def word_less_nat_alt unat_sub_if_size word_size)

lemma freerange_loop_spec:
  assumes "km_inv kend s ps" "aligned p" "kend \<le> p" "0x80000000 \<le> unat p" "unat p \<le> 0x8E000000" "unat vend \<le> 0x8E000000"
    "\<forall>q\<in>set ps. unat q < unat p"
  shows "\<exists>s' ps'. freerange_loop kend p vend s = Ok s' \<and> km_inv kend s' ps' \<and> set ps' = set ps \<union> pages_between p vend
    \<and> km_use_lock s' = km_use_lock s"
  using assms
proof (induction kend p vend s arbitrary: ps rule: freerange_loop.induct)
  case (1 kend p vend s)
  have nx: "unat (p + PGSIZE) = unat p + 4096"
    using 1(6) by (subst unat_add_lem [THEN iffD1]) (simp_all add: PGSIZE_def)
  show ?case
  proof (cases "p + PGSIZE \<le> vend")
    case True
    then have le: "unat p + 4096 \<le> unat vend" using nx by (simp add: word_le_nat_alt)
    have pg: "kpage kend p" by (rule kpageI) (use 1 le in simp_all)
    obtain s1 where s1: "kfree kend p s = Ok s1" "km_inv kend s1 (p # ps)" "km_use_lock s1 = km_use_lock s"
      using kfree_spec [OF 1(2) pg] 1(8) by auto
    have "kend \<le> p + PGSIZE" using 1(4) nx by (simp add: word_le_nat_alt)
    moreover have "\<forall>q\<in>set (p # ps). unat q < unat (p + PGSIZE)" using 1(8) nx by auto
    ultimately obtain s' ps' where "freerange_loop kend (p + PGSIZE) vend s1 = Ok s'" "km_inv kend s' ps'"
      "set ps' = set (p # ps) \<union> pages_between (p + PGSIZE) vend" "km_use_lock s' = km_use_lock s1"
      using 1(1) [OF True s1(1) s1(2) pages_between_step(2) [OF 1(3) nx le]] 1(5,7) nx le by fastforce
    then show ?thesis using True s1(1,3) pages_between_step(1) [OF 1(3) nx le] by (subst freerange_loop.simps) auto
  next
    case False
    then have "pages_between p vend = {}" using nx by (auto simp: word_le_nat_alt pages_between_def)
    then show ?thesis using False 1(2) by (subst freerange_loop.simps) auto
  qed
qed

lemma low_mask: "PGSIZE - 1 = mask 12"
  by (simp add: PGSIZE_def mask_eq_exp_minus_1)

lemma round_down: "unat ((x :: u32) AND NOT (PGSIZE - 1)) = unat x div 4096 * 4096"
proof -
  have "x AND NOT (PGSIZE - 1) = push_bit 12 (drop_bit 12 x)"
    unfolding low_mask by (rule bit_word_eqI) (auto simp: bit_simps)
  moreover have "unat x div 4096 * 4096 < 2 ^ 32"
    by (rule le_less_trans [OF div_times_less_eq_dividend]) (use unsigned_less [of x, where 'a = nat] in simp)
  moreover have "unat (push_bit 12 (drop_bit 12 x)) = take_bit 32 (push_bit 12 (drop_bit 12 (unat x)))"
    using unsigned_less [of x, where 'a = nat] by (simp only: unsigned_push_bit_eq unsigned_drop_bit_eq) (simp add: take_bit_nat_eq_self)
  ultimately show ?thesis by (simp add: push_bit_eq_mult drop_bit_eq_div take_bit_eq_mod)
qed

lemma round_up:
  assumes "unat x \<le> 0x8E000000"
  shows "unat (PGROUNDUP x) = (unat x + 4095) div 4096 * 4096"
proof -
  have e: "x + PGSIZE - 1 = x + 4095" by (simp add: PGSIZE_def)
  have "unat (x + 4095) = unat x + 4095" using assms by (subst unat_add_lem [THEN iffD1]) simp_all
  then show ?thesis unfolding PGROUNDUP_def round_down e by simp
qed

lemma round_up_props:
  assumes "unat x \<le> 0x8E000000"
  shows "aligned (PGROUNDUP x)" "unat x \<le> unat (PGROUNDUP x)" "aligned q \<Longrightarrow> unat x \<le> unat q \<Longrightarrow> unat (PGROUNDUP x) \<le> unat q"
proof -
  note r = round_up [OF assms]
  show "aligned (PGROUNDUP x)" by (simp add: aligned_unat r)
  have "unat x + 4095 = (unat x + 4095) div 4096 * 4096 + (unat x + 4095) mod 4096" "(unat x + 4095) mod 4096 < 4096" by simp_all
  then show "unat x \<le> unat (PGROUNDUP x)" unfolding r by linarith
  show "unat (PGROUNDUP x) \<le> unat q" if "aligned q" "unat x \<le> unat q"
  proof -
    have "4096 dvd unat q" using that(1) by (simp add: aligned_unat mod_eq_0_iff_dvd)
    then obtain k where k: "unat q = 4096 * k" ..
    then have "unat x + 4095 < (k + 1) * 4096" using that(2) by simp
    then have "(unat x + 4095) div 4096 < k + 1" by (rule less_mult_imp_div_less)
    then show ?thesis unfolding r k by simp
  qed
qed

lemma aligned_less: "aligned p \<Longrightarrow> aligned q \<Longrightarrow> unat p < unat q \<longleftrightarrow> unat p + 4096 \<le> unat q"
  by (auto simp: aligned_unat mod_eq_0_iff_dvd elim!: dvdE)

definition kernel_end :: "u32 \<Rightarrow> bool" where
  "kernel_end kend \<longleftrightarrow> 0x80000000 \<le> unat kend \<and> unat kend \<le> 0x80400000"

lemma boot_pages:
  assumes "kernel_end kend"
  shows "{p. kpage kend p} = pages_between (PGROUNDUP kend) 0x80400000 \<union> pages_between 0x80400000 0x8E000000"
proof -
  have b: "unat kend \<le> 0x8E000000" using assms by (simp add: kernel_end_def)
  have a: "aligned 0x80400000" "aligned 0x8E000000" by (simp_all add: aligned_unat)
  have k: "kpage kend p \<longleftrightarrow> aligned p \<and> unat (PGROUNDUP kend) \<le> unat p \<and> unat p < 0x8E000000" for p
  proof
    assume p: "kpage kend p"
    then have "unat kend \<le> unat p" by (simp add: kpage_def word_le_nat_alt)
    then show "aligned p \<and> unat (PGROUNDUP kend) \<le> unat p \<and> unat p < 0x8E000000"
      using kpage_aligned [OF p] kpage_unat [OF p] round_up_props(3) [OF b] by blast
  next
    assume p: "aligned p \<and> unat (PGROUNDUP kend) \<le> unat p \<and> unat p < 0x8E000000"
    then have "kend \<le> p" using round_up_props(2) [OF b] by (simp add: word_le_nat_alt)
    then show "kpage kend p" using p assms round_up_props(2) [OF b] by (intro kpageI) (auto simp: kernel_end_def)
  qed
  have u: "unat (PGROUNDUP kend) \<le> 0x80400000" using round_up_props(3) [OF b a(1)] assms by (simp add: kernel_end_def)
  have "kpage kend p \<longleftrightarrow> p \<in> pages_between (PGROUNDUP kend) 0x80400000 \<union> pages_between 0x80400000 0x8E000000" for p
    unfolding k pages_between_def using aligned_less [OF _ a(1), of p] aligned_less [OF _ a(2), of p] u by auto
  then show ?thesis by blast
qed

text \<open>The two calls that \<^verbatim>\<open>main\<close> makes, on an allocator whose list is still empty.\<close>

definition kinit :: "u32 \<Rightarrow> kmem \<Rightarrow> kmem res" where
  "kinit kend s = rbind (kinit1 kend kend (P2V (4 * 1024 * 1024)) s) (kinit2 kend (P2V (4 * 1024 * 1024)) (P2V PHYSTOP))"

lemma kinit_spec:
  assumes ke: "kernel_end kend" and s: "km_freelist s = 0"
  shows "\<exists>s' ps. kinit kend s = Ok s' \<and> km_inv kend s' ps \<and> set ps = {p. kpage kend p} \<and> km_use_lock s'"
proof -
  have b: "unat kend \<le> 0x8E000000" using ke by (simp add: kernel_end_def)
  have c: "P2V (4 * 1024 * 1024) = 0x80400000" "P2V PHYSTOP = 0x8E000000" by (simp_all add: P2V_def KERNBASE_def PHYSTOP_def)
  have a: "aligned 0x80400000" "PGROUNDUP 0x80400000 = 0x80400000" by (simp add: aligned_unat, simp add: PGROUNDUP_def PGSIZE_def)
  let ?s = "s\<lparr>km_lock := False, km_use_lock := False\<rparr>"
  have i: "km_inv kend ?s []" using s by (simp add: km_inv_def)
  have u: "unat (PGROUNDUP kend) \<le> 0x80400000" using round_up_props(3) [OF b a(1)] ke by (simp add: kernel_end_def)
  obtain s1 ps1 where 1: "freerange_loop kend (PGROUNDUP kend) 0x80400000 ?s = Ok s1" "km_inv kend s1 ps1"
    "set ps1 = pages_between (PGROUNDUP kend) 0x80400000"
    using freerange_loop_spec [OF i round_up_props(1) [OF b], where vend = "0x80400000"] round_up_props(2) [OF b] ke u
    by (auto simp: kernel_end_def word_le_nat_alt)
  have "\<forall>q\<in>set ps1. unat q < unat (0x80400000 :: u32)" unfolding 1(3) by (auto simp: pages_between_def)
  moreover have "kend \<le> 0x80400000" using ke by (simp add: kernel_end_def word_le_nat_alt)
  ultimately obtain s2 ps2 where 2: "freerange_loop kend 0x80400000 0x8E000000 s1 = Ok s2" "km_inv kend s2 ps2"
    "set ps2 = set ps1 \<union> pages_between 0x80400000 0x8E000000"
    using freerange_loop_spec [OF 1(2) a(1), where vend = "0x8E000000"] by auto
  have "km_inv kend (s2\<lparr>km_use_lock := True\<rparr>) ps2" using 2(2) by (simp add: km_inv_def)
  moreover have "set ps2 = {p. kpage kend p}" unfolding 2(3) 1(3) boot_pages [OF ke] ..
  ultimately show ?thesis using 1(1) 2(1)
    unfolding kinit_def kinit1_def kinit2_def freerange_def c a(2) by auto
qed

subsection \<open>No page is given out twice\<close>

text \<open>
  The states the allocator can be in after \<open>kinit\<close>, with the set of pages given out and not yet
  freed. Between the calls, the kernel may write to those pages and to memory outside of the
  allocator's pages.
\<close>

inductive km_history :: "u32 \<Rightarrow> kmem \<Rightarrow> u32 set \<Rightarrow> bool" for kend where
  boot: "kinit kend s0 = Ok s \<Longrightarrow> km_freelist s0 = 0 \<Longrightarrow> km_history kend s {}"
| alloc: "km_history kend s used \<Longrightarrow> kalloc s = Ok (p, s') \<Longrightarrow> km_history kend s' (if p = 0 then used else insert p used)"
| free: "km_history kend s used \<Longrightarrow> p \<in> used \<Longrightarrow> kfree kend p s = Ok s' \<Longrightarrow> km_history kend s' (used - {p})"
| use: "km_history kend s used \<Longrightarrow> (\<And>p a. kpage kend p \<Longrightarrow> p \<notin> used \<Longrightarrow> in_page p a \<Longrightarrow> m a = km_mem s a) \<Longrightarrow>
    km_history kend (s\<lparr>km_mem := m\<rparr>) used"

lemma km_history_inv:
  assumes "km_history kend s used" "kernel_end kend"
  shows "\<exists>ps. km_inv kend s ps \<and> set ps \<inter> used = {} \<and> set ps \<union> used = {p. kpage kend p}"
  using assms
proof (induction rule: km_history.induct)
  case (boot s0 s)
  then show ?case using kinit_spec [of kend s0] by auto
next
  case (alloc s used p s')
  then obtain ps where ps: "km_inv kend s ps" "set ps \<inter> used = {}" "set ps \<union> used = {p. kpage kend p}" by blast
  show ?case
  proof (cases "p = 0")
    case True
    have "ps = []" using km.alloc_null [OF ps(1)] alloc(2) True by blast
    then show ?thesis using km.alloc_law [OF ps(1)] alloc(2) ps True by auto
  next
    case False
    have "ps = p # tl ps" by (rule km.alloc_fresh(1) [OF ps(1) alloc(2) False])
    then have "set ps = insert p (set (tl ps))" by (metis list.simps(15))
    then show ?thesis using km.alloc_fresh(2,3) [OF ps(1) alloc(2) False] ps(2,3) False by auto
  qed
next
  case (free s used p s')
  then obtain ps where ps: "km_inv kend s ps" "set ps \<inter> used = {}" "set ps \<union> used = {p. kpage kend p}" by blast
  have "p \<notin> set ps" "kpage kend p" using free(2) ps(2,3) by auto
  then have "km_inv kend s' (p # ps)" using kfree_spec [OF ps(1), of p] free(3) by auto
  then show ?case using ps(2,3) free(2) by (intro exI [of _ "p # ps"]) auto
next
  case (use s used m)
  then obtain ps where ps: "km_inv kend s ps" "set ps \<inter> used = {}" "set ps \<union> used = {p. kpage kend p}" by blast
  have "km_inv kend (s\<lparr>km_mem := m\<rparr>) ps" by (rule km.write_law [OF ps(1)]) (use use(2) ps(2,3) in auto)
  then show ?case using ps(2,3) by blast
qed

text \<open>
  C4. From boot on, \<^verbatim>\<open>kalloc\<close> never returns a page that is in use: in any state reached by
  allocating and freeing pages and writing to the pages given out, it returns a page between \<^verbatim>\<open>end\<close>
  and \<^verbatim>\<open>PHYSTOP\<close> that is not in use as long as there is one, and the null pointer only when every
  page is in use; and \<^verbatim>\<open>kfree\<close> accepts every page in use.
\<close>
theorem kalloc_never_in_use:
  assumes "km_history kend s used" "kernel_end kend"
  shows "(\<exists>p s'. kalloc s = Ok (p, s') \<and> (if used = {p. kpage kend p} then p = 0 else kpage kend p \<and> p \<notin> used))
    \<and> (\<forall>q\<in>used. \<exists>s'. kfree kend q s = Ok s')"
proof -
  obtain ps where ps: "km_inv kend s ps" "set ps \<inter> used = {}" "set ps \<union> used = {p. kpage kend p}"
    using km_history_inv [OF assms] by blast
  obtain s' where s': "kalloc s = Ok (if ps = [] then 0 else hd ps, s')" using km.alloc_law [OF ps(1)] by blast
  have "\<exists>p s'. kalloc s = Ok (p, s') \<and> (if used = {p. kpage kend p} then p = 0 else kpage kend p \<and> p \<notin> used)"
  proof (cases "ps = []")
    case False
    then have "hd ps \<in> set ps" by simp
    then have "used \<noteq> {p. kpage kend p}" "kpage kend (hd ps)" "hd ps \<notin> used" using ps(2,3) by auto
    then show ?thesis using s' False by simp
  qed (use s' ps in auto)
  moreover have "\<exists>s'. kfree kend q s = Ok s'" if "q \<in> used" for q using kfree_spec [OF ps(1), of q] ps(2,3) that by blast
  ultimately show ?thesis by blast
qed

theorem kalloc_never_in_use_witness:
  "\<exists>s p s'. km_history 0x80112000 s {} \<and> kalloc s = Ok (p, s') \<and> kpage 0x80112000 p"
proof -
  let ?s0 = "\<lparr>km_lock = False, km_use_lock = False, km_freelist = 0, km_mem = (\<lambda>_. 0)\<rparr>"
  have ke: "kernel_end 0x80112000" by (simp add: kernel_end_def)
  obtain s where s: "kinit 0x80112000 ?s0 = Ok s" using kinit_spec [OF ke, of ?s0] by auto
  have h: "km_history 0x80112000 s {}" by (rule km_history.boot [OF s]) simp
  have "kpage 0x80112000 0x80112000" by (simp add: kpage_def PGSIZE_def V2P_def PHYSTOP_def KERNBASE_def)
  then have ne: "{} \<noteq> {p. kpage 0x80112000 p}" by blast
  show ?thesis using kalloc_never_in_use [OF h ke] h unfolding if_not_P [OF ne] by blast
qed

end
