(* ===== verification/Syscall.thy ===== *)
theory Syscall
  imports Kalloc ProcLife
begin

section \<open>System call dispatch and arguments (\<^verbatim>\<open>syscall.c\<close>)\<close>

text \<open>
  The arguments of a system call lie on the user stack. \<open>um\<close> is the memory of the process as its
  page table maps it, and \<open>p\<close> the process that made the call. A routine that returns -1 for a bad
  argument is \<open>None\<close> here; otherwise the result is the value it stores through its pointer argument.
\<close>

definition fetchint :: "proc \<Rightarrow> mem \<Rightarrow> u32 \<Rightarrow> int option" where
  "fetchint p um addr = (if addr \<ge> p_sz p \<or> addr + 4 > p_sz p then None else Some (sint (load32 um addr)))"

text \<open>The scan of \<^verbatim>\<open>fetchstr\<close>, over the \<open>k\<close> bytes left below \<^verbatim>\<open>sz\<close>.\<close>

fun fetchstr_loop :: "nat \<Rightarrow> mem \<Rightarrow> u32 \<Rightarrow> nat \<Rightarrow> nat option" where
  "fetchstr_loop 0 um s n = None"
| "fetchstr_loop (Suc k) um s n = (if um s = 0 then Some n else fetchstr_loop k um (s + 1) (Suc n))"

definition fetchstr :: "proc \<Rightarrow> mem \<Rightarrow> u32 \<Rightarrow> nat option" where
  "fetchstr p um addr = (if addr \<ge> p_sz p then None else fetchstr_loop (unat (p_sz p) - unat addr) um addr 0)"

definition argint :: "proc \<Rightarrow> mem \<Rightarrow> int \<Rightarrow> int option" where
  "argint p um n = fetchint p um (tf_esp (p_tf p) + 4 + 4 * of_int n)"

definition argptr :: "proc \<Rightarrow> mem \<Rightarrow> int \<Rightarrow> int \<Rightarrow> u32 option" where
  "argptr p um n nb =
     (case argint p um n of
        None \<Rightarrow> None
      | Some i \<Rightarrow>
          if nb < 0 \<or> (of_int i :: u32) \<ge> p_sz p \<or> (of_int i :: u32) + of_int nb > p_sz p then None
          else Some (of_int i))"

text \<open>\<^verbatim>\<open>argstr\<close> gives the pointer and the length \<^verbatim>\<open>fetchstr\<close> returns.\<close>

definition argstr :: "proc \<Rightarrow> mem \<Rightarrow> int \<Rightarrow> (u32 \<times> nat) option" where
  "argstr p um n =
     (case argint p um n of
        None \<Rightarrow> None
      | Some i \<Rightarrow> map_option (\<lambda>len. (of_int i, len)) (fetchstr p um (of_int i)))"

text \<open>The bytes in memory from an address on.\<close>

definition bytes_at :: "mem \<Rightarrow> u32 \<Rightarrow> nat \<Rightarrow> u8 list" where
  "bytes_at um a n = map (\<lambda>i. um (a + of_nat i)) [0..<n]"

subsection \<open>The table of system calls\<close>

datatype sys_name = Sys_fork | Sys_exit | Sys_wait | Sys_pipe | Sys_read | Sys_kill | Sys_exec | Sys_fstat | Sys_chdir
  | Sys_dup | Sys_getpid | Sys_sbrk | Sys_sleep | Sys_uptime | Sys_open | Sys_write | Sys_mknod | Sys_unlink
  | Sys_link | Sys_mkdir | Sys_close | Sys_wait2 | Sys_yield | Sys_change_prio

definition syscalls :: "(int \<times> sys_name) list" where
  "syscalls = [(1, Sys_fork), (2, Sys_exit), (3, Sys_wait), (4, Sys_pipe), (5, Sys_read), (6, Sys_kill), (7, Sys_exec),
     (8, Sys_fstat), (9, Sys_chdir), (10, Sys_dup), (11, Sys_getpid), (12, Sys_sbrk), (13, Sys_sleep), (14, Sys_uptime),
     (15, Sys_open), (16, Sys_write), (17, Sys_mknod), (18, Sys_unlink), (19, Sys_link), (20, Sys_mkdir), (21, Sys_close),
     (23, Sys_wait2), (24, Sys_yield), (25, Sys_change_prio)]"

definition syscall_target :: "proc \<Rightarrow> sys_name option" where
  "syscall_target p =
     (let num = sint (tf_eax (p_tf p)) in if num > 0 \<and> num < 26 then map_of syscalls num else None)"

text \<open>
  \<^verbatim>\<open>syscall\<close> on a state of the kernel: \<open>run\<close> are the system call routines, \<open>cur\<close> and \<open>upd\<close> read and
  update the calling process in the state.
\<close>

definition syscall :: "(sys_name \<Rightarrow> 's \<Rightarrow> (int \<times> 's) res) \<Rightarrow> ('s \<Rightarrow> proc) \<Rightarrow> ((proc \<Rightarrow> proc) \<Rightarrow> 's \<Rightarrow> 's) \<Rightarrow> 's \<Rightarrow> 's res" where
  "syscall run cur upd s =
     (case syscall_target (cur s) of
        Some c \<Rightarrow> rbind (run c s) (\<lambda>(r, s). Ok (upd (\<lambda>p. p\<lparr>p_tf := (p_tf p)\<lparr>tf_eax := of_int r\<rparr>\<rparr>) s))
      | None \<Rightarrow> Ok (upd (\<lambda>p. p\<lparr>p_tf := (p_tf p)\<lparr>tf_eax := - 1\<rparr>\<rparr>) s))"

subsection \<open>The checks keep the kernel inside the process\<close>

lemma unat_add_small:
  assumes "unat (a :: u32) < 2 ^ 31" "unat b \<le> 2 ^ 31"
  shows "unat (a + b) = unat a + unat b"
  using assms by (subst unat_add_lem [THEN iffD1]) simp_all

lemma fetchint_bounds:
  assumes "p_sz p \<le> KERNBASE" "fetchint p um addr = Some v"
  shows "unat addr + 4 \<le> unat (p_sz p)"
proof -
  have "unat addr < 2 ^ 31"
    using assms by (auto simp: fetchint_def KERNBASE_def word_le_nat_alt word_less_nat_alt split: if_splits)
  then have "unat (addr + 4) = unat addr + 4" using unat_add_small [of addr 4] by simp
  then show ?thesis using assms(2) by (auto simp: fetchint_def word_le_nat_alt word_less_nat_alt split: if_splits)
qed

text \<open>
  C17. For a process whose size is at most \<^verbatim>\<open>KERNBASE\<close>, a pointer that \<^verbatim>\<open>argptr\<close> accepts together with
  a size denotes a buffer that lies inside the process: the sum in the check cannot wrap around.
  The address it reads the pointer from lies inside the process as well.
\<close>
theorem argptr_inside_process:
  assumes sz: "p_sz p \<le> KERNBASE" and nb: "nb < 2 ^ 31" and ok: "argptr p um n nb = Some a"
  shows "0 \<le> nb \<and> unat a < unat (p_sz p) \<and> unat a + nat nb \<le> unat (p_sz p)
    \<and> unat (tf_esp (p_tf p) + 4 + 4 * of_int n) + 4 \<le> unat (p_sz p)"
proof -
  obtain i where i: "argint p um n = Some i" "0 \<le> nb" "\<not> a \<ge> p_sz p" "\<not> a + of_int nb > p_sz p"
    using ok by (auto simp: argptr_def split: option.splits if_splits)
  have s: "unat (of_int nb :: u32) = nat nb" using i(2) nb by (simp add: unsigned_of_int nat_mod_distrib take_bit_eq_mod)
  have "unat a < 2 ^ 31" using i(3) sz by (auto simp: KERNBASE_def word_le_nat_alt word_less_nat_alt)
  moreover have "nat nb \<le> 2 ^ 31" using nb by simp
  ultimately have "unat (a + of_int nb) = unat a + nat nb" using unat_add_small [of a "of_int nb"] s by simp
  then have "unat a + nat nb \<le> unat (p_sz p)" using i(4) by (simp add: word_less_nat_alt)
  moreover have "unat (tf_esp (p_tf p) + 4 + 4 * of_int n) + 4 \<le> unat (p_sz p)"
    using fetchint_bounds [OF sz] i(1) by (simp add: argint_def)
  ultimately show ?thesis using i(2,3) by (auto simp: word_less_nat_alt word_le_nat_alt)
qed

definition demo_caller :: proc where
  "demo_caller = unused_proc\<lparr>p_sz := 0x4000, p_tf := zero_tf\<lparr>tf_esp := 0x3F00\<rparr>\<rparr>"

definition demo_stack :: mem where
  "demo_stack = (\<lambda>_. 0)(0x3F05 := 0x20, 0x2000 := 47, 0x2001 := 97)"

lemma demo_argint: "argint demo_caller demo_stack 0 = Some 0x2000"
  by (simp add: argint_def fetchint_def demo_caller_def demo_stack_def load32_def)

theorem argptr_inside_process_witness:
  "argptr demo_caller demo_stack 0 512 = Some 0x2000 \<and> unat (0x2000 :: u32) + nat 512 \<le> unat (p_sz demo_caller)"
proof -
  have a: "argptr demo_caller demo_stack 0 512 = Some 0x2000"
    by (simp add: argptr_def demo_argint) (simp add: demo_caller_def)
  show ?thesis using argptr_inside_process [OF _ _ a] a by (simp add: demo_caller_def KERNBASE_def)
qed

lemma fetchstr_loop_iff:
  "fetchstr_loop k um s n = Some m \<longleftrightarrow> n \<le> m \<and> m - n < k \<and> um (s + of_nat (m - n)) = 0 \<and> (\<forall>i < m - n. um (s + of_nat i) \<noteq> 0)"
proof (induction k arbitrary: s n)
  case (Suc k)
  show ?case
  proof (cases "um s = 0")
    case True
    then show ?thesis by (auto dest: spec [of _ 0])
  next
    case False
    have e: "Suc n \<le> m \<Longrightarrow> m - n = Suc (m - Suc n)" by simp
    show ?thesis
    proof (cases "Suc n \<le> m")
      case True
      show ?thesis unfolding e [OF True] using False True Suc.IH [of "s + 1" "Suc n"] by (auto simp: less_Suc_eq_0_disj add.assoc)
    next
      case 2: False
      then show ?thesis using False Suc.IH [of "s + 1" "Suc n"] by (auto simp: not_less_eq_eq)
    qed
  qed
qed simp

text \<open>
  C39. \<^verbatim>\<open>fetchstr\<close> returns \<open>n\<close> exactly when the bytes from \<^verbatim>\<open>addr\<close> on are a string of length \<open>n\<close> that ends,
  with its terminator, below the size of the process; it fails exactly when there is no such
  string, so the kernel never reads past the process to find the end.
\<close>
theorem fetchstr_exact:
  "fetchstr p um addr = Some n \<longleftrightarrow>
     unat addr + n < unat (p_sz p) \<and> um (addr + of_nat n) = 0 \<and> (\<forall>c \<in> set (bytes_at um addr n). c \<noteq> 0)"
  by (auto simp: fetchstr_def fetchstr_loop_iff bytes_at_def word_le_nat_alt)

theorem fetchstr_exact_witness: "fetchstr demo_caller demo_stack 0x2000 = Some 2"
  unfolding fetchstr_exact by (simp add: bytes_at_def demo_caller_def demo_stack_def upt_rec)

end
