(* ===== verification/Aging.thy ===== *)
theory Aging
  imports SchedulerProps
begin

section \<open>Clock accounting and aging (\<^verbatim>\<open>updateClock\<close>, \<^verbatim>\<open>upgradePriority_Aging\<close>, \<^verbatim>\<open>change_prio\<close>)\<close>

text \<open>
  What a timer tick does to the process table: the time counters of every process, and the
  promotion of processes that have been ready for too long. The loops over \<^verbatim>\<open>ptable.proc\<close> run
  in index order; a promotion moves the process from the queue of its old level to the end of
  the queue of the next one.
\<close>

definition tick_proc :: "proc \<Rightarrow> proc" where
  "tick_proc p =
     (if p_state p = SLEEPING then p\<lparr>p_stime := p_stime p + 1, p_clock := 0\<rparr>
      else if p_state p = RUNNABLE then
        p\<lparr>p_retime := p_retime p + 1, p_readyTimeAging := p_readyTimeAging p + 1, p_clock := 0\<rparr>
      else if p_state p = RUNNING then
        p\<lparr>p_bstime := p_bstime p + 1, p_rutime := p_rutime p + 1, p_clock := p_clock p + 1\<rparr>
      else p)"

definition updateClock :: "u8 \<Rightarrow> kst \<Rightarrow> kst res" where
  "updateClock a s = rbind (pt_acquire a s) (\<lambda>s. pt_release a (s\<lparr>procs := map tick_proc (procs s)\<rparr>))"

text \<open>The position of the last process in queue \<open>q\<close> with the given id.\<close>

fun find_pos :: "int \<Rightarrow> int \<Rightarrow> nat list \<Rightarrow> int \<Rightarrow> kst \<Rightarrow> int res" where
  "find_pos pid q [] pos s = Ok pos"
| "find_pos pid q (i # is) pos s =
     rbind (slot_proc q (int i) (rq s)) (\<lambda>p'.
     find_pos pid q is (if pid = p_pid (P s p') then int i else pos) s)"

definition auxTrocarFilaPriority :: "nat \<Rightarrow> int \<Rightarrow> kst \<Rightarrow> kst res" where
  "auxTrocarFilaPriority p prioridade_nova s =
     (let prioridade_antiga = prioridade_nova - 1 in
      rbind (count_get prioridade_antiga (rq s)) (\<lambda>n.
      rbind (find_pos (p_pid (P s p)) prioridade_antiga [0..<nat n] 0 s) (\<lambda>posicao_do_p.
      rbind (dequeue_at prioridade_antiga posicao_do_p (rq s)) (\<lambda>r.
      rbind (enqueue prioridade_nova p r) (\<lambda>r.
      Ok (upd_proc p (\<lambda>x. x\<lparr>p_readyTimeAging := 0\<rparr>) (s\<lparr>rq := r\<rparr>)))))))"

definition threshold :: "int \<Rightarrow> int" where
  "threshold q = (if q = 0 then AGE_1TO2 else if q = 1 then AGE_2TO3 else AGE_3TO4)"

definition due :: "proc \<Rightarrow> bool" where
  "due x \<longleftrightarrow> p_state x = RUNNABLE \<and> (p_priority x = 0 \<and> p_readyTimeAging x \<ge> AGE_1TO2
     \<or> p_priority x = 1 \<and> p_readyTimeAging x \<ge> AGE_2TO3 \<or> p_priority x = 2 \<and> p_readyTimeAging x \<ge> AGE_3TO4)"

fun aging_loop :: "nat list \<Rightarrow> kst \<Rightarrow> kst res" where
  "aging_loop [] s = Ok s"
| "aging_loop (p # ps) s =
     (if due (P s p) then
        let q = p_priority (P s p) + 1 in
        rbind (auxTrocarFilaPriority p q (upd_proc p (\<lambda>x. x\<lparr>p_priority := q\<rparr>) s)) (aging_loop ps)
      else aging_loop ps s)"

definition upgradePriority_Aging :: "u8 \<Rightarrow> kst \<Rightarrow> kst res" where
  "upgradePriority_Aging a s = rbind (pt_acquire a s) (\<lambda>s. rbind (aging_loop [0..<NPROC] s) (pt_release a))"

text \<open>\<^verbatim>\<open>change_prio\<close> up to the switch inside its \<^verbatim>\<open>yield\<close>, and after it.\<close>

definition change_prio_out :: "u8 \<Rightarrow> int \<Rightarrow> kst \<Rightarrow> (int option \<times> kst) res" where
  "change_prio_out a priority s =
     (if priority < 1 \<or> priority > 4 then Ok (Some (- 1), s)
      else rbind (curproc a s) (\<lambda>(p, s).
        rbind (yield_out a (upd_proc p (\<lambda>x. x\<lparr>p_priority := priority - 1\<rparr>) s)) (\<lambda>s. Ok (None, s))))"

definition change_prio_in :: "u8 \<Rightarrow> int \<Rightarrow> bool \<Rightarrow> kst \<Rightarrow> (int \<times> kst) res" where
  "change_prio_in a priority ena s =
     rbind (yield_in a ena s) (\<lambda>s.
     rbind (curproc a s) (\<lambda>(p, s).
     if p_state (P s p) = RUNNABLE
     then rbind (auxTrocarFilaPriority p (priority - 1) s) (\<lambda>s. Ok (0, s))
     else Ok (0, s)))"

subsection \<open>The counters\<close>

lemma tick_proc_same [simp]:
  "p_state (tick_proc x) = p_state x" "p_priority (tick_proc x) = p_priority x" "p_pid (tick_proc x) = p_pid x"
  "p_chan (tick_proc x) = p_chan x" "p_kstack (tick_proc x) = p_kstack x" "p_pgdir (tick_proc x) = p_pgdir x"
  "p_context (tick_proc x) = p_context x" "p_parent (tick_proc x) = p_parent x" "p_killed (tick_proc x) = p_killed x"
  by (simp_all add: tick_proc_def)

lemma tinv_map:
  assumes "tinv s" and "\<And>x. p_state (f x) = p_state x \<and> p_priority (f x) = p_priority x"
  shows "tinv (s\<lparr>procs := map f (procs s)\<rparr>)"
  using assms by (simp add: tinv_def) (auto simp: live_def)

lemma pinv_map:
  assumes "pinv s" and "length (procs s) = NPROC" and "\<And>x. p_state (f x) = p_state x \<and> p_pid (f x) = p_pid x"
  shows "pinv (s\<lparr>procs := map f (procs s)\<rparr>)"
  using assms pinv_cong [of "s\<lparr>procs := map f (procs s)\<rparr>" s] by simp

lemma updateClock_Ok:
  assumes "idle_lock a s"
  shows "updateClock a s = Ok (rel a ((acq a s)\<lparr>procs := map tick_proc (procs s)\<rparr>))"
    "held a ((acq a s)\<lparr>procs := map tick_proc (procs s)\<rparr>)"
proof -
  show h: "held a ((acq a s)\<lparr>procs := map tick_proc (procs s)\<rparr>)" using held_acq [OF assms] by (simp add: held_def)
  then show "updateClock a s = Ok (rel a ((acq a s)\<lparr>procs := map tick_proc (procs s)\<rparr>))"
    using assms by (simp add: updateClock_def pt_simps)
qed

subsection \<open>Promotion\<close>

lemma find_pos_unique:
  assumes w: "rq_wf (rq s)" and q: "is_queue q" and d: "distinct (qlist (rq s) q)"
    and k: "k < length (qlist (rq s) q)" and u: "\<forall>p \<in> set (qlist (rq s) q). p_pid (P s p) = pid \<longrightarrow> p = qlist (rq s) q ! k"
    and pk: "p_pid (P s (qlist (rq s) q ! k)) = pid" and i: "i \<le> length (qlist (rq s) q)"
  shows "find_pos pid q [i..<length (qlist (rq s) q)] pos s = Ok (if i \<le> k then int k else pos)"
  using i
proof (induction "length (qlist (rq s) q) - i" arbitrary: i pos)
  case 0
  then show ?case using k by simp
next
  case (Suc n)
  then have i: "i < length (qlist (rq s) q)" by simp
  have up: "[i..<length (qlist (rq s) q)] = i # [Suc i..<length (qlist (rq s) q)]" using i by (simp add: upt_rec)
  have "(pid = p_pid (P s (qlist (rq s) q ! i))) = (i = k)"
    using u nth_mem [OF i] nth_eq_iff_index_eq [OF d i k] pk by auto
  moreover have "n = length (qlist (rq s) q) - Suc i" "Suc i \<le> length (qlist (rq s) q)" using Suc.hyps(2) i by simp_all
  note Suc.hyps(1) [OF this]
  ultimately show ?case using slot_proc_qlist [OF w q i] up by auto
qed


definition promoted :: "proc \<Rightarrow> proc" where
  "promoted x = x\<lparr>p_priority := p_priority x + 1, p_readyTimeAging := 0\<rparr>"

lemma dueD: "due x \<Longrightarrow> p_state x = RUNNABLE \<and> is_queue (p_priority x) \<and> is_queue (p_priority x + 1)"
  by (auto simp: due_def is_queue_def NUMFILAS_def)

lemma promote_Ok:
  assumes t: "tinv s" and pi: "pinv s" and p: "p < NPROC" "due (P s p)"
  obtains s' where "auxTrocarFilaPriority p (p_priority (P s p) + 1)
      (upd_proc p (\<lambda>x. x\<lparr>p_priority := p_priority (P s p) + 1\<rparr>) s) = Ok s'"
    "tinv s'" "pinv s'" "frame s' = frame s" "procs s' = (procs s)[p := promoted (P s p)]"
proof -
  define q where "q = p_priority (P s p)"
  define s1 where "s1 = upd_proc p (\<lambda>x. x\<lparr>p_priority := q + 1\<rparr>) s"
  let ?Q = "qlist (rq s) q"
  have len: "length (procs s) = NPROC" by (rule tinvD(1) [OF t])
  have d: "p_state (P s p) = RUNNABLE" "is_queue q" "is_queue (q + 1)" using dueD [OF p(2)] by (simp_all add: q_def)
  have w: "rq_wf (rq s)" by (rule tinvD(2) [OF t])
  have "p \<in> set ?Q" using tinvD(4) [OF t d(2)] p(1) d(1) by (simp add: q_def)
  then obtain k where k: "k < length ?Q" "?Q ! k = p" by (metis in_set_conv_nth)
  have e1: "rq s1 = rq s" and pid1: "p_pid (P s1 p') = p_pid (P s p')" for p'
    using len p by (auto simp: s1_def nth_upd)
  have u: "\<forall>p' \<in> set (qlist (rq s1) q). p_pid (P s1 p') = p_pid (P s1 p) \<longrightarrow> p' = qlist (rq s1) q ! k"
    using tinvD(4) [OF t d(2)] pi p(1) d(1) k(2) e1 pid1 unfolding pinv_def by auto
  have fp: "find_pos (p_pid (P s1 p)) q [0..<length ?Q] 0 s1 = Ok (int k)"
    using find_pos_unique [of s1 q k "p_pid (P s1 p)" 0 0] w d(2) tinvD(3) [OF t d(2)] k u e1 by simp
  obtain r where r: "dequeue_at q (int k) (rq s) = Ok r" "rq_wf r" "qlist r q = take k ?Q @ drop (Suc k) ?Q"
    "\<And>q'. is_queue q' \<Longrightarrow> q' \<noteq> q \<Longrightarrow> qlist r q' = qlist (rq s) q'"
    using dequeue_at_Ok [OF w d(2) k(1)] by blast
  have rm: "set (qlist r q) = set ?Q - {p}" "distinct (qlist r q)"
    using distinct_remove_nth [OF tinvD(3) [OF t d(2)] k(1)] k(2) r(3) by simp_all
  have room: "length (qlist r (q + 1)) < NPROC"
    using r(4) [OF d(3)] tinvD(3,4) [OF t d(3)] p(1) q_def
    by (intro distinct_bounded_length_less [of _ _ p]) auto
  obtain r' where r': "enqueue (q + 1) p r = Ok r'" "rq_wf r'" "qlist r' (q + 1) = qlist r (q + 1) @ [p]"
    "\<And>q'. is_queue q' \<Longrightarrow> q' \<noteq> q + 1 \<Longrightarrow> qlist r' q' = qlist r q'"
    using enqueue_Ok [OF r(2) d(3) room, of p] by blast
  define s2 where "s2 = upd_proc p (\<lambda>x. x\<lparr>p_readyTimeAging := 0\<rparr>) (s1\<lparr>rq := r'\<rparr>)"
  have ps: "procs s2 = (procs s)[p := promoted (P s p)]"
    using len p(1) by (simp add: s2_def s1_def promoted_def q_def)
  have rq2: "rq s2 = r'" by (simp add: s2_def)
  have "auxTrocarFilaPriority p (q + 1) s1 = Ok s2"
    using fp r(1) r'(1) e1 count_get_qlist [OF w d(2)] by (simp add: auxTrocarFilaPriority_def s2_def)
  moreover have "tinv s2" unfolding tinv_def
  proof (intro conjI allI impI)
    fix q' assume q': "is_queue q'"
    have nq: "p \<notin> set (qlist (rq s) (q + 1))" using tinvD(4) [OF t d(3)] by (simp add: q_def)
    show "distinct (qlist (rq s2) q')"
      using rm(2) r(4) r'(3,4) q' tinvD(3) [OF t] d(3) nq unfolding rq2 by (cases "q' = q"; cases "q' = q + 1") auto
    have "p' \<in> set (qlist r' q') \<longleftrightarrow> p' < NPROC \<and> p_state (P s2 p') = RUNNABLE \<and> p_priority (P s2 p') = q'" for p'
    proof -
      have "p' \<in> set (qlist r' q') \<longleftrightarrow> (if q' = q + 1 then p' \<in> set (qlist (rq s) q') \<or> p' = p
          else if q' = q then p' \<in> set ?Q \<and> p' \<noteq> p else p' \<in> set (qlist (rq s) q'))"
        using rm(1) r(4) r'(3,4) q' d(3) by auto
      then show ?thesis
        using tinvD(4) [OF t q', of p'] p(1) d(1) len ps by (auto simp: nth_upd promoted_def q_def)
    qed
    then show "set (qlist (rq s2) q') = {p'. p' < NPROC \<and> p_state (P s2 p') = RUNNABLE \<and> p_priority (P s2 p') = q'}"
      unfolding rq2 by blast
  next
    fix p' assume "p' < NPROC" "live (p_state (P s2 p'))"
    then show "is_queue (p_priority (P s2 p'))"
      using tinvD(5) [OF t, of p'] d(3) len ps p(1) by (auto simp: nth_upd promoted_def q_def split: if_splits)
  qed (use len ps r'(2) rq2 in simp_all)
  moreover have "pinv s2 = pinv s"
    using ps len p d(1) by (intro pinv_cong) (auto simp: nth_upd promoted_def s2_def s1_def)
  ultimately show thesis using ps pi by (intro that [of s2]) (simp_all add: s1_def q_def s2_def)
qed

definition aged :: "proc \<Rightarrow> proc" where
  "aged x = (if due x then promoted x else x)"

lemma aging_loop_Ok:
  assumes "tinv s" and "pinv s" and "set ps \<subseteq> {..<NPROC}" and "distinct ps"
  shows "\<exists>s'. aging_loop ps s = Ok s' \<and> tinv s' \<and> pinv s' \<and> frame s' = frame s
    \<and> (\<forall>p < NPROC. P s' p = (if p \<in> set ps then aged (P s p) else P s p))"
  using assms
proof (induction ps arbitrary: s)
  case Nil
  then show ?case by simp
next
  case (Cons p ps)
  have p: "p < NPROC" "p \<notin> set ps" using Cons.prems by simp_all
  have len: "length (procs s) = NPROC" by (rule tinvD(1) [OF Cons.prems(1)])
  show ?case
  proof (cases "due (P s p)")
    case False
    then have "aged (P s p) = P s p" by (simp add: aged_def)
    with Cons.IH [of s] Cons.prems False p show ?thesis by fastforce
  next
    case True
    obtain s1 where s1: "auxTrocarFilaPriority p (p_priority (P s p) + 1)
      (upd_proc p (\<lambda>x. x\<lparr>p_priority := p_priority (P s p) + 1\<rparr>) s) = Ok s1"
      "tinv s1" "pinv s1" "frame s1 = frame s" "procs s1 = (procs s)[p := promoted (P s p)]"
      using promote_Ok [OF Cons.prems(1,2) p(1) True] by blast
    obtain s' where s': "aging_loop ps s1 = Ok s'" "tinv s'" "pinv s'" "frame s' = frame s1"
      "\<forall>j < NPROC. P s' j = (if j \<in> set ps then aged (P s1 j) else P s1 j)"
      using Cons.IH [OF s1(2,3)] Cons.prems by auto
    have "P s' j = (if j \<in> set (p # ps) then aged (P s j) else P s j)" if "j < NPROC" for j
      using s'(5) that s1(5) p len True by (auto simp: aged_def nth_upd)
    with True s1 s' show ?thesis by (auto simp: Let_def)
  qed
qed

lemma upgrade_Ok:
  assumes "tinv s" and "pinv s" and "idle_lock a s"
  obtains s' where "upgradePriority_Aging a s = Ok (rel a s')" "held a s'" "tinv s'" "pinv s'" "frame s' = frame (acq a s)"
    "\<And>p. p < NPROC \<Longrightarrow> P s' p = aged (P s p)"
proof -
  obtain s' where s': "aging_loop [0..<NPROC] (acq a s) = Ok s'" "tinv s'" "pinv s'" "frame s' = frame (acq a s)"
    "\<forall>p < NPROC. P s' p = (if p \<in> set [0..<NPROC] then aged (P (acq a s) p) else P (acq a s) p)"
    using aging_loop_Ok [of "acq a s" "[0..<NPROC]"] assms by (auto simp: lessThan_atLeast0)
  have h: "held a s'" using held_frame [OF s'(4)] assms(3) by simp
  with s' assms(3) show thesis by (intro that [of s']) (simp_all add: upgradePriority_Aging_def pt_simps)
qed


text \<open>C35. 
  \<^verbatim>\<open>change_prio(n)\<close>: outside 1 to 4 it returns -1 and changes nothing. Otherwise it
  reaches the switch with the caller ready at level \<open>n - 1\<close>, last in that queue, and every other
  process and queue unchanged. When the scheduler has switched back to the (running) caller it
  returns 0 without touching the queues: the branch that would move a \<^verbatim>\<open>RUNNABLE\<close> caller is
  never taken.
\<close>
theorem change_prio_requeues:
  assumes "tinv s" and "idle_lock a s" and "depth a (mach s) = 0" and "running_on a s = Some p"
    and "p < NPROC" and "p_state (P s p) = RUNNING"
  shows "(if n < 1 \<or> n > 4 then change_prio_out a n s = Ok (Some (- 1), s)
     else \<exists>s'. change_prio_out a n s = Ok (None, s') \<and> tinv s' \<and> held a s'
        \<and> p_state (P s' p) = RUNNABLE \<and> p_priority (P s' p) = n - 1
        \<and> qlist (rq s') (n - 1) = qlist (rq s) (n - 1) @ [p]
        \<and> (\<forall>q. is_queue q \<longrightarrow> q \<noteq> n - 1 \<longrightarrow> qlist (rq s') q = qlist (rq s) q)
        \<and> (\<forall>p' < NPROC. p' \<noteq> p \<longrightarrow> P s' p' = P s p'))
   \<and> (\<forall>ena s2. held a s2 \<longrightarrow> running_on a s2 = Some p \<longrightarrow> p_state (P s2 p) = RUNNING \<longrightarrow>
        (\<exists>s3. change_prio_in a n ena s2 = Ok (0, s3) \<and> rq s3 = rq s2 \<and> procs s3 = procs s2))"
proof (intro conjI)
  let ?t = "\<lambda>s'. tinv s' \<and> held a s'
        \<and> p_state (P s' p) = RUNNABLE \<and> p_priority (P s' p) = n - 1
        \<and> qlist (rq s') (n - 1) = qlist (rq s) (n - 1) @ [p]
        \<and> (\<forall>q. is_queue q \<longrightarrow> q \<noteq> n - 1 \<longrightarrow> qlist (rq s') q = qlist (rq s) q)
        \<and> (\<forall>p' < NPROC. p' \<noteq> p \<longrightarrow> P s' p' = P s p')"
  have "\<exists>s'. change_prio_out a n s = Ok (None, s') \<and> ?t s'" if n: "\<not> (n < 1 \<or> n > 4)"
  proof -
    have wf: "cpu_wf a (mach s)" using assms(2) by (simp add: idle_lock_def)
    define s1 where "s1 = upd_proc p (\<lambda>x. x\<lparr>p_priority := n - 1\<rparr>) (s\<lparr>mach := sync a (mach s)\<rparr>)"
    have len: "p < length (procs s)" using tinvD(1) [OF assms(1)] assms(5) by simp
    have t1: "tinv s1" unfolding s1_def using assms(1,5,6) n
      by (intro tinv_upd) (auto simp: live_def is_queue_def NUMFILAS_def)
    have i1: "idle_lock a s1" "depth a (mach s1) = 0" "running_on a s1 = Some p"
      using assms(2-4) wf by (simp_all add: s1_def idle_lock_def)
    have p1: "p_state (P s1 p) = RUNNING" "p_priority (P s1 p) = n - 1" "rq s1 = rq s"
      using len assms(6) by (simp_all add: s1_def)
    obtain s' where s': "yield_out a s1 = Ok s'" "tinv s'" "held a s'"
      "procs s' = (procs s1)[p := (P s1 p)\<lparr>p_state := RUNNABLE, p_context := saved_in a (acq a s1)\<rparr>]"
      "qlist (rq s') (n - 1) = qlist (rq s) (n - 1) @ [p]"
      "\<forall>q. is_queue q \<longrightarrow> q \<noteq> n - 1 \<longrightarrow> qlist (rq s') q = qlist (rq s) q"
      using yield_out_Ok [OF t1 i1 assms(5) p1(1)] p1(2,3) by auto
    have "change_prio_out a n s = Ok (None, s')"
      using n wf assms(4) s'(1) by (simp add: change_prio_out_def curproc_Ok running_on_def s1_def)
    moreover have "P s' p = (P s1 p)\<lparr>p_state := RUNNABLE, p_context := saved_in a (acq a s1)\<rparr>"
      "\<And>p'. p' \<noteq> p \<Longrightarrow> P s' p' = P s p'" using s'(4) len by (simp_all add: s1_def)
    ultimately show ?thesis using s' p1(2) by auto
  qed
  then show "if n < 1 \<or> n > 4 then change_prio_out a n s = Ok (Some (- 1), s)
     else \<exists>s'. change_prio_out a n s = Ok (None, s') \<and> ?t s'"
    by (simp add: change_prio_out_def)
next
  show "\<forall>ena s2. held a s2 \<longrightarrow> running_on a s2 = Some p \<longrightarrow> p_state (P s2 p) = RUNNING \<longrightarrow>
        (\<exists>s3. change_prio_in a n ena s2 = Ok (0, s3) \<and> rq s3 = rq s2 \<and> procs s3 = procs s2)"
  proof (intro allI impI)
    fix ena s2 assume h: "held a s2" and r: "running_on a s2 = Some p" and st: "p_state (P s2 p) = RUNNING"
    let ?s = "rel a (set_intena a ena s2)"
    have "held a (set_intena a ena s2)" using h by simp
    then have y: "yield_in a ena s2 = Ok ?s" and i: "idle_lock a ?s" "running_on a ?s = Some p"
      using h r idle_lock_rel running_on_rel by (simp_all add: yield_in_def sched_in_Ok pt_simps)
    have "curproc a ?s = Ok (p, ?s\<lparr>mach := sync a (mach ?s)\<rparr>)"
      using i by (intro curproc_Ok) (simp_all add: idle_lock_def running_on_def)
    then show "\<exists>s3. change_prio_in a n ena s2 = Ok (0, s3) \<and> rq s3 = rq s2 \<and> procs s3 = procs s2"
      using y st by (simp add: change_prio_in_def)
  qed
qed

theorem change_prio_requeues_witness:
  "\<exists>s'. change_prio_out 0 3 demo = Ok (None, s') \<and> p_priority (P s' 0) = 2 \<and> qlist (rq s') 2 = [0]"
proof -
  have n: "0 < NPROC" by (simp add: NPROC_def)
  have p: "p_state (P demo 0) = RUNNING" using demo_procs(2) by (simp add: demo_fields)
  have "qlist (rq demo) 2 = []" using empty_rq_wf(2) [of 2] by (simp add: demo_def)
  with change_prio_requeues [OF demo_inv(1,3,5,4) n p, of 3] show ?thesis by auto
qed

end
