(* ===== verification/Trap.thy ===== *)
theory Trap
  imports Aging
begin

section \<open>Traps and the timer (\<^verbatim>\<open>trap.c\<close>, \<^verbatim>\<open>traps.h\<close>)\<close>

text \<open>
  \<^verbatim>\<open>trap\<close> is modelled with the interrupt handlers of the devices (\<^verbatim>\<open>ideintr\<close>, \<^verbatim>\<open>kbdintr\<close>,
  \<^verbatim>\<open>uartintr\<close>) and \<^verbatim>\<open>syscall\<close> in the record \<open>trap_ops\<close>; the timer interrupt is modelled
  completely. \<^verbatim>\<open>trap\<close> may leave through \<^verbatim>\<open>exit\<close> or be suspended in \<^verbatim>\<open>yield\<close>, which its result says;
  \<open>trap_again\<close> is what follows the \<^verbatim>\<open>yield\<close>. Writing to the interrupt controller
  (\<^verbatim>\<open>lapiceoi\<close>) and printing do not change this state.
\<close>

definition T_SYSCALL :: u32 where "T_SYSCALL = 64"
definition T_IRQ0 :: u32 where "T_IRQ0 = 32"
definition IRQ_TIMER :: u32 where "IRQ_TIMER = 0"
definition IRQ_KBD :: u32 where "IRQ_KBD = 1"
definition IRQ_COM1 :: u32 where "IRQ_COM1 = 4"
definition IRQ_IDE :: u32 where "IRQ_IDE = 14"
definition IRQ_SPURIOUS :: u32 where "IRQ_SPURIOUS = 31"

record 'w trap_ops =
  t_ideintr :: "kst \<times> 'w \<Rightarrow> (kst \<times> 'w) res"
  t_kbdintr :: "kst \<times> 'w \<Rightarrow> (kst \<times> 'w) res"
  t_uartintr :: "kst \<times> 'w \<Rightarrow> (kst \<times> 'w) res"
  t_syscall :: "kst \<times> 'w \<Rightarrow> (kst \<times> 'w) res"

definition tick_acquire :: "u8 \<Rightarrow> kst \<Rightarrow> kst res" where
  "tick_acquire a s = rbind (acquire a (tickslock s) (mach s)) (\<lambda>(lk, m). Ok (s\<lparr>tickslock := lk, mach := m\<rparr>))"

definition tick_release :: "u8 \<Rightarrow> kst \<Rightarrow> kst res" where
  "tick_release a s = rbind (release a (tickslock s) (mach s)) (\<lambda>(lk, m). Ok (s\<lparr>tickslock := lk, mach := m\<rparr>))"

definition timer_intr :: "u8 \<Rightarrow> kst \<Rightarrow> kst res" where
  "timer_intr a s =
     rbind (cpuid a (mach s)) (\<lambda>i.
     if i = 0 then
       rbind (tick_acquire a s) (\<lambda>s.
       rbind (updateClock a (s\<lparr>ticks := ticks s + 1\<rparr>)) (\<lambda>s.
       rbind (upgradePriority_Aging a s) (\<lambda>s.
       rbind (wakeup a (Some TicksChan) s) (tick_release a))))
     else Ok s)"

definition trap_switch :: "'w trap_ops \<Rightarrow> u8 \<Rightarrow> trapframe \<Rightarrow> kst \<times> 'w \<Rightarrow> (kst \<times> 'w) res" where
  "trap_switch t a tf = (\<lambda>(s, w).
     if tf_trapno tf = T_IRQ0 + IRQ_TIMER then rbind (timer_intr a s) (\<lambda>s. Ok (s, w))
     else if tf_trapno tf = T_IRQ0 + IRQ_IDE then t_ideintr t (s, w)
     else if tf_trapno tf = T_IRQ0 + IRQ_IDE + 1 then Ok (s, w)
     else if tf_trapno tf = T_IRQ0 + IRQ_KBD then t_kbdintr t (s, w)
     else if tf_trapno tf = T_IRQ0 + IRQ_COM1 then t_uartintr t (s, w)
     else if tf_trapno tf = T_IRQ0 + 7 \<or> tf_trapno tf = T_IRQ0 + IRQ_SPURIOUS then
       rbind (cpuid a (mach s)) (\<lambda>_. Ok (s, w))
     else rbind (my_proc a s) (\<lambda>(p, s).
       case p of None \<Rightarrow> Panic ''trap''
       | Some p \<Rightarrow>
           if and (tf_cs tf) 3 = 0 then Panic ''trap''
           else Ok (upd_proc p (\<lambda>x. x\<lparr>p_killed := True\<rparr>) s, w)))"

datatype trap_end = TrapReturn | TrapYield | TrapExit

text \<open>\<^verbatim>\<open>if(myproc() && myproc()->killed && (tf->cs&3) == DPL_USER) exit();\<close>\<close>

definition trap_check :: "'w kops \<Rightarrow> u8 \<Rightarrow> trapframe \<Rightarrow> kst \<times> 'w \<Rightarrow> (trap_end \<times> kst \<times> 'w) res" where
  "trap_check ops a tf = (\<lambda>(s, w).
     rbind (my_proc a s) (\<lambda>(p, s).
     case p of None \<Rightarrow> Ok (TrapReturn, s, w)
     | Some p \<Rightarrow>
         if p_killed (P s p) \<and> and (tf_cs tf) 3 = DPL_USER
         then rbind (exit_out ops a (s, w)) (\<lambda>(s, w). Ok (TrapExit, s, w))
         else Ok (TrapReturn, s, w)))"

definition trap_again :: "'w kops \<Rightarrow> u8 \<Rightarrow> trapframe \<Rightarrow> bool \<Rightarrow> kst \<times> 'w \<Rightarrow> (trap_end \<times> kst \<times> 'w) res" where
  "trap_again ops a tf ena = (\<lambda>(s, w). rbind (yield_in a ena s) (\<lambda>s. trap_check ops a tf (s, w)))"

text \<open>The condition under which the timer takes the CPU from the running process.\<close>

definition quantum_over :: "trapframe \<Rightarrow> proc \<Rightarrow> bool" where
  "quantum_over tf x \<longleftrightarrow> p_state x = RUNNING \<and> tf_trapno tf = T_IRQ0 + IRQ_TIMER
     \<and> p_clock x = INTERV \<and> p_priority x = 1"

definition trap_intr :: "'w kops \<Rightarrow> 'w trap_ops \<Rightarrow> u8 \<Rightarrow> trapframe \<Rightarrow> kst \<times> 'w \<Rightarrow> (trap_end \<times> kst \<times> 'w) res" where
  "trap_intr ops t a tf sw =
     rbind (trap_switch t a tf sw) (\<lambda>sw.
     rbind (trap_check ops a tf sw) (\<lambda>(e, s, w).
     if e = TrapExit then Ok (e, s, w)
     else rbind (my_proc a s) (\<lambda>(p, s).
       case p of
         Some p \<Rightarrow> if quantum_over tf (P s p) then rbind (yield_out a s) (\<lambda>s. Ok (TrapYield, s, w))
                   else trap_check ops a tf (s, w)
       | None \<Rightarrow> trap_check ops a tf (s, w))))"

definition trap_killed :: "'w kops \<Rightarrow> u8 \<Rightarrow> nat \<Rightarrow> kst \<times> 'w \<Rightarrow> (trap_end \<times> kst \<times> 'w) res" where
  "trap_killed ops a p = (\<lambda>(s, w).
     if p_killed (P s p) then rbind (exit_out ops a (s, w)) (\<lambda>(s, w). Ok (TrapExit, s, w))
     else Ok (TrapReturn, s, w))"

definition trap :: "'w kops \<Rightarrow> 'w trap_ops \<Rightarrow> u8 \<Rightarrow> trapframe \<Rightarrow> kst \<times> 'w \<Rightarrow> (trap_end \<times> kst \<times> 'w) res" where
  "trap ops t a tf = (\<lambda>(s, w).
     if tf_trapno tf = T_SYSCALL then
       rbind (curproc a s) (\<lambda>(p, s).
       rbind (trap_killed ops a p (s, w)) (\<lambda>(e, s, w).
       if e = TrapExit then Ok (e, s, w)
       else rbind (t_syscall t (upd_proc p (\<lambda>x. x\<lparr>p_tf := tf\<rparr>) s, w)) (\<lambda>(s, w).
         rbind (curproc a s) (\<lambda>(p, s). trap_killed ops a p (s, w)))))
     else trap_intr ops t a tf (s, w))"


subsection \<open>One tick\<close>

text \<open>The state in which the timer interrupt of CPU 0 finds the kernel when it can run at once.\<close>

definition tick_ready :: "u8 \<Rightarrow> kst \<Rightarrow> bool" where
  "tick_ready a s \<longleftrightarrow> tinv s \<and> pinv s \<and> cpu_wf a (mach s) \<and> \<not> eflags_if (mach s) a \<and> ci a (mach s) = 0
     \<and> locked (tickslock s) = 0 \<and> locked (ptlock s) = 0"

definition tick_wake :: "proc \<Rightarrow> proc" where
  "tick_wake x = (if sleeping_on (Some TicksChan) x then x\<lparr>p_state := RUNNABLE\<rparr> else x)"

definition ticked :: "proc \<Rightarrow> proc" where
  "ticked x = tick_wake (aged (tick_proc x))"

lemma locked_section:
  assumes "idle_lock a s" and "frame s' = frame (acq a s)" and "0 < depth a (mach s)"
  shows "mach (rel a s') = mach s" "tickslock (rel a s') = tickslock s" "ticks (rel a s') = ticks s"
    "ptlock (rel a s') = unlocked (ptlock (acq a s))"
  using frameD [OF assms(2)] assms(1,3) by (simp_all add: idle_lock_def) (simp add: rel_def unlocked_def)

lemma idle_lock_keep:
  assumes "idle_lock a s" and "mach s' = mach s" and "locked (ptlock s') = 0"
  shows "idle_lock a s'"
  using assms by (simp add: idle_lock_def)

lemma timer_Ok:
  assumes r: "tick_ready a s"
  obtains s' where "timer_intr a s = Ok s'" "tick_ready a s'" "ticks s' = ticks s + 1"
    "\<And>p. p < NPROC \<Longrightarrow> P s' p = ticked (P s p)" "mach s' = sync a (mach s)"
proof -
  have t: "tinv s" "pinv s" and wf: "cpu_wf a (mach s)" "\<not> eflags_if (mach s) a" "ci a (mach s) = 0"
    "find_apic (cpus (mach s)) 0 a \<noteq> None" and lk: "locked (tickslock s) = 0" "locked (ptlock s) = 0"
    using r by (auto simp: tick_ready_def cpu_wf_def)
  define l where "l = (tickslock s)\<lparr>locked := 1, lk_cpu := Some (ci a (mach s)), pcs := getcallerpcs (kmem (mach s)) (arg0 (mach s) a)\<rparr>"
  define s0 where "s0 = s\<lparr>tickslock := l, mach := push_m a (mach s), ticks := ticks s + 1\<rparr>"
  have ta: "tick_acquire a s = Ok (s\<lparr>tickslock := l, mach := push_m a (mach s)\<rparr>)"
    using acquire_free [OF wf(1) lk(1)] by (simp add: tick_acquire_def l_def)
  have d0: "0 < depth a (mach s0)" using wf(1,4) by (simp add: s0_def cpu_wf_def)
  have i0: "idle_lock a s0" using wf(1) lk(2) by (simp add: idle_lock_def s0_def)
  have t0: "tinv s0" "pinv s0" "procs s0 = procs s" using t by (simp_all add: tinv_def pinv_def s0_def)
  have len: "length (procs s) = NPROC" by (rule tinvD(1) [OF t(1)])
  let ?u = "(acq a s0)\<lparr>procs := map tick_proc (procs s0)\<rparr>"
  define s1 where "s1 = rel a ?u"
  have u1: "updateClock a s0 = Ok s1" using updateClock_Ok(1) [OF i0] by (simp add: s1_def)
  have f1: "frame ?u = frame (acq a s0)" by simp
  note m1 = locked_section [OF i0 f1 d0, folded s1_def]
  have t1: "tinv s1" "pinv s1" "procs s1 = map tick_proc (procs s)"
    using tinv_map [of "acq a s0" tick_proc] pinv_map [of "acq a s0" tick_proc] t0 len by (simp_all add: s1_def)
  have i1: "idle_lock a s1" by (rule idle_lock_keep [OF i0 m1(1)]) (simp add: m1(4) unlocked_def)
  obtain s2' where s2': "upgradePriority_Aging a s1 = Ok (rel a s2')" "tinv s2'" "pinv s2'" "frame s2' = frame (acq a s1)"
    "\<And>p. p < NPROC \<Longrightarrow> P s2' p = aged (P s1 p)" using upgrade_Ok [OF t1(1,2) i1] by metis
  define s2 where "s2 = rel a s2'"
  have d1: "0 < depth a (mach s1)" using d0 m1(1) by simp
  note m2 = locked_section [OF i1 s2'(4) d1, folded s2_def]
  have i2: "idle_lock a s2" by (rule idle_lock_keep [OF i1 m2(1)]) (simp add: m2(4) unlocked_def)
  have t2: "tinv s2" using s2'(2) by (simp add: s2_def)
  obtain s3' where s3': "wakeup a (Some TicksChan) s2 = Ok (rel a s3')" "tinv s3'" "woke (Some TicksChan) [0..<NPROC] (acq a s2) s3'"
    "held a s3'" using wakeup_Ok [OF t2 i2] .
  define s3 where "s3 = rel a s3'"
  have d2: "0 < depth a (mach s2)" using d1 m2(1) by simp
  note m3 = locked_section [OF i2 wokeD(1) [OF s3'(3)] d2, folded s3_def]
  have p3: "pinv s3" using pinv_woke [OF _ s3'(3)] s2'(3) by (simp add: s3_def s2_def)
  have e3: "mach s3 = mach s0" "tickslock s3 = l" "ticks s3 = ticks s + 1"
    using m1 m2 m3 by (simp_all add: s0_def)
  have tr: "tick_release a s3 = Ok (s3\<lparr>tickslock := unlocked l, mach := pop_m a (mach s0)\<rparr>)"
    using release_held [of a "mach s0" l] i0 d0 e3 by (simp add: tick_release_def idle_lock_def unlocked_def l_def s0_def)
  define s' where "s' = s3\<lparr>tickslock := unlocked l, mach := pop_m a (mach s0)\<rparr>"
  have ms: "mach s' = sync a (mach s)" using wf(1) by (simp add: s'_def s0_def)
  have "timer_intr a s = Ok s'"
    using wf(2-4) ta u1 s2'(1) s3'(1) tr
    by (simp add: timer_intr_def cpuid_def mycpu_Ok s0_def s'_def s2_def [symmetric] s3_def [symmetric])
  moreover have "tick_ready a s'"
    using s3'(2) p3 ms wf m3(4) by (simp add: tick_ready_def s'_def tinv_def pinv_def unlocked_def s3_def)
  moreover have "P s' p = ticked (P s p)" if "p < NPROC" for p
    using wokeD(3) [OF s3'(3) that] s2'(5) [OF that] t1(3) that len
    by (simp add: s'_def s3_def s2_def ticked_def tick_wake_def)
  ultimately show thesis using ms e3(3) by (intro that [of s']) (simp_all add: s'_def)
qed

text \<open>
  The timer interrupt of CPU 0: with the two locks free it completes, advances \<^verbatim>\<open>ticks\<close> by
  one (modulo 2 to the 32), charges every process one tick in the counter of its state, promotes
  exactly the ready processes that have waited for their level's threshold, and then wakes the
  processes that sleep on \<^verbatim>\<open>ticks\<close>; both locks are free again and the invariants hold.
\<close>
theorem timer_tick_effect:
  assumes "tick_ready a s"
  shows "\<exists>s'. timer_intr a s = Ok s' \<and> tick_ready a s' \<and> ticks s' = ticks s + 1
    \<and> (\<forall>p < NPROC. P s' p = tick_wake (aged (tick_proc (P s p))))"
  using timer_Ok [OF assms] by (metis ticked_def)

definition demo_tick :: kst where
  "demo_tick = demo\<lparr>mach := cli 0 demo_machine\<rparr>"

lemma demo_tick_ready: "tick_ready 0 demo_tick"
  using demo_inv(1,2)
  by (simp add: tick_ready_def demo_tick_def) (simp add: demo_def demo_machine_def cli_def cpu_wf_def depth_def ci_def free_lock_def)

theorem timer_tick_effect_witness:
  "\<exists>s'. timer_intr 0 demo_tick = Ok s' \<and> p_state (P s' 1) = RUNNABLE \<and> p_stime (P s' 1) = 1 \<and> p_rutime (P s' 0) = 1"
proof -
  have n: "0 < NPROC" "1 < NPROC" by (simp_all add: NPROC_def)
  have p: "P demo_tick 0 = demo_running" "P demo_tick 1 = demo_sleeper" using demo_procs(2,3) by (simp_all add: demo_tick_def)
  have f: "p_stime demo_sleeper = 0" "p_rutime demo_running = 0" by (simp_all add: demo_sleeper_def demo_running_def unused_proc_def)
  from timer_tick_effect [OF demo_tick_ready] obtain s' where s': "timer_intr 0 demo_tick = Ok s'"
    "\<forall>p < NPROC. P s' p = tick_wake (aged (tick_proc (P demo_tick p)))" by blast
  then show ?thesis using n p f by (auto simp: tick_wake_def aged_def due_def tick_proc_def sleeping_on_def demo_fields)
qed

subsection \<open>No starvation\<close>

text \<open>
  A process \<open>p\<close> that waits: \<open>n\<close> timer ticks, interleaved with any other steps that keep the
  invariants and do not dispatch, move or otherwise touch the scheduling state of \<open>p\<close>.
\<close>

definition same_wait :: "proc \<Rightarrow> proc \<Rightarrow> bool" where
  "same_wait x y \<longleftrightarrow> p_state y = p_state x \<and> p_priority y = p_priority x \<and> p_readyTimeAging y = p_readyTimeAging x"

inductive waits :: "u8 \<Rightarrow> nat \<Rightarrow> kst \<Rightarrow> nat \<Rightarrow> kst \<Rightarrow> bool" for a p s where
  waits_start: "waits a p s 0 s"
| waits_tick: "waits a p s n s1 \<Longrightarrow> timer_intr a s1 = Ok s2 \<Longrightarrow> waits a p s (Suc n) s2"
| waits_other: "waits a p s n s1 \<Longrightarrow> tick_ready a s2 \<Longrightarrow> same_wait (P s1 p) (P s2 p) \<Longrightarrow> waits a p s n s2"

text \<open>An upper bound of the ticks a ready process still waits before it is at the highest level.\<close>

definition left :: "proc \<Rightarrow> int" where
  "left x = (if p_priority x = 3 then 0 else max 1 (threshold (p_priority x) - p_readyTimeAging x)
     + (if p_priority x = 0 then AGE_2TO3 + AGE_3TO4 else if p_priority x = 1 then AGE_3TO4 else 0))"

definition waiting :: "proc \<Rightarrow> bool" where
  "waiting x \<longleftrightarrow> p_state x = RUNNABLE \<and> is_queue (p_priority x) \<and> 0 \<le> p_readyTimeAging x"

lemma level_cases: "is_queue q \<Longrightarrow> q = 0 \<or> q = 1 \<or> q = 2 \<or> q = 3"
  by (auto simp: is_queue_def NUMFILAS_def)

lemma ticked_left:
  assumes "waiting x"
  shows "waiting (ticked x)" "left (ticked x) \<le> max 0 (left x - 1)"
proof -
  have r: "p_state x = RUNNABLE" "is_queue (p_priority x)" "0 \<le> p_readyTimeAging x" using assms by (auto simp: waiting_def)
  have e: "ticked x = aged (tick_proc x)"
    using r(1) by (simp add: ticked_def tick_wake_def sleeping_on_def aged_def promoted_def)
  note d = due_def aged_def promoted_def tick_proc_def AGE_1TO2_def AGE_2TO3_def AGE_3TO4_def
  from level_cases [OF r(2)] show "waiting (ticked x)"
    using r by (elim disjE) (auto simp: waiting_def e d is_queue_def NUMFILAS_def)
  from level_cases [OF r(2)] show "left (ticked x) \<le> max 0 (left x - 1)"
    using r by (elim disjE) (auto simp: left_def threshold_def e d)
qed

lemma waits_left:
  assumes "waits a p s n s'" and "tick_ready a s" and "p < NPROC" and "waiting (P s p)"
  shows "tick_ready a s' \<and> waiting (P s' p) \<and> left (P s' p) \<le> max 0 (left (P s p) - int n)"
  using assms(1)
proof (induction)
  case waits_start
  have "0 \<le> left (P s p)" by (simp add: left_def AGE_2TO3_def AGE_3TO4_def)
  then show ?case using assms by simp
next
  case (waits_tick n s1 s2)
  then have r: "tick_ready a s1" and w: "waiting (P s1 p)" "left (P s1 p) \<le> max 0 (left (P s p) - int n)" by simp_all
  obtain s3 where "timer_intr a s1 = Ok s3" "tick_ready a s3" "\<And>p. p < NPROC \<Longrightarrow> P s3 p = ticked (P s1 p)"
    using timer_Ok [OF r] by metis
  then have "tick_ready a s2" "P s2 p = ticked (P s1 p)" using waits_tick.hyps(2) assms(3) by simp_all
  then show ?case using ticked_left [OF w(1)] w(2) by auto
next
  case (waits_other n s1 s2)
  then have "waiting (P s2 p) = waiting (P s1 p)" "left (P s2 p) = left (P s1 p)"
    by (simp_all add: waiting_def left_def same_wait_def)
  with waits_other show ?case by simp
qed


lemma waits_ticks:
  assumes "tick_ready a s"
  shows "\<exists>s'. waits a p s n s' \<and> tick_ready a s'"
proof (induction n)
  case 0
  then show ?case using assms waits_start by blast
next
  case (Suc n)
  then obtain s1 where "waits a p s n s1" "tick_ready a s1" by blast
  then show ?case using timer_Ok [of a s1] waits_tick by metis
qed

text \<open>Process 1 ready at level 0, process 0 running.\<close>

definition demo_old :: kst where
  "demo_old = demo_tick\<lparr>procs := (procs demo)[1 := demo_sleeper\<lparr>p_state := RUNNABLE\<rparr>], rq := list_rq 0 [1]\<rparr>"

lemma demo_old_states:
  "p < NPROC \<Longrightarrow> P demo_old p = (if p = 0 then demo_running
     else if p = 1 then demo_sleeper\<lparr>p_state := RUNNABLE\<rparr> else unused_proc)"
  using demo_states [of p] demo_procs(1) by (auto simp: demo_old_def nth_upd)

lemma demo_old_ready: "tick_ready 0 demo_old"
proof -
  have n: "1 < NPROC" "0 < NUMFILAS" by (simp_all add: NPROC_def NUMFILAS_def)
  have l: "length (procs demo_old) = NPROC" "rq demo_old = list_rq 0 [1]"
    using demo_procs(1) by (simp_all add: demo_old_def)
  have "tinv demo_old"
    using l n qlist_list [OF n(2)] list_rq_wf [OF n(2), of "[1]"]
    by (auto simp: tinv_def demo_old_states demo_fields live_def is_queue_def NUMFILAS_def split: if_splits)
  moreover have "nextpid demo_old = 3" by (simp add: demo_old_def demo_tick_def demo_def)
  then have "pinv demo_old" by (auto simp: pinv_def demo_old_states demo_fields)
  ultimately show ?thesis using demo_tick_ready by (simp add: tick_ready_def demo_old_def)
qed



subsection \<open>The quantum of level 1\<close>

text \<open>\<open>n\<close> ticks pass while \<open>p\<close> runs, interleaved with steps that leave its scheduling state alone.\<close>

definition same_run :: "proc \<Rightarrow> proc \<Rightarrow> bool" where
  "same_run x y \<longleftrightarrow> p_state y = p_state x \<and> p_priority y = p_priority x \<and> p_clock y = p_clock x"

inductive runs :: "u8 \<Rightarrow> nat \<Rightarrow> kst \<Rightarrow> nat \<Rightarrow> kst \<Rightarrow> bool" for a p s where
  runs_start: "runs a p s 0 s"
| runs_tick: "runs a p s n s1 \<Longrightarrow> timer_intr a s1 = Ok s2 \<Longrightarrow> runs a p s (Suc n) s2"
| runs_other: "runs a p s n s1 \<Longrightarrow> tick_ready a s2 \<Longrightarrow> same_run (P s1 p) (P s2 p) \<Longrightarrow> runs a p s n s2"

lemma ticked_running:
  "p_state x = RUNNING \<Longrightarrow> p_state (ticked x) = RUNNING \<and> p_priority (ticked x) = p_priority x \<and> p_clock (ticked x) = p_clock x + 1"
  by (simp add: ticked_def tick_wake_def sleeping_on_def aged_def due_def tick_proc_def)

lemma runs_clock:
  assumes "runs a p s n s'" and "tick_ready a s" and "p < NPROC" and "p_state (P s p) = RUNNING"
  shows "tick_ready a s' \<and> p_state (P s' p) = RUNNING \<and> p_priority (P s' p) = p_priority (P s p)
    \<and> p_clock (P s' p) = p_clock (P s p) + int n"
  using assms(1)
proof (induction)
  case runs_start
  then show ?case using assms by simp
next
  case (runs_tick n s1 s2)
  then have r: "tick_ready a s1" by simp
  obtain s3 where "timer_intr a s1 = Ok s3" "tick_ready a s3" "\<And>p. p < NPROC \<Longrightarrow> P s3 p = ticked (P s1 p)"
    using timer_Ok [OF r] by metis
  then have "tick_ready a s2" "P s2 p = ticked (P s1 p)" using runs_tick.hyps(2) assms(3) by simp_all
  then show ?case using ticked_running [of "P s1 p"] runs_tick.IH by auto
next
  case (runs_other n s1 s2)
  then show ?case by (simp add: same_run_def)
qed


lemma runs_ticks:
  assumes "tick_ready a s"
  shows "\<exists>s'. runs a p s n s' \<and> tick_ready a s'"
proof (induction n)
  case 0
  then show ?case using assms runs_start by blast
next
  case (Suc n)
  then obtain s1 where "runs a p s n s1" "tick_ready a s1" by blast
  then show ?case using timer_Ok [of a s1] runs_tick by metis
qed


end
