(* ===== verification/Sysproc.thy ===== *)
theory Sysproc
  imports Syscall Trap
begin

section \<open>Process system calls (\<^verbatim>\<open>sysproc.c\<close>)\<close>

text \<open>
  Each routine fetches its arguments from the user stack of the calling process and calls the
  routine of \<^verbatim>\<open>proc.c\<close>. A call that gives up the CPU returns \<open>Slept\<close>, with the state as it is at
  the switch; \<^verbatim>\<open>sys_sleep\<close> has a part for what happens after each wakeup.
\<close>

definition sys_fork :: "'w kops \<Rightarrow> u8 \<Rightarrow> kst \<times> 'w \<Rightarrow> (int \<times> kst \<times> 'w) res" where
  "sys_fork ops a sw = fork ops a sw"

definition sys_exit :: "'w kops \<Rightarrow> u8 \<Rightarrow> kst \<times> 'w \<Rightarrow> (kst \<times> 'w) res" where
  "sys_exit ops a sw = exit_out ops a sw"

definition sys_wait :: "'w kops \<Rightarrow> u8 \<Rightarrow> kst \<times> 'w \<Rightarrow> (int wait_result \<times> kst \<times> 'w) res" where
  "sys_wait ops a sw = wait ops a sw"

definition sys_kill :: "u8 \<Rightarrow> mem \<Rightarrow> kst \<Rightarrow> (int \<times> kst) res" where
  "sys_kill a um s =
     rbind (curproc a s) (\<lambda>(p, s).
     case argint (P s p) um 0 of
       None \<Rightarrow> Ok (- 1, s)
     | Some pid \<Rightarrow> kill a pid s)"

definition sys_getpid :: "u8 \<Rightarrow> kst \<Rightarrow> (int \<times> kst) res" where
  "sys_getpid a s = rbind (curproc a s) (\<lambda>(p, s). Ok (p_pid (P s p), s))"

definition sys_sbrk :: "'w kops \<Rightarrow> u8 \<Rightarrow> mem \<Rightarrow> kst \<times> 'w \<Rightarrow> (int \<times> kst \<times> 'w) res" where
  "sys_sbrk ops a um = (\<lambda>(s, w).
     rbind (curproc a s) (\<lambda>(p, s).
     case argint (P s p) um 0 of
       None \<Rightarrow> Ok (- 1, s, w)
     | Some n \<Rightarrow>
         let addr = sint (p_sz (P s p)) in
         rbind (growproc ops a n (s, w)) (\<lambda>(r, s, w).
         if r < 0 then Ok (- 1, s, w) else Ok (addr, s, w))))"

text \<open>The test of the loop of \<^verbatim>\<open>sys_sleep\<close>, with \<^verbatim>\<open>tickslock\<close> held. The comparison is unsigned.\<close>

definition sleep_test :: "u8 \<Rightarrow> nat \<Rightarrow> int \<Rightarrow> u32 \<Rightarrow> kst \<Rightarrow> (int wait_result \<times> kst) res" where
  "sleep_test a p n ticks0 s =
     (if ticks s - ticks0 < of_int n then
        if p_killed (P s p) then rbind (tick_release a s) (\<lambda>s. Ok (Returned (- 1), s))
        else
          rbind (sleep_out a (Some TicksChan) (OtherLock (tickslock s)) s) (\<lambda>(lk, s).
          case lk of OtherLock l \<Rightarrow> Ok (Slept, s\<lparr>tickslock := l\<rparr>) | _ \<Rightarrow> Fault)
      else rbind (tick_release a s) (\<lambda>s. Ok (Returned 0, s)))"

definition sys_sleep :: "u8 \<Rightarrow> mem \<Rightarrow> kst \<Rightarrow> (int wait_result \<times> kst) res" where
  "sys_sleep a um s =
     rbind (curproc a s) (\<lambda>(p, s).
     case argint (P s p) um 0 of
       None \<Rightarrow> Ok (Returned (- 1), s)
     | Some n \<Rightarrow> rbind (tick_acquire a s) (\<lambda>s. sleep_test a p n (ticks s) s))"

definition sys_sleep_again :: "u8 \<Rightarrow> nat \<Rightarrow> bool \<Rightarrow> int \<Rightarrow> u32 \<Rightarrow> kst \<Rightarrow> (int wait_result \<times> kst) res" where
  "sys_sleep_again a p ena n ticks0 s =
     rbind (sleep_in a p ena (OtherLock (tickslock s)) s) (\<lambda>(lk, s).
     case lk of OtherLock l \<Rightarrow> sleep_test a p n ticks0 (s\<lparr>tickslock := l\<rparr>) | _ \<Rightarrow> Fault)"

definition sys_uptime :: "u8 \<Rightarrow> kst \<Rightarrow> (int \<times> kst) res" where
  "sys_uptime a s =
     rbind (tick_acquire a s) (\<lambda>s.
     let xticks = ticks s in
     rbind (tick_release a s) (\<lambda>s. Ok (sint xticks, s)))"

text \<open>\<^verbatim>\<open>sys_wait2\<close> checks its three pointers before it waits; \<^verbatim>\<open>wait2\<close> stores the times through them.\<close>

definition sys_wait2 :: "'w kops \<Rightarrow> u8 \<Rightarrow> mem \<Rightarrow> kst \<times> 'w \<Rightarrow>
    ((u32 \<times> u32 \<times> u32) option \<times> wait2_out option wait_result \<times> kst \<times> 'w) res" where
  "sys_wait2 ops a um = (\<lambda>(s, w).
     rbind (curproc a s) (\<lambda>(p, s).
     case argptr (P s p) um 0 4 of None \<Rightarrow> Ok (None, Returned None, s, w) | Some retime \<Rightarrow>
     case argptr (P s p) um 1 4 of None \<Rightarrow> Ok (None, Returned None, s, w) | Some rutime \<Rightarrow>
     case argptr (P s p) um 2 4 of None \<Rightarrow> Ok (None, Returned None, s, w) | Some stime \<Rightarrow>
     rbind (wait2 ops a (s, w)) (\<lambda>(r, s, w). Ok (Some (retime, rutime, stime), r, s, w))))"

definition sys_yield_out :: "u8 \<Rightarrow> kst \<Rightarrow> kst res" where
  "sys_yield_out a s = yield_out a s"

definition sys_yield_in :: "u8 \<Rightarrow> bool \<Rightarrow> kst \<Rightarrow> (int \<times> kst) res" where
  "sys_yield_in a ena s = rbind (yield_in a ena s) (\<lambda>s. Ok (0, s))"

definition sys_change_prio :: "u8 \<Rightarrow> mem \<Rightarrow> kst \<Rightarrow> (int option \<times> kst) res" where
  "sys_change_prio a um s =
     rbind (curproc a s) (\<lambda>(p, s).
     case argint (P s p) um 0 of
       None \<Rightarrow> Ok (Some (- 1), s)
     | Some new_priority \<Rightarrow> change_prio_out a new_priority s)"

end
