(* ===== verification/Bio.thy ===== *)
theory Bio
  imports Sleeplock
begin

section \<open>The buffer cache (\<^verbatim>\<open>bio.c\<close>) over the memory disk (\<^verbatim>\<open>memide.c\<close>)\<close>

text \<open>
  The cache is the array of \<open>NBUF\<close> buffers followed by the list head (index \<open>NBUF\<close>), linked
  through \<^verbatim>\<open>prev\<close> and \<^verbatim>\<open>next\<close> as in the code. A walk along the links that never meets the head
  again is \<open>Blocked\<close>: the walker has one unit of fuel per buffer and one for the head, and
  \<open>walk_chain\<close> shows that this is enough on a well-formed list.
  The disk is a function from block numbers to the \<open>BSIZE\<close> bytes of a block; \<open>dwrites\<close> records
  the blocks written to it in order, so that a crash between two writes can be described.
\<close>

unbundle bit_operations_syntax

definition BSIZE :: nat where "BSIZE = 512"
definition B_VALID :: u32 where "B_VALID = 2"
definition B_DIRTY :: u32 where "B_DIRTY = 4"

type_synonym block = "u8 list"

record buf =
  b_flags :: u32
  b_dev :: u32
  b_blockno :: u32
  b_lock :: sleeplock
  b_refcnt :: u32
  b_prev :: nat
  b_next :: nat
  b_data :: block

record bst =
  bc_lock :: bool
  bufs :: "buf list"
  memdisk :: "u32 \<Rightarrow> block"
  disksize :: u32
  dwrites :: "(u32 \<times> block) list"
  cur_pid :: int
  woken :: "wchan list"

abbreviation buf_at :: "bst \<Rightarrow> nat \<Rightarrow> buf" where
  "buf_at s i \<equiv> bufs s ! i"

definition upd_buf :: "nat \<Rightarrow> (buf \<Rightarrow> buf) \<Rightarrow> bst \<Rightarrow> bst" where
  "upd_buf i f s = s\<lparr>bufs := (bufs s)[i := f (bufs s ! i)]\<rparr>"

definition bc_acquire :: "bst \<Rightarrow> bst res" where
  "bc_acquire s = rbind (lk_acquire (bc_lock s)) (\<lambda>l. Ok (s\<lparr>bc_lock := l\<rparr>))"

definition bc_release :: "bst \<Rightarrow> bst res" where
  "bc_release s = rbind (lk_release (bc_lock s)) (\<lambda>l. Ok (s\<lparr>bc_lock := l\<rparr>))"

subsection \<open>Initialisation\<close>

definition binit_buf :: "nat \<Rightarrow> bst \<Rightarrow> bst" where
  "binit_buf b s =
    (let s = upd_buf b (\<lambda>x. x\<lparr>b_next := b_next (buf_at s NBUF)\<rparr>) s;
         s = upd_buf b (\<lambda>x. x\<lparr>b_prev := NBUF\<rparr>) s;
         s = upd_buf b (\<lambda>x. x\<lparr>b_lock := initsleeplock ''buffer''\<rparr>) s;
         s = upd_buf (b_next (buf_at s NBUF)) (\<lambda>x. x\<lparr>b_prev := b\<rparr>) s
     in upd_buf NBUF (\<lambda>x. x\<lparr>b_next := b\<rparr>) s)"

definition binit :: "bst \<Rightarrow> bst" where
  "binit s =
    (let s = s\<lparr>bc_lock := False\<rparr>;
         s = upd_buf NBUF (\<lambda>x. x\<lparr>b_prev := NBUF\<rparr>) s;
         s = upd_buf NBUF (\<lambda>x. x\<lparr>b_next := NBUF\<rparr>) s
     in fold binit_buf [0..<NBUF] s)"

subsection \<open>The disk driver\<close>

definition holds_buf :: "nat \<Rightarrow> bst \<Rightarrow> (bool \<times> bst) res" where
  "holds_buf b s =
     rbind (holdingsleep (cur_pid s) (b_lock (buf_at s b))) (\<lambda>(r, lk).
     Ok (r, upd_buf b (\<lambda>x. x\<lparr>b_lock := lk\<rparr>) s))"

definition iderw :: "nat \<Rightarrow> bst \<Rightarrow> bst res" where
  "iderw b s =
     rbind (holds_buf b s) (\<lambda>(h, s).
     if \<not> h then Panic ''iderw: buf not locked''
     else if b_flags (buf_at s b) AND (B_VALID OR B_DIRTY) = B_VALID then Panic ''iderw: nothing to do''
     else if b_dev (buf_at s b) \<noteq> 1 then Panic ''iderw: request not for disk 1''
     else if b_blockno (buf_at s b) \<ge> disksize s then Panic ''iderw: block out of range''
     else
       let p = b_blockno (buf_at s b);
           s = (if b_flags (buf_at s b) AND B_DIRTY \<noteq> 0 then
                  let s = upd_buf b (\<lambda>x. x\<lparr>b_flags := b_flags x AND NOT B_DIRTY\<rparr>) s
                  in s\<lparr>memdisk := (memdisk s)(p := b_data (buf_at s b)), dwrites := dwrites s @ [(p, b_data (buf_at s b))]\<rparr>
                else upd_buf b (\<lambda>x. x\<lparr>b_data := memdisk s p\<rparr>) s)
       in Ok (upd_buf b (\<lambda>x. x\<lparr>b_flags := b_flags x OR B_VALID\<rparr>) s))"

subsection \<open>The operations of the cache\<close>

fun walk :: "nat \<Rightarrow> (nat \<Rightarrow> nat) \<Rightarrow> nat \<Rightarrow> nat \<Rightarrow> (nat \<Rightarrow> bool) \<Rightarrow> nat option res" where
  "walk 0 nx h b Q = Blocked"
| "walk (Suc k) nx h b Q =
     (if b = h then Ok None else if Q b then Ok (Some b) else walk k nx h (nx b) Q)"

definition lock_buf :: "nat \<Rightarrow> bst \<Rightarrow> bst res" where
  "lock_buf b s =
     rbind (acquiresleep (cur_pid s) (b_lock (buf_at s b))) (\<lambda>lk.
     Ok (upd_buf b (\<lambda>x. x\<lparr>b_lock := lk\<rparr>) s))"

definition bget :: "u32 \<Rightarrow> u32 \<Rightarrow> bst \<Rightarrow> (nat \<times> bst) res" where
  "bget dev blockno s =
     rbind (bc_acquire s) (\<lambda>s.
     rbind (walk (Suc NBUF) (\<lambda>b. b_next (buf_at s b)) NBUF (b_next (buf_at s NBUF))
              (\<lambda>b. b_dev (buf_at s b) = dev \<and> b_blockno (buf_at s b) = blockno)) (\<lambda>r.
     case r of
       Some b \<Rightarrow>
         let s = upd_buf b (\<lambda>x. x\<lparr>b_refcnt := b_refcnt x + 1\<rparr>) s in
         rbind (bc_release s) (\<lambda>s. rbind (lock_buf b s) (\<lambda>s. Ok (b, s)))
     | None \<Rightarrow>
         rbind (walk (Suc NBUF) (\<lambda>b. b_prev (buf_at s b)) NBUF (b_prev (buf_at s NBUF))
                  (\<lambda>b. b_refcnt (buf_at s b) = 0 \<and> b_flags (buf_at s b) AND B_DIRTY = 0)) (\<lambda>r.
         case r of
           Some b \<Rightarrow>
             let s = upd_buf b (\<lambda>x. x\<lparr>b_dev := dev, b_blockno := blockno, b_flags := 0, b_refcnt := 1\<rparr>) s in
             rbind (bc_release s) (\<lambda>s. rbind (lock_buf b s) (\<lambda>s. Ok (b, s)))
         | None \<Rightarrow> Panic ''bget: no buffers'')))"

definition bread :: "u32 \<Rightarrow> u32 \<Rightarrow> bst \<Rightarrow> (nat \<times> bst) res" where
  "bread dev blockno s =
     rbind (bget dev blockno s) (\<lambda>(b, s).
     if b_flags (buf_at s b) AND B_VALID = 0 then rbind (iderw b s) (\<lambda>s. Ok (b, s)) else Ok (b, s))"

definition bwrite :: "nat \<Rightarrow> bst \<Rightarrow> bst res" where
  "bwrite b s =
     rbind (holds_buf b s) (\<lambda>(h, s).
     if \<not> h then Panic ''bwrite''
     else iderw b (upd_buf b (\<lambda>x. x\<lparr>b_flags := b_flags x OR B_DIRTY\<rparr>) s))"

definition to_front :: "nat \<Rightarrow> bst \<Rightarrow> bst" where
  "to_front b s =
    (let s = upd_buf (b_next (buf_at s b)) (\<lambda>x. x\<lparr>b_prev := b_prev (buf_at s b)\<rparr>) s;
         s = upd_buf (b_prev (buf_at s b)) (\<lambda>x. x\<lparr>b_next := b_next (buf_at s b)\<rparr>) s;
         s = upd_buf b (\<lambda>x. x\<lparr>b_next := b_next (buf_at s NBUF)\<rparr>) s;
         s = upd_buf b (\<lambda>x. x\<lparr>b_prev := NBUF\<rparr>) s;
         s = upd_buf (b_next (buf_at s NBUF)) (\<lambda>x. x\<lparr>b_prev := b\<rparr>) s
     in upd_buf NBUF (\<lambda>x. x\<lparr>b_next := b\<rparr>) s)"

definition brelse :: "nat \<Rightarrow> bst \<Rightarrow> bst res" where
  "brelse b s =
     rbind (holds_buf b s) (\<lambda>(h, s).
     if \<not> h then Panic ''brelse''
     else
       rbind (releasesleep (BufChan b) (b_lock (buf_at s b)) (woken s)) (\<lambda>(lk, w).
       let s = (upd_buf b (\<lambda>x. x\<lparr>b_lock := lk\<rparr>) s)\<lparr>woken := w\<rparr> in
       rbind (bc_acquire s) (\<lambda>s.
       let s = upd_buf b (\<lambda>x. x\<lparr>b_refcnt := b_refcnt x - 1\<rparr>) s;
           s = (if b_refcnt (buf_at s b) = 0 then to_front b s else s)
       in bc_release s)))"

definition set_data :: "nat \<Rightarrow> block \<Rightarrow> bst \<Rightarrow> bst" where
  "set_data b d s = upd_buf b (\<lambda>x. x\<lparr>b_data := d\<rparr>) s"

definition pin :: "nat \<Rightarrow> bst \<Rightarrow> bst" where
  "pin b s = upd_buf b (\<lambda>x. x\<lparr>b_flags := b_flags x OR B_DIRTY\<rparr>) s"

subsection \<open>The doubly linked list\<close>

fun chain :: "(nat \<Rightarrow> nat) \<Rightarrow> nat \<Rightarrow> nat list \<Rightarrow> nat \<Rightarrow> bool" where
  "chain nx a [] z \<longleftrightarrow> nx a = z"
| "chain nx a (b # bs) z \<longleftrightarrow> nx a = b \<and> chain nx b bs z"

definition linked :: "bst \<Rightarrow> nat list \<Rightarrow> bool" where
  "linked s l \<longleftrightarrow> chain (\<lambda>i. b_next (buf_at s i)) NBUF l NBUF \<and> chain (\<lambda>i. b_prev (buf_at s i)) NBUF (rev l) NBUF"

lemma walk_chain:
  "chain nx a l h \<Longrightarrow> h \<notin> set l \<Longrightarrow> length l < k \<Longrightarrow> walk k nx h (nx a) Q = Ok (find Q l)"
proof (induction l arbitrary: a k)
  case Nil
  then show ?case by (cases k) auto
next
  case (Cons b l)
  then show ?case by (cases k) auto
qed

declare walk.simps [simp del]

lemma chain_append: "chain nx a (xs @ b # ys) z \<longleftrightarrow> chain nx a xs b \<and> chain nx b ys z"
  by (induction xs arbitrary: a) auto

lemma chain_cong: "chain nx a l z \<Longrightarrow> nx' a = nx a \<Longrightarrow> (\<And>i. i \<in> set l \<Longrightarrow> nx' i = nx i) \<Longrightarrow> chain nx' a l z"
  by (induction l arbitrary: a) auto

lemma chain_upd_out: "x \<notin> set (a # l) \<Longrightarrow> chain (f(x := y)) a l z \<longleftrightarrow> chain f a l z"
  by (induction l arbitrary: a) auto

lemma chain_upd_last: "chain f a l z \<Longrightarrow> distinct (a # l) \<Longrightarrow> chain (f(last (a # l) := y)) a l y"
  by (induction l arbitrary: a) auto

lemma chain_hd: "chain f a l z \<Longrightarrow> f a = hd (l @ [z])"
  by (cases l) auto

lemma chain_unlink:
  assumes "chain f h (xs @ b # ys) h" and "distinct (h # xs @ b # ys)"
  shows "chain (f(last (h # xs) := f b)) h (xs @ ys) h"
proof -
  let ?g = "f(last (h # xs) := f b)"
  have c: "chain f h xs b" "chain f b ys h" using assms(1) by (simp_all add: chain_append)
  have 1: "chain ?g h xs (f b)" using c(1) assms(2) by (intro chain_upd_last) auto
  show ?thesis
  proof (cases ys)
    case Nil
    then show ?thesis using 1 c(2) by simp
  next
    case (Cons y ys')
    have "last (h # xs) \<in> set (h # xs)" by (rule last_in_set) simp
    then have "last (h # xs) \<notin> set (y # ys')" using assms(2) Cons by auto
    then have "chain ?g y ys' h" using c(2) Cons by (simp add: chain_upd_out del: last.simps)
    then show ?thesis using 1 c(2) Cons by (simp add: chain_append del: last.simps)
  qed
qed

lemma chain_push:
  assumes "chain f h l h" and "distinct (b # h # l)"
  shows "chain (f(b := f h, h := b)) h (b # l) h"
  using assms by (cases l) (auto simp: chain_upd_out fun_upd_twist)

lemma chain_snoc:
  assumes "chain f h l h" and "distinct (b # h # l)"
  shows "chain (f(b := h, last (h # l) := b)) h (l @ [b]) h"
proof -
  have "last (h # l) \<in> set (h # l)" by (rule last_in_set) simp
  then have n: "last (h # l) \<noteq> b" using assms(2) by auto
  have "chain (f(b := h)) h l h" using assms by (simp add: chain_upd_out)
  then have "chain (f(b := h, last (h # l) := b)) h l b"
    using assms(2) by (intro chain_upd_last) auto
  then show ?thesis using n by (simp add: chain_append del: last.simps)
qed

abbreviation nexts :: "bst \<Rightarrow> nat \<Rightarrow> nat" where "nexts s \<equiv> (\<lambda>i. b_next (buf_at s i))"
abbreviation prevs :: "bst \<Rightarrow> nat \<Rightarrow> nat" where "prevs s \<equiv> (\<lambda>i. b_prev (buf_at s i))"

lemma upd_buf_at: "buf_at (upd_buf i f s) j = (if i = j \<and> j < length (bufs s) then f (buf_at s j) else buf_at s j)"
  by (auto simp: upd_buf_def nth_upd)

lemma upd_buf_sel [simp]:
  "length (bufs (upd_buf i f s)) = length (bufs s)"
  "bc_lock (upd_buf i f s) = bc_lock s" "memdisk (upd_buf i f s) = memdisk s" "disksize (upd_buf i f s) = disksize s"
  "dwrites (upd_buf i f s) = dwrites s" "cur_pid (upd_buf i f s) = cur_pid s" "woken (upd_buf i f s) = woken s"
  by (simp_all add: upd_buf_def)

lemma linkedD:
  assumes "linked s (xs @ b # ys)" and "distinct (NBUF # xs @ b # ys)"
  shows "prevs s b = last (NBUF # xs)" and "nexts s b = last (NBUF # rev ys)"
proof -
  have "chain (prevs s) b (rev xs) NBUF" "chain (nexts s) b ys NBUF"
    using assms(1) by (simp_all add: linked_def chain_append)
  from this [THEN chain_hd] show "prevs s b = last (NBUF # xs)" "nexts s b = last (NBUF # rev ys)"
    by (cases xs rule: rev_cases, simp, simp, cases ys, simp, simp)
qed

definition bcore :: "buf \<Rightarrow> buf" where
  "bcore x = x\<lparr>b_prev := 0, b_next := 0\<rparr>"

lemma bcore_upd [simp]: "bcore (x\<lparr>b_prev := p\<rparr>) = bcore x" "bcore (x\<lparr>b_next := p\<rparr>) = bcore x"
  by (simp_all add: bcore_def)

lemma bcoreD:
  assumes "bcore x = bcore y"
  shows "b_flags x = b_flags y" "b_dev x = b_dev y" "b_blockno x = b_blockno y" "b_lock x = b_lock y"
    "b_refcnt x = b_refcnt y" "b_data x = b_data y"
proof -
  have "b_flags (bcore x) = b_flags (bcore y)" "b_dev (bcore x) = b_dev (bcore y)" "b_blockno (bcore x) = b_blockno (bcore y)"
    "b_lock (bcore x) = b_lock (bcore y)" "b_refcnt (bcore x) = b_refcnt (bcore y)" "b_data (bcore x) = b_data (bcore y)"
    using assms by simp_all
  then show "b_flags x = b_flags y" "b_dev x = b_dev y" "b_blockno x = b_blockno y" "b_lock x = b_lock y"
    "b_refcnt x = b_refcnt y" "b_data x = b_data y"
    by (simp_all add: bcore_def)
qed

lemma bcore_upd_buf: "(\<And>x. bcore (f x) = bcore x) \<Longrightarrow> bcore (buf_at (upd_buf i f s) j) = bcore (buf_at s j)"
  by (simp add: upd_buf_at)

lemma to_front_core: "bcore (buf_at (to_front b s) i) = bcore (buf_at s i)"
  unfolding to_front_def Let_def by (simp add: bcore_upd_buf)

lemma to_front_sel [simp]:
  "length (bufs (to_front b s)) = length (bufs s)"
  "bc_lock (to_front b s) = bc_lock s" "memdisk (to_front b s) = memdisk s" "disksize (to_front b s) = disksize s"
  "dwrites (to_front b s) = dwrites s" "cur_pid (to_front b s) = cur_pid s" "woken (to_front b s) = woken s"
  by (simp_all add: to_front_def Let_def)

lemma links_upd:
  "i < length (bufs s) \<Longrightarrow> nexts (upd_buf i (\<lambda>x. x\<lparr>b_next := v\<rparr>) s) = (nexts s)(i := v)"
  "i < length (bufs s) \<Longrightarrow> prevs (upd_buf i (\<lambda>x. x\<lparr>b_prev := v\<rparr>) s) = (prevs s)(i := v)"
  "nexts (upd_buf i (\<lambda>x. x\<lparr>b_prev := v\<rparr>) s) = nexts s"
  "prevs (upd_buf i (\<lambda>x. x\<lparr>b_next := v\<rparr>) s) = prevs s"
  "nexts (upd_buf i (\<lambda>x. x\<lparr>b_lock := lk\<rparr>) s) = nexts s"
  "prevs (upd_buf i (\<lambda>x. x\<lparr>b_lock := lk\<rparr>) s) = prevs s"
  by (auto simp: upd_buf_at fun_eq_iff)

lemma to_front_links:
  assumes "length (bufs s) = Suc NBUF" "b < NBUF" "nexts s b \<le> NBUF" "prevs s b \<le> NBUF" "nexts s b \<noteq> b" "prevs s b \<noteq> b"
    and nx: "nx = (nexts s)(prevs s b := nexts s b)" and "nx NBUF \<le> NBUF" "nx NBUF \<noteq> b"
  shows "nexts (to_front b s) = nx(b := nx NBUF, NBUF := b)"
    and "prevs (to_front b s) = (prevs s)(nexts s b := prevs s b, b := NBUF, nx NBUF := b)"
proof -
  let ?s1 = "upd_buf (nexts s b) (\<lambda>x. x\<lparr>b_prev := prevs s b\<rparr>) s"
  let ?s2 = "upd_buf (prevs s b) (\<lambda>x. x\<lparr>b_next := nexts s b\<rparr>) ?s1"
  let ?s3 = "upd_buf b (\<lambda>x. x\<lparr>b_next := nx NBUF\<rparr>) ?s2"
  let ?s4 = "upd_buf b (\<lambda>x. x\<lparr>b_prev := NBUF\<rparr>) ?s3"
  let ?s5 = "upd_buf (nx NBUF) (\<lambda>x. x\<lparr>b_prev := b\<rparr>) ?s4"
  have n1: "nexts ?s1 = nexts s" and p1: "prevs ?s1 = (prevs s)(nexts s b := prevs s b)"
    using assms(1,3) by (simp_all only: links_upd)
  have n2: "nexts ?s2 = nx" and p2: "prevs ?s2 = (prevs s)(nexts s b := prevs s b)"
    using assms(1,4) by (simp_all only: links_upd upd_buf_sel n1 p1 nx)
  have n4: "nexts ?s4 = nx(b := nx NBUF)" and p4: "prevs ?s4 = (prevs s)(nexts s b := prevs s b, b := NBUF)"
    using assms(1,2) by (simp_all add: links_upd n2 p1)
  have e1: "prevs ?s1 b = prevs s b" "nexts ?s1 b = nexts s b" using fun_cong [OF p1, of b] fun_cong [OF n1, of b] assms(5) by simp_all
  have e2: "nexts ?s2 NBUF = nx NBUF" using fun_cong [OF n2, of NBUF] by simp
  have e3: "nexts ?s4 NBUF = nx NBUF" using fun_cong [OF n4, of NBUF] assms(2) by simp
  have "to_front b s = upd_buf NBUF (\<lambda>x. x\<lparr>b_next := b\<rparr>) ?s5"
    unfolding to_front_def Let_def by (simp only: e1 e2 e3)
  moreover have "nexts ?s5 = nexts ?s4" by (rule links_upd)
  moreover have "prevs ?s5 = (prevs ?s4)(nx NBUF := b)" using assms(1,8) by (intro links_upd) simp
  moreover have "nexts (upd_buf NBUF (\<lambda>x. x\<lparr>b_next := b\<rparr>) ?s5) = (nexts ?s5)(NBUF := b)"
    using assms(1) by (intro links_upd) simp
  moreover have "prevs (upd_buf NBUF (\<lambda>x. x\<lparr>b_next := b\<rparr>) ?s5) = prevs ?s5" by (rule links_upd)
  ultimately show "nexts (to_front b s) = nx(b := nx NBUF, NBUF := b)"
    and "prevs (to_front b s) = (prevs s)(nexts s b := prevs s b, b := NBUF, nx NBUF := b)"
    by (simp_all only: n4 p4)
qed

lemma to_front_linked:
  assumes l: "linked s (xs @ b # ys)" and d: "distinct (xs @ b # ys)" and n: "set (xs @ b # ys) = {0..<NBUF}"
    and len: "length (bufs s) = Suc NBUF"
  shows "linked (to_front b s) (b # xs @ ys)"
proof -
  have nb: "NBUF \<notin> set (xs @ b # ys)" "b < NBUF" using n by auto
  then have d1: "distinct (NBUF # xs @ b # ys)" and d2: "distinct (b # NBUF # xs @ ys)" and d3: "distinct (b # NBUF # rev (xs @ ys))"
    and d4: "distinct (NBUF # rev ys @ b # rev xs)" using d by auto
  note p = linkedD [OF l d1]
  have in1: "last (NBUF # xs) \<in> set (NBUF # xs)" "last (NBUF # rev ys) \<in> set (NBUF # rev ys)" by (rule last_in_set, simp)+
  then have in2: "last (NBUF # xs) \<noteq> b" "last (NBUF # rev ys) \<noteq> b" using d1 by auto
  have in3: "last (NBUF # xs) \<le> NBUF" "last (NBUF # rev ys) \<le> NBUF"
    using in1 n by (auto simp del: last.simps) (metis UnI1 UnI2 atLeastLessThan_iff insertI2 less_imp_le order_refl)+
  define nx where "nx = (nexts s)(prevs s b := nexts s b)"
  define pv where "pv = (prevs s)(nexts s b := prevs s b)"
  have cn: "chain (nexts s) NBUF (xs @ b # ys) NBUF" and cp: "chain (prevs s) NBUF (rev ys @ b # rev xs) NBUF"
    using l by (simp_all add: linked_def)
  have un: "chain nx NBUF (xs @ ys) NBUF" using chain_unlink [OF cn d1] p by (simp add: nx_def)
  have up: "chain pv NBUF (rev (xs @ ys)) NBUF" using chain_unlink [OF cp d4] p by (simp add: pv_def)
  have h: "nx NBUF = last (NBUF # rev (xs @ ys))"
    using chain_hd [OF un] by (cases "xs @ ys") (auto simp del: rev_append)
  have hr: "nx NBUF \<in> set (NBUF # rev (xs @ ys))" unfolding h by (rule last_in_set) simp
  have h2: "nx NBUF \<le> NBUF" "nx NBUF \<noteq> b" using hr n d2 by auto
  have e: "nexts (to_front b s) = nx(b := nx NBUF, NBUF := b)" "prevs (to_front b s) = pv(b := NBUF, nx NBUF := b)"
    unfolding pv_def by (rule to_front_links [OF len nb(2) _ _ _ _ nx_def h2]; use in2 in3 p in simp)+
  have c1: "chain (nx(b := nx NBUF, NBUF := b)) NBUF (b # xs @ ys) NBUF" by (rule chain_push [OF un d2])
  have c2: "chain (pv(b := NBUF, nx NBUF := b)) NBUF (rev (xs @ ys) @ [b]) NBUF"
    unfolding h by (rule chain_snoc [OF up d3])
  show ?thesis using c1 c2 by (simp add: linked_def e)
qed

subsection \<open>The invariant of the cache, and what it means\<close>

text \<open>
  \<open>content\<close> is the block a reader of the cache sees, \<open>dirty\<close> the blocks pinned by the log, and
  \<open>held\<close> the buffers the running process has locked. A buffer that nobody holds and that is not
  dirty agrees with the disk.
\<close>

definition buf_ok :: "bst \<Rightarrow> buf \<Rightarrow> bool" where
  "buf_ok s x \<longleftrightarrow>
     b_flags x \<in> {0, B_VALID, B_VALID OR B_DIRTY} \<and> length (b_data x) = BSIZE
   \<and> (b_dev x = 1 \<longleftrightarrow> b_flags x \<noteq> 0) \<and> (b_dev x = 1 \<longrightarrow> b_blockno x < disksize s)
   \<and> (if b_refcnt x = 0 then sl_free (b_lock x) \<and> (b_flags x = B_VALID \<longrightarrow> b_data x = memdisk s (b_blockno x))
      else b_refcnt x = 1 \<and> sl_held (cur_pid s) (b_lock x) \<and> b_dev x = 1)"

definition bwf :: "bst \<Rightarrow> bool" where
  "bwf s \<longleftrightarrow> \<not> bc_lock s \<and> length (bufs s) = Suc NBUF
   \<and> (\<exists>l. distinct l \<and> set l = {0..<NBUF} \<and> linked s l)
   \<and> (\<forall>d. length (memdisk s d) = BSIZE)
   \<and> (\<forall>i < NBUF. buf_ok s (buf_at s i))
   \<and> (\<forall>i < NBUF. \<forall>j < NBUF. b_dev (buf_at s i) = 1 \<longrightarrow> b_dev (buf_at s j) = 1 \<longrightarrow>
        b_blockno (buf_at s i) = b_blockno (buf_at s j) \<longrightarrow> i = j)"

definition caches :: "bst \<Rightarrow> u32 \<Rightarrow> nat \<Rightarrow> bool" where
  "caches s bno i \<longleftrightarrow> b_dev (buf_at s i) = 1 \<and> b_blockno (buf_at s i) = bno"

definition content :: "bst \<Rightarrow> u32 \<Rightarrow> block" where
  "content s bno = (case find (caches s bno) [0..<NBUF] of Some i \<Rightarrow> b_data (buf_at s i) | None \<Rightarrow> memdisk s bno)"

definition dirty :: "bst \<Rightarrow> u32 set" where
  "dirty s = {b_blockno (buf_at s i) | i. i < NBUF \<and> b_flags (buf_at s i) = B_VALID OR B_DIRTY}"

definition held :: "bst \<Rightarrow> nat \<Rightarrow> u32 option" where
  "held s b = (if b < NBUF \<and> b_refcnt (buf_at s b) \<noteq> 0 then Some (b_blockno (buf_at s b)) else None)"

definition fits :: "bst \<Rightarrow> u32 \<Rightarrow> bool" where
  "fits s bno \<longleftrightarrow> bno < disksize s"

lemma flag_simps [simp]:
  "B_VALID AND (B_VALID OR B_DIRTY) = B_VALID" "B_VALID AND B_DIRTY = 0" "(B_VALID OR B_DIRTY) AND B_DIRTY \<noteq> 0"
  "(B_VALID OR B_DIRTY) AND (B_VALID OR B_DIRTY) \<noteq> B_VALID" "B_VALID \<noteq> 0" "B_VALID AND B_VALID \<noteq> 0"
  "(B_VALID OR B_DIRTY) AND B_VALID \<noteq> 0" "B_VALID OR B_DIRTY \<noteq> 0" "B_VALID OR B_DIRTY \<noteq> B_VALID" "B_VALID \<noteq> B_VALID OR B_DIRTY"
  "((B_VALID OR B_DIRTY) AND NOT B_DIRTY) OR B_VALID = B_VALID" "(B_VALID OR B_DIRTY) OR B_DIRTY = B_VALID OR B_DIRTY"
  "0 OR B_VALID = B_VALID" "B_DIRTY \<noteq> 0" "0 \<noteq> B_VALID OR B_DIRTY" "0 \<noteq> B_VALID"
  by (simp_all add: B_VALID_def B_DIRTY_def)

lemma bwfD:
  assumes "bwf s"
  shows "\<not> bc_lock s" "length (bufs s) = Suc NBUF" "length (memdisk s d) = BSIZE" "i < NBUF \<Longrightarrow> buf_ok s (buf_at s i)"
    and "i < NBUF \<Longrightarrow> j < NBUF \<Longrightarrow> caches s bno i \<Longrightarrow> caches s bno j \<Longrightarrow> i = j"
    and "i < NBUF \<Longrightarrow> i < length (bufs s)"
  using assms by (auto simp: bwf_def caches_def)

lemma bwf_linked:
  assumes "bwf s"
  obtains l where "distinct l" "set l = {0..<NBUF}" "linked s l"
  using assms by (auto simp: bwf_def)

lemma content_cached:
  assumes "bwf s" "i < NBUF" "caches s bno i"
  shows "content s bno = b_data (buf_at s i)"
proof -
  obtain j where "find (caches s bno) [0..<NBUF] = Some j" "j < NBUF" "caches s bno j"
    using assms(2,3) find_None_iff [of "caches s bno" "[0..<NBUF]"]
    by (cases "find (caches s bno) [0..<NBUF]") (auto dest: find_SomeD)
  then show ?thesis using bwfD(5) [OF assms(1), of i j bno] assms by (simp add: content_def)
qed

lemma content_uncached: "\<forall>i < NBUF. \<not> caches s bno i \<Longrightarrow> content s bno = memdisk s bno"
  using find_None_iff [of "caches s bno" "[0..<NBUF]"] by (simp add: content_def)

lemma held_ran: "i < NBUF \<Longrightarrow> b_refcnt (buf_at s i) \<noteq> 0 \<Longrightarrow> b_blockno (buf_at s i) \<in> ran (held s)"
  by (auto simp: held_def ran_def intro!: exI [of _ i])

lemma clean_content:
  assumes "bwf s" "bno \<notin> dirty s" "bno \<notin> ran (held s)"
  shows "content s bno = memdisk s bno"
proof (cases "\<exists>i < NBUF. caches s bno i")
  case True
  then obtain i where i: "i < NBUF" "caches s bno i" by blast
  have "b_refcnt (buf_at s i) = 0" using assms(3) i held_ran [of i s] by (auto simp: caches_def)
  moreover have "b_flags (buf_at s i) = B_VALID"
    using bwfD(4) [OF assms(1) i(1)] assms(2) i by (auto simp: buf_ok_def caches_def dirty_def)
  ultimately show ?thesis
    using bwfD(4) [OF assms(1) i(1)] i content_cached [OF assms(1) i] by (auto simp: buf_ok_def caches_def)
qed (auto intro: content_uncached)

lemma walk_find:
  assumes "bwf s" and "nx = nexts s \<or> nx = prevs s"
  obtains l where "set l = {0..<NBUF}" "walk (Suc NBUF) nx NBUF (nx NBUF) Q = Ok (find Q l)"
proof -
  obtain l where l: "distinct l" "set l = {0..<NBUF}" "linked s l" using bwf_linked [OF assms(1)] by blast
  have len: "length l = NBUF" using distinct_card [OF l(1)] l(2) by simp
  have "walk (Suc NBUF) (nexts s) NBUF (nexts s NBUF) Q = Ok (find Q l)"
    by (rule walk_chain) (use l len in \<open>auto simp: linked_def\<close>)
  moreover have "walk (Suc NBUF) (prevs s) NBUF (prevs s NBUF) Q = Ok (find Q (rev l))"
    by (rule walk_chain) (use l len in \<open>auto simp: linked_def\<close>)
  ultimately show thesis using assms(2) l(2) that [of l] that [of "rev l"] by auto
qed

subsection \<open>Replacing one buffer\<close>

definition repl :: "nat \<Rightarrow> buf \<Rightarrow> (u32 \<Rightarrow> block) \<Rightarrow> (u32 \<times> block) list \<Rightarrow> bst \<Rightarrow> bst" where
  "repl b x md w s = s\<lparr>bufs := (bufs s)[b := x], memdisk := md, dwrites := w\<rparr>"

lemma upd_buf_repl: "upd_buf b f s = repl b (f (buf_at s b)) (memdisk s) (dwrites s) s"
  by (simp add: upd_buf_def repl_def)

lemma repl_sel [simp]:
  "bc_lock (repl b x md w s) = bc_lock s" "disksize (repl b x md w s) = disksize s" "cur_pid (repl b x md w s) = cur_pid s"
  "woken (repl b x md w s) = woken s" "memdisk (repl b x md w s) = md" "dwrites (repl b x md w s) = w"
  "length (bufs (repl b x md w s)) = length (bufs s)"
  by (simp_all add: repl_def)

lemma repl_at: "b < length (bufs s) \<Longrightarrow> buf_at (repl b x md w s) j = (if j = b then x else buf_at s j)"
  by (auto simp: repl_def nth_upd)

lemma repl_repl: "repl b x md w (repl b x' md' w' s) = repl b x md w s"
  by (simp add: repl_def)

definition replaceable :: "nat \<Rightarrow> buf \<Rightarrow> (u32 \<Rightarrow> block) \<Rightarrow> bst \<Rightarrow> bool" where
  "replaceable b x md s \<longleftrightarrow> bwf s \<and> b < NBUF \<and> b_next x = b_next (buf_at s b) \<and> b_prev x = b_prev (buf_at s b)
     \<and> b_dev x = 1 \<and> buf_ok (s\<lparr>memdisk := md\<rparr>) x \<and> (\<forall>i < NBUF. i \<noteq> b \<longrightarrow> \<not> caches s (b_blockno x) i)
     \<and> (\<forall>d. d \<noteq> b_blockno x \<longrightarrow> md d = memdisk s d) \<and> length (md (b_blockno x)) = BSIZE
     \<and> (caches s (b_blockno x) b \<or> b_refcnt (buf_at s b) = 0 \<and> b_flags (buf_at s b) \<noteq> B_VALID OR B_DIRTY)"

lemma replaceable_bwf:
  assumes "replaceable b x md s"
  shows "bwf (repl b x md w s)"
proof -
  let ?s = "repl b x md w s"
  have wf: "bwf s" and b: "b < NBUF" and lk: "b_next x = b_next (buf_at s b)" "b_prev x = b_prev (buf_at s b)"
    and dev: "b_dev x = 1" and ok: "buf_ok (s\<lparr>memdisk := md\<rparr>) x" and un: "\<forall>i < NBUF. i \<noteq> b \<longrightarrow> \<not> caches s (b_blockno x) i"
    and md: "\<forall>d. d \<noteq> b_blockno x \<longrightarrow> md d = memdisk s d" and len: "length (md (b_blockno x)) = BSIZE"
    using assms by (auto simp: replaceable_def)
  note at = repl_at [OF bwfD(6) [OF wf b]]
  obtain l where l: "distinct l" "set l = {0..<NBUF}" "linked s l" using bwf_linked [OF wf] by blast
  have "nexts ?s = nexts s" "prevs ?s = prevs s" using lk by (auto simp: at)
  then have l': "linked ?s l" using l(3) by (simp add: linked_def)
  have okx: "buf_ok ?s x" using ok by (auto simp: buf_ok_def split: if_splits)
  have oki: "buf_ok ?s (buf_at s i)" if "i < NBUF" "i \<noteq> b" for i
  proof -
    have "b_dev (buf_at s i) = 1 \<longrightarrow> b_blockno (buf_at s i) \<noteq> b_blockno x" using un that by (auto simp: caches_def)
    then show ?thesis using bwfD(4) [OF wf that(1)] md by (auto simp: buf_ok_def)
  qed
  have "length (md d) = BSIZE" for d using len md bwfD(3) [OF wf] by (cases "d = b_blockno x") auto
  moreover have "\<forall>i < NBUF. buf_ok ?s (buf_at ?s i)" using okx oki by (simp add: at)
  moreover have "\<forall>i < NBUF. \<forall>j < NBUF. b_dev (buf_at ?s i) = 1 \<longrightarrow> b_dev (buf_at ?s j) = 1 \<longrightarrow>
        b_blockno (buf_at ?s i) = b_blockno (buf_at ?s j) \<longrightarrow> i = j"
    using un wf by (auto simp: at caches_def bwf_def)
  ultimately show ?thesis using wf l(1,2) l' unfolding bwf_def by (auto simp del: One_nat_def)
qed

lemma replaceable_content:
  assumes r: "replaceable b x md s"
  shows "content (repl b x md w s) = (content s)(b_blockno x := b_data x)"
proof
  fix bno
  let ?s = "repl b x md w s"
  have wf: "bwf s" and b: "b < NBUF" and dev: "b_dev x = 1" and un: "\<forall>i < NBUF. i \<noteq> b \<longrightarrow> \<not> caches s (b_blockno x) i"
    and md: "\<forall>d. d \<noteq> b_blockno x \<longrightarrow> md d = memdisk s d"
    and old: "caches s (b_blockno x) b \<or> b_refcnt (buf_at s b) = 0 \<and> b_flags (buf_at s b) \<noteq> B_VALID OR B_DIRTY"
    using r by (auto simp: replaceable_def)
  note at = repl_at [OF bwfD(6) [OF wf b]]
  note wf' = replaceable_bwf [OF r, of w]
  show "content ?s bno = ((content s)(b_blockno x := b_data x)) bno"
  proof (cases "bno = b_blockno x")
    case True
    then show ?thesis using content_cached [OF wf' b, of bno] dev by (simp add: caches_def at)
  next
    case ne: False
    show ?thesis
    proof (cases "\<exists>i < NBUF. i \<noteq> b \<and> caches s bno i")
      case True
      then obtain i where i: "i < NBUF" "i \<noteq> b" "caches s bno i" by blast
      then have "caches ?s bno i" by (simp add: caches_def at)
      then show ?thesis using content_cached [OF wf' i(1)] content_cached [OF wf i(1,3)] ne i(2) by (simp add: at)
    next
      case False
      then have "\<forall>i < NBUF. \<not> caches ?s bno i" using ne by (auto simp: caches_def at)
      then have "content ?s bno = md bno" using content_uncached [of ?s bno] by simp
      moreover have "content s bno = memdisk s bno"
      proof (cases "caches s bno b")
        case True
        then have "b_flags (buf_at s b) = B_VALID" "b_refcnt (buf_at s b) = 0"
          using old ne bwfD(4) [OF wf b] by (auto simp: caches_def buf_ok_def)
        then show ?thesis using content_cached [OF wf b True] bwfD(4) [OF wf b] True by (simp add: buf_ok_def caches_def)
      qed (use False in \<open>auto intro!: content_uncached\<close>)
      ultimately show ?thesis using md ne by simp
    qed
  qed
qed

lemma replaceable_held:
  assumes "replaceable b x md s"
  shows "held (repl b x md w s) = (held s)(b := if b_refcnt x \<noteq> 0 then Some (b_blockno x) else None)"
  using assms bwfD(6) [of s b] by (auto simp: replaceable_def held_def repl_at fun_eq_iff)

lemma replaceable_dirty:
  assumes r: "replaceable b x md s"
  shows "dirty (repl b x md w s) =
    (if b_flags x = B_VALID OR B_DIRTY then insert (b_blockno x) (dirty s) else dirty s - {b_blockno x})"
proof -
  have wf: "bwf s" and b: "b < NBUF" and un: "\<forall>i < NBUF. i \<noteq> b \<longrightarrow> \<not> caches s (b_blockno x) i"
    and old: "b_flags (buf_at s b) = B_VALID OR B_DIRTY \<longrightarrow> b_blockno (buf_at s b) = b_blockno x"
    using r by (auto simp: replaceable_def caches_def)
  note at = repl_at [OF bwfD(6) [OF wf b]]
  have d: "b_flags (buf_at s i) = B_VALID OR B_DIRTY \<Longrightarrow> i < NBUF \<Longrightarrow> i \<noteq> b \<Longrightarrow> b_blockno (buf_at s i) \<noteq> b_blockno x" for i
    using un bwfD(4) [OF wf, of i] by (auto simp: caches_def buf_ok_def)
  have "dirty s - {b_blockno x} = {b_blockno (buf_at s i) | i. i < NBUF \<and> i \<noteq> b \<and> b_flags (buf_at s i) = B_VALID OR B_DIRTY}"
    using d old by (auto simp: dirty_def)
  moreover have "dirty (repl b x md w s) = {b_blockno (buf_at s i) | i. i < NBUF \<and> i \<noteq> b \<and> b_flags (buf_at s i) = B_VALID OR B_DIRTY}
      \<union> (if b_flags x = B_VALID OR B_DIRTY then {b_blockno x} else {})"
    using b by (auto simp: dirty_def at)
  ultimately show ?thesis by (auto split: if_splits)
qed

lemmas replaceable_effect = replaceable_bwf replaceable_content replaceable_held replaceable_dirty

subsection \<open>The operations under the invariant\<close>

lemma holds_buf_eq:
  assumes "bwf s" "held s b = Some bno"
  shows "holds_buf b s = Ok (True, s)"
proof -
  have "sl_held (cur_pid s) (b_lock (buf_at s b))"
    using assms bwfD(4) [OF assms(1), of b] by (auto simp: held_def buf_ok_def split: if_splits)
  then show ?thesis by (simp add: holds_buf_def sl.holds_held upd_buf_def)
qed

lemma lock_buf_eq:
  assumes "b < length (bufs s)" "sl_free (b_lock (buf_at s b))"
  shows "lock_buf b s = Ok (upd_buf b (\<lambda>x. x\<lparr>b_lock := (b_lock x)\<lparr>sl_locked := 1, sl_pid := cur_pid s\<rparr>\<rparr>) s)"
  using assms by (simp add: lock_buf_def acquiresleep_free upd_buf_def)

lemma bc_bracket: "bc_release (s\<lparr>bc_lock := True\<rparr>) = Ok (s\<lparr>bc_lock := False\<rparr>)"
  by (simp add: bc_release_def)

lemma upd_buf_bc [simp]: "upd_buf b f (s\<lparr>bc_lock := v\<rparr>) = (upd_buf b f s)\<lparr>bc_lock := v\<rparr>"
  by (simp add: upd_buf_def)

lemma upd_buf_upd: "b < length (bufs s) \<Longrightarrow> upd_buf b f (upd_buf b g s) = upd_buf b (\<lambda>x. f (g x)) s"
  by (simp add: upd_buf_def)

lemma bc_lock_id: "\<not> bc_lock s \<Longrightarrow> s\<lparr>bc_lock := False\<rparr> = s"
  by (cases s) simp

lemma bget_hit:
  assumes wf: "bwf s" and b: "b < NBUF" "caches s bno b" "b_refcnt (buf_at s b) = 0"
  shows "bget 1 bno s = Ok (b, upd_buf b (\<lambda>x. x\<lparr>b_refcnt := 1, b_lock := (b_lock x)\<lparr>sl_locked := 1, sl_pid := cur_pid s\<rparr>\<rparr>) s)"
proof -
  let ?Q = "\<lambda>b. b_dev (buf_at s b) = 1 \<and> b_blockno (buf_at s b) = bno"
  obtain l where l: "set l = {0..<NBUF}" "walk (Suc NBUF) (nexts s) NBUF (nexts s NBUF) ?Q = Ok (find ?Q l)"
    using walk_find [OF wf, of "nexts s" ?Q] by blast
  have "find ?Q l = Some b"
  proof (cases "find ?Q l")
    case None
    then show ?thesis using b l(1) by (auto simp: find_None_iff caches_def)
  next
    case (Some c)
    then have "?Q c" "c < NBUF" using find_SomeD [of ?Q l c] l(1) by auto
    then show ?thesis using bwfD(5) [OF wf, of b c bno] b Some by (auto simp: caches_def)
  qed
  moreover have "sl_free (b_lock (buf_at s b))" using bwfD(4) [OF wf b(1)] b(3) by (simp add: buf_ok_def)
  moreover have "bc_acquire s = Ok (s\<lparr>bc_lock := True\<rparr>)" using bwfD(1) [OF wf] by (simp add: bc_acquire_def)
  ultimately show ?thesis
    using l(2) bwfD(1,2) [OF wf] b(1,3)
    by (simp add: bget_def bc_bracket bc_lock_id lock_buf_eq upd_buf_at upd_buf_upd Let_def) (simp add: upd_buf_def)
qed

lemma bget_recycle:
  assumes wf: "bwf s" and un: "\<forall>i < NBUF. \<not> caches s bno i"
    and free: "\<exists>i < NBUF. b_refcnt (buf_at s i) = 0 \<and> b_flags (buf_at s i) AND B_DIRTY = 0"
  obtains b where "b < NBUF" "b_refcnt (buf_at s b) = 0" "b_flags (buf_at s b) AND B_DIRTY = 0"
    "bget 1 bno s = Ok (b, upd_buf b (\<lambda>x. x\<lparr>b_dev := 1, b_blockno := bno, b_flags := 0, b_refcnt := 1,
        b_lock := (b_lock x)\<lparr>sl_locked := 1, sl_pid := cur_pid s\<rparr>\<rparr>) s)"
proof -
  let ?Q = "\<lambda>b. b_dev (buf_at s b) = 1 \<and> b_blockno (buf_at s b) = bno"
  let ?F = "\<lambda>b. b_refcnt (buf_at s b) = 0 \<and> b_flags (buf_at s b) AND B_DIRTY = 0"
  obtain l where l: "set l = {0..<NBUF}" "walk (Suc NBUF) (nexts s) NBUF (nexts s NBUF) ?Q = Ok (find ?Q l)"
    using walk_find [OF wf, of "nexts s" ?Q] by blast
  obtain r where r: "set r = {0..<NBUF}" "walk (Suc NBUF) (prevs s) NBUF (prevs s NBUF) ?F = Ok (find ?F r)"
    using walk_find [OF wf, of "prevs s" ?F] by blast
  have none: "find ?Q l = None" using un l(1) by (auto simp: find_None_iff caches_def)
  have "find ?F r \<noteq> None" using free r(1) by (auto simp: find_None_iff)
  then obtain b where b: "find ?F r = Some b" by blast
  then have F: "?F b" "b < NBUF" using find_SomeD [of ?F r b] r(1) by auto
  have "sl_free (b_lock (buf_at s b))" using bwfD(4) [OF wf F(2)] F(1) by (simp add: buf_ok_def)
  moreover have "bc_acquire s = Ok (s\<lparr>bc_lock := True\<rparr>)" using bwfD(1) [OF wf] by (simp add: bc_acquire_def)
  ultimately have "bget 1 bno s = Ok (b, upd_buf b (\<lambda>x. x\<lparr>b_dev := 1, b_blockno := bno, b_flags := 0, b_refcnt := 1,
        b_lock := (b_lock x)\<lparr>sl_locked := 1, sl_pid := cur_pid s\<rparr>\<rparr>) s)"
    using l(2) r(2) none b bwfD(1,2) [OF wf] F(2)
    by (simp add: bget_def bc_bracket bc_lock_id lock_buf_eq upd_buf_at upd_buf_upd Let_def)
  then show thesis using that F by blast
qed

lemma iderw_read:
  assumes "b < length (bufs s)" "sl_held (cur_pid s) (b_lock (buf_at s b))" "b_flags (buf_at s b) = 0"
    "b_dev (buf_at s b) = 1" "b_blockno (buf_at s b) < disksize s"
  shows "iderw b s = Ok (upd_buf b (\<lambda>x. x\<lparr>b_data := memdisk s (b_blockno x), b_flags := B_VALID\<rparr>) s)"
proof -
  have "holds_buf b s = Ok (True, s)" using assms(2) by (simp add: holds_buf_def sl.holds_held upd_buf_def)
  then show ?thesis using assms by (simp add: iderw_def Let_def upd_buf_at upd_buf_upd not_le) (simp add: upd_buf_def)
qed

lemma iderw_write:
  assumes "b < length (bufs s)" "sl_held (cur_pid s) (b_lock (buf_at s b))" "b_flags (buf_at s b) = B_VALID OR B_DIRTY"
    "b_dev (buf_at s b) = 1" "b_blockno (buf_at s b) < disksize s"
  shows "iderw b s = Ok (repl b ((buf_at s b)\<lparr>b_flags := B_VALID\<rparr>) ((memdisk s)(b_blockno (buf_at s b) := b_data (buf_at s b)))
    (dwrites s @ [(b_blockno (buf_at s b), b_data (buf_at s b))]) s)"
proof -
  have "holds_buf b s = Ok (True, s)" using assms(2) by (simp add: holds_buf_def sl.holds_held upd_buf_def)
  then show ?thesis using assms by (simp add: iderw_def Let_def upd_buf_at not_le) (simp add: upd_buf_def repl_def not_le)
qed

lemma dirty_cached:
  assumes "bwf s" "bno \<in> dirty s"
  obtains i where "i < NBUF" "caches s bno i" "b_flags (buf_at s i) = B_VALID OR B_DIRTY"
proof -
  obtain i where i: "i < NBUF" "b_flags (buf_at s i) = B_VALID OR B_DIRTY" "b_blockno (buf_at s i) = bno"
    using assms(2) by (auto simp: dirty_def)
  then have "caches s bno i" using bwfD(4) [OF assms(1) i(1)] by (auto simp: caches_def buf_ok_def)
  then show thesis using that i by blast
qed

lemma dirty_iff:
  assumes "bwf s" "b < NBUF" "caches s bno b"
  shows "bno \<in> dirty s \<longleftrightarrow> b_flags (buf_at s b) = B_VALID OR B_DIRTY"
proof
  assume "bno \<in> dirty s"
  then obtain i where i: "i < NBUF" "caches s bno i" "b_flags (buf_at s i) = B_VALID OR B_DIRTY"
    using dirty_cached [OF assms(1)] by blast
  then show "b_flags (buf_at s b) = B_VALID OR B_DIRTY" using bwfD(5) [OF assms(1)] assms by blast
next
  assume "b_flags (buf_at s b) = B_VALID OR B_DIRTY"
  then show "bno \<in> dirty s" using assms(2,3) by (auto simp: dirty_def caches_def)
qed

lemma heldD:
  assumes "bwf s" "held s b = Some bno"
  shows "b < NBUF" "b < length (bufs s)" "caches s bno b" "b_refcnt (buf_at s b) = 1" "sl_held (cur_pid s) (b_lock (buf_at s b))"
    "b_flags (buf_at s b) = B_VALID \<or> b_flags (buf_at s b) = B_VALID OR B_DIRTY" "bno < disksize s"
    "length (b_data (buf_at s b)) = BSIZE" "b_dev (buf_at s b) = 1" "b_blockno (buf_at s b) = bno"
    "content s bno = b_data (buf_at s b)" "\<forall>i < NBUF. i \<noteq> b \<longrightarrow> \<not> caches s bno i"
proof -
  have b: "b < NBUF" "b_refcnt (buf_at s b) \<noteq> 0" "b_blockno (buf_at s b) = bno"
    using assms(2) by (auto simp: held_def split: if_splits)
  have ok: "buf_ok s (buf_at s b)" by (rule bwfD(4) [OF assms(1) b(1)])
  show c: "caches s bno b" using ok b by (auto simp: buf_ok_def caches_def)
  show "content s bno = b_data (buf_at s b)" by (rule content_cached [OF assms(1) b(1) c])
  show "\<forall>i < NBUF. i \<noteq> b \<longrightarrow> \<not> caches s bno i" using bwfD(5) [OF assms(1)] b(1) c by blast
  show "b < length (bufs s)" using bwfD(6) [OF assms(1) b(1)] .
qed (use assms bwfD(4) [OF assms(1), of b] in \<open>auto simp: held_def buf_ok_def split: if_splits\<close>)

lemma fun_upd_same: "f x = y \<Longrightarrow> f(x := y) = f"
  by auto

definition benv :: "bst \<Rightarrow> int \<times> u32" where
  "benv s = (cur_pid s, disksize s)"

lemma benv_repl [simp]: "benv (repl b x md w s) = benv s"
  by (simp add: benv_def)

lemma bread_hit_spec:
  assumes wf: "bwf s" and b: "b < NBUF" "caches s bno b" "b_refcnt (buf_at s b) = 0"
  shows "\<exists>s'. bread 1 bno s = Ok (b, s') \<and> bwf s' \<and> held s' = (held s)(b \<mapsto> bno) \<and> content s' = content s
    \<and> memdisk s' = memdisk s \<and> dirty s' = dirty s \<and> dwrites s' = dwrites s \<and> benv s' = benv s"
proof -
  let ?x = "(buf_at s b)\<lparr>b_refcnt := 1, b_lock := (b_lock (buf_at s b))\<lparr>sl_locked := 1, sl_pid := cur_pid s\<rparr>\<rparr>"
  let ?s = "repl b ?x (memdisk s) (dwrites s) s"
  have ok: "buf_ok s (buf_at s b)" by (rule bwfD(4) [OF wf b(1)])
  have key: "b_dev (buf_at s b) = 1" "b_blockno (buf_at s b) = bno" using b(2) by (auto simp: caches_def)
  have f: "b_flags (buf_at s b) = B_VALID \<or> b_flags (buf_at s b) = B_VALID OR B_DIRTY" using ok key by (auto simp: buf_ok_def)
  then have v: "b_flags (buf_at s b) AND B_VALID \<noteq> 0" by auto
  have "bread 1 bno s = Ok (b, ?s)"
    using v bwfD(6) [OF wf b(1)] unfolding bread_def bget_hit [OF wf b] by (simp add: repl_at upd_buf_repl)
  moreover have r: "replaceable b ?x (memdisk s) s"
  proof -
    have "sl_free (b_lock (buf_at s b))" using ok b(3) by (simp add: buf_ok_def)
    then have "buf_ok s ?x" using ok key f by (auto simp: buf_ok_def sl_free_upd)
    moreover have "\<forall>i < NBUF. i \<noteq> b \<longrightarrow> \<not> caches s bno i" using bwfD(5) [OF wf] b by blast
    ultimately show ?thesis using wf b key bwfD(3) [OF wf] by (simp add: replaceable_def)
  qed
  moreover have "content ?s = content s"
    using replaceable_content [OF r] content_cached [OF wf b(1,2)] key by (simp add: fun_upd_same)
  moreover have "dirty ?s = dirty s"
    using replaceable_dirty [OF r] dirty_iff [OF wf b(1,2)] key by (auto simp: insert_absorb)
  ultimately show ?thesis using replaceable_bwf [OF r] replaceable_held [OF r] key by simp
qed

lemma bread_miss_spec:
  assumes wf: "bwf s" and fit: "bno < disksize s" and un: "\<forall>i < NBUF. \<not> caches s bno i"
    and free: "\<exists>i < NBUF. b_refcnt (buf_at s i) = 0 \<and> b_flags (buf_at s i) AND B_DIRTY = 0"
  shows "\<exists>b s'. bread 1 bno s = Ok (b, s') \<and> bwf s' \<and> held s b = None \<and> held s' = (held s)(b \<mapsto> bno) \<and> content s' = content s
    \<and> memdisk s' = memdisk s \<and> dirty s' = dirty s \<and> dwrites s' = dwrites s \<and> benv s' = benv s"
proof -
  obtain b where b: "b < NBUF" "b_refcnt (buf_at s b) = 0" "b_flags (buf_at s b) AND B_DIRTY = 0"
    and g: "bget 1 bno s = Ok (b, upd_buf b (\<lambda>x. x\<lparr>b_dev := 1, b_blockno := bno, b_flags := 0, b_refcnt := 1,
        b_lock := (b_lock x)\<lparr>sl_locked := 1, sl_pid := cur_pid s\<rparr>\<rparr>) s)"
    using bget_recycle [OF wf un free] by blast
  let ?r = "upd_buf b (\<lambda>x. x\<lparr>b_dev := 1, b_blockno := bno, b_flags := 0, b_refcnt := 1,
        b_lock := (b_lock x)\<lparr>sl_locked := 1, sl_pid := cur_pid s\<rparr>\<rparr>) s"
  let ?x = "(buf_at s b)\<lparr>b_dev := 1, b_blockno := bno, b_refcnt := 1, b_lock := (b_lock (buf_at s b))\<lparr>sl_locked := 1, sl_pid := cur_pid s\<rparr>,
     b_data := memdisk s bno, b_flags := B_VALID\<rparr>"
  let ?s = "repl b ?x (memdisk s) (dwrites s) s"
  have len: "b < length (bufs s)" by (rule bwfD(6) [OF wf b(1)])
  have ok: "buf_ok s (buf_at s b)" by (rule bwfD(4) [OF wf b(1)])
  have fr: "sl_free (b_lock (buf_at s b))" using ok b(2) by (simp add: buf_ok_def)
  have "iderw b ?r = Ok (upd_buf b (\<lambda>x. x\<lparr>b_data := memdisk ?r (b_blockno x), b_flags := B_VALID\<rparr>) ?r)"
    using len fit fr by (intro iderw_read) (simp_all add: upd_buf_at sl_free_upd)
  also have "\<dots> = Ok ?s" using len by (simp add: upd_buf_repl repl_repl repl_at)
  finally have "bread 1 bno s = Ok (b, ?s)" unfolding bread_def g using len by (simp add: upd_buf_at)
  moreover have nd: "b_flags (buf_at s b) \<noteq> B_VALID OR B_DIRTY" using b(3) by auto
  moreover have r: "replaceable b ?x (memdisk s) s"
    using wf b nd un fr fit bwfD(3) [OF wf] by (auto simp: replaceable_def buf_ok_def sl_free_upd)
  moreover have "content ?s = content s"
    using replaceable_content [OF r] content_uncached [OF un] by (simp add: fun_upd_same)
  moreover have "bno \<notin> dirty s" using un dirty_cached [OF wf, of bno] by blast
  ultimately show ?thesis using replaceable_bwf [OF r] replaceable_held [OF r] replaceable_dirty [OF r] b by (auto simp: held_def)
qed

lemma free_buffer:
  assumes wf: "bwf s" and c: "card (dirty s \<union> ran (held s)) < NBUF"
  shows "\<exists>i < NBUF. b_refcnt (buf_at s i) = 0 \<and> b_flags (buf_at s i) AND B_DIRTY = 0"
proof (rule ccontr)
  assume n: "\<not> ?thesis"
  have busy: "b_blockno (buf_at s i) \<in> dirty s \<union> ran (held s)" and dev: "b_dev (buf_at s i) = 1" if "i < NBUF" for i
  proof -
    have ok: "buf_ok s (buf_at s i)" by (rule bwfD(4) [OF wf that])
    have "b_refcnt (buf_at s i) \<noteq> 0 \<or> b_flags (buf_at s i) = B_VALID OR B_DIRTY"
      using n that ok by (auto simp: buf_ok_def)
    then show "b_blockno (buf_at s i) \<in> dirty s \<union> ran (held s)" "b_dev (buf_at s i) = 1"
      using held_ran [OF that, of s] that ok by (auto simp: dirty_def buf_ok_def)
  qed
  have inj: "inj_on (\<lambda>i. b_blockno (buf_at s i)) {0..<NBUF}"
    using dev bwfD(5) [OF wf] by (intro inj_onI) (auto simp: caches_def)
  have "dirty s \<union> ran (held s) \<subseteq> (\<lambda>i. b_blockno (buf_at s i)) ` {0..<NBUF}"
    by (auto simp: dirty_def held_def ran_def split: if_splits)
  then have fin: "finite (dirty s \<union> ran (held s))" by (rule finite_subset) simp
  have "NBUF = card ((\<lambda>i. b_blockno (buf_at s i)) ` {0..<NBUF})" using card_image [OF inj] by simp
  also have "\<dots> \<le> card (dirty s \<union> ran (held s))"
  proof (rule card_mono [OF fin], rule image_subsetI)
    show "b_blockno (buf_at s i) \<in> dirty s \<union> ran (held s)" if "i \<in> {0..<NBUF}" for i using busy [of i] that by simp
  qed
  finally show False using c by simp
qed

lemma bread_spec:
  assumes wf: "bwf s" and fit: "fits s bno" and nh: "bno \<notin> ran (held s)"
    and room: "bno \<in> dirty s \<or> card (dirty s \<union> ran (held s)) < NBUF"
  shows "\<exists>b s'. bread 1 bno s = Ok (b, s') \<and> bwf s' \<and> held s b = None \<and> held s' = (held s)(b \<mapsto> bno) \<and> content s' = content s
    \<and> memdisk s' = memdisk s \<and> dirty s' = dirty s \<and> dwrites s' = dwrites s \<and> benv s' = benv s"
proof (cases "\<exists>i < NBUF. caches s bno i")
  case True
  then obtain b where b: "b < NBUF" "caches s bno b" by blast
  then have z: "b_refcnt (buf_at s b) = 0" using nh held_ran [OF b(1), of s] by (auto simp: caches_def)
  then have "held s b = None" by (simp add: held_def)
  then show ?thesis using bread_hit_spec [OF wf b z] by blast
next
  case False
  then have "bno \<notin> dirty s" using dirty_cached [OF wf, of bno] by blast
  then show ?thesis using bread_miss_spec [OF wf] free_buffer [OF wf] fit room False by (simp add: fits_def)
qed

lemma bwrite_spec:
  assumes wf: "bwf s" and h: "held s b = Some bno"
  shows "\<exists>s'. bwrite b s = Ok s' \<and> bwf s' \<and> held s' = held s \<and> content s' = content s
    \<and> memdisk s' = (memdisk s)(bno := content s bno) \<and> dirty s' = dirty s - {bno}
    \<and> dwrites s' = dwrites s @ [(bno, content s bno)] \<and> benv s' = benv s"
proof -
  note hd = heldD [OF wf h]
  let ?x = "(buf_at s b)\<lparr>b_flags := B_VALID\<rparr>" and ?md = "(memdisk s)(bno := content s bno)"
  let ?w = "dwrites s @ [(bno, content s bno)]"
  let ?s1 = "upd_buf b (\<lambda>x. x\<lparr>b_flags := b_flags x OR B_DIRTY\<rparr>) s"
  let ?s = "repl b ?x ?md ?w s"
  have fl: "b_flags (buf_at s b) OR B_DIRTY = B_VALID OR B_DIRTY" using hd(6) by auto
  have "iderw b ?s1 = Ok ?s"
  proof -
    have "iderw b ?s1 = Ok (repl b ((buf_at ?s1 b)\<lparr>b_flags := B_VALID\<rparr>) ((memdisk ?s1)(b_blockno (buf_at ?s1 b) := b_data (buf_at ?s1 b)))
      (dwrites ?s1 @ [(b_blockno (buf_at ?s1 b), b_data (buf_at ?s1 b))]) ?s1)"
      using hd fl by (intro iderw_write) (simp_all add: upd_buf_at)
    then show ?thesis using hd by (simp add: upd_buf_repl repl_repl repl_at)
  qed
  then have "bwrite b s = Ok ?s" using holds_buf_eq [OF wf h] by (simp add: bwrite_def)
  moreover have r: "replaceable b ?x ?md s"
    using wf hd by (auto simp: replaceable_def buf_ok_def)
  moreover have "content ?s = content s" using replaceable_content [OF r] hd(10,11) by (simp add: fun_upd_same)
  moreover have "held ?s = held s" using replaceable_held [OF r] hd(4,10) h by (simp add: fun_upd_same)
  ultimately show ?thesis using replaceable_bwf [OF r] replaceable_dirty [OF r] hd(10) by simp
qed

lemma set_data_spec:
  assumes wf: "bwf s" and h: "held s b = Some bno" and l: "length d = BSIZE"
  shows "bwf (set_data b d s) \<and> held (set_data b d s) = held s \<and> content (set_data b d s) = (content s)(bno := d)
    \<and> memdisk (set_data b d s) = memdisk s \<and> dirty (set_data b d s) = dirty s \<and> dwrites (set_data b d s) = dwrites s
    \<and> benv (set_data b d s) = benv s"
proof -
  note hd = heldD [OF wf h]
  let ?x = "(buf_at s b)\<lparr>b_data := d\<rparr>"
  have e: "set_data b d s = repl b ?x (memdisk s) (dwrites s) s" by (simp add: set_data_def upd_buf_repl)
  have r: "replaceable b ?x (memdisk s) s"
    using wf hd l bwfD(3) [OF wf] by (auto simp: replaceable_def buf_ok_def)
  have "held (set_data b d s) = held s" using replaceable_held [OF r] hd(4,10) h by (simp add: e fun_upd_same)
  moreover have "dirty (set_data b d s) = dirty s"
    using replaceable_dirty [OF r] dirty_iff [OF wf hd(1,3)] hd(10) by (auto simp: e insert_absorb)
  ultimately show ?thesis using replaceable_bwf [OF r] replaceable_content [OF r] hd(10) by (simp add: e)
qed

lemma pin_spec:
  assumes wf: "bwf s" and h: "held s b = Some bno"
  shows "bwf (pin b s) \<and> held (pin b s) = held s \<and> content (pin b s) = content s
    \<and> memdisk (pin b s) = memdisk s \<and> dirty (pin b s) = insert bno (dirty s) \<and> dwrites (pin b s) = dwrites s
    \<and> benv (pin b s) = benv s"
proof -
  note hd = heldD [OF wf h]
  let ?x = "(buf_at s b)\<lparr>b_flags := B_VALID OR B_DIRTY\<rparr>"
  have "b_flags (buf_at s b) OR B_DIRTY = B_VALID OR B_DIRTY" using hd(6) by auto
  then have e: "pin b s = repl b ?x (memdisk s) (dwrites s) s" by (simp add: pin_def upd_buf_repl)
  have r: "replaceable b ?x (memdisk s) s"
    using wf hd bwfD(3) [OF wf] by (auto simp: replaceable_def buf_ok_def)
  have "held (pin b s) = held s" using replaceable_held [OF r] hd(4,10) h by (simp add: e fun_upd_same)
  moreover have "content (pin b s) = content s" using replaceable_content [OF r] hd(10,11) by (simp add: e fun_upd_same)
  ultimately show ?thesis using replaceable_bwf [OF r] replaceable_dirty [OF r] hd(10) by (simp add: e)
qed

lemma core_cong:
  assumes "\<And>i. bcore (buf_at s' i) = bcore (buf_at s i)" and "memdisk s' = memdisk s"
  shows "content s' = content s" "held s' = held s" "dirty s' = dirty s"
proof -
  note c = bcoreD [OF assms(1)]
  have "caches s' = caches s" by (auto simp: caches_def c fun_eq_iff)
  then show "content s' = content s" by (intro ext) (simp add: content_def c assms(2) split: option.split)
  show "held s' = held s" "dirty s' = dirty s" by (auto simp: held_def dirty_def c)
qed

lemma to_front_effect:
  assumes wf: "bwf s" and b: "b < NBUF"
  shows "bwf (to_front b s)" "content (to_front b s) = content s" "held (to_front b s) = held s" "dirty (to_front b s) = dirty s"
proof -
  note c = bcoreD [OF to_front_core]
  obtain l where l: "distinct l" "set l = {0..<NBUF}" "linked s l" using bwf_linked [OF wf] by blast
  obtain xs ys where s: "l = xs @ b # ys" using l(2) b by (metis atLeastLessThan_iff split_list zero_le)
  have "linked (to_front b s) (b # xs @ ys)" using l s bwfD(2) [OF wf] by (intro to_front_linked) auto
  moreover have "distinct (b # xs @ ys)" "set (b # xs @ ys) = {0..<NBUF}" using l s by auto
  moreover have "\<forall>i < NBUF. buf_ok (to_front b s) (buf_at (to_front b s) i)"
    using bwfD(4) [OF wf] by (simp add: buf_ok_def c)
  moreover have "\<forall>i < NBUF. \<forall>j < NBUF. b_dev (buf_at (to_front b s) i) = 1 \<longrightarrow> b_dev (buf_at (to_front b s) j) = 1 \<longrightarrow>
        b_blockno (buf_at (to_front b s) i) = b_blockno (buf_at (to_front b s) j) \<longrightarrow> i = j"
    using bwfD(5) [OF wf] by (simp add: c caches_def)
  ultimately show "bwf (to_front b s)"
    using bwfD(1-3) [OF wf] unfolding bwf_def by (simp only: to_front_sel) blast
qed (rule core_cong; simp add: to_front_core)+

lemma brelse_eq:
  assumes wf: "bwf s" and h: "held s b = Some bno"
  defines "s1 \<equiv> (upd_buf b (\<lambda>x. x\<lparr>b_lock := (b_lock x)\<lparr>sl_locked := 0, sl_pid := 0\<rparr>, b_refcnt := 0\<rparr>) s)\<lparr>woken := woken s @ [BufChan b]\<rparr>"
  shows "brelse b s = Ok (to_front b s1)"
proof -
  note hd = heldD [OF wf h]
  let ?lk = "(b_lock (buf_at s b))\<lparr>sl_locked := 0, sl_pid := 0\<rparr>"
  let ?s2 = "(upd_buf b (\<lambda>x. x\<lparr>b_lock := ?lk\<rparr>) s)\<lparr>woken := woken s @ [BufChan b]\<rparr>"
  let ?s3 = "upd_buf b (\<lambda>x. x\<lparr>b_refcnt := b_refcnt x - 1\<rparr>) (?s2\<lparr>bc_lock := True\<rparr>)"
  have r: "releasesleep (BufChan b) (b_lock (buf_at s b)) (woken s) = Ok (?lk, woken s @ [BufChan b])"
    by (rule releasesleep_held [OF hd(5)])
  have a: "bc_acquire ?s2 = Ok (?s2\<lparr>bc_lock := True\<rparr>)" using bwfD(1) [OF wf] by (simp add: bc_acquire_def)
  have z: "b_refcnt (buf_at ?s3 b) = 0" using hd(2,4) by (simp add: upd_buf_def)
  have e: "?s3 = s1\<lparr>bc_lock := True\<rparr>" using hd(2,4) by (simp add: s1_def upd_buf_def)
  have t: "to_front b (s1\<lparr>bc_lock := True\<rparr>) = (to_front b s1)\<lparr>bc_lock := True\<rparr>"
    by (simp add: to_front_def Let_def)
  have "(to_front b s1)\<lparr>bc_lock := False\<rparr> = to_front b s1" using bwfD(1) [OF wf] by (intro bc_lock_id) (simp add: s1_def)
  then have "bc_release (to_front b ?s3) = Ok (to_front b s1)" unfolding e t by (simp add: bc_bracket)
  then show ?thesis
    unfolding brelse_def holds_buf_eq [OF wf h] using z by (simp only: rbind_simps prod.case not_True_eq_False if_False r Let_def a if_True simp_thms)
qed

lemma woken_effect:
  "bwf (s\<lparr>woken := w\<rparr>) = bwf s" "content (s\<lparr>woken := w\<rparr>) = content s" "held (s\<lparr>woken := w\<rparr>) = held s" "dirty (s\<lparr>woken := w\<rparr>) = dirty s"
proof -
  let ?s = "s\<lparr>woken := w\<rparr>"
  show "content ?s = content s" "held ?s = held s" "dirty ?s = dirty s" by (rule core_cong; simp)+
  have "buf_ok ?s = buf_ok s" by (simp add: buf_ok_def fun_eq_iff cong: if_cong)
  then show "bwf ?s = bwf s" by (simp add: bwf_def linked_def)
qed

lemma brelse_spec:
  assumes wf: "bwf s" and h: "held s b = Some bno" and cl: "bno \<in> dirty s \<or> content s bno = memdisk s bno"
  shows "\<exists>s'. brelse b s = Ok s' \<and> bwf s' \<and> held s' = (held s)(b := None) \<and> content s' = content s
    \<and> memdisk s' = memdisk s \<and> dirty s' = dirty s \<and> dwrites s' = dwrites s \<and> benv s' = benv s"
proof -
  note hd = heldD [OF wf h]
  let ?x = "(buf_at s b)\<lparr>b_lock := (b_lock (buf_at s b))\<lparr>sl_locked := 0, sl_pid := 0\<rparr>, b_refcnt := 0\<rparr>"
  let ?s0 = "repl b ?x (memdisk s) (dwrites s) s"
  let ?s1 = "?s0\<lparr>woken := woken s @ [BufChan b]\<rparr>"
  have "brelse b s = Ok (to_front b ?s1)" using brelse_eq [OF wf h] by (simp add: upd_buf_repl)
  moreover have r: "replaceable b ?x (memdisk s) s"
    using wf hd bwfD(3) [OF wf] cl dirty_iff [OF wf hd(1,3)] by (auto simp: replaceable_def buf_ok_def sl_held_upd)
  moreover have wf1: "bwf ?s1" using replaceable_bwf [OF r] by (simp add: woken_effect)
  moreover have "dirty ?s0 = dirty s"
    using replaceable_dirty [OF r] dirty_iff [OF wf hd(1,3)] hd(10) by (auto simp: insert_absorb)
  moreover have "content ?s0 = content s" using replaceable_content [OF r] hd(10,11) by (simp add: fun_upd_same)
  moreover have "benv (to_front b ?s1) = benv s" by (simp add: benv_def)
  ultimately show ?thesis
    using to_front_effect [OF wf1 hd(1)] replaceable_held [OF r] by (simp add: woken_effect)
qed

subsection \<open>The interface the log and the file system rely on\<close>

locale block_cache =
  fixes rd :: "u32 \<Rightarrow> 's \<Rightarrow> (nat \<times> 's) res"
    and wr :: "nat \<Rightarrow> 's \<Rightarrow> 's res"
    and rls :: "nat \<Rightarrow> 's \<Rightarrow> 's res"
    and put :: "nat \<Rightarrow> block \<Rightarrow> 's \<Rightarrow> 's"
    and pn :: "nat \<Rightarrow> 's \<Rightarrow> 's"
    and dat :: "'s \<Rightarrow> nat \<Rightarrow> block"
    and inv :: "'s \<Rightarrow> bool"
    and fit :: "'s \<Rightarrow> u32 \<Rightarrow> bool"
    and hld :: "'s \<Rightarrow> nat \<Rightarrow> u32 option"
    and cont :: "'s \<Rightarrow> u32 \<Rightarrow> block"
    and dsk :: "'s \<Rightarrow> u32 \<Rightarrow> block"
    and drt :: "'s \<Rightarrow> u32 set"
    and wrs :: "'s \<Rightarrow> (u32 \<times> block) list"
    and env :: "'s \<Rightarrow> 'e"
  assumes rd_ok: "inv s \<Longrightarrow> fit s n \<Longrightarrow> n \<notin> ran (hld s) \<Longrightarrow> n \<in> drt s \<or> card (drt s \<union> ran (hld s)) < NBUF \<Longrightarrow>
      \<exists>b s'. rd n s = Ok (b, s') \<and> inv s' \<and> hld s b = None \<and> hld s' = (hld s)(b \<mapsto> n) \<and> cont s' = cont s
        \<and> dsk s' = dsk s \<and> drt s' = drt s \<and> wrs s' = wrs s \<and> env s' = env s"
    and wr_ok: "inv s \<Longrightarrow> hld s b = Some n \<Longrightarrow>
      \<exists>s'. wr b s = Ok s' \<and> inv s' \<and> hld s' = hld s \<and> cont s' = cont s \<and> dsk s' = (dsk s)(n := cont s n)
        \<and> drt s' = drt s - {n} \<and> wrs s' = wrs s @ [(n, cont s n)] \<and> env s' = env s"
    and rls_ok: "inv s \<Longrightarrow> hld s b = Some n \<Longrightarrow> n \<in> drt s \<or> cont s n = dsk s n \<Longrightarrow>
      \<exists>s'. rls b s = Ok s' \<and> inv s' \<and> hld s' = (hld s)(b := None) \<and> cont s' = cont s
        \<and> dsk s' = dsk s \<and> drt s' = drt s \<and> wrs s' = wrs s \<and> env s' = env s"
    and put_ok: "inv s \<Longrightarrow> hld s b = Some n \<Longrightarrow> length d = BSIZE \<Longrightarrow>
      inv (put b d s) \<and> hld (put b d s) = hld s \<and> cont (put b d s) = (cont s)(n := d)
        \<and> dsk (put b d s) = dsk s \<and> drt (put b d s) = drt s \<and> wrs (put b d s) = wrs s \<and> env (put b d s) = env s"
    and pn_ok: "inv s \<Longrightarrow> hld s b = Some n \<Longrightarrow>
      inv (pn b s) \<and> hld (pn b s) = hld s \<and> cont (pn b s) = cont s
        \<and> dsk (pn b s) = dsk s \<and> drt (pn b s) = insert n (drt s) \<and> wrs (pn b s) = wrs s \<and> env (pn b s) = env s"
    and dat_ok: "inv s \<Longrightarrow> hld s b = Some n \<Longrightarrow> dat s b = cont s n"
    and cont_len: "inv s \<Longrightarrow> length (cont s n) = BSIZE"
    and clean: "inv s \<Longrightarrow> n \<notin> drt s \<Longrightarrow> n \<notin> ran (hld s) \<Longrightarrow> cont s n = dsk s n"
    and fit_env: "env s = env s' \<Longrightarrow> fit s = fit s'"
begin

text \<open>No buffer is held, and one more can be.\<close>

definition idle :: "'s \<Rightarrow> bool" where
  "idle s \<longleftrightarrow> inv s \<and> hld s = Map.empty"

lemma read_release:
  assumes "idle s" "fit s n" "n \<in> drt s \<or> card (drt s) < NBUF"
  shows "\<exists>b s1 s'. rd n s = Ok (b, s1) \<and> dat s1 b = cont s n \<and> rls b s1 = Ok s' \<and> idle s' \<and> cont s' = cont s
    \<and> dsk s' = dsk s \<and> drt s' = drt s \<and> wrs s' = wrs s \<and> env s' = env s"
proof -
  obtain b s1 where 1: "rd n s = Ok (b, s1)" "inv s1" "hld s1 = [b \<mapsto> n]" "cont s1 = cont s" "dsk s1 = dsk s" "drt s1 = drt s"
    "wrs s1 = wrs s" "env s1 = env s"
    using assms rd_ok [of s n] by (auto simp: idle_def)
  have "n \<in> drt s1 \<or> cont s1 n = dsk s1 n" using assms(1) clean [of s n] 1 by (auto simp: idle_def)
  then show ?thesis using rls_ok [of s1 b n] dat_ok [of s1 b n] 1 by (auto simp: idle_def)
qed

lemma read_modify_write:
  assumes "idle s" "fit s n" "n \<in> drt s \<or> card (drt s) < NBUF" "\<And>d. length d = BSIZE \<Longrightarrow> length (f d) = BSIZE"
  shows "\<exists>b s1 s2 s'. rd n s = Ok (b, s1) \<and> dat s1 b = cont s n \<and> wr b (put b (f (cont s n)) s1) = Ok s2 \<and> rls b s2 = Ok s'
    \<and> idle s' \<and> cont s' = (cont s)(n := f (cont s n)) \<and> dsk s' = (dsk s)(n := f (cont s n)) \<and> drt s' = drt s - {n}
    \<and> wrs s' = wrs s @ [(n, f (cont s n))] \<and> env s' = env s"
proof -
  obtain b s1 where 1: "rd n s = Ok (b, s1)" "inv s1" "hld s1 = [b \<mapsto> n]" "cont s1 = cont s" "dsk s1 = dsk s" "drt s1 = drt s"
    "wrs s1 = wrs s" "env s1 = env s"
    using assms rd_ok [of s n] by (auto simp: idle_def)
  have len: "length (f (cont s n)) = BSIZE" using assms(1,4) cont_len by (simp add: idle_def)
  let ?p = "put b (f (cont s n)) s1"
  have 2: "inv ?p" "hld ?p b = Some n" "hld ?p = [b \<mapsto> n]" "cont ?p = (cont s)(n := f (cont s n))" "dsk ?p = dsk s" "drt ?p = drt s" "wrs ?p = wrs s" "env ?p = env s"
    using put_ok [OF 1(2) _ len, of b n] 1 by auto
  obtain s2 where 3: "wr b ?p = Ok s2" "inv s2" "hld s2 = [b \<mapsto> n]" "cont s2 = (cont s)(n := f (cont s n))"
    "dsk s2 = (dsk s)(n := f (cont s n))" "drt s2 = drt s - {n}" "wrs s2 = wrs s @ [(n, f (cont s n))]" "env s2 = env s"
    using wr_ok [OF 2(1,2)] 2 by auto
  then show ?thesis using rls_ok [of s2 b n] dat_ok [of s1 b n] 1 by (auto simp: idle_def)
qed

end

interpretation bc: block_cache "bread 1" bwrite brelse set_data pin "\<lambda>s b. b_data (buf_at s b)" bwf fits held content memdisk dirty dwrites benv
proof
  show "length (content s n) = BSIZE" if "bwf s" for s n
  proof (cases "\<exists>i < NBUF. caches s n i")
    case True
    then obtain i where i: "i < NBUF" "caches s n i" by blast
    then show ?thesis using content_cached [OF that i] bwfD(4) [OF that i(1)] by (simp add: buf_ok_def)
  next
    case False
    then show ?thesis using content_uncached [of s n] bwfD(3) [OF that] by auto
  qed
  show "fits s = fits s'" if "benv s = benv s'" for s s' using that by (auto simp: benv_def fits_def)
qed (rule bread_spec bwrite_spec brelse_spec set_data_spec pin_spec clean_content; assumption | auto dest: heldD(11))+

subsection \<open>Initialisation establishes the invariant\<close>

text \<open>The cache before \<^verbatim>\<open>binit\<close>: the zeroed static object, over a disk.\<close>

definition zero_buf :: buf where
  "zero_buf = \<lparr>b_flags = 0, b_dev = 0, b_blockno = 0, b_lock = \<lparr>sl_locked = 0, sl_lk = False, sl_name = [], sl_pid = 0\<rparr>,
     b_refcnt = 0, b_prev = 0, b_next = 0, b_data = replicate BSIZE 0\<rparr>"

definition boot_cache :: "(u32 \<Rightarrow> block) \<Rightarrow> u32 \<Rightarrow> int \<Rightarrow> bst" where
  "boot_cache d n me = binit \<lparr>bc_lock = False, bufs = replicate (Suc NBUF) zero_buf, memdisk = d, disksize = n,
     dwrites = [], cur_pid = me, woken = []\<rparr>"

lemma binit_buf_linked:
  assumes l: "linked s l" and d: "distinct (b # NBUF # l)" and n: "set (b # l) \<subseteq> {..<NBUF}" and len: "length (bufs s) = Suc NBUF"
  shows "linked (binit_buf b s) (b # l)"
proof -
  let ?h = "nexts s NBUF"
  let ?a = "upd_buf b (\<lambda>x. x\<lparr>b_next := ?h\<rparr>) s"
  let ?b = "upd_buf b (\<lambda>x. x\<lparr>b_prev := NBUF\<rparr>) ?a"
  let ?c = "upd_buf b (\<lambda>x. x\<lparr>b_lock := initsleeplock ''buffer''\<rparr>) ?b"
  let ?d = "upd_buf ?h (\<lambda>x. x\<lparr>b_prev := b\<rparr>) ?c"
  have c: "chain (nexts s) NBUF l NBUF" "chain (prevs s) NBUF (rev l) NBUF" using l by (simp_all add: linked_def)
  have h: "?h = last (NBUF # rev l)" using chain_hd [OF c(1)] by (cases l) auto
  have "?h \<in> set (NBUF # rev l)" unfolding h by (rule last_in_set) simp
  then have hb: "?h < length (bufs s)" using n len by auto
  have nb: "b < length (bufs s)" using n len by auto
  have na: "nexts ?a = (nexts s)(b := ?h)" and pa: "prevs ?a = prevs s" using nb by (simp_all add: links_upd)
  have nc: "nexts ?c = (nexts s)(b := ?h)" and pc: "prevs ?c = (prevs s)(b := NBUF)" using nb by (simp_all add: links_upd)
  have hc: "nexts ?c NBUF = ?h" using fun_cong [OF nc, of NBUF] d by simp
  have e: "binit_buf b s = upd_buf NBUF (\<lambda>x. x\<lparr>b_next := b\<rparr>) ?d"
    unfolding binit_buf_def Let_def by (simp only: hc)
  have "nexts ?d = nexts ?c" "prevs ?d = (prevs ?c)(?h := b)" using hb by (auto intro!: links_upd)
  moreover have "nexts (binit_buf b s) = (nexts ?d)(NBUF := b)" "prevs (binit_buf b s) = prevs ?d"
    unfolding e using len by (auto intro!: links_upd)
  ultimately have nx: "nexts (binit_buf b s) = (nexts s)(b := ?h, NBUF := b)" and pv: "prevs (binit_buf b s) = (prevs s)(b := NBUF, ?h := b)"
    by (simp_all only: nc pc)
  have "chain (nexts (binit_buf b s)) NBUF (b # l) NBUF" unfolding nx by (rule chain_push [OF c(1) d])
  moreover have "chain (prevs (binit_buf b s)) NBUF (rev l @ [b]) NBUF"
    unfolding pv h using d by (intro chain_snoc [OF c(2)]) auto
  ultimately show ?thesis by (simp add: linked_def)
qed

lemma binit_buf_core:
  assumes "i < length (bufs s)"
  shows "bcore (buf_at (binit_buf b s) i) = bcore (if i = b then (buf_at s i)\<lparr>b_lock := initsleeplock ''buffer''\<rparr> else buf_at s i)"
  using assms unfolding binit_buf_def Let_def by (auto simp: upd_buf_at bcore_def)

lemma binit_buf_sel [simp]:
  "length (bufs (binit_buf b s)) = length (bufs s)"
  "bc_lock (binit_buf b s) = bc_lock s" "memdisk (binit_buf b s) = memdisk s" "disksize (binit_buf b s) = disksize s"
  "dwrites (binit_buf b s) = dwrites s" "cur_pid (binit_buf b s) = cur_pid s" "woken (binit_buf b s) = woken s"
  by (simp_all add: binit_buf_def Let_def)

lemma binit_fold:
  assumes "k \<le> NBUF" and "length (bufs s) = Suc NBUF" and "linked s []"
    and z: "\<And>i. i < NBUF \<Longrightarrow> bcore (buf_at s i) = bcore zero_buf"
  defines "t \<equiv> fold binit_buf [0..<k] s"
  shows "linked t (rev [0..<k]) \<and> length (bufs t) = Suc NBUF \<and> bc_lock t = bc_lock s \<and> memdisk t = memdisk s
    \<and> disksize t = disksize s \<and> dwrites t = dwrites s \<and> cur_pid t = cur_pid s
    \<and> (\<forall>i < NBUF. bcore (buf_at t i) = bcore (if i < k then zero_buf\<lparr>b_lock := initsleeplock ''buffer''\<rparr> else zero_buf))"
  using assms(1) unfolding t_def
proof (induction k)
  case 0
  then show ?case using assms(2,3) z by simp
next
  case (Suc k)
  let ?t = "fold binit_buf [0..<k] s"
  have ih: "linked ?t (rev [0..<k])" "length (bufs ?t) = Suc NBUF" "bc_lock ?t = bc_lock s" "memdisk ?t = memdisk s"
    "disksize ?t = disksize s" "dwrites ?t = dwrites s" "cur_pid ?t = cur_pid s"
    "\<And>i. i < NBUF \<Longrightarrow> bcore (buf_at ?t i) = bcore (if i < k then zero_buf\<lparr>b_lock := initsleeplock ''buffer''\<rparr> else zero_buf)"
    using Suc by auto
  have "linked (binit_buf k ?t) (k # rev [0..<k])"
    using ih(1,2) Suc.prems by (intro binit_buf_linked) auto
  moreover have "bcore (buf_at (binit_buf k ?t) i) = bcore (if i < Suc k then zero_buf\<lparr>b_lock := initsleeplock ''buffer''\<rparr> else zero_buf)"
    if "i < NBUF" for i
  proof -
    have "bcore ((buf_at ?t i)\<lparr>b_lock := lk\<rparr>) = (bcore (buf_at ?t i))\<lparr>b_lock := lk\<rparr>" for lk by (simp add: bcore_def)
    moreover have "bcore (zero_buf\<lparr>b_lock := lk\<rparr>) = (bcore zero_buf)\<lparr>b_lock := lk\<rparr>" for lk by (simp add: bcore_def)
    ultimately show ?thesis using binit_buf_core [of i ?t k] ih(2) ih(8) [OF that] that by (auto split: if_splits)
  qed
  ultimately show ?case using ih by simp
qed

lemma boot_cache_parts:
  fixes d n me
  defines "t \<equiv> boot_cache d n me"
  shows "linked t (rev [0..<NBUF])" "length (bufs t) = Suc NBUF" "\<not> bc_lock t" "memdisk t = d" "disksize t = n" "dwrites t = []" "cur_pid t = me"
    and "\<And>i. i < NBUF \<Longrightarrow> bcore (buf_at t i) = bcore (zero_buf\<lparr>b_lock := initsleeplock ''buffer''\<rparr>)"
proof -
  let ?b = "\<lparr>bc_lock = False, bufs = replicate (Suc NBUF) zero_buf, memdisk = d, disksize = n, dwrites = [], cur_pid = me, woken = []\<rparr>"
  let ?s = "upd_buf NBUF (\<lambda>x. x\<lparr>b_next := NBUF\<rparr>) (upd_buf NBUF (\<lambda>x. x\<lparr>b_prev := NBUF\<rparr>) ?b)"
  have e: "t = fold binit_buf [0..<NBUF] ?s" by (simp add: t_def boot_cache_def binit_def Let_def)
  have l0: "linked ?s []" by (simp add: linked_def upd_buf_at)
  have z0: "bcore (buf_at ?s i) = bcore zero_buf" if "i < NBUF" for i using that by (simp add: upd_buf_at nth_append del: replicate_Suc)
  show "linked t (rev [0..<NBUF])" "length (bufs t) = Suc NBUF" "\<not> bc_lock t" "memdisk t = d" "disksize t = n" "dwrites t = []" "cur_pid t = me"
    "\<And>i. i < NBUF \<Longrightarrow> bcore (buf_at t i) = bcore (zero_buf\<lparr>b_lock := initsleeplock ''buffer''\<rparr>)"
    using binit_fold [OF order_refl _ l0 z0] unfolding e by simp_all
qed

lemma boot_cache_bwf:
  assumes "\<And>b. length (d b) = BSIZE"
  shows "bwf (boot_cache d n me) \<and> held (boot_cache d n me) = Map.empty \<and> dirty (boot_cache d n me) = {}
    \<and> content (boot_cache d n me) = d \<and> memdisk (boot_cache d n me) = d \<and> benv (boot_cache d n me) = (me, n)
    \<and> dwrites (boot_cache d n me) = []"
proof -
  let ?t = "boot_cache d n me"
  note a = boot_cache_parts(1-7) [of d n me]
  note f = bcoreD [OF boot_cache_parts(8) [of _ d n me]]
  have "buf_ok ?t (buf_at ?t i)" if "i < NBUF" for i
    using f [OF that] by (simp add: buf_ok_def zero_buf_def sl_free_def initsleeplock_def)
  then have "bwf ?t" unfolding bwf_def using a assms f by (auto simp: zero_buf_def intro!: exI [of _ "rev [0..<NBUF]"])
  moreover have "held ?t = Map.empty" "dirty ?t = {}" using f by (auto simp: held_def dirty_def zero_buf_def fun_eq_iff)
  moreover have "content ?t = d"
  proof
    show "content ?t x = d x" for x using content_uncached [of ?t x] f a(4) by (simp add: caches_def zero_buf_def)
  qed
  ultimately show ?thesis using a by (simp add: benv_def)
qed

subsection \<open>Properties\<close>

text \<open>
  C11. \<^verbatim>\<open>bread\<close> is coherent: for a block nobody holds, it returns (given that the block is pinned or
  that fewer than \<^verbatim>\<open>NBUF\<close> blocks are pinned or held) a buffer of that block, valid and locked by
  the caller, with the block's current content, which is the disk's block unless the block is
  dirty. Nothing is written to the disk and no block's content, pin or holder changes.
\<close>
theorem bread_coherent:
  assumes "bwf s" and "n < disksize s" and "n \<notin> ran (held s)" and "n \<in> dirty s \<or> card (dirty s \<union> ran (held s)) < NBUF"
  shows "\<exists>b s'. bread 1 n s = Ok (b, s') \<and> bwf s' \<and> b_blockno (buf_at s' b) = n \<and> b_flags (buf_at s' b) AND B_VALID \<noteq> 0
    \<and> holdingsleep (cur_pid s) (b_lock (buf_at s' b)) = Ok (True, b_lock (buf_at s' b))
    \<and> b_data (buf_at s' b) = content s n \<and> (n \<notin> dirty s \<longrightarrow> b_data (buf_at s' b) = memdisk s n)
    \<and> held s' = (held s)(b \<mapsto> n) \<and> content s' = content s \<and> memdisk s' = memdisk s \<and> dirty s' = dirty s"
proof -
  obtain b s' where b: "bread 1 n s = Ok (b, s')" "bwf s'" "held s' = (held s)(b \<mapsto> n)" "content s' = content s"
    "memdisk s' = memdisk s" "dirty s' = dirty s" "benv s' = benv s"
    using bread_spec [of s n] assms by (auto simp: fits_def)
  have h: "held s' b = Some n" using b(3) by simp
  note hd = heldD [OF b(2) h]
  have "holdingsleep (cur_pid s) (b_lock (buf_at s' b)) = Ok (True, b_lock (buf_at s' b))"
    using sl.holds_held [OF hd(5)] b(7) by (simp add: benv_def)
  moreover have "n \<notin> dirty s \<longrightarrow> content s n = memdisk s n" using clean_content [OF assms(1)] assms(3) by blast
  moreover have "b_flags (buf_at s' b) AND B_VALID \<noteq> 0" using hd(6) by auto
  ultimately show ?thesis using b hd by auto
qed

definition demo_disk :: "u32 \<Rightarrow> block" where
  "demo_disk n = replicate BSIZE (ucast n)"

lemmas demo_boot = boot_cache_bwf [of demo_disk 1000 1, simplified demo_disk_def length_replicate, folded demo_disk_def, OF refl]

theorem bread_coherent_witness:
  "\<exists>b s'. bread 1 2 (boot_cache demo_disk 1000 1) = Ok (b, s') \<and> b_data (buf_at s' b) = replicate BSIZE 2"
  using bread_coherent [of "boot_cache demo_disk 1000 1" 2] demo_boot
  by (auto simp: benv_def NBUF_def MAXOPBLOCKS_def demo_disk_def)

text \<open>
  C34. Buffers are recycled least recently used first. On a miss \<^verbatim>\<open>bget\<close> takes the last buffer of
  the list that is neither held nor dirty, and panics if there is none; \<^verbatim>\<open>brelse\<close> of a held buffer
  moves it to the front of the list and leaves the order of the others alone.
\<close>
theorem buffers_recycled_lru:
  assumes wf: "bwf s" and l: "linked s l" "distinct l" "set l = {0..<NBUF}"
  defines "free \<equiv> (\<lambda>i. b_refcnt (buf_at s i) = 0 \<and> b_flags (buf_at s i) AND B_DIRTY = 0)"
  shows "((\<forall>i < NBUF. \<not> caches s n i) \<longrightarrow> (case find free (rev l) of
             None \<Rightarrow> bget 1 n s = Panic ''bget: no buffers''
           | Some b \<Rightarrow> (\<exists>s'. bget 1 n s = Ok (b, s') \<and> linked s' l)))
    \<and> (\<forall>b m. held s b = Some m \<longrightarrow> (\<exists>s'. brelse b s = Ok s' \<and> linked s' (b # remove1 b l)))"
proof (intro conjI impI allI)
  assume un: "\<forall>i < NBUF. \<not> caches s n i"
  let ?Q = "\<lambda>b. b_dev (buf_at s b) = 1 \<and> b_blockno (buf_at s b) = n"
  have len: "length l = NBUF" using distinct_card [OF l(2)] l(3) by simp
  have w1: "walk (Suc NBUF) (nexts s) NBUF (nexts s NBUF) ?Q = Ok (find ?Q l)"
    by (rule walk_chain) (use l len in \<open>auto simp: linked_def\<close>)
  have w2: "walk (Suc NBUF) (prevs s) NBUF (prevs s NBUF) free = Ok (find free (rev l))"
    by (rule walk_chain) (use l len in \<open>auto simp: linked_def\<close>)
  have none: "find ?Q l = None" using un l(3) by (auto simp: find_None_iff caches_def)
  have a: "bc_acquire s = Ok (s\<lparr>bc_lock := True\<rparr>)" using bwfD(1) [OF wf] by (simp add: bc_acquire_def)
  show "case find free (rev l) of None \<Rightarrow> bget 1 n s = Panic ''bget: no buffers''
           | Some b \<Rightarrow> (\<exists>s'. bget 1 n s = Ok (b, s') \<and> linked s' l)"
  proof (cases "find free (rev l)")
    case None
    then show ?thesis using w1 w2 none a by (simp add: bget_def free_def [symmetric])
  next
    case (Some b)
    then have b: "free b" "b < NBUF" using find_SomeD [of free "rev l" b] l(3) by auto
    have "sl_free (b_lock (buf_at s b))" using bwfD(4) [OF wf b(2)] b(1) by (simp add: free_def buf_ok_def)
    then show ?thesis using w1 w2 none a Some bwfD(1,2) [OF wf] b(2) l(1)
      by (simp add: bget_def bc_bracket bc_lock_id lock_buf_eq upd_buf_at upd_buf_upd Let_def free_def [symmetric])
        (auto simp: linked_def upd_buf_at elim!: chain_cong)
  qed
next
  fix b m
  assume h: "held s b = Some m"
  note hd = heldD [OF wf h]
  obtain xs ys where s: "l = xs @ b # ys" using l(3) hd(1) by (metis atLeastLessThan_iff split_list zero_le)
  have r: "remove1 b l = xs @ ys" using l(2) s by (simp add: remove1_append)
  let ?s = "(upd_buf b (\<lambda>x. x\<lparr>b_lock := (b_lock x)\<lparr>sl_locked := 0, sl_pid := 0\<rparr>, b_refcnt := 0\<rparr>) s)\<lparr>woken := woken s @ [BufChan b]\<rparr>"
  have "linked ?s l" using l(1) by (auto simp: linked_def upd_buf_at elim!: chain_cong)
  then have "linked (to_front b ?s) (b # xs @ ys)"
    using l s bwfD(2) [OF wf] by (intro to_front_linked) auto
  then show "\<exists>s'. brelse b s = Ok s' \<and> linked s' (b # remove1 b l)" using brelse_eq [OF wf h] r by auto
qed

theorem buffers_recycled_lru_witness:
  "\<exists>s'. bget 1 2 (boot_cache demo_disk 1000 1) = Ok (0, s') \<and> linked s' (rev [0..<NBUF])"
proof -
  let ?t = "boot_cache demo_disk 1000 1"
  note f = bcoreD [OF boot_cache_parts(8) [of _ demo_disk 1000 1]]
  have "\<forall>i < NBUF. \<not> caches ?t 2 i" using f by (simp add: caches_def zero_buf_def)
  moreover have "find (\<lambda>i. b_refcnt (buf_at ?t i) = 0 \<and> b_flags (buf_at ?t i) AND B_DIRTY = 0) (rev (rev [0..<NBUF])) = Some 0"
    using f [of 0] by (simp add: upt_conv_Cons zero_buf_def NBUF_def MAXOPBLOCKS_def)
  ultimately show ?thesis
    using buffers_recycled_lru [of ?t "rev [0..<NBUF]" 2] demo_boot boot_cache_parts(1) [of demo_disk 1000 1] by auto
qed

end
