(* ===== verification/Bytes.thy ===== *)
theory Bytes
  imports Xv6_Prelude
begin

section \<open>Structures laid over the bytes of a block\<close>

text \<open>
  The kernel reads and writes integers inside disk blocks by casting a pointer into the block.
  \<open>get16\<close>, \<open>get32\<close>, \<open>put16\<close> and \<open>put32\<close> are those accesses on a list of bytes, little-endian as on
  the x86.
\<close>

unbundle bit_operations_syntax

definition get16 :: "u8 list \<Rightarrow> nat \<Rightarrow> u16" where
  "get16 bs i = ucast (bs ! i) OR push_bit 8 (ucast (bs ! (i + 1)))"

definition put16 :: "nat \<Rightarrow> u16 \<Rightarrow> u8 list \<Rightarrow> u8 list" where
  "put16 i w bs = bs[i := ucast w, i + 1 := ucast (drop_bit 8 w)]"

definition get32 :: "u8 list \<Rightarrow> nat \<Rightarrow> u32" where
  "get32 bs i = ucast (bs ! i) OR push_bit 8 (ucast (bs ! (i + 1))) OR push_bit 16 (ucast (bs ! (i + 2)))
     OR push_bit 24 (ucast (bs ! (i + 3)))"

definition put32 :: "nat \<Rightarrow> u32 \<Rightarrow> u8 list \<Rightarrow> u8 list" where
  "put32 i w bs = bs[i := ucast w, i + 1 := ucast (drop_bit 8 w), i + 2 := ucast (drop_bit 16 w), i + 3 := ucast (drop_bit 24 w)]"

lemma length_put [simp]: "length (put16 i v bs) = length bs" "length (put32 i w bs) = length bs"
  by (simp_all add: put16_def put32_def)

lemma get16_put16 [simp]: "i + 1 < length bs \<Longrightarrow> get16 (put16 i w bs) i = w"
  by (rule bit_word_eqI) (auto simp: get16_def put16_def nth_list_update bit_simps)

lemma get32_put32 [simp]: "i + 3 < length bs \<Longrightarrow> get32 (put32 i w bs) i = w"
proof (rule bit_word_eqI)
  fix n
  assume i: "i + 3 < length bs" and n: "n < LENGTH(32)"
  have "24 \<le> n \<Longrightarrow> 24 + (n - 24) = n" "16 \<le> n \<Longrightarrow> 16 + (n - 16) = n" "8 \<le> n \<Longrightarrow> 8 + (n - 8) = n" by simp_all
  then show "bit (get32 (put32 i w bs) i) n = bit w n"
    using i n by (cases "n < 8"; cases "n < 16"; cases "n < 24") (auto simp: get32_def put32_def nth_list_update bit_simps)
qed

lemma get32_put32_other [simp]: "j + 4 \<le> i \<or> i + 4 \<le> j \<Longrightarrow> get32 (put32 i w bs) j = get32 bs j"
  by (auto simp: get32_def put32_def nth_list_update)

lemma get16_put16_other [simp]: "j + 2 \<le> i \<or> i + 2 \<le> j \<Longrightarrow> get16 (put16 i w bs) j = get16 bs j"
  by (auto simp: get16_def put16_def nth_list_update)

lemma get16_put32_other [simp]: "j + 2 \<le> i \<or> i + 4 \<le> j \<Longrightarrow> get16 (put32 i w bs) j = get16 bs j"
  by (auto simp: get16_def put32_def nth_list_update)

lemma get32_put16_other [simp]: "j + 4 \<le> i \<or> i + 2 \<le> j \<Longrightarrow> get32 (put16 i w bs) j = get32 bs j"
  by (auto simp: get32_def put16_def nth_list_update)

lemma put32_nth_other: "k < i \<or> i + 4 \<le> k \<Longrightarrow> put32 i w bs ! k = bs ! k"
  by (auto simp: put32_def nth_list_update)

lemma put16_nth_other: "k < i \<or> i + 2 \<le> k \<Longrightarrow> put16 i w bs ! k = bs ! k"
  by (auto simp: put16_def nth_list_update)

end
