(* ===== verification/Log.thy ===== *)
theory Log
  imports Bio Bytes
begin

section \<open>The write-ahead log (\<^verbatim>\<open>log.c\<close>)\<close>

text \<open>
  The state is the record of the log and the state of the buffer cache. A call that has to sleep
  until a commit ends is \<open>Blocked\<close>. An index past the array \<^verbatim>\<open>block\<close> of the in-memory header is a
  \<open>Fault\<close>. The superblock and \<^verbatim>\<open>readsb\<close> (\<^verbatim>\<open>fs.c\<close>) are here because \<^verbatim>\<open>initlog\<close> reads them.
\<close>

record superblock =
  sb_size :: u32
  sb_nblocks :: u32
  sb_ninodes :: u32
  sb_nlog :: u32
  sb_logstart :: u32
  sb_inodestart :: u32
  sb_bmapstart :: u32

definition decode_sb :: "block \<Rightarrow> superblock" where
  "decode_sb d = \<lparr>sb_size = get32 d 0, sb_nblocks = get32 d 4, sb_ninodes = get32 d 8, sb_nlog = get32 d 12,
     sb_logstart = get32 d 16, sb_inodestart = get32 d 20, sb_bmapstart = get32 d 24\<rparr>"

definition readsb :: "u32 \<Rightarrow> bst \<Rightarrow> (superblock \<times> bst) res" where
  "readsb dev s =
     rbind (bread dev 1 s) (\<lambda>(bp, s).
     let sb = decode_sb (b_data (buf_at s bp)) in
     rbind (brelse bp s) (\<lambda>s. Ok (sb, s)))"

record log =
  lg_lock :: bool
  lg_start :: u32
  lg_size :: int
  lg_outstanding :: int
  lg_committing :: bool
  lg_dev :: u32
  lh_n :: int
  lh_block :: "u32 list"

definition lg_acquire :: "log \<Rightarrow> log res" where
  "lg_acquire lg = rbind (lk_acquire (lg_lock lg)) (\<lambda>l. Ok (lg\<lparr>lg_lock := l\<rparr>))"

definition lg_release :: "log \<Rightarrow> log res" where
  "lg_release lg = rbind (lk_release (lg_lock lg)) (\<lambda>l. Ok (lg\<lparr>lg_lock := l\<rparr>))"

definition lh_get :: "log \<Rightarrow> nat \<Rightarrow> u32 res" where
  "lh_get lg i = (if i < length (lh_block lg) then Ok (lh_block lg ! i) else Fault)"

definition lh_put :: "nat \<Rightarrow> u32 \<Rightarrow> log \<Rightarrow> log res" where
  "lh_put i w lg = (if i < length (lh_block lg) then Ok (lg\<lparr>lh_block := (lh_block lg)[i := w]\<rparr>) else Fault)"

definition log_blk :: "log \<Rightarrow> nat \<Rightarrow> u32" where
  "log_blk lg i = lg_start lg + of_nat i + 1"

subsection \<open>Moving blocks between the cache, the log and the disk\<close>

definition install_one :: "log \<Rightarrow> nat \<Rightarrow> bst \<Rightarrow> bst res" where
  "install_one lg i s =
     rbind (bread (lg_dev lg) (log_blk lg i) s) (\<lambda>(lbuf, s).
     rbind (lh_get lg i) (\<lambda>n.
     rbind (bread (lg_dev lg) n s) (\<lambda>(dbuf, s).
     let s = set_data dbuf (b_data (buf_at s lbuf)) s in
     rbind (bwrite dbuf s) (\<lambda>s.
     rbind (brelse lbuf s) (\<lambda>s.
     brelse dbuf s)))))"

fun install_loop :: "nat list \<Rightarrow> log \<Rightarrow> bst \<Rightarrow> bst res" where
  "install_loop [] lg s = Ok s"
| "install_loop (i # is) lg s = rbind (install_one lg i s) (\<lambda>s. install_loop is lg s)"

definition install_trans :: "log \<Rightarrow> bst \<Rightarrow> bst res" where
  "install_trans lg s = install_loop [0..<nat (lh_n lg)] lg s"

fun read_blocks :: "nat list \<Rightarrow> block \<Rightarrow> log \<Rightarrow> log res" where
  "read_blocks [] d lg = Ok lg"
| "read_blocks (i # is) d lg = rbind (lh_put i (get32 d (4 + 4 * i)) lg) (\<lambda>lg. read_blocks is d lg)"

definition read_head :: "log \<Rightarrow> bst \<Rightarrow> (log \<times> bst) res" where
  "read_head lg s =
     rbind (bread (lg_dev lg) (lg_start lg) s) (\<lambda>(b, s).
     let d = b_data (buf_at s b); lg = lg\<lparr>lh_n := sint (get32 d 0)\<rparr> in
     rbind (read_blocks [0..<nat (lh_n lg)] d lg) (\<lambda>lg.
     rbind (brelse b s) (\<lambda>s. Ok (lg, s))))"

fun write_blocks :: "nat list \<Rightarrow> log \<Rightarrow> block \<Rightarrow> block res" where
  "write_blocks [] lg d = Ok d"
| "write_blocks (i # is) lg d = rbind (lh_get lg i) (\<lambda>w. write_blocks is lg (put32 (4 + 4 * i) w d))"

definition write_head :: "log \<Rightarrow> bst \<Rightarrow> bst res" where
  "write_head lg s =
     rbind (bread (lg_dev lg) (lg_start lg) s) (\<lambda>(b, s).
     let d = put32 0 (word_of_int (lh_n lg)) (b_data (buf_at s b)) in
     rbind (write_blocks [0..<nat (lh_n lg)] lg d) (\<lambda>d.
     let s = set_data b d s in
     rbind (bwrite b s) (\<lambda>s. brelse b s)))"

definition recover_from_log :: "log \<Rightarrow> bst \<Rightarrow> (log \<times> bst) res" where
  "recover_from_log lg s =
     rbind (read_head lg s) (\<lambda>(lg, s).
     rbind (install_trans lg s) (\<lambda>s.
     let lg = lg\<lparr>lh_n := 0\<rparr> in
     rbind (write_head lg s) (\<lambda>s. Ok (lg, s))))"

definition initlog :: "u32 \<Rightarrow> log \<Rightarrow> bst \<Rightarrow> (log \<times> bst) res" where
  "initlog dev lg s =
     (if 4 + 4 * LOGSIZE \<ge> BSIZE then Panic ''initlog: too big logheader''
      else
        let lg = lg\<lparr>lg_lock := False\<rparr> in
        rbind (readsb dev s) (\<lambda>(sb, s).
        let lg = lg\<lparr>lg_start := sb_logstart sb, lg_size := sint (sb_nlog sb), lg_dev := dev\<rparr> in
        recover_from_log lg s))"

definition write_one :: "log \<Rightarrow> nat \<Rightarrow> bst \<Rightarrow> bst res" where
  "write_one lg i s =
     rbind (bread (lg_dev lg) (log_blk lg i) s) (\<lambda>(to, s).
     rbind (lh_get lg i) (\<lambda>n.
     rbind (bread (lg_dev lg) n s) (\<lambda>(from, s).
     let s = set_data to (b_data (buf_at s from)) s in
     rbind (bwrite to s) (\<lambda>s.
     rbind (brelse from s) (\<lambda>s.
     brelse to s)))))"

fun write_loop :: "nat list \<Rightarrow> log \<Rightarrow> bst \<Rightarrow> bst res" where
  "write_loop [] lg s = Ok s"
| "write_loop (i # is) lg s = rbind (write_one lg i s) (\<lambda>s. write_loop is lg s)"

definition write_log :: "log \<Rightarrow> bst \<Rightarrow> bst res" where
  "write_log lg s = write_loop [0..<nat (lh_n lg)] lg s"

definition commit :: "log \<Rightarrow> bst \<Rightarrow> (log \<times> bst) res" where
  "commit lg s =
     (if lh_n lg > 0 then
        rbind (write_log lg s) (\<lambda>s.
        rbind (write_head lg s) (\<lambda>s.
        rbind (install_trans lg s) (\<lambda>s.
        let lg = lg\<lparr>lh_n := 0\<rparr> in
        rbind (write_head lg s) (\<lambda>s. Ok (lg, s)))))
      else Ok (lg, s))"

subsection \<open>Transactions\<close>

definition begin_op :: "log \<Rightarrow> bst \<Rightarrow> (log \<times> bst) res" where
  "begin_op lg s =
     rbind (lg_acquire lg) (\<lambda>lg.
     if lg_committing lg then Blocked
     else if lh_n lg + (lg_outstanding lg + 1) * int MAXOPBLOCKS > int LOGSIZE then Blocked
     else
       let lg = lg\<lparr>lg_outstanding := lg_outstanding lg + 1\<rparr> in
       rbind (lg_release lg) (\<lambda>lg. Ok (lg, s)))"

definition end_op :: "log \<Rightarrow> bst \<Rightarrow> (log \<times> bst) res" where
  "end_op lg s =
     rbind (lg_acquire lg) (\<lambda>lg.
     let lg = lg\<lparr>lg_outstanding := lg_outstanding lg - 1\<rparr> in
     if lg_committing lg then Panic ''log.committing''
     else
       let do_commit = (lg_outstanding lg = 0);
           (lg, s) = (if do_commit then (lg\<lparr>lg_committing := True\<rparr>, s) else (lg, s\<lparr>woken := woken s @ [LogChan]\<rparr>))
       in
       rbind (lg_release lg) (\<lambda>lg.
       if do_commit then
         rbind (commit lg s) (\<lambda>(lg, s).
         rbind (lg_acquire lg) (\<lambda>lg.
         let lg = lg\<lparr>lg_committing := False\<rparr>; s = s\<lparr>woken := woken s @ [LogChan]\<rparr> in
         rbind (lg_release lg) (\<lambda>lg. Ok (lg, s))))
       else Ok (lg, s)))"

definition absorb :: "log \<Rightarrow> u32 \<Rightarrow> nat" where
  "absorb lg n = (case find (\<lambda>i. lh_block lg ! i = n) [0..<nat (lh_n lg)] of Some i \<Rightarrow> i | None \<Rightarrow> nat (lh_n lg))"

definition log_write :: "nat \<Rightarrow> log \<Rightarrow> bst \<Rightarrow> (log \<times> bst) res" where
  "log_write b lg s =
     (if lh_n lg \<ge> int LOGSIZE \<or> lh_n lg \<ge> lg_size lg - 1 then Panic ''too big a transaction''
      else if lg_outstanding lg < 1 then Panic ''log_write outside of trans''
      else
        rbind (lg_acquire lg) (\<lambda>lg.
        let i = absorb lg (b_blockno (buf_at s b)) in
        rbind (lh_put i (b_blockno (buf_at s b)) lg) (\<lambda>lg.
        let lg = (if int i = lh_n lg then lg\<lparr>lh_n := lh_n lg + 1\<rparr> else lg);
            s = pin b s
        in rbind (lg_release lg) (\<lambda>lg. Ok (lg, s)))))"

end
