(* ===== verification/Fs.thy ===== *)
theory Fs
  imports Log
begin

section \<open>The file system (\<^verbatim>\<open>fs.c\<close>)\<close>

text \<open>
  Blocks, inodes, directories and path names, over the log and the buffer cache. Disk structures
  are read and written inside the bytes of their block. A pointer into the inode cache is an
  index; the null pointer is \<open>None\<close>. \<^verbatim>\<open>readi\<close> returns the bytes it stores at \<^verbatim>\<open>dst\<close>, and \<^verbatim>\<open>writei\<close>
  takes the bytes at \<^verbatim>\<open>src\<close>. The table \<^verbatim>\<open>devsw\<close> of device functions is a parameter.
\<close>

definition BPB :: nat where "BPB = BSIZE * 8"
definition NDIRECT :: nat where "NDIRECT = 12"
definition NINDIRECT :: nat where "NINDIRECT = BSIZE div 4"
definition MAXFILE :: nat where "MAXFILE = NDIRECT + NINDIRECT"
definition DINODE_SIZE :: nat where "DINODE_SIZE = 64"
definition IPB :: nat where "IPB = BSIZE div DINODE_SIZE"
definition DIRSIZ :: nat where "DIRSIZ = 14"
definition DIRENT_SIZE :: nat where "DIRENT_SIZE = 16"
definition ROOTINO :: u32 where "ROOTINO = 1"
definition T_DIR :: u16 where "T_DIR = 1"
definition T_FILE :: u16 where "T_FILE = 2"
definition T_DEV :: u16 where "T_DEV = 3"

record inode =
  i_dev :: u32
  i_inum :: u32
  i_ref :: int
  i_lock :: sleeplock
  i_valid :: bool
  i_type :: u16
  i_major :: u16
  i_minor :: u16
  i_nlink :: u16
  i_size :: u32
  i_addrs :: "u32 list"

record fsst =
  fs_b :: bst
  fs_log :: log
  fs_sb :: superblock
  ic_lock :: bool
  inodes :: "inode list"

record devsw_ops =
  dv_read :: "(nat \<Rightarrow> u32 \<Rightarrow> fsst \<Rightarrow> (int \<times> u8 list \<times> fsst) res) option"
  dv_write :: "(nat \<Rightarrow> u8 list \<Rightarrow> fsst \<Rightarrow> (int \<times> fsst) res) option"

abbreviation ino :: "fsst \<Rightarrow> nat \<Rightarrow> inode" where
  "ino s ip \<equiv> inodes s ! ip"

definition upd_ino :: "nat \<Rightarrow> (inode \<Rightarrow> inode) \<Rightarrow> fsst \<Rightarrow> fsst" where
  "upd_ino ip f s = s\<lparr>inodes := (inodes s)[ip := f (inodes s ! ip)]\<rparr>"

subsection \<open>The calls into the cache and the log\<close>

definition fs_bread :: "u32 \<Rightarrow> u32 \<Rightarrow> fsst \<Rightarrow> (nat \<times> fsst) res" where
  "fs_bread dev n s = rbind (bread dev n (fs_b s)) (\<lambda>(bp, b). Ok (bp, s\<lparr>fs_b := b\<rparr>))"

definition fs_brelse :: "nat \<Rightarrow> fsst \<Rightarrow> fsst res" where
  "fs_brelse bp s = rbind (brelse bp (fs_b s)) (\<lambda>b. Ok (s\<lparr>fs_b := b\<rparr>))"

definition fs_log_write :: "nat \<Rightarrow> fsst \<Rightarrow> fsst res" where
  "fs_log_write bp s = rbind (log_write bp (fs_log s) (fs_b s)) (\<lambda>(lg, b). Ok (s\<lparr>fs_log := lg, fs_b := b\<rparr>))"

definition fs_data :: "fsst \<Rightarrow> nat \<Rightarrow> block" where
  "fs_data s bp = b_data (buf_at (fs_b s) bp)"

definition fs_set :: "nat \<Rightarrow> block \<Rightarrow> fsst \<Rightarrow> fsst" where
  "fs_set bp d s = s\<lparr>fs_b := set_data bp d (fs_b s)\<rparr>"

definition ic_acquire :: "fsst \<Rightarrow> fsst res" where
  "ic_acquire s = rbind (lk_acquire (ic_lock s)) (\<lambda>l. Ok (s\<lparr>ic_lock := l\<rparr>))"

definition ic_release :: "fsst \<Rightarrow> fsst res" where
  "ic_release s = rbind (lk_release (ic_lock s)) (\<lambda>l. Ok (s\<lparr>ic_lock := l\<rparr>))"

definition lock_inode :: "nat \<Rightarrow> fsst \<Rightarrow> fsst res" where
  "lock_inode ip s =
     rbind (acquiresleep (cur_pid (fs_b s)) (i_lock (ino s ip))) (\<lambda>lk. Ok (upd_ino ip (\<lambda>x. x\<lparr>i_lock := lk\<rparr>) s))"

definition unlock_inode :: "nat \<Rightarrow> fsst \<Rightarrow> fsst res" where
  "unlock_inode ip s =
     rbind (releasesleep (InodeChan ip) (i_lock (ino s ip)) (woken (fs_b s))) (\<lambda>(lk, w).
     Ok ((upd_ino ip (\<lambda>x. x\<lparr>i_lock := lk\<rparr>) s)\<lparr>fs_b := (fs_b s)\<lparr>woken := w\<rparr>\<rparr>))"

subsection \<open>Blocks\<close>

definition bzero :: "u32 \<Rightarrow> u32 \<Rightarrow> fsst \<Rightarrow> fsst res" where
  "bzero dev bno s =
     rbind (fs_bread dev bno s) (\<lambda>(bp, s).
     let s = fs_set bp (replicate BSIZE 0) s in
     rbind (fs_log_write bp s) (\<lambda>s. fs_brelse bp s))"

definition BBLOCK :: "nat \<Rightarrow> superblock \<Rightarrow> u32" where
  "BBLOCK b sb = of_nat (b div BPB) + sb_bmapstart sb"

definition bit_mask :: "nat \<Rightarrow> u8" where
  "bit_mask bi = push_bit (bi mod 8) 1"

definition bit_used :: "block \<Rightarrow> nat \<Rightarrow> bool" where
  "bit_used d bi \<longleftrightarrow> (d ! (bi div 8)) AND bit_mask bi \<noteq> 0"

definition bit_set :: "nat \<Rightarrow> block \<Rightarrow> block" where
  "bit_set bi d = d[bi div 8 := (d ! (bi div 8)) OR bit_mask bi]"

definition bit_clear :: "nat \<Rightarrow> block \<Rightarrow> block" where
  "bit_clear bi d = d[bi div 8 := (d ! (bi div 8)) AND NOT (bit_mask bi)]"

fun balloc_loop :: "nat list \<Rightarrow> u32 \<Rightarrow> fsst \<Rightarrow> (u32 \<times> fsst) res" where
  "balloc_loop [] dev s = Panic ''balloc: out of blocks''"
| "balloc_loop (b # bs) dev s =
     rbind (fs_bread dev (BBLOCK b (fs_sb s)) s) (\<lambda>(bp, s).
     case find (\<lambda>bi. \<not> bit_used (fs_data s bp) bi) [0..<min BPB (unat (sb_size (fs_sb s)) - b)] of
       Some bi \<Rightarrow>
         let s = fs_set bp (bit_set bi (fs_data s bp)) s in
         rbind (fs_log_write bp s) (\<lambda>s.
         rbind (fs_brelse bp s) (\<lambda>s.
         rbind (bzero dev (of_nat (b + bi)) s) (\<lambda>s.
         Ok (of_nat (b + bi), s))))
     | None \<Rightarrow> rbind (fs_brelse bp s) (\<lambda>s. balloc_loop bs dev s))"

definition balloc :: "u32 \<Rightarrow> fsst \<Rightarrow> (u32 \<times> fsst) res" where
  "balloc dev s = balloc_loop (map (\<lambda>k. k * BPB) [0..<(unat (sb_size (fs_sb s)) + BPB - 1) div BPB]) dev s"

definition bfree :: "u32 \<Rightarrow> u32 \<Rightarrow> fsst \<Rightarrow> fsst res" where
  "bfree dev b s =
     rbind (fs_bread dev (BBLOCK (unat b) (fs_sb s)) s) (\<lambda>(bp, s).
     let bi = unat b mod BPB in
     if \<not> bit_used (fs_data s bp) bi then Panic ''freeing free block''
     else
       let s = fs_set bp (bit_clear bi (fs_data s bp)) s in
       rbind (fs_log_write bp s) (\<lambda>s. fs_brelse bp s))"

subsection \<open>Inodes on disk\<close>

record dinode =
  d_type :: u16
  d_major :: u16
  d_minor :: u16
  d_nlink :: u16
  d_size :: u32
  d_addrs :: "u32 list"

definition IBLOCK :: "u32 \<Rightarrow> superblock \<Rightarrow> u32" where
  "IBLOCK i sb = of_nat (unat i div IPB) + sb_inodestart sb"

definition dinode_off :: "u32 \<Rightarrow> nat" where
  "dinode_off inum = DINODE_SIZE * (unat inum mod IPB)"

definition get_dinode :: "block \<Rightarrow> nat \<Rightarrow> dinode" where
  "get_dinode d off = \<lparr>d_type = get16 d off, d_major = get16 d (off + 2), d_minor = get16 d (off + 4), d_nlink = get16 d (off + 6),
     d_size = get32 d (off + 8), d_addrs = map (\<lambda>i. get32 d (off + 12 + 4 * i)) [0..<NDIRECT + 1]\<rparr>"

definition put_addrs :: "nat \<Rightarrow> u32 list \<Rightarrow> block \<Rightarrow> block" where
  "put_addrs off as d = fold (\<lambda>i d. put32 (off + 4 * i) (as ! i) d) [0..<NDIRECT + 1] d"

definition put_dinode :: "nat \<Rightarrow> dinode \<Rightarrow> block \<Rightarrow> block" where
  "put_dinode off x d =
     put_addrs (off + 12) (d_addrs x)
       (put32 (off + 8) (d_size x) (put16 (off + 6) (d_nlink x) (put16 (off + 4) (d_minor x)
         (put16 (off + 2) (d_major x) (put16 off (d_type x) d)))))"

definition zero_bytes :: "nat \<Rightarrow> nat \<Rightarrow> block \<Rightarrow> block" where
  "zero_bytes off n d = take off d @ replicate n 0 @ drop (off + n) d"

subsection \<open>The inode cache\<close>

definition iinit :: "u32 \<Rightarrow> fsst \<Rightarrow> fsst res" where
  "iinit dev s =
     (let s = s\<lparr>ic_lock := False\<rparr>;
          s = s\<lparr>inodes := map (\<lambda>x. x\<lparr>i_lock := initsleeplock ''inode''\<rparr>) (inodes s)\<rparr> in
      rbind (readsb dev (fs_b s)) (\<lambda>(sb, b). Ok (s\<lparr>fs_b := b, fs_sb := sb\<rparr>)))"

fun iget_scan :: "nat list \<Rightarrow> nat option \<Rightarrow> u32 \<Rightarrow> u32 \<Rightarrow> fsst \<Rightarrow> nat option \<times> nat option" where
  "iget_scan [] free1 dev inum s = (None, free1)"
| "iget_scan (ip # ips) free1 dev inum s =
     (if i_ref (ino s ip) > 0 \<and> i_dev (ino s ip) = dev \<and> i_inum (ino s ip) = inum then (Some ip, free1)
      else iget_scan ips (if free1 = None \<and> i_ref (ino s ip) = 0 then Some ip else free1) dev inum s)"

definition iget :: "u32 \<Rightarrow> u32 \<Rightarrow> fsst \<Rightarrow> (nat \<times> fsst) res" where
  "iget dev inum s =
     rbind (ic_acquire s) (\<lambda>s.
     case iget_scan [0..<NINODE] None dev inum s of
       (Some ip, _) \<Rightarrow>
         let s = upd_ino ip (\<lambda>x. x\<lparr>i_ref := i_ref x + 1\<rparr>) s in
         rbind (ic_release s) (\<lambda>s. Ok (ip, s))
     | (None, None) \<Rightarrow> Panic ''iget: no inodes''
     | (None, Some ip) \<Rightarrow>
         let s = upd_ino ip (\<lambda>x. x\<lparr>i_dev := dev, i_inum := inum, i_ref := 1, i_valid := False\<rparr>) s in
         rbind (ic_release s) (\<lambda>s. Ok (ip, s)))"

definition idup :: "nat \<Rightarrow> fsst \<Rightarrow> (nat \<times> fsst) res" where
  "idup ip s =
     rbind (ic_acquire s) (\<lambda>s.
     let s = upd_ino ip (\<lambda>x. x\<lparr>i_ref := i_ref x + 1\<rparr>) s in
     rbind (ic_release s) (\<lambda>s. Ok (ip, s)))"

fun ialloc_loop :: "nat list \<Rightarrow> u32 \<Rightarrow> u16 \<Rightarrow> fsst \<Rightarrow> (nat \<times> fsst) res" where
  "ialloc_loop [] dev ty s = Panic ''ialloc: no inodes''"
| "ialloc_loop (inum # is) dev ty s =
     rbind (fs_bread dev (IBLOCK (of_nat inum) (fs_sb s)) s) (\<lambda>(bp, s).
     let off = dinode_off (of_nat inum) in
     if get16 (fs_data s bp) off = 0 then
       let s = fs_set bp (put16 off ty (zero_bytes off DINODE_SIZE (fs_data s bp))) s in
       rbind (fs_log_write bp s) (\<lambda>s.
       rbind (fs_brelse bp s) (\<lambda>s.
       iget dev (of_nat inum) s))
     else rbind (fs_brelse bp s) (\<lambda>s. ialloc_loop is dev ty s))"

definition ialloc :: "u32 \<Rightarrow> u16 \<Rightarrow> fsst \<Rightarrow> (nat \<times> fsst) res" where
  "ialloc dev ty s = ialloc_loop [1..<unat (sb_ninodes (fs_sb s))] dev ty s"

definition dinode_of :: "inode \<Rightarrow> dinode" where
  "dinode_of x = \<lparr>d_type = i_type x, d_major = i_major x, d_minor = i_minor x, d_nlink = i_nlink x,
     d_size = i_size x, d_addrs = i_addrs x\<rparr>"

definition load_dinode :: "dinode \<Rightarrow> inode \<Rightarrow> inode" where
  "load_dinode d x = x\<lparr>i_type := d_type d, i_major := d_major d, i_minor := d_minor d, i_nlink := d_nlink d,
     i_size := d_size d, i_addrs := d_addrs d\<rparr>"

definition iupdate :: "nat \<Rightarrow> fsst \<Rightarrow> fsst res" where
  "iupdate ip s =
     rbind (fs_bread (i_dev (ino s ip)) (IBLOCK (i_inum (ino s ip)) (fs_sb s)) s) (\<lambda>(bp, s).
     let s = fs_set bp (put_dinode (dinode_off (i_inum (ino s ip))) (dinode_of (ino s ip)) (fs_data s bp)) s in
     rbind (fs_log_write bp s) (\<lambda>s. fs_brelse bp s))"

definition ilock :: "nat option \<Rightarrow> fsst \<Rightarrow> fsst res" where
  "ilock ipo s =
     (case ipo of None \<Rightarrow> Panic ''ilock'' | Some ip \<Rightarrow>
      if i_ref (ino s ip) < 1 then Panic ''ilock''
      else
        rbind (lock_inode ip s) (\<lambda>s.
        if i_valid (ino s ip) then Ok s
        else
          rbind (fs_bread (i_dev (ino s ip)) (IBLOCK (i_inum (ino s ip)) (fs_sb s)) s) (\<lambda>(bp, s).
          let s = upd_ino ip (load_dinode (get_dinode (fs_data s bp) (dinode_off (i_inum (ino s ip))))) s in
          rbind (fs_brelse bp s) (\<lambda>s.
          let s = upd_ino ip (\<lambda>x. x\<lparr>i_valid := True\<rparr>) s in
          if i_type (ino s ip) = 0 then Panic ''ilock: no type'' else Ok s))))"

definition iunlock :: "nat option \<Rightarrow> fsst \<Rightarrow> fsst res" where
  "iunlock ipo s =
     (case ipo of None \<Rightarrow> Panic ''iunlock'' | Some ip \<Rightarrow>
      rbind (holdingsleep (cur_pid (fs_b s)) (i_lock (ino s ip))) (\<lambda>(h, lk).
      let s = upd_ino ip (\<lambda>x. x\<lparr>i_lock := lk\<rparr>) s in
      if \<not> h \<or> i_ref (ino s ip) < 1 then Panic ''iunlock''
      else unlock_inode ip s))"

subsection \<open>Truncating and dropping inodes\<close>

fun trunc_direct :: "nat list \<Rightarrow> nat \<Rightarrow> fsst \<Rightarrow> fsst res" where
  "trunc_direct [] ip s = Ok s"
| "trunc_direct (i # is) ip s =
     (if i_addrs (ino s ip) ! i \<noteq> 0 then
        rbind (bfree (i_dev (ino s ip)) (i_addrs (ino s ip) ! i) s) (\<lambda>s.
        trunc_direct is ip (upd_ino ip (\<lambda>x. x\<lparr>i_addrs := (i_addrs x)[i := 0]\<rparr>) s))
      else trunc_direct is ip s)"

fun trunc_indirect :: "nat list \<Rightarrow> nat \<Rightarrow> nat \<Rightarrow> fsst \<Rightarrow> fsst res" where
  "trunc_indirect [] bp ip s = Ok s"
| "trunc_indirect (j # js) bp ip s =
     (let a = get32 (fs_data s bp) (4 * j) in
      if a \<noteq> 0 then rbind (bfree (i_dev (ino s ip)) a s) (\<lambda>s. trunc_indirect js bp ip s)
      else trunc_indirect js bp ip s)"

definition itrunc :: "nat \<Rightarrow> fsst \<Rightarrow> fsst res" where
  "itrunc ip s =
     rbind (trunc_direct [0..<NDIRECT] ip s) (\<lambda>s.
     rbind (if i_addrs (ino s ip) ! NDIRECT \<noteq> 0 then
              rbind (fs_bread (i_dev (ino s ip)) (i_addrs (ino s ip) ! NDIRECT) s) (\<lambda>(bp, s).
              rbind (trunc_indirect [0..<NINDIRECT] bp ip s) (\<lambda>s.
              rbind (fs_brelse bp s) (\<lambda>s.
              rbind (bfree (i_dev (ino s ip)) (i_addrs (ino s ip) ! NDIRECT) s) (\<lambda>s.
              Ok (upd_ino ip (\<lambda>x. x\<lparr>i_addrs := (i_addrs x)[NDIRECT := 0]\<rparr>) s)))))
            else Ok s) (\<lambda>s.
     iupdate ip (upd_ino ip (\<lambda>x. x\<lparr>i_size := 0\<rparr>) s)))"

definition iput :: "nat \<Rightarrow> fsst \<Rightarrow> fsst res" where
  "iput ip s =
     rbind (lock_inode ip s) (\<lambda>s.
     rbind (if i_valid (ino s ip) \<and> i_nlink (ino s ip) = 0 then
              rbind (ic_acquire s) (\<lambda>s.
              let r = i_ref (ino s ip) in
              rbind (ic_release s) (\<lambda>s.
              if r = 1 then
                rbind (itrunc ip s) (\<lambda>s.
                let s = upd_ino ip (\<lambda>x. x\<lparr>i_type := 0\<rparr>) s in
                rbind (iupdate ip s) (\<lambda>s.
                Ok (upd_ino ip (\<lambda>x. x\<lparr>i_valid := False\<rparr>) s)))
              else Ok s))
            else Ok s) (\<lambda>s.
     rbind (unlock_inode ip s) (\<lambda>s.
     rbind (ic_acquire s) (\<lambda>s.
     ic_release (upd_ino ip (\<lambda>x. x\<lparr>i_ref := i_ref x - 1\<rparr>) s)))))"

definition iunlockput :: "nat \<Rightarrow> fsst \<Rightarrow> fsst res" where
  "iunlockput ip s = rbind (iunlock (Some ip) s) (\<lambda>s. iput ip s)"

subsection \<open>Inode content\<close>

definition bmap :: "nat \<Rightarrow> nat \<Rightarrow> fsst \<Rightarrow> (u32 \<times> fsst) res" where
  "bmap ip bn s =
     (if bn < NDIRECT then
        let addr = i_addrs (ino s ip) ! bn in
        if addr = 0 then
          rbind (balloc (i_dev (ino s ip)) s) (\<lambda>(addr, s).
          Ok (addr, upd_ino ip (\<lambda>x. x\<lparr>i_addrs := (i_addrs x)[bn := addr]\<rparr>) s))
        else Ok (addr, s)
      else
        let bn = bn - NDIRECT in
        if bn < NINDIRECT then
          rbind (if i_addrs (ino s ip) ! NDIRECT = 0 then
                   rbind (balloc (i_dev (ino s ip)) s) (\<lambda>(addr, s).
                   Ok (addr, upd_ino ip (\<lambda>x. x\<lparr>i_addrs := (i_addrs x)[NDIRECT := addr]\<rparr>) s))
                 else Ok (i_addrs (ino s ip) ! NDIRECT, s)) (\<lambda>(addr, s).
          rbind (fs_bread (i_dev (ino s ip)) addr s) (\<lambda>(bp, s).
          let addr = get32 (fs_data s bp) (4 * bn) in
          rbind (if addr = 0 then
                   rbind (balloc (i_dev (ino s ip)) s) (\<lambda>(addr, s).
                   let s = fs_set bp (put32 (4 * bn) addr (fs_data s bp)) s in
                   rbind (fs_log_write bp s) (\<lambda>s. Ok (addr, s)))
                 else Ok (addr, s)) (\<lambda>(addr, s).
          rbind (fs_brelse bp s) (\<lambda>s. Ok (addr, s)))))
        else Panic ''bmap: out of range'')"

record stat =
  st_type :: u16
  st_dev :: u32
  st_ino :: u32
  st_nlink :: u16
  st_size :: u32

definition stati :: "nat \<Rightarrow> fsst \<Rightarrow> stat" where
  "stati ip s = \<lparr>st_type = i_type (ino s ip), st_dev = i_dev (ino s ip), st_ino = i_inum (ino s ip),
     st_nlink = i_nlink (ino s ip), st_size = i_size (ino s ip)\<rparr>"

definition chunk :: "nat \<Rightarrow> nat \<Rightarrow> nat" where
  "chunk off left = min left (BSIZE - off mod BSIZE)"

lemma chunk_pos: "left > 0 \<Longrightarrow> chunk off left > 0"
  by (simp add: chunk_def BSIZE_def)

function readi_loop :: "nat \<Rightarrow> nat \<Rightarrow> nat \<Rightarrow> fsst \<Rightarrow> (u8 list \<times> fsst) res" where
  "readi_loop ip off left s =
     (if left = 0 then Ok ([], s)
      else
        rbind (bmap ip (off div BSIZE) s) (\<lambda>(addr, s).
        rbind (fs_bread (i_dev (ino s ip)) addr s) (\<lambda>(bp, s).
        let m = chunk off left; bytes = take m (drop (off mod BSIZE) (fs_data s bp)) in
        rbind (fs_brelse bp s) (\<lambda>s.
        rbind (readi_loop ip (off + m) (left - m) s) (\<lambda>(rest, s).
        Ok (bytes @ rest, s))))))"
  by pat_completeness auto
termination
  by (relation "measure (\<lambda>(ip, off, left, s). left)") (auto simp: chunk_pos)

definition readi :: "(nat \<Rightarrow> devsw_ops) \<Rightarrow> nat \<Rightarrow> u32 \<Rightarrow> u32 \<Rightarrow> fsst \<Rightarrow> (int \<times> u8 list \<times> fsst) res" where
  "readi devsw ip off n s =
     (if i_type (ino s ip) = T_DEV then
        if sint (i_major (ino s ip)) < 0 \<or> sint (i_major (ino s ip)) \<ge> int NDEV then Ok (- 1, [], s)
        else case dv_read (devsw (nat (sint (i_major (ino s ip))))) of
            None \<Rightarrow> Ok (- 1, [], s)
          | Some f \<Rightarrow> f ip n s
      else if off > i_size (ino s ip) \<or> off + n < off then Ok (- 1, [], s)
      else
        let n = (if off + n > i_size (ino s ip) then i_size (ino s ip) - off else n) in
        rbind (readi_loop ip (unat off) (unat n) s) (\<lambda>(bytes, s). Ok (sint n, bytes, s)))"

function writei_loop :: "nat \<Rightarrow> u8 list \<Rightarrow> nat \<Rightarrow> fsst \<Rightarrow> (nat \<times> fsst) res" where
  "writei_loop ip bytes off s =
     (if bytes = [] then Ok (off, s)
      else
        rbind (bmap ip (off div BSIZE) s) (\<lambda>(addr, s).
        rbind (fs_bread (i_dev (ino s ip)) addr s) (\<lambda>(bp, s).
        let m = chunk off (length bytes); o1 = off mod BSIZE; d = fs_data s bp;
            s = fs_set bp (take o1 d @ take m bytes @ drop (o1 + m) d) s in
        rbind (fs_log_write bp s) (\<lambda>s.
        rbind (fs_brelse bp s) (\<lambda>s.
        writei_loop ip (drop m bytes) (off + m) s)))))"
  by pat_completeness auto
termination
  by (relation "measure (\<lambda>(ip, bytes, off, s). length bytes)") (auto simp: chunk_pos)

definition writei :: "(nat \<Rightarrow> devsw_ops) \<Rightarrow> nat \<Rightarrow> u8 list \<Rightarrow> u32 \<Rightarrow> u32 \<Rightarrow> fsst \<Rightarrow> (int \<times> fsst) res" where
  "writei devsw ip src off n s =
     (if i_type (ino s ip) = T_DEV then
        if sint (i_major (ino s ip)) < 0 \<or> sint (i_major (ino s ip)) \<ge> int NDEV then Ok (- 1, s)
        else case dv_write (devsw (nat (sint (i_major (ino s ip))))) of
            None \<Rightarrow> Ok (- 1, s)
          | Some f \<Rightarrow> f ip (take (unat n) src) s
      else if off > i_size (ino s ip) \<or> off + n < off then Ok (- 1, s)
      else if off + n > of_nat (MAXFILE * BSIZE) then Ok (- 1, s)
      else
        rbind (writei_loop ip (take (unat n) src) (unat off) s) (\<lambda>(off, s).
        if n > 0 \<and> of_nat off > i_size (ino s ip) then
          rbind (iupdate ip (upd_ino ip (\<lambda>x. x\<lparr>i_size := of_nat off\<rparr>) s)) (\<lambda>s. Ok (sint n, s))
        else Ok (sint n, s)))"

subsection \<open>Directories\<close>

fun strncmp_bytes :: "nat \<Rightarrow> u8 list \<Rightarrow> u8 list \<Rightarrow> int" where
  "strncmp_bytes 0 p q = 0"
| "strncmp_bytes (Suc n) p q =
     (let a = (case p of [] \<Rightarrow> 0 | x # _ \<Rightarrow> x); b = (case q of [] \<Rightarrow> 0 | x # _ \<Rightarrow> x) in
      if a \<noteq> 0 \<and> a = b then strncmp_bytes n (tl p) (tl q) else uint a - uint b)"

definition namecmp :: "u8 list \<Rightarrow> u8 list \<Rightarrow> int" where
  "namecmp s t = strncmp_bytes DIRSIZ s t"

definition de_inum :: "u8 list \<Rightarrow> u16" where
  "de_inum de = get16 de 0"

definition de_name :: "u8 list \<Rightarrow> u8 list" where
  "de_name de = take DIRSIZ (drop 2 de)"

fun dirlookup_loop :: "(nat \<Rightarrow> devsw_ops) \<Rightarrow> nat list \<Rightarrow> nat \<Rightarrow> u8 list \<Rightarrow> fsst \<Rightarrow> ((nat \<times> nat) option \<times> fsst) res" where
  "dirlookup_loop devsw [] dp name s = Ok (None, s)"
| "dirlookup_loop devsw (off # offs) dp name s =
     rbind (readi devsw dp (of_nat off) (of_nat DIRENT_SIZE) s) (\<lambda>(r, de, s).
     if r \<noteq> int DIRENT_SIZE then Panic ''dirlookup read''
     else if de_inum de = 0 then dirlookup_loop devsw offs dp name s
     else if namecmp name (de_name de) = 0 then
       rbind (iget (i_dev (ino s dp)) (ucast (de_inum de)) s) (\<lambda>(ip, s). Ok (Some (ip, off), s))
     else dirlookup_loop devsw offs dp name s)"

definition dir_offsets :: "nat \<Rightarrow> nat list" where
  "dir_offsets sz = map (\<lambda>k. k * DIRENT_SIZE) [0..<(sz + DIRENT_SIZE - 1) div DIRENT_SIZE]"

definition dirlookup :: "(nat \<Rightarrow> devsw_ops) \<Rightarrow> nat \<Rightarrow> u8 list \<Rightarrow> fsst \<Rightarrow> ((nat \<times> nat) option \<times> fsst) res" where
  "dirlookup devsw dp name s =
     (if i_type (ino s dp) \<noteq> T_DIR then Panic ''dirlookup not DIR''
      else dirlookup_loop devsw (dir_offsets (unat (i_size (ino s dp)))) dp name s)"

fun find_free_dirent :: "(nat \<Rightarrow> devsw_ops) \<Rightarrow> nat list \<Rightarrow> nat \<Rightarrow> nat \<Rightarrow> fsst \<Rightarrow> (nat \<times> fsst) res" where
  "find_free_dirent devsw [] dp off s = Ok (off, s)"
| "find_free_dirent devsw (o1 # offs) dp off s =
     rbind (readi devsw dp (of_nat o1) (of_nat DIRENT_SIZE) s) (\<lambda>(r, de, s).
     if r \<noteq> int DIRENT_SIZE then Panic ''dirlink read''
     else if de_inum de = 0 then Ok (o1, s)
     else find_free_dirent devsw offs dp (o1 + DIRENT_SIZE) s)"

definition strncpy_bytes :: "nat \<Rightarrow> u8 list \<Rightarrow> u8 list" where
  "strncpy_bytes n s = (let t = take n (takeWhile (\<lambda>c. c \<noteq> 0) s) in t @ replicate (n - length t) 0)"

definition dirlink :: "(nat \<Rightarrow> devsw_ops) \<Rightarrow> nat \<Rightarrow> u8 list \<Rightarrow> u32 \<Rightarrow> fsst \<Rightarrow> (int \<times> fsst) res" where
  "dirlink devsw dp name inum s =
     rbind (dirlookup devsw dp name s) (\<lambda>(r, s).
     case r of
       Some (ip, _) \<Rightarrow> rbind (iput ip s) (\<lambda>s. Ok (- 1, s))
     | None \<Rightarrow>
         rbind (find_free_dirent devsw (dir_offsets (unat (i_size (ino s dp)))) dp 0 s) (\<lambda>(off, s).
         let de = put16 0 (ucast inum) (replicate 2 0) @ strncpy_bytes DIRSIZ name in
         rbind (writei devsw dp de (of_nat off) (of_nat DIRENT_SIZE) s) (\<lambda>(r, s).
         if r \<noteq> int DIRENT_SIZE then Panic ''dirlink'' else Ok (0, s))))"

subsection \<open>Path names\<close>

definition slash :: u8 where "slash = 47"

definition skipelem :: "u8 list \<Rightarrow> u8 list \<Rightarrow> (u8 list \<times> u8 list) option" where
  "skipelem path name =
     (let path = dropWhile (\<lambda>c. c = slash) path in
      if path = [] then None
      else
        let e = takeWhile (\<lambda>c. c \<noteq> slash) path;
            name = (if length e \<ge> DIRSIZ then take DIRSIZ e @ drop DIRSIZ name
                    else e @ [0] @ drop (length e + 1) name)
        in Some (dropWhile (\<lambda>c. c = slash) (drop (length e) path), name))"

lemma skipelem_shorter: "skipelem path name = Some (rest, name') \<Longrightarrow> length rest < length path"
proof -
  assume a: "skipelem path name = Some (rest, name')"
  let ?p = "dropWhile (\<lambda>c. c = slash) path"
  let ?e = "takeWhile (\<lambda>c. c \<noteq> slash) ?p"
  have ne: "?p \<noteq> []" using a by (auto simp: skipelem_def Let_def split: if_splits)
  have "hd ?p \<noteq> slash" using hd_dropWhile [OF ne] .
  then have "?e \<noteq> []" using ne by (cases ?p) auto
  then have "length (drop (length ?e) ?p) < length ?p" using ne by simp
  moreover have "length ?p \<le> length path" by (rule length_dropWhile_le)
  moreover have "rest = dropWhile (\<lambda>c. c = slash) (drop (length ?e) ?p)"
    using a by (simp add: skipelem_def Let_def split: if_splits)
  then have "length rest \<le> length (drop (length ?e) ?p)" by (simp only: length_dropWhile_le)
  ultimately show ?thesis by linarith
qed

function namex_loop :: "(nat \<Rightarrow> devsw_ops) \<Rightarrow> u8 list \<Rightarrow> bool \<Rightarrow> u8 list \<Rightarrow> nat \<Rightarrow> fsst \<Rightarrow> (nat option \<times> u8 list \<times> fsst) res" where
  "namex_loop devsw path nameiparent name ip s =
     (case skipelem path name of
        None \<Rightarrow>
          if nameiparent then rbind (iput ip s) (\<lambda>s. Ok (None, name, s)) else Ok (Some ip, name, s)
      | Some (path', name) \<Rightarrow>
          rbind (ilock (Some ip) s) (\<lambda>s.
          if i_type (ino s ip) \<noteq> T_DIR then rbind (iunlockput ip s) (\<lambda>s. Ok (None, name, s))
          else if nameiparent \<and> path' = [] then rbind (iunlock (Some ip) s) (\<lambda>s. Ok (Some ip, name, s))
          else
            rbind (dirlookup devsw ip name s) (\<lambda>(r, s).
            case r of
              None \<Rightarrow> rbind (iunlockput ip s) (\<lambda>s. Ok (None, name, s))
            | Some (next, _) \<Rightarrow>
                rbind (iunlockput ip s) (\<lambda>s. namex_loop devsw path' nameiparent name next s))))"
  by pat_completeness auto
termination
  by (relation "measure (\<lambda>(devsw, path, np, name, ip, s). length path)") (auto simp: skipelem_shorter)

definition namex :: "(nat \<Rightarrow> devsw_ops) \<Rightarrow> nat \<Rightarrow> u8 list \<Rightarrow> bool \<Rightarrow> u8 list \<Rightarrow> fsst \<Rightarrow> (nat option \<times> u8 list \<times> fsst) res" where
  "namex devsw cwd path nameiparent name s =
     rbind (if path \<noteq> [] \<and> hd path = slash then iget ROOTDEV ROOTINO s else idup cwd s) (\<lambda>(ip, s).
     namex_loop devsw path nameiparent name ip s)"

definition namei :: "(nat \<Rightarrow> devsw_ops) \<Rightarrow> nat \<Rightarrow> u8 list \<Rightarrow> fsst \<Rightarrow> (nat option \<times> fsst) res" where
  "namei devsw cwd path s =
     rbind (namex devsw cwd path False (replicate DIRSIZ 0) s) (\<lambda>(ip, _, s). Ok (ip, s))"

definition nameiparent :: "(nat \<Rightarrow> devsw_ops) \<Rightarrow> nat \<Rightarrow> u8 list \<Rightarrow> u8 list \<Rightarrow> fsst \<Rightarrow> (nat option \<times> u8 list \<times> fsst) res" where
  "nameiparent devsw cwd path name s = namex devsw cwd path True name s"

end
