(* ===== verification/LogProps.thy ===== *)
theory LogProps
  imports Log
begin

section \<open>Crash safety of the log\<close>

text \<open>
  Every step of a commit is described by the list of block writes it sends to the disk
  (\<open>writes_out\<close>). A crash leaves the disk after a prefix of that list; recovery is
  \<^verbatim>\<open>recover_from_log\<close> run on a cold cache over the disk the crash left.
\<close>

definition apply_writes :: "(u32 \<times> block) list \<Rightarrow> (u32 \<Rightarrow> block) \<Rightarrow> u32 \<Rightarrow> block" where
  "apply_writes ws d = fold (\<lambda>(n, b) d. d(n := b)) ws d"

lemma apply_writes_simps [simp]:
  "apply_writes [] d = d"
  "apply_writes ((n, b) # ws) d = apply_writes ws (d(n := b))"
  "apply_writes (ws @ vs) d = apply_writes vs (apply_writes ws d)"
  by (simp_all add: apply_writes_def)

lemma apply_writes_other: "n \<notin> fst ` set ws \<Longrightarrow> apply_writes ws d n = d n"
  by (induction ws arbitrary: d) auto

lemma apply_writes_map_other: "n \<notin> f ` set is \<Longrightarrow> apply_writes (map (\<lambda>i. (f i, g i)) is) d n = d n"
  by (rule apply_writes_other) auto

lemma apply_writes_mem:
  "distinct (map fst ws) \<Longrightarrow> (n, b) \<in> set ws \<Longrightarrow> apply_writes ws d n = b"
  by (induction ws arbitrary: d) (auto simp: apply_writes_other rev_image_eqI)

lemma apply_writes_length:
  "(\<forall>(n, b) \<in> set ws. length b = k) \<Longrightarrow> length (d m) = k \<Longrightarrow> length (apply_writes ws d m) = k"
  by (induction ws arbitrary: d) auto

context block_cache
begin

definition writes_out :: "'s \<Rightarrow> (u32 \<times> block) list \<Rightarrow> 's \<Rightarrow> bool" where
  "writes_out s ws s' \<longleftrightarrow> idle s' \<and> cont s' = apply_writes ws (cont s) \<and> dsk s' = apply_writes ws (dsk s)
     \<and> wrs s' = wrs s @ ws \<and> drt s' = drt s - fst ` set ws \<and> env s' = env s"

lemma writes_out_trans: "writes_out s ws s1 \<Longrightarrow> writes_out s1 vs s2 \<Longrightarrow> writes_out s (ws @ vs) s2"
  by (auto simp: writes_out_def)

lemma writes_out_refl: "idle s \<Longrightarrow> writes_out s [] s"
  by (simp add: writes_out_def)

lemma hold_two:
  assumes s: "idle s" and f: "fit s a" "fit s c" and ne: "a \<noteq> c" and r1: "a \<in> drt s \<or> card (drt s) < NBUF"
    and r2: "c \<in> drt s \<or> card (insert a (drt s)) < NBUF"
  shows "\<exists>b1 s1 b2 s2. rd a s = Ok (b1, s1) \<and> rd c s1 = Ok (b2, s2) \<and> inv s2 \<and> b1 \<noteq> b2 \<and> hld s2 = [b1 \<mapsto> a, b2 \<mapsto> c]
    \<and> dat s2 b1 = cont s a \<and> dat s2 b2 = cont s c \<and> cont s2 = cont s \<and> dsk s2 = dsk s \<and> drt s2 = drt s \<and> wrs s2 = wrs s \<and> env s2 = env s"
proof -
  obtain b1 s1 where 1: "rd a s = Ok (b1, s1)" "inv s1" "hld s1 = [b1 \<mapsto> a]" "cont s1 = cont s" "dsk s1 = dsk s" "drt s1 = drt s"
    "wrs s1 = wrs s" "env s1 = env s"
    using s f r1 rd_ok [of s a] by (auto simp: idle_def)
  have "fit s1 c" using f(2) fit_env [OF 1(8)] by simp
  then obtain b2 s2 where 2: "rd c s1 = Ok (b2, s2)" "inv s2" "hld s1 b2 = None" "hld s2 = [b1 \<mapsto> a, b2 \<mapsto> c]" "cont s2 = cont s" "dsk s2 = dsk s"
    "drt s2 = drt s" "wrs s2 = wrs s" "env s2 = env s"
    using 1 ne r2 rd_ok [of s1 c] by auto
  have n: "b1 \<noteq> b2" using 1(3) 2(3) by auto
  then have "dat s2 b1 = cont s a" "dat s2 b2 = cont s c" using dat_ok [OF 2(2)] 2(4,5) by auto
  then show ?thesis using 1(1) 2 n by blast
qed

lemma copy_write:
  assumes i: "inv s" and h: "hld s = [b \<mapsto> n, q \<mapsto> m]" and bq: "b \<noteq> q" "n \<noteq> m" and d: "length d = BSIZE"
    and clean_m: "m \<in> drt s \<or> cont s m = dsk s m"
  shows "\<exists>s3 s4 s'. wr b (put b d s) = Ok s3 \<and> rls q s3 = Ok s4 \<and> rls b s4 = Ok s' \<and> writes_out s [(n, d)] s'"
proof -
  have hb: "hld s b = Some n" using h bq by simp
  let ?p = "put b d s"
  have 2: "inv ?p" "hld ?p = [b \<mapsto> n, q \<mapsto> m]" "cont ?p = (cont s)(n := d)" "dsk ?p = dsk s" "drt ?p = drt s" "wrs ?p = wrs s" "env ?p = env s"
    using put_ok [OF i hb d] h by auto
  obtain s3 where 3: "wr b ?p = Ok s3" "inv s3" "hld s3 = [b \<mapsto> n, q \<mapsto> m]" "cont s3 = (cont s)(n := d)" "dsk s3 = (dsk s)(n := d)"
    "drt s3 = drt s - {n}" "wrs s3 = wrs s @ [(n, d)]" "env s3 = env s"
    using wr_ok [OF 2(1), of b n] 2 bq by auto
  obtain s4 where 4: "rls q s3 = Ok s4" "inv s4" "hld s4 = [b \<mapsto> n]" "cont s4 = cont s3" "dsk s4 = dsk s3" "drt s4 = drt s3" "wrs s4 = wrs s3" "env s4 = env s3"
    using rls_ok [OF 3(2), of q m] 3 clean_m bq by (auto simp: fun_upd_twist)
  obtain s' where "rls b s4 = Ok s'" "inv s'" "hld s' = Map.empty" "cont s' = cont s3" "dsk s' = dsk s3" "drt s' = drt s3" "wrs s' = wrs s3" "env s' = env s3"
    using rls_ok [OF 4(2), of b n] 4 3 by auto
  then show ?thesis using 3 4 by (auto simp: writes_out_def idle_def)
qed

end

subsection \<open>The steps of the log as lists of writes\<close>

lemma NBUF_ge_2: "2 \<le> NBUF" by (simp add: NBUF_def MAXOPBLOCKS_def)

lemma install_one_writes:
  assumes "bc.idle s" "lg_dev lg = 1" "i < length (lh_block lg)" "fits s (log_blk lg i)" "fits s (lh_block lg ! i)"
    and ne: "lh_block lg ! i \<noteq> log_blk lg i" and room: "card (dirty s) < NBUF" and pinned: "lh_block lg ! i \<in> dirty s \<or> dirty s = {}"
  shows "\<exists>s'. install_one lg i s = Ok s' \<and> bc.writes_out s [(lh_block lg ! i, content s (log_blk lg i))] s'"
proof -
  let ?a = "log_blk lg i" and ?c = "lh_block lg ! i"
  have r2: "?c \<in> dirty s \<or> card (insert ?a (dirty s)) < NBUF" using pinned NBUF_ge_2 by auto
  obtain l s1 d s2 where 1: "bread 1 ?a s = Ok (l, s1)" "bread 1 ?c s1 = Ok (d, s2)" "bwf s2" "l \<noteq> d" "held s2 = [l \<mapsto> ?a, d \<mapsto> ?c]"
    "b_data (buf_at s2 l) = content s ?a" "content s2 = content s" "memdisk s2 = memdisk s" "dirty s2 = dirty s" "dwrites s2 = dwrites s" "benv s2 = benv s"
    using bc.hold_two [OF assms(1,4,5) ne [symmetric] _ r2] room by blast
  have h: "held s2 = [d \<mapsto> ?c, l \<mapsto> ?a]" using 1(4,5) by (simp add: fun_upd_twist)
  have len: "length (content s ?a) = BSIZE" using bc.cont_len [OF 1(3), of ?a] 1(7) by simp
  have cl: "?a \<in> dirty s2 \<or> content s2 ?a = memdisk s2 ?a" using assms(1) bc.clean [of s ?a] 1(7-9) by (auto simp: bc.idle_def)
  obtain s3 s4 s' where 2: "bwrite d (set_data d (content s ?a) s2) = Ok s3" "brelse l s3 = Ok s4" "brelse d s4 = Ok s'"
    "bc.writes_out s2 [(?c, content s ?a)] s'"
    using bc.copy_write [OF 1(3) h 1(4) [symmetric] ne len cl] by blast
  then have "install_one lg i s = Ok s'" using assms(2,3) 1 by (simp add: install_one_def lh_get_def)
  then show ?thesis using 2(4) 1 by (auto simp: bc.writes_out_def)
qed

lemma write_one_writes:
  assumes "bc.idle s" "lg_dev lg = 1" "i < length (lh_block lg)" "fits s (log_blk lg i)" "fits s (lh_block lg ! i)"
    and ne: "lh_block lg ! i \<noteq> log_blk lg i" and room: "card (dirty s) < NBUF" and pinned: "lh_block lg ! i \<in> dirty s"
  shows "\<exists>s'. write_one lg i s = Ok s' \<and> bc.writes_out s [(log_blk lg i, content s (lh_block lg ! i))] s'"
proof -
  let ?a = "log_blk lg i" and ?c = "lh_block lg ! i"
  obtain l s1 d s2 where 1: "bread 1 ?a s = Ok (l, s1)" "bread 1 ?c s1 = Ok (d, s2)" "bwf s2" "l \<noteq> d" "held s2 = [l \<mapsto> ?a, d \<mapsto> ?c]"
    "b_data (buf_at s2 d) = content s ?c" "content s2 = content s" "memdisk s2 = memdisk s" "dirty s2 = dirty s" "dwrites s2 = dwrites s" "benv s2 = benv s"
    using bc.hold_two [OF assms(1,4,5) ne [symmetric]] room pinned by blast
  have len: "length (content s ?c) = BSIZE" using bc.cont_len [OF 1(3), of ?c] 1(7) by simp
  have cl: "?c \<in> dirty s2 \<or> content s2 ?c = memdisk s2 ?c" using pinned 1(9) by simp
  obtain s3 s4 s' where 2: "bwrite l (set_data l (content s ?c) s2) = Ok s3" "brelse d s3 = Ok s4" "brelse l s4 = Ok s'"
    "bc.writes_out s2 [(?a, content s ?c)] s'"
    using bc.copy_write [OF 1(3,5,4) ne [symmetric] len cl] by blast
  then have "write_one lg i s = Ok s'" using assms(2,3) 1 by (simp add: write_one_def lh_get_def)
  then show ?thesis using 2(4) 1 by (auto simp: bc.writes_out_def)
qed

text \<open>The blocks of the log and the home blocks recorded in the header, as the loops need them.\<close>

definition log_entries :: "log \<Rightarrow> bst \<Rightarrow> nat list \<Rightarrow> bool" where
  "log_entries lg s is \<longleftrightarrow> lg_dev lg = 1
     \<and> (\<forall>i \<in> set is. i < length (lh_block lg) \<and> fits s (log_blk lg i) \<and> fits s (lh_block lg ! i))
     \<and> (\<forall>i \<in> set is. \<forall>j \<in> set is. lh_block lg ! i \<noteq> log_blk lg j)
     \<and> distinct (map (\<lambda>i. lh_block lg ! i) is) \<and> distinct (map (log_blk lg) is)"

lemma log_entries_step:
  "log_entries lg s (i # is) \<Longrightarrow> benv s' = benv s \<Longrightarrow> log_entries lg s' is"
  using bc.fit_env [of s' s] by (auto simp: log_entries_def)

lemma install_loop_writes:
  assumes "log_entries lg s is" "bc.idle s" "card (dirty s) < NBUF" "\<forall>i \<in> set is. lh_block lg ! i \<in> dirty s \<or> dirty s = {}"
  shows "\<exists>s'. install_loop is lg s = Ok s' \<and> bc.writes_out s (map (\<lambda>i. (lh_block lg ! i, content s (log_blk lg i))) is) s'"
  using assms
proof (induction "is" arbitrary: s)
  case Nil
  then show ?case by (simp add: bc.writes_out_refl)
next
  case (Cons i "is")
  obtain s1 where 1: "install_one lg i s = Ok s1" "bc.writes_out s [(lh_block lg ! i, content s (log_blk lg i))] s1"
    using install_one_writes [of s lg i] Cons.prems by (auto simp: log_entries_def)
  have e: "benv s1 = benv s" "dirty s1 = dirty s - {lh_block lg ! i}" "bc.idle s1" using 1(2) by (auto simp: bc.writes_out_def)
  have c: "content s1 (log_blk lg j) = content s (log_blk lg j)" if "j \<in> set is" for j
    using 1(2) Cons.prems(1) that by (auto simp: bc.writes_out_def log_entries_def)
  have "lh_block lg ! i \<noteq> lh_block lg ! j" if "j \<in> set is" for j
    using Cons.prems(1) that by (auto simp: log_entries_def)
  then have "\<forall>j \<in> set is. lh_block lg ! j \<in> dirty s1 \<or> dirty s1 = {}"
    using Cons.prems(4) unfolding e(2) by (metis Diff_iff Diff_empty empty_Diff list.set_intros(2) singletonD)
  moreover have "card (dirty s1) < NBUF" using Cons.prems(3) e(2) card_Diff1_le [of "dirty s" "lh_block lg ! i"] by simp
  ultimately obtain s2 where 2: "install_loop is lg s1 = Ok s2"
    "bc.writes_out s1 (map (\<lambda>i. (lh_block lg ! i, content s1 (log_blk lg i))) is) s2"
    using Cons.IH [OF log_entries_step [OF Cons.prems(1) e(1)] e(3)] by blast
  have m: "map (\<lambda>i. (lh_block lg ! i, content s1 (log_blk lg i))) is = map (\<lambda>i. (lh_block lg ! i, content s (log_blk lg i))) is"
    using c by simp
  show ?case using 1(1) 2(1) bc.writes_out_trans [OF 1(2) 2(2) [unfolded m]] by simp
qed

lemma write_loop_writes:
  assumes "log_entries lg s is" "bc.idle s" "card (dirty s) < NBUF" "\<forall>i \<in> set is. lh_block lg ! i \<in> dirty s \<and> log_blk lg i \<notin> dirty s"
  shows "\<exists>s'. write_loop is lg s = Ok s' \<and> bc.writes_out s (map (\<lambda>i. (log_blk lg i, content s (lh_block lg ! i))) is) s'"
  using assms
proof (induction "is" arbitrary: s)
  case Nil
  then show ?case by (simp add: bc.writes_out_refl)
next
  case (Cons i "is")
  obtain s1 where 1: "write_one lg i s = Ok s1" "bc.writes_out s [(log_blk lg i, content s (lh_block lg ! i))] s1"
    using write_one_writes [of s lg i] Cons.prems by (auto simp: log_entries_def)
  have e: "benv s1 = benv s" "dirty s1 = dirty s" "bc.idle s1" using 1(2) Cons.prems(4) by (auto simp: bc.writes_out_def)
  have c: "content s1 (lh_block lg ! j) = content s (lh_block lg ! j)" if "j \<in> set is" for j
    using 1(2) Cons.prems(1) that by (auto simp: bc.writes_out_def log_entries_def)
  obtain s2 where 2: "write_loop is lg s1 = Ok s2"
    "bc.writes_out s1 (map (\<lambda>i. (log_blk lg i, content s1 (lh_block lg ! i))) is) s2"
    using Cons.IH [OF log_entries_step [OF Cons.prems(1) e(1)] e(3)] Cons.prems(3,4) e(2) by auto
  have m: "map (\<lambda>i. (log_blk lg i, content s1 (lh_block lg ! i))) is = map (\<lambda>i. (log_blk lg i, content s (lh_block lg ! i))) is"
    using c by simp
  show ?case using 1(1) 2(1) bc.writes_out_trans [OF 1(2) 2(2) [unfolded m]] by simp
qed

definition hdr :: "log \<Rightarrow> block \<Rightarrow> block" where
  "hdr lg d = fold (\<lambda>i d. put32 (4 + 4 * i) (lh_block lg ! i) d) [0..<nat (lh_n lg)] (put32 0 (word_of_int (lh_n lg)) d)"

lemma fold_put32_length [simp]: "length (fold (\<lambda>i d. put32 (f i) (g i) d) is d) = length d"
  by (induction "is" arbitrary: d) auto

lemma hdr_length [simp]: "length (hdr lg d) = length d"
  by (simp add: hdr_def)

lemma write_blocks_eq:
  "\<forall>i \<in> set is. i < length (lh_block lg) \<Longrightarrow> write_blocks is lg d = Ok (fold (\<lambda>i d. put32 (4 + 4 * i) (lh_block lg ! i) d) is d)"
  by (induction "is" arbitrary: d) (auto simp: lh_get_def)

lemma fold_put32_0: "get32 (fold (\<lambda>i d. put32 (4 + 4 * i) (g i) d) is d) 0 = get32 d 0"
  by (induction "is" arbitrary: d) auto

lemma fold_put32_nth:
  assumes "k \<le> 127" "length d = BSIZE" "i < k"
  shows "get32 (fold (\<lambda>i d. put32 (4 + 4 * i) (g i) d) [0..<k] d) (4 + 4 * i) = g i"
  using assms
proof (induction k)
  case (Suc k)
  then show ?case by (cases "i = k") (auto simp: BSIZE_def)
qed simp

lemma hdr_get:
  assumes "length d = BSIZE" "0 \<le> lh_n lg" "nat (lh_n lg) \<le> LOGSIZE"
  shows "sint (get32 (hdr lg d) 0) = lh_n lg" and "i < nat (lh_n lg) \<Longrightarrow> get32 (hdr lg d) (4 + 4 * i) = lh_block lg ! i"
proof -
  have l: "LOGSIZE = 30" by (simp add: LOGSIZE_def MAXOPBLOCKS_def)
  have "get32 (hdr lg d) 0 = word_of_int (lh_n lg)" using assms(1) by (simp add: hdr_def fold_put32_0 BSIZE_def)
  then show "sint (get32 (hdr lg d) 0) = lh_n lg" using assms(2,3) l by (simp add: int_word_sint)
  show "get32 (hdr lg d) (4 + 4 * i) = lh_block lg ! i" if "i < nat (lh_n lg)"
    unfolding hdr_def using that assms l by (intro fold_put32_nth) auto
qed

lemma hdr_zero: "lh_n lg = 0 \<Longrightarrow> hdr lg d = put32 0 0 d"
  by (simp add: hdr_def)

lemma write_head_writes:
  assumes "bc.idle s" "lg_dev lg = 1" "fits s (lg_start lg)" "card (dirty s) < NBUF" "nat (lh_n lg) \<le> length (lh_block lg)"
  shows "\<exists>s'. write_head lg s = Ok s' \<and> bc.writes_out s [(lg_start lg, hdr lg (content s (lg_start lg)))] s'"
proof -
  let ?n = "lg_start lg"
  obtain b s1 s2 s' where 1: "bread 1 ?n s = Ok (b, s1)" "b_data (buf_at s1 b) = content s ?n"
    "bwrite b (set_data b (hdr lg (content s ?n)) s1) = Ok s2" "brelse b s2 = Ok s'" "bc.idle s'"
    "content s' = (content s)(?n := hdr lg (content s ?n))" "memdisk s' = (memdisk s)(?n := hdr lg (content s ?n))"
    "dirty s' = dirty s - {?n}" "dwrites s' = dwrites s @ [(?n, hdr lg (content s ?n))]" "benv s' = benv s"
    using bc.read_modify_write [OF assms(1,3), of "hdr lg"] assms(4) by auto
  have "write_blocks [0..<nat (lh_n lg)] lg (put32 0 (word_of_int (lh_n lg)) (content s ?n)) = Ok (hdr lg (content s ?n))"
    unfolding hdr_def by (rule write_blocks_eq) (use assms(5) in auto)
  then have "write_head lg s = Ok s'" using 1(1-4) assms(2) by (simp add: write_head_def)
  then show ?thesis using 1 by (auto simp: bc.writes_out_def)
qed

lemma read_blocks_eq:
  "k \<le> length (lh_block lg) \<Longrightarrow> \<exists>bl. read_blocks [0..<k] d lg = Ok (lg\<lparr>lh_block := bl\<rparr>) \<and> length bl = length (lh_block lg)
     \<and> (\<forall>i < k. bl ! i = get32 d (4 + 4 * i))"
proof -
  have app: "read_blocks (is @ [i]) d lg = rbind (read_blocks is d lg) (\<lambda>lg. lh_put i (get32 d (4 + 4 * i)) lg)" for "is" i lg
    by (induction "is" arbitrary: lg) (auto simp: rbind_assoc lh_put_def)
  show "k \<le> length (lh_block lg) \<Longrightarrow> ?thesis"
  proof (induction k)
    case 0
    then show ?case by (auto intro!: exI [of _ "lh_block lg"])
  next
    case (Suc k)
    then obtain bl where bl: "read_blocks [0..<k] d lg = Ok (lg\<lparr>lh_block := bl\<rparr>)" "length bl = length (lh_block lg)"
      "\<forall>i < k. bl ! i = get32 d (4 + 4 * i)" by auto
    then show ?case using Suc.prems app [of "[0..<k]" k lg]
      by (intro exI [of _ "bl[k := get32 d (4 + 4 * k)]"]) (auto simp: lh_put_def nth_list_update less_Suc_eq)
  qed
qed

lemma read_head_eq:
  assumes "bc.idle s" "lg_dev lg = 1" "fits s (lg_start lg)" "card (dirty s) < NBUF" "length (lh_block lg) = LOGSIZE"
    and d: "d = content s (lg_start lg)" and n: "nat (sint (get32 d 0)) \<le> LOGSIZE"
  shows "\<exists>bl s'. read_head lg s = Ok (lg\<lparr>lh_n := sint (get32 d 0), lh_block := bl\<rparr>, s') \<and> length bl = LOGSIZE
    \<and> (\<forall>i < nat (sint (get32 d 0)). bl ! i = get32 d (4 + 4 * i)) \<and> bc.writes_out s [] s'"
proof -
  obtain b s1 s' where 1: "bread 1 (lg_start lg) s = Ok (b, s1)" "b_data (buf_at s1 b) = d" "brelse b s1 = Ok s'" "bc.writes_out s [] s'"
    using bc.read_release [OF assms(1,3)] assms(4) d by (auto simp: bc.writes_out_def)
  let ?lg = "lg\<lparr>lh_n := sint (get32 d 0)\<rparr>"
  obtain bl where "read_blocks [0..<nat (lh_n ?lg)] d ?lg = Ok (?lg\<lparr>lh_block := bl\<rparr>)" "length bl = LOGSIZE"
    "\<forall>i < nat (lh_n ?lg). bl ! i = get32 d (4 + 4 * i)"
    using read_blocks_eq [of "nat (lh_n ?lg)" ?lg d] n assms(5) by auto
  then show ?thesis using 1 assms(2) by (auto simp: read_head_def Let_def)
qed

lemma recover_writes:
  assumes idle: "bc.idle s" "dirty s = {}" and lg: "lg_dev lg = 1" "length (lh_block lg) = LOGSIZE" "fits s (lg_start lg)"
    and d: "d = content s (lg_start lg)" and m: "m = nat (sint (get32 d 0))" "m \<le> LOGSIZE" and B: "B = (\<lambda>i. get32 d (4 + 4 * i))"
    and ok: "\<forall>i < m. fits s (log_blk lg i) \<and> fits s (B i) \<and> B i \<noteq> lg_start lg" "\<forall>i < m. \<forall>j < m. B i \<noteq> log_blk lg j"
    and dist: "distinct (map B [0..<m])" "distinct (map (log_blk lg) [0..<m])"
  shows "\<exists>lg' s'. recover_from_log lg s = Ok (lg', s') \<and> lh_n lg' = 0
    \<and> bc.writes_out s (map (\<lambda>i. (B i, content s (log_blk lg i))) [0..<m] @ [(lg_start lg, put32 0 0 d)]) s'"
proof -
  have card0: "card (dirty s) < NBUF" using idle(2) NBUF_ge_2 by simp
  obtain bl s1 where 1: "read_head lg s = Ok (lg\<lparr>lh_n := sint (get32 d 0), lh_block := bl\<rparr>, s1)" "length bl = LOGSIZE"
    "\<forall>i < m. bl ! i = B i" "bc.writes_out s [] s1"
    using read_head_eq [OF idle(1) lg(1,3) card0 lg(2) d] m B by auto
  let ?lg = "lg\<lparr>lh_n := sint (get32 d 0), lh_block := bl\<rparr>"
  have e: "bc.idle s1" "content s1 = content s" "dirty s1 = {}" "benv s1 = benv s" using 1(4) idle(2) by (simp_all add: bc.writes_out_def)
  have "map ((!) bl) [0..<m] = map B [0..<m]" using 1(3) by simp
  then have mB: "distinct (map ((!) bl) [0..<m])" by (simp only: dist(1))
  have blk: "log_blk ?lg = log_blk lg" by (simp add: log_blk_def fun_eq_iff)
  have le: "log_entries ?lg s1 [0..<m]"
    using ok dist 1(2,3) lg(1) m(2) mB bc.fit_env [OF e(4)] by (auto simp: log_entries_def blk)
  obtain s2 where 2: "install_loop [0..<m] ?lg s1 = Ok s2"
    "bc.writes_out s1 (map (\<lambda>i. (lh_block ?lg ! i, content s1 (log_blk ?lg i))) [0..<m]) s2"
    using install_loop_writes [OF le e(1)] e(3) NBUF_ge_2 by auto
  let ?ws = "map (\<lambda>i. (B i, content s (log_blk lg i))) [0..<m]"
  have w: "map (\<lambda>i. (lh_block ?lg ! i, content s1 (log_blk ?lg i))) [0..<m] = ?ws" using 1(3) e(2) by (simp add: blk)
  have t2: "bc.writes_out s ?ws s2" using bc.writes_out_trans [OF 1(4) 2(2) [unfolded w]] by simp
  have e2: "bc.idle s2" "dirty s2 = {}" "benv s2 = benv s" using t2 idle(2) by (simp_all add: bc.writes_out_def)
  have c2: "content s2 (lg_start lg) = d" 
  proof -
    have "lg_start lg \<notin> B ` set [0..<m]" using ok(1) by auto
    from apply_writes_map_other [OF this] show ?thesis using t2 d by (simp add: bc.writes_out_def)
  qed
  let ?lg0 = "?lg\<lparr>lh_n := 0\<rparr>"
  obtain s3 where 3: "write_head ?lg0 s2 = Ok s3" "bc.writes_out s2 [(lg_start lg, put32 0 0 d)] s3"
    using write_head_writes [of s2 ?lg0] e2 lg bc.fit_env [OF e2(3)] c2 NBUF_ge_2 hdr_zero [of ?lg0] by auto
  have "recover_from_log lg s = Ok (?lg0, s3)"
    using 1(1) 2(1) 3(1) m(1) by (simp add: recover_from_log_def install_trans_def Let_def)
  then show ?thesis using bc.writes_out_trans [OF t2 3(2)] by auto
qed

subsection \<open>The invariant of a transaction, and the trace of its commit\<close>

definition log_area :: "log \<Rightarrow> u32 set" where
  "log_area lg = (\<lambda>i. lg_start lg + of_nat i) ` {0..<nat (lg_size lg)}"

definition linv :: "log \<Rightarrow> bst \<Rightarrow> bool" where
  "linv lg s \<longleftrightarrow> bc.idle s \<and> lg_dev lg = 1 \<and> length (lh_block lg) = LOGSIZE \<and> 0 \<le> lh_n lg \<and> lh_n lg < lg_size lg \<and> lg_size lg \<le> int LOGSIZE
     \<and> distinct (take (nat (lh_n lg)) (lh_block lg)) \<and> set (take (nat (lh_n lg)) (lh_block lg)) = dirty s
     \<and> dirty s \<subseteq> Collect (fits s) \<and> dirty s \<inter> log_area lg = {}
     \<and> unat (lg_start lg) + nat (lg_size lg) \<le> unat (disksize s) \<and> get32 (memdisk s (lg_start lg)) 0 = 0"

lemma unat_add_of_nat: "unat (a :: u32) + k < 2 ^ 32 \<Longrightarrow> unat (a + of_nat k) = unat a + k"
  by (simp add: unat_word_ariths unsigned_of_nat take_bit_eq_mod)

lemma area_unat:
  assumes "unat (lg_start lg) + nat (lg_size lg) \<le> unat (m :: u32)" "i < nat (lg_size lg)"
  shows "unat (lg_start lg + of_nat i) = unat (lg_start lg) + i"
proof -
  have "unat m < 2 ^ 32" using unsigned_less [of m] by simp
  then show ?thesis using assms by (intro unat_add_of_nat) linarith
qed

lemma log_blk_alt: "log_blk lg i = lg_start lg + of_nat (Suc i)"
  by (simp add: log_blk_def)

lemma area_facts:
  assumes z: "unat (lg_start lg) + nat (lg_size lg) \<le> unat (disksize s)" and n: "n < nat (lg_size lg)"
  shows "i < n \<Longrightarrow> log_blk lg i \<in> log_area lg" "lg_start lg \<in> log_area lg" "i < n \<Longrightarrow> fits s (log_blk lg i)" "fits s (lg_start lg)"
    "i < n \<Longrightarrow> log_blk lg i \<noteq> lg_start lg" "distinct (map (log_blk lg) [0..<n])"
proof -
  have u: "unat (log_blk lg i) = unat (lg_start lg) + Suc i" if "i < n" for i
    unfolding log_blk_alt by (rule area_unat [OF z]) (use that n in simp)
  show "log_blk lg i \<in> log_area lg" if "i < n" unfolding log_blk_alt log_area_def using that n by (intro imageI) simp
  show "lg_start lg \<in> log_area lg" unfolding log_area_def using n by (intro image_eqI [of _ _ 0]) simp_all
  show "fits s (log_blk lg i)" if "i < n" using u [OF that] z n that by (simp add: fits_def word_less_nat_alt)
  show "fits s (lg_start lg)" using z n by (simp add: fits_def word_less_nat_alt)
  show "log_blk lg i \<noteq> lg_start lg" if "i < n" using u [OF that] by auto
  show "distinct (map (log_blk lg) [0..<n])"
    unfolding distinct_map by (intro conjI inj_onI) (auto dest!: arg_cong [of _ _ unat] simp: u)
qed

definition commit_trace :: "log \<Rightarrow> bst \<Rightarrow> (u32 \<times> block) list" where
  "commit_trace lg s =
     map (\<lambda>i. (log_blk lg i, content s (lh_block lg ! i))) [0..<nat (lh_n lg)]
     @ [(lg_start lg, hdr lg (content s (lg_start lg)))]
     @ map (\<lambda>i. (lh_block lg ! i, content s (lh_block lg ! i))) [0..<nat (lh_n lg)]
     @ [(lg_start lg, put32 0 0 (hdr lg (content s (lg_start lg))))]"

lemma linvD:
  assumes "linv lg s" and n: "n = nat (lh_n lg)"
  shows "n < nat (lg_size lg)" "n \<le> length (lh_block lg)" "card (dirty s) < NBUF"
    "i < n \<Longrightarrow> lh_block lg ! i \<in> dirty s" "i < n \<Longrightarrow> lh_block lg ! i \<notin> log_area lg" "i < n \<Longrightarrow> fits s (lh_block lg ! i)"
    "distinct (map (\<lambda>i. lh_block lg ! i) [0..<n])" "dirty s = (\<lambda>i. lh_block lg ! i) ` {0..<n}"
    "log_entries lg s [0..<n]" "content s (lg_start lg) = memdisk s (lg_start lg)" "b \<in> log_area lg \<Longrightarrow> b \<notin> dirty s"
proof -
  have a: "0 \<le> lh_n lg" "lh_n lg < lg_size lg" "lg_size lg \<le> int LOGSIZE" "length (lh_block lg) = LOGSIZE"
    "distinct (take n (lh_block lg))" "set (take n (lh_block lg)) = dirty s" "dirty s \<subseteq> Collect (fits s)" "dirty s \<inter> log_area lg = {}"
    "unat (lg_start lg) + nat (lg_size lg) \<le> unat (disksize s)" "lg_dev lg = 1" "bc.idle s"
    using assms by (auto simp: linv_def)
  show n1: "n < nat (lg_size lg)" "n \<le> length (lh_block lg)" using a n by auto
  have t: "take n (lh_block lg) = map (\<lambda>i. lh_block lg ! i) [0..<n]" using n1(2) by (intro nth_equalityI) auto
  have "card (dirty s) = n" using distinct_card [OF a(5)] a(6) n1(2) by simp
  then show "card (dirty s) < NBUF" using n1(1) a(3) by (simp add: LOGSIZE_def NBUF_def)
  show d: "distinct (map (\<lambda>i. lh_block lg ! i) [0..<n])" using a(5) by (simp only: t)
  show dd: "dirty s = (\<lambda>i. lh_block lg ! i) ` {0..<n}" using a(6) t by (simp flip: a(6))
  then show "i < n \<Longrightarrow> lh_block lg ! i \<in> dirty s" by auto
  then show "i < n \<Longrightarrow> lh_block lg ! i \<notin> log_area lg" "i < n \<Longrightarrow> fits s (lh_block lg ! i)" using a(7,8) by auto
  show na: "b \<in> log_area lg \<Longrightarrow> b \<notin> dirty s" for b using a(8) by auto
  note ar = area_facts [OF a(9) n1(1)]
  show "log_entries lg s [0..<n]"
    using a(7,8,10) n1 d ar(1,3,6) dd by (auto simp: log_entries_def)
  show "content s (lg_start lg) = memdisk s (lg_start lg)"
    using bc.clean [of s "lg_start lg"] a(11) na [OF ar(2)] by (auto simp: bc.idle_def)
qed

lemma commit_writes:
  assumes inv: "linv lg s" and pos: "0 < lh_n lg"
  shows "\<exists>s'. commit lg s = Ok (lg\<lparr>lh_n := 0\<rparr>, s') \<and> bc.writes_out s (commit_trace lg s) s'"
proof -
  define n where "n = nat (lh_n lg)"
  note L = linvD [OF inv n_def]
  have st: "bc.idle s" "lg_dev lg = 1" "unat (lg_start lg) + nat (lg_size lg) \<le> unat (disksize s)" using inv by (auto simp: linv_def)
  note ar = area_facts [OF st(3) L(1)]
  let ?st = "lg_start lg" and ?B = "\<lambda>i. lh_block lg ! i"
  let ?W1 = "map (\<lambda>i. (log_blk lg i, content s (?B i))) [0..<n]"
  let ?W2 = "map (\<lambda>i. (?B i, content s (?B i))) [0..<n]"
  let ?H = "hdr lg (content s ?st)"
  obtain s1 where 1: "write_loop [0..<n] lg s = Ok s1" "bc.writes_out s ?W1 s1"
    using write_loop_writes [OF L(9) st(1) L(3)] L(4,11) ar(1) by auto
  have d1: "bc.idle s1" "benv s1 = benv s" "dirty s1 = dirty s" using 1(2) L(11) ar(1) by (auto simp: bc.writes_out_def)
  have c1: "content s1 ?st = content s ?st" 
  proof -
    have "?st \<notin> log_blk lg ` set [0..<n]" by (metis ar(5) atLeastLessThan_iff imageE set_upt)
    from apply_writes_map_other [OF this] show ?thesis using 1(2) by (simp add: bc.writes_out_def)
  qed
  obtain s2 where 2: "write_head lg s1 = Ok s2" "bc.writes_out s1 [(?st, ?H)] s2"
    using write_head_writes [OF d1(1) st(2)] ar(4) bc.fit_env [OF d1(2)] d1(3) c1 L(2,3) n_def by auto
  have t2: "bc.writes_out s (?W1 @ [(?st, ?H)]) s2" by (rule bc.writes_out_trans [OF 1(2) 2(2)])
  have d2: "bc.idle s2" "benv s2 = benv s" "dirty s2 = dirty s"
    using t2 L(11) ar(1,2) by (auto simp: bc.writes_out_def)
  have c2: "content s2 (log_blk lg i) = content s (?B i)" if "i < n" for i
  proof -
    have "apply_writes ?W1 (content s) (log_blk lg i) = content s (?B i)"
      by (rule apply_writes_mem) (use ar(6) that in \<open>auto simp: o_def\<close>)
    then show ?thesis using t2 ar(5) [OF that] by (simp add: bc.writes_out_def)
  qed
  have le: "log_entries lg s2 [0..<n]" using L(9) bc.fit_env [OF d2(2)] by (simp add: log_entries_def)
  obtain s3 where 3: "install_loop [0..<n] lg s2 = Ok s3" "bc.writes_out s2 (map (\<lambda>i. (?B i, content s2 (log_blk lg i))) [0..<n]) s3"
    using install_loop_writes [OF le d2(1)] L(3,4) d2(3) by auto
  have w3: "map (\<lambda>i. (?B i, content s2 (log_blk lg i))) [0..<n] = ?W2" using c2 by simp
  have t3: "bc.writes_out s ((?W1 @ [(?st, ?H)]) @ ?W2) s3" by (rule bc.writes_out_trans [OF t2 3(2) [unfolded w3]])
  have d3: "bc.idle s3" "benv s3 = benv s" "dirty s3 \<subseteq> dirty s" using t3 by (auto simp: bc.writes_out_def)
  have c3: "content s3 ?st = ?H"
  proof -
    have "?st \<notin> fst ` set ?W2" using L(5) ar(2) by auto
    then show ?thesis using t3 by (simp add: bc.writes_out_def apply_writes_other)
  qed
  let ?lg0 = "lg\<lparr>lh_n := 0\<rparr>"
  have "finite (dirty s)" using L(8) by simp
  then have "card (dirty s3) < NBUF" using card_mono [OF _ d3(3)] L(3) by simp
  then obtain s4 where 4: "write_head ?lg0 s3 = Ok s4" "bc.writes_out s3 [(?st, put32 0 0 ?H)] s4"
    using write_head_writes [of s3 ?lg0] d3(1) st(2) ar(4) bc.fit_env [OF d3(2)] c3 hdr_zero [of ?lg0] by auto
  have "commit lg s = Ok (?lg0, s4)"
    using pos 1(1) 2(1) 3(1) 4(1) by (simp add: commit_def write_log_def install_trans_def n_def [symmetric])
  moreover have "bc.writes_out s (commit_trace lg s) s4"
    using bc.writes_out_trans [OF t3 4(2)] by (simp add: commit_trace_def n_def)
  ultimately show ?thesis by blast
qed

subsection \<open>Crashes\<close>

definition crash_disk :: "nat \<Rightarrow> log \<Rightarrow> bst \<Rightarrow> u32 \<Rightarrow> block" where
  "crash_disk k lg s = apply_writes (take k (commit_trace lg s)) (memdisk s)"

lemma clean_home: "linv lg s \<Longrightarrow> b \<notin> dirty s \<Longrightarrow> content s b = memdisk s b"
  using bc.clean [of s b] by (auto simp: linv_def bc.idle_def)

lemma commit_trace_length: "length (commit_trace lg s) = 2 * nat (lh_n lg) + 2"
  by (simp add: commit_trace_def)

lemma crash_early:
  assumes "linv lg s" "k \<le> nat (lh_n lg)"
  shows "crash_disk k lg s (lg_start lg) = memdisk s (lg_start lg)" and "b \<notin> log_area lg \<Longrightarrow> crash_disk k lg s b = memdisk s b"
proof -
  note L = linvD [OF assms(1) refl]
  have "unat (lg_start lg) + nat (lg_size lg) \<le> unat (disksize s)" using assms(1) by (simp add: linv_def)
  note ar = area_facts [OF this L(1)]
  have t: "take k (commit_trace lg s) = map (\<lambda>i. (log_blk lg i, content s (lh_block lg ! i))) [0..<k]"
    using assms(2) by (simp add: commit_trace_def take_map)
  have "lg_start lg \<notin> log_blk lg ` set [0..<k]" using assms(2) ar(5) by (metis atLeastLessThan_iff imageE less_le_trans set_upt)
  from apply_writes_map_other [OF this] show "crash_disk k lg s (lg_start lg) = memdisk s (lg_start lg)" by (simp add: crash_disk_def t)
  assume "b \<notin> log_area lg"
  then have "b \<notin> log_blk lg ` set [0..<k]" using assms(2) ar(1) by (metis atLeastLessThan_iff imageE less_le_trans set_upt)
  from apply_writes_map_other [OF this] show "crash_disk k lg s b = memdisk s b" by (simp add: crash_disk_def t)
qed

lemma install_value:
  assumes "distinct (map f is)"
  shows "apply_writes (map (\<lambda>i. (f i, g (f i))) is) d b = (if b \<in> f ` set is then g b else d b)"
proof (cases "b \<in> f ` set is")
  case True
  then have "(b, g b) \<in> set (map (\<lambda>i. (f i, g (f i))) is)" by auto
  moreover have "distinct (map fst (map (\<lambda>i. (f i, g (f i))) is))" using assms by (simp add: o_def)
  ultimately show ?thesis using True apply_writes_mem by simp
qed (use apply_writes_map_other [of b f "is"] in simp)

lemma crash_committed:
  assumes inv: "linv lg s" and k: "n = nat (lh_n lg)" "n < k" "k \<le> 2 * n + 1"
  shows "crash_disk k lg s (lg_start lg) = hdr lg (content s (lg_start lg))"
    and "i < n \<Longrightarrow> crash_disk k lg s (log_blk lg i) = content s (lh_block lg ! i)"
    and "b \<notin> log_area lg \<Longrightarrow> b \<notin> dirty s \<Longrightarrow> crash_disk k lg s b = memdisk s b"
proof -
  note L = linvD [OF inv k(1)]
  have "unat (lg_start lg) + nat (lg_size lg) \<le> unat (disksize s)" using inv by (simp add: linv_def)
  note ar = area_facts [OF this L(1)]
  let ?B = "\<lambda>i. lh_block lg ! i" and ?j = "k - n - 1"
  let ?W1 = "map (\<lambda>i. (log_blk lg i, content s (?B i))) [0..<n]"
  let ?W2 = "map (\<lambda>i. (?B i, content s (?B i))) [0..<?j]"
  let ?H = "hdr lg (content s (lg_start lg))"
  have j: "?j \<le> n" using k by simp
  have t: "take k (commit_trace lg s) = ?W1 @ [(lg_start lg, ?H)] @ ?W2"
    using k by (simp add: commit_trace_def take_map take_Cons' k(1) [symmetric])
  have dj: "distinct (map ?B [0..<?j])" using L(7) j by (auto simp: distinct_map inj_on_def)
  have c: "crash_disk k lg s x = (if x \<in> ?B ` {0..<?j} then content s x else ((apply_writes ?W1 (memdisk s))(lg_start lg := ?H)) x)" for x
    using install_value [OF dj, of "content s"] by (simp add: crash_disk_def t)
  have nB: "x \<notin> ?B ` {0..<?j}" if "x \<in> log_area lg" for x using L(5) j that by force
  show "crash_disk k lg s (lg_start lg) = ?H" using c [of "lg_start lg"] nB [OF ar(2)] by simp
  show "crash_disk k lg s (log_blk lg i) = content s (?B i)" if i: "i < n"
  proof -
    have "(log_blk lg i, content s (?B i)) \<in> set ?W1" using i by auto
    then have "apply_writes ?W1 (memdisk s) (log_blk lg i) = content s (?B i)"
      using ar(6) by (intro apply_writes_mem) (simp_all add: o_def)
    then show ?thesis using c [of "log_blk lg i"] nB [OF ar(1) [OF i]] ar(5) [OF i] by simp
  qed
  assume b: "b \<notin> log_area lg" "b \<notin> dirty s"
  then have "b \<notin> log_blk lg ` set [0..<n]" using ar(1) by auto
  from apply_writes_map_other [OF this] have "apply_writes ?W1 (memdisk s) b = memdisk s b" .
  moreover have "b \<notin> ?B ` {0..<?j}" using b(2) L(4) j by force
  moreover have "b \<noteq> lg_start lg" using b(1) ar(2) by auto
  ultimately show "crash_disk k lg s b = memdisk s b" using c [of b] by simp
qed

lemma crash_late:
  assumes inv: "linv lg s" and k: "2 * nat (lh_n lg) + 1 < k"
  shows "crash_disk k lg s (lg_start lg) = put32 0 0 (hdr lg (content s (lg_start lg)))"
    and "b \<notin> log_area lg \<Longrightarrow> crash_disk k lg s b = content s b"
proof -
  define n where "n = nat (lh_n lg)"
  note L = linvD [OF inv n_def]
  have "unat (lg_start lg) + nat (lg_size lg) \<le> unat (disksize s)" using inv by (simp add: linv_def)
  note ar = area_facts [OF this L(1)]
  let ?B = "\<lambda>i. lh_block lg ! i"
  let ?H = "hdr lg (content s (lg_start lg))"
  let ?W1 = "map (\<lambda>i. (log_blk lg i, content s (?B i))) [0..<n]"
  let ?W2 = "map (\<lambda>i. (?B i, content s (?B i))) [0..<n]"
  have t: "take k (commit_trace lg s) = ?W1 @ [(lg_start lg, ?H)] @ ?W2 @ [(lg_start lg, put32 0 0 ?H)]"
    using k commit_trace_length [of lg s] by (simp add: commit_trace_def n_def)
  show "crash_disk k lg s (lg_start lg) = put32 0 0 ?H" by (simp add: crash_disk_def t)
  assume b: "b \<notin> log_area lg"
  then have "b \<notin> log_blk lg ` set [0..<n]" using ar(1) by auto
  from apply_writes_map_other [OF this] have "apply_writes ?W1 (memdisk s) b = memdisk s b" .
  moreover have "b \<noteq> lg_start lg" using b ar(2) by auto
  ultimately have "crash_disk k lg s b = (if b \<in> ?B ` {0..<n} then content s b else memdisk s b)"
    using install_value [OF L(7), of "content s"] by (simp add: crash_disk_def t)
  then show "crash_disk k lg s b = content s b" using L(8) clean_home [OF inv, of b] by auto
qed

lemma crash_disk_length:
  assumes "linv lg s"
  shows "length (crash_disk k lg s b) = BSIZE"
proof -
  have wf: "bwf s" using assms by (simp add: linv_def bc.idle_def)
  have "\<forall>(n, d) \<in> set (commit_trace lg s). length d = BSIZE"
    using bc.cont_len [OF wf] by (auto simp: commit_trace_def)
  then have "\<forall>(n, d) \<in> set (take k (commit_trace lg s)). length d = BSIZE" by (meson in_set_takeD)
  then show ?thesis unfolding crash_disk_def using bwfD(3) [OF wf] by (rule apply_writes_length)
qed

lemma recover_boot:
  assumes len: "\<And>b. length (d b) = BSIZE" and lg: "lg_dev lg0 = 1" "length (lh_block lg0) = LOGSIZE" "lg_start lg0 < sz"
    and m: "m = nat (sint (get32 (d (lg_start lg0)) 0))" "m \<le> LOGSIZE" and B: "B = (\<lambda>i. get32 (d (lg_start lg0)) (4 + 4 * i))"
    and ok: "\<forall>i < m. log_blk lg0 i < sz \<and> B i < sz \<and> B i \<noteq> lg_start lg0" "\<forall>i < m. \<forall>j < m. B i \<noteq> log_blk lg0 j"
    and dist: "distinct (map B [0..<m])" "distinct (map (log_blk lg0) [0..<m])"
  shows "\<exists>lg' r. recover_from_log lg0 (boot_cache d sz me) = Ok (lg', r) \<and> lh_n lg' = 0
    \<and> memdisk r = apply_writes (map (\<lambda>i. (B i, d (log_blk lg0 i))) [0..<m] @ [(lg_start lg0, put32 0 0 (d (lg_start lg0)))]) d"
proof -
  let ?s = "boot_cache d sz me"
  have b: "bwf ?s" "held ?s = Map.empty" "dirty ?s = {}" "content ?s = d" "memdisk ?s = d" "benv ?s = (me, sz)"
    using boot_cache_bwf [OF len] by auto
  have f: "fits ?s x \<longleftrightarrow> x < sz" for x using b(6) by (simp add: fits_def benv_def)
  obtain lg' r where "recover_from_log lg0 ?s = Ok (lg', r)" "lh_n lg' = 0"
    "bc.writes_out ?s (map (\<lambda>i. (B i, content ?s (log_blk lg0 i))) [0..<m] @ [(lg_start lg0, put32 0 0 (d (lg_start lg0)))]) r"
    using recover_writes [of ?s lg0 "d (lg_start lg0)" m B] assms b f by (auto simp: bc.idle_def)
  then show ?thesis using b by (auto simp: bc.writes_out_def)
qed

definition recovers_to :: "log \<Rightarrow> log \<Rightarrow> bst \<Rightarrow> int \<Rightarrow> (u32 \<Rightarrow> block) \<Rightarrow> (u32 \<Rightarrow> block) \<Rightarrow> bool" where
  "recovers_to lg0 lg s me d f \<longleftrightarrow> (\<exists>lg' r. recover_from_log lg0 (boot_cache d (disksize s) me) = Ok (lg', r)
      \<and> lh_n lg' = 0 \<and> get32 (memdisk r (lg_start lg)) 0 = 0 \<and> (\<forall>b. b \<notin> log_area lg \<longrightarrow> memdisk r b = f b))"

lemma recover_committed:
  assumes inv: "linv lg s" and n_def: "n = nat (lh_n lg)" and k: "n < k" "k \<le> 2 * n + 1"
    and lg0: "lg_start lg0 = lg_start lg" "lg_dev lg0 = 1" "length (lh_block lg0) = LOGSIZE"
  shows "recovers_to lg0 lg s me (crash_disk k lg s) (content s)"
proof -
  note L = linvD [OF inv n_def] and C = crash_committed [OF inv n_def k]
  have z: "unat (lg_start lg) + nat (lg_size lg) \<le> unat (disksize s)" "bwf s" using inv by (auto simp: linv_def bc.idle_def)
  note ar = area_facts [OF z(1) L(1)]
  let ?st = "lg_start lg" and ?H = "hdr lg (content s (lg_start lg))" and ?d = "crash_disk k lg s"
  let ?B = "\<lambda>i. get32 ?H (4 + 4 * i)"
  have Hl: "length ?H = BSIZE" using bc.cont_len [OF z(2)] by simp
  have blk: "log_blk lg0 = log_blk lg" using lg0(1) by (simp add: log_blk_def fun_eq_iff)
  have first: "lg_start lg0 < disksize s" using ar(4) lg0(1) by (simp add: fits_def)
  have H: "sint (get32 ?H 0) = lh_n lg" "\<And>i. i < n \<Longrightarrow> ?B i = lh_block lg ! i"
    using hdr_get [of "content s ?st" lg] bc.cont_len [OF z(2)] inv L(2) by (auto simp: linv_def n_def)
  have mB: "map ?B [0..<n] = map (\<lambda>i. lh_block lg ! i) [0..<n]" using H(2) by simp
  have dB: "distinct (map ?B [0..<n])" unfolding mB by (rule L(7))
  have nL: "lh_block lg ! i \<noteq> x" if "i < n" "x \<in> log_area lg" for i x using L(5) that by blast
  obtain lg' r where r: "recover_from_log lg0 (boot_cache ?d (disksize s) me) = Ok (lg', r)" "lh_n lg' = 0"
    "memdisk r = apply_writes (map (\<lambda>i. (?B i, ?d (log_blk lg i))) [0..<n] @ [(?st, put32 0 0 ?H)]) ?d"
    using recover_boot [where d = ?d and m = n and B = ?B and me = me, OF crash_disk_length [OF inv] lg0(2,3) first] C(1) H L(2) lg0 n_def dB ar nL L(6) inv
    unfolding blk by (auto simp: fits_def linv_def)
  have w: "map (\<lambda>i. (?B i, ?d (log_blk lg i))) [0..<n] = map (\<lambda>i. (lh_block lg ! i, content s (lh_block lg ! i))) [0..<n]"
    using H(2) C(2) by simp
  have "memdisk r b = content s b" if b: "b \<notin> log_area lg" for b
  proof -
    have "b \<noteq> ?st" using b ar(2) by auto
    then have "memdisk r b = (if b \<in> dirty s then content s b else ?d b)"
      unfolding r(3) w L(8) using install_value [OF L(7), of "content s"] by simp
    then show ?thesis using C(3) [OF b] clean_home [OF inv, of b] by auto
  qed
  then show ?thesis using r Hl by (auto simp: recovers_to_def BSIZE_def)
qed

lemma recover_empty:
  assumes inv: "linv lg s" and k: "k \<le> nat (lh_n lg) \<or> 2 * nat (lh_n lg) + 1 < k"
    and lg0: "lg_start lg0 = lg_start lg" "lg_dev lg0 = 1" "length (lh_block lg0) = LOGSIZE"
  shows "recovers_to lg0 lg s me (crash_disk k lg s) (crash_disk k lg s)"
proof -
  note L = linvD [OF inv refl]
  have z: "unat (lg_start lg) + nat (lg_size lg) \<le> unat (disksize s)" "bwf s" using inv by (auto simp: linv_def bc.idle_def)
  note ar = area_facts [OF z(1) L(1)]
  let ?st = "lg_start lg" and ?H = "hdr lg (content s (lg_start lg))" and ?d = "crash_disk k lg s"
  have first: "lg_start lg0 < disksize s" using ar(4) lg0(1) by (simp add: fits_def)
  have "length ?H = BSIZE" using bc.cont_len [OF z(2)] by simp
  then have z0: "get32 (?d ?st) 0 = 0"
    using k crash_early(1) [OF inv] crash_late(1) [OF inv, of k] inv by (auto simp: linv_def BSIZE_def)
  obtain lg' r where r: "recover_from_log lg0 (boot_cache ?d (disksize s) me) = Ok (lg', r)" "lh_n lg' = 0"
    "memdisk r = ?d(?st := put32 0 0 (?d ?st))"
    using recover_boot [where d = ?d and m = 0 and B = "\<lambda>i. get32 (?d ?st) (4 + 4 * i)" and me = me, OF crash_disk_length [OF inv] lg0(2,3) first] z0 lg0 by auto
  then show ?thesis using ar(2) crash_disk_length [OF inv, of k ?st] by (auto simp: recovers_to_def BSIZE_def)
qed

lemma recover_crash:
  assumes inv: "linv lg s" and lg0: "lg_start lg0 = lg_start lg" "lg_dev lg0 = 1" "length (lh_block lg0) = LOGSIZE"
  shows "recovers_to lg0 lg s me (crash_disk k lg s) (if k \<le> nat (lh_n lg) then memdisk s else content s)"
proof (cases "nat (lh_n lg) < k \<and> k \<le> 2 * nat (lh_n lg) + 1")
  case True
  then show ?thesis using recover_committed [OF inv refl _ _ lg0] by simp
next
  case False
  then have "recovers_to lg0 lg s me (crash_disk k lg s) (crash_disk k lg s)" by (intro recover_empty [OF inv _ lg0]) linarith
  moreover have "crash_disk k lg s b = (if k \<le> nat (lh_n lg) then memdisk s else content s) b" if "b \<notin> log_area lg" for b
    using crash_early(2) [OF inv _ that] crash_late(2) [OF inv _ that, of k] False by (cases "k \<le> nat (lh_n lg)") auto
  ultimately show ?thesis unfolding recovers_to_def by metis
qed

text \<open>
  C3. Commits are atomic across crashes. In a state that satisfies the transaction invariant,
  \<^verbatim>\<open>commit\<close> returns with every block outside the log written to its home place, nothing dirty and
  the log empty. If the machine stops after any number \<open>k\<close> of the block writes that \<^verbatim>\<open>commit\<close>
  sends, then \<^verbatim>\<open>recover_from_log\<close>, run on a cold cache over the disk as the crash left it, returns
  with an empty log, and the blocks outside the log are all as before the transaction if the
  header had not been written (\<open>k \<le> n\<close>) and all as the transaction left them if it had.
\<close>
theorem commit_crash_atomic:
  assumes inv: "linv lg s" and pos: "0 < lh_n lg"
    and lg0: "lg_start lg0 = lg_start lg" "lg_dev lg0 = 1" "length (lh_block lg0) = LOGSIZE"
  shows "(\<exists>s'. commit lg s = Ok (lg\<lparr>lh_n := 0\<rparr>, s') \<and> dirty s' = {} \<and> dwrites s' = dwrites s @ commit_trace lg s
      \<and> memdisk s' = apply_writes (commit_trace lg s) (memdisk s) \<and> (\<forall>b. b \<notin> log_area lg \<longrightarrow> memdisk s' b = content s b))
    \<and> (\<exists>lg' r. recover_from_log lg0 (boot_cache (apply_writes (take k (commit_trace lg s)) (memdisk s)) (disksize s) me) = Ok (lg', r)
      \<and> lh_n lg' = 0 \<and> get32 (memdisk r (lg_start lg)) 0 = 0
      \<and> (\<forall>b. b \<notin> log_area lg \<longrightarrow> memdisk r b = (if k \<le> nat (lh_n lg) then memdisk s else content s) b))"
proof
  obtain s' where s': "commit lg s = Ok (lg\<lparr>lh_n := 0\<rparr>, s')" "bc.writes_out s (commit_trace lg s) s'"
    using commit_writes [OF inv pos] by blast
  have "dirty s \<subseteq> fst ` set (commit_trace lg s)" unfolding linvD(8) [OF inv refl] by (force simp: commit_trace_def)
  then have "dirty s' = {}" using s'(2) by (auto simp: bc.writes_out_def)
  moreover have "crash_disk (2 * nat (lh_n lg) + 2) lg s = apply_writes (commit_trace lg s) (memdisk s)"
    using commit_trace_length [of lg s] by (simp add: crash_disk_def)
  ultimately show "\<exists>s'. commit lg s = Ok (lg\<lparr>lh_n := 0\<rparr>, s') \<and> dirty s' = {} \<and> dwrites s' = dwrites s @ commit_trace lg s
      \<and> memdisk s' = apply_writes (commit_trace lg s) (memdisk s) \<and> (\<forall>b. b \<notin> log_area lg \<longrightarrow> memdisk s' b = content s b)"
    using s' crash_late(2) [OF inv, of "2 * nat (lh_n lg) + 2"] by (auto simp: bc.writes_out_def)
next
  show "\<exists>lg' r. recover_from_log lg0 (boot_cache (apply_writes (take k (commit_trace lg s)) (memdisk s)) (disksize s) me) = Ok (lg', r)
      \<and> lh_n lg' = 0 \<and> get32 (memdisk r (lg_start lg)) 0 = 0
      \<and> (\<forall>b. b \<notin> log_area lg \<longrightarrow> memdisk r b = (if k \<le> nat (lh_n lg) then memdisk s else content s) b)"
    using recover_crash [OF inv lg0, of me k] unfolding recovers_to_def crash_disk_def .
qed

subsection \<open>Building a transaction\<close>

text \<open>The transaction invariant while the running process still holds buffers.\<close>

definition ltx :: "log \<Rightarrow> bst \<Rightarrow> bool" where
  "ltx lg s \<longleftrightarrow> bwf s \<and> lg_dev lg = 1 \<and> length (lh_block lg) = LOGSIZE \<and> 0 \<le> lh_n lg \<and> lh_n lg < lg_size lg \<and> lg_size lg \<le> int LOGSIZE
     \<and> distinct (take (nat (lh_n lg)) (lh_block lg)) \<and> set (take (nat (lh_n lg)) (lh_block lg)) = dirty s
     \<and> dirty s \<subseteq> Collect (fits s) \<and> dirty s \<inter> log_area lg = {}
     \<and> unat (lg_start lg) + nat (lg_size lg) \<le> unat (disksize s) \<and> get32 (memdisk s (lg_start lg)) 0 = 0"

lemma linv_ltx: "linv lg s \<longleftrightarrow> ltx lg s \<and> held s = Map.empty"
  by (auto simp: linv_def ltx_def bc.idle_def)

lemma ltx_cong:
  "ltx lg s \<Longrightarrow> bwf s' \<Longrightarrow> dirty s' = dirty s \<Longrightarrow> memdisk s' = memdisk s \<Longrightarrow> benv s' = benv s \<Longrightarrow> ltx lg s'"
  using bc.fit_env [of s' s] by (auto simp: ltx_def benv_def)

lemma absorb_cases:
  assumes "n = nat (lh_n lg)" "n \<le> length (lh_block lg)" "distinct (take n (lh_block lg))"
  shows "if x \<in> set (take n (lh_block lg)) then absorb lg x < n \<and> lh_block lg ! absorb lg x = x else absorb lg x = n"
proof (cases "find (\<lambda>i. lh_block lg ! i = x) [0..<n]")
  case None
  then have "x \<notin> set (take n (lh_block lg))" using assms(2) by (auto simp: find_None_iff in_set_conv_nth)
  then show ?thesis using None assms(1) by (simp add: absorb_def)
next
  case (Some i)
  then have "lh_block lg ! i = x" "i < n" using find_SomeD [OF Some] by auto
  moreover then have "x \<in> set (take n (lh_block lg))" using assms(2) by (auto simp: in_set_conv_nth intro!: exI [of _ i])
  ultimately show ?thesis using Some assms(1) by (simp add: absorb_def)
qed

lemma log_write_entry:
  assumes "n = nat (lh_n lg)" "n < length (lh_block lg)" "distinct (take n (lh_block lg))" "0 \<le> lh_n lg"
    "lg' = (lg\<lparr>lh_block := (lh_block lg)[absorb lg x := x]\<rparr>)\<lparr>lh_n := (if absorb lg x = n then lh_n lg + 1 else lh_n lg)\<rparr>"
  shows "distinct (take (nat (lh_n lg')) (lh_block lg'))" "set (take (nat (lh_n lg')) (lh_block lg')) = insert x (set (take n (lh_block lg)))"
proof -
  have a: "if x \<in> set (take n (lh_block lg)) then absorb lg x < n \<and> lh_block lg ! absorb lg x = x else absorb lg x = n"
    using assms by (intro absorb_cases) auto
  have "distinct (take (nat (lh_n lg')) (lh_block lg')) \<and> set (take (nat (lh_n lg')) (lh_block lg')) = insert x (set (take n (lh_block lg)))"
  proof (cases "x \<in> set (take n (lh_block lg))")
    case True
    then have "lh_block lg' = lh_block lg" "nat (lh_n lg') = n" 
      using a assms(1,5) list_update_id [of "lh_block lg" "absorb lg x"] by simp_all
    then show ?thesis using True assms(3) by (simp add: insert_absorb)
  next
    case False
    then have "absorb lg x = n" using a by simp
    then have "take (nat (lh_n lg')) (lh_block lg') = take n (lh_block lg) @ [x]"
      using assms(1,2,4,5) by (simp add: nat_add_distrib take_Suc_update)
    then show ?thesis using False assms(3) by simp
  qed
  then show "distinct (take (nat (lh_n lg')) (lh_block lg'))" "set (take (nat (lh_n lg')) (lh_block lg')) = insert x (set (take n (lh_block lg)))"
    by auto
qed

definition logged :: "log \<Rightarrow> u32 \<Rightarrow> log" where
  "logged lg x = lg\<lparr>lh_block := (lh_block lg)[absorb lg x := x], lh_n := (if absorb lg x = nat (lh_n lg) then lh_n lg + 1 else lh_n lg)\<rparr>"

lemma log_write_eq:
  assumes "ltx lg s" "\<not> lg_lock lg" "held s b = Some x" "lh_n lg < int LOGSIZE" "lh_n lg < lg_size lg - 1" "lg_outstanding lg \<ge> 1"
  shows "log_write b lg s = Ok (logged lg x, pin b s)"
proof -
  have wf: "bwf s" using assms(1) by (simp add: ltx_def)
  have d: "0 \<le> lh_n lg" "length (lh_block lg) = LOGSIZE" "distinct (take (nat (lh_n lg)) (lh_block lg))"
    using assms(1) by (auto simp: ltx_def)
  have n: "nat (lh_n lg) < length (lh_block lg)" using assms(4) d(1,2) by simp
  have i: "absorb lg x < length (lh_block lg)" using absorb_cases [OF refl _ d(3), of x] n by (auto split: if_splits)
  have ii: "int (absorb lg x) = lh_n lg \<longleftrightarrow> absorb lg x = nat (lh_n lg)" using d(1) by auto
  have ab: "absorb (lg\<lparr>lg_lock := True\<rparr>) x = absorb lg x" by (simp add: absorb_def split: option.split)
  have "log_write b lg s = Ok ((logged lg x)\<lparr>lg_lock := False\<rparr>, pin b s)"
    using assms(2,4-6) i ii heldD(10) [OF wf assms(3)] ab
    by (simp add: log_write_def lg_acquire_def lg_release_def lh_put_def Let_def logged_def)
  moreover have "(logged lg x)\<lparr>lg_lock := False\<rparr> = logged lg x" using assms(2) by (cases lg) (simp add: logged_def)
  ultimately show ?thesis by simp
qed

lemma logged_ltx:
  assumes tx: "ltx lg s" and h: "held s b = Some x" and x: "x \<notin> log_area lg" and r: "lh_n lg < int LOGSIZE" "lh_n lg < lg_size lg - 1"
  shows "ltx (logged lg x) (pin b s)" "lh_n (logged lg x) = int (card (dirty (pin b s)))"
proof -
  have wf: "bwf s" using tx by (simp add: ltx_def)
  have d: "0 \<le> lh_n lg" "length (lh_block lg) = LOGSIZE" "distinct (take (nat (lh_n lg)) (lh_block lg))"
    "set (take (nat (lh_n lg)) (lh_block lg)) = dirty s" "dirty s \<subseteq> Collect (fits s)" "dirty s \<inter> log_area lg = {}"
    using tx by (auto simp: ltx_def)
  have n: "nat (lh_n lg) < length (lh_block lg)" using r(1) d(1,2) by simp
  have P: "bwf (pin b s)" "memdisk (pin b s) = memdisk s" "dirty (pin b s) = insert x (dirty s)" "benv (pin b s) = benv s"
    using pin_spec [OF wf h] by auto
  have e: "distinct (take (nat (lh_n (logged lg x))) (lh_block (logged lg x)))"
    "set (take (nat (lh_n (logged lg x))) (lh_block (logged lg x))) = insert x (dirty s)"
    using log_write_entry [OF refl n d(3,1), of "logged lg x" x] d(4) by (simp_all add: logged_def)
  have len: "length (take (nat (lh_n (logged lg x))) (lh_block (logged lg x))) = nat (lh_n (logged lg x))"
    using n d(1) by (simp add: logged_def)
  show "lh_n (logged lg x) = int (card (dirty (pin b s)))"
    using distinct_card [OF e(1)] P(3) e(2) len d(1) by (simp add: logged_def split: if_splits)
  have "insert x (dirty s) \<subseteq> Collect (fits (pin b s))"
    using d(5) heldD(7) [OF wf h] bc.fit_env [OF P(4)] by (auto simp: fits_def)
  moreover have "log_area (logged lg x) = log_area lg" by (simp add: log_area_def logged_def)
  moreover have "lh_n (logged lg x) < lg_size lg" "0 \<le> lh_n (logged lg x)" "length (lh_block (logged lg x)) = LOGSIZE" "lg_dev (logged lg x) = lg_dev lg"
    "lg_size (logged lg x) = lg_size lg" "lg_start (logged lg x) = lg_start lg"
    using r(2) d(1,2) by (simp_all add: logged_def)
  moreover have "disksize (pin b s) = disksize s" using P(4) by (simp add: benv_def)
  ultimately show "ltx (logged lg x) (pin b s)"
    using tx P x d(6) e unfolding ltx_def by simp
qed

text \<open>
  \<^verbatim>\<open>log_write\<close> inside a transaction with room in the log: it returns, pins the buffer's block,
  records it once (a block already recorded is absorbed, so the count of recorded blocks is the
  number of dirty blocks), writes nothing to the disk, and keeps the transaction invariant.
  Outside of a transaction, or with no room left, it panics.
\<close>
theorem log_write_absorbs:
  assumes tx: "ltx lg s" and lk: "\<not> lg_lock lg" and h: "held s b = Some x" and x: "x \<notin> log_area lg"
  shows "if lh_n lg \<ge> int LOGSIZE \<or> lh_n lg \<ge> lg_size lg - 1 then log_write b lg s = Panic ''too big a transaction''
    else if lg_outstanding lg < 1 then log_write b lg s = Panic ''log_write outside of trans''
    else \<exists>lg' s'. log_write b lg s = Ok (lg', s') \<and> ltx lg' s' \<and> dirty s' = insert x (dirty s) \<and> lh_n lg' = int (card (dirty s'))
      \<and> lg_outstanding lg' = lg_outstanding lg \<and> lg_start lg' = lg_start lg \<and> lg_size lg' = lg_size lg \<and> \<not> lg_lock lg'
      \<and> content s' = content s \<and> memdisk s' = memdisk s \<and> dwrites s' = dwrites s \<and> held s' = held s \<and> benv s' = benv s"
proof -
  have wf: "bwf s" using tx by (simp add: ltx_def)
  consider (full) "lh_n lg \<ge> int LOGSIZE \<or> lh_n lg \<ge> lg_size lg - 1"
    | (out) "\<not> (lh_n lg \<ge> int LOGSIZE \<or> lh_n lg \<ge> lg_size lg - 1)" "lg_outstanding lg < 1"
    | (ok) "lh_n lg < int LOGSIZE" "lh_n lg < lg_size lg - 1" "lg_outstanding lg \<ge> 1" by linarith
  then show ?thesis
  proof cases
    case ok
    have "lg_outstanding (logged lg x) = lg_outstanding lg" "lg_start (logged lg x) = lg_start lg" "lg_size (logged lg x) = lg_size lg"
      "\<not> lg_lock (logged lg x)" using lk by (simp_all add: logged_def)
    then show ?thesis
      using log_write_eq [OF tx lk h ok] logged_ltx [OF tx h x ok(1,2)] pin_spec [OF wf h] ok by simp
  qed (simp_all add: log_write_def)
qed

subsection \<open>A transaction from a fresh file system\<close>

definition empty_disk :: "u32 \<Rightarrow> block" where
  "empty_disk n = replicate BSIZE 0"

definition demo_log :: log where
  "demo_log = \<lparr>lg_lock = False, lg_start = 2, lg_size = 30, lg_outstanding = 0, lg_committing = False, lg_dev = 1,
     lh_n = 0, lh_block = replicate LOGSIZE 0\<rparr>"

definition demo_tx :: "(log \<times> bst) res" where
  "demo_tx =
     rbind (begin_op demo_log (boot_cache empty_disk 1000 1)) (\<lambda>(lg, s).
     rbind (bread 1 100 s) (\<lambda>(b, s).
     let s = set_data b (replicate BSIZE 7) s in
     rbind (log_write b lg s) (\<lambda>(lg, s).
     rbind (brelse b s) (\<lambda>s. Ok (lg, s)))))"

lemma empty_boot:
  "bwf (boot_cache empty_disk 1000 1)" "held (boot_cache empty_disk 1000 1) = Map.empty" "dirty (boot_cache empty_disk 1000 1) = {}"
  "memdisk (boot_cache empty_disk 1000 1) = empty_disk" "benv (boot_cache empty_disk 1000 1) = (1, 1000)"
  "disksize (boot_cache empty_disk 1000 1) = 1000" "cur_pid (boot_cache empty_disk 1000 1) = 1"
  using boot_cache_bwf [of empty_disk 1000 1] by (auto simp: empty_disk_def benv_def)

lemma get32_zero: "i + 3 < n \<Longrightarrow> get32 (replicate n 0) i = 0"
  by (simp add: get32_def)

lemma demo_area: "log_area (demo_log\<lparr>lg_outstanding := k\<rparr>) = (\<lambda>i. 2 + of_nat i) ` {0..<30}"
  by (simp add: log_area_def demo_log_def)

lemma demo_out: "(100 :: u32) \<notin> (\<lambda>i. 2 + of_nat i) ` {0..<30}"
proof
  assume "(100 :: u32) \<in> (\<lambda>i. 2 + of_nat i) ` {0..<30}"
  then obtain i where i: "(100 :: u32) = 2 + of_nat i" "i < 30" by auto
  then have "unat (100 :: u32) = unat (2 :: u32) + i" using unat_add_of_nat [of 2 i] by simp
  then show False using i(2) by simp
qed

lemma demo_ltx: "ltx (demo_log\<lparr>lg_outstanding := k\<rparr>) (boot_cache empty_disk 1000 1)"
  unfolding ltx_def using empty_boot
  by (simp add: demo_log_def LOGSIZE_def MAXOPBLOCKS_def empty_disk_def get32_zero BSIZE_def)

lemma demo_tx_Ok: "\<exists>lg s. demo_tx = Ok (lg, s) \<and> linv lg s \<and> lh_n lg = 1 \<and> dirty s = {100} \<and> content s 100 = replicate BSIZE 7 \<and> lg_start lg = 2"
proof -
  let ?s = "boot_cache empty_disk 1000 1" and ?lg = "demo_log\<lparr>lg_outstanding := 1\<rparr>"
  have b: "begin_op demo_log ?s = Ok (?lg, ?s)"
    by (simp add: begin_op_def lg_acquire_def lg_release_def demo_log_def LOGSIZE_def MAXOPBLOCKS_def)
  obtain i s1 where 1: "bread 1 100 ?s = Ok (i, s1)" "bwf s1" "held s1 = [i \<mapsto> 100]" "memdisk s1 = memdisk ?s" "dirty s1 = {}" "benv s1 = benv ?s"
    using bread_spec [of ?s 100] empty_boot NBUF_ge_2 by (auto simp: fits_def)
  let ?s2 = "set_data i (replicate BSIZE 7) s1"
  have 2: "bwf ?s2" "held ?s2 = [i \<mapsto> 100]" "content ?s2 100 = replicate BSIZE 7" "memdisk ?s2 = memdisk ?s" "dirty ?s2 = {}" "benv ?s2 = benv ?s"
    using set_data_spec [OF 1(2), of i 100 "replicate BSIZE 7"] 1 by auto
  have tx: "ltx ?lg ?s2" by (rule ltx_cong [OF demo_ltx]) (use 2 empty_boot in auto)
  have n: "lh_n ?lg = 0" "lg_size ?lg = 30" "\<not> lg_lock ?lg" "lg_outstanding ?lg = 1" by (simp_all add: demo_log_def)
  have ln: "int LOGSIZE = 30" by (simp add: LOGSIZE_def MAXOPBLOCKS_def)
  have h: "held ?s2 i = Some 100" using 2(2) by simp
  have w: "log_write i ?lg ?s2 = Ok (logged ?lg 100, pin i ?s2)" by (rule log_write_eq [OF tx n(3) h]) (simp_all add: n ln)
  have x: "100 \<notin> log_area ?lg" using demo_out by (simp add: demo_area)
  have l: "ltx (logged ?lg 100) (pin i ?s2)" "lh_n (logged ?lg 100) = int (card (dirty (pin i ?s2)))"
    by (rule logged_ltx [OF tx h x]; simp add: n ln)+
  have p: "bwf (pin i ?s2)" "held (pin i ?s2) i = Some 100" "held (pin i ?s2) = [i \<mapsto> 100]" "content (pin i ?s2) = content ?s2" "dirty (pin i ?s2) = {100}"
    "memdisk (pin i ?s2) = memdisk ?s2"
    using pin_spec [OF 2(1) h] 2 by auto
  obtain s4 where 4: "brelse i (pin i ?s2) = Ok s4" "bwf s4" "held s4 = Map.empty" "content s4 = content ?s2" "dirty s4 = {100}"
    "memdisk s4 = memdisk (pin i ?s2)" "benv s4 = benv (pin i ?s2)"
    using brelse_spec [OF p(1,2)] p by auto
  have "demo_tx = Ok (logged ?lg 100, s4)" using b 1(1) w 4(1) by (simp add: demo_tx_def)
  moreover have "linv (logged ?lg 100) s4" unfolding linv_ltx using 4 p by (auto intro: ltx_cong [OF l(1)])
  moreover have "lg_start (logged ?lg 100) = 2" by (simp add: logged_def demo_log_def)
  moreover have "lh_n (logged ?lg 100) = 1" "dirty s4 = {100}" "content s4 100 = replicate BSIZE 7" using l(2) p(5) 4(4,5) 2(3) by simp_all
  ultimately show ?thesis by blast
qed

theorem commit_crash_atomic_witness:
  "\<exists>lg s. demo_tx = Ok (lg, s) \<and> (\<exists>s'. commit lg s = Ok (lg\<lparr>lh_n := 0\<rparr>, s'))
    \<and> (\<exists>lg' r. recover_from_log demo_log (boot_cache (apply_writes (take 2 (commit_trace lg s)) (memdisk s)) (disksize s) 1) = Ok (lg', r))"
proof -
  obtain lg s where d: "demo_tx = Ok (lg, s)" "linv lg s" "lh_n lg = 1" "lg_start lg = 2" using demo_tx_Ok by blast
  have "lg_start demo_log = lg_start lg" "lg_dev demo_log = 1" "length (lh_block demo_log) = LOGSIZE" "0 < lh_n lg"
    using d(3,4) by (simp_all add: demo_log_def)
  then show ?thesis using d(1) commit_crash_atomic [OF d(2), of demo_log 2 1] by auto
qed

theorem log_write_absorbs_witness:
  "\<exists>b s. bread 1 100 (boot_cache empty_disk 1000 1) = Ok (b, s)
     \<and> (\<exists>lg' s'. log_write b (demo_log\<lparr>lg_outstanding := 1\<rparr>) s = Ok (lg', s') \<and> lh_n lg' = 1 \<and> dirty s' = {100})"
proof -
  let ?s = "boot_cache empty_disk 1000 1" and ?lg = "demo_log\<lparr>lg_outstanding := 1\<rparr>"
  obtain i s1 where 1: "bread 1 100 ?s = Ok (i, s1)" "bwf s1" "held s1 = [i \<mapsto> 100]" "memdisk s1 = memdisk ?s" "dirty s1 = {}" "benv s1 = benv ?s"
    using bread_spec [of ?s 100] empty_boot NBUF_ge_2 by (auto simp: fits_def)
  have tx: "ltx ?lg s1" by (rule ltx_cong [OF demo_ltx]) (use 1 empty_boot in auto)
  have "100 \<notin> log_area ?lg" "\<not> lg_lock ?lg" using demo_out by (simp add: demo_area, simp add: demo_log_def)
  then have "\<exists>lg' s'. log_write i ?lg s1 = Ok (lg', s') \<and> lh_n lg' = 1 \<and> dirty s' = {100}"
    using log_write_absorbs [OF tx, of i 100] 1(3,5) by (auto simp: demo_log_def LOGSIZE_def MAXOPBLOCKS_def)
  then show ?thesis using 1(1) by blast
qed



end
