(* ===== verification/FsBlocks.thy ===== *)
theory FsBlocks
  imports Fs LogProps
begin

section \<open>Blocks and disk inodes inside a transaction\<close>

text \<open>
  The operations of \<^verbatim>\<open>fs.c\<close> that change a block do so by reading it, editing its bytes, passing it
  to the log and releasing it. \<open>fs_modify\<close> says once what this does to the logical content of the
  disk; the allocator and the inode routines are instances. \<open>ftx s\<close> is the invariant of a running
  transaction, \<open>room k s\<close> that \<open>k\<close> more blocks may be logged, \<open>fctx s\<close> what such an edit leaves
  alone.
\<close>

definition fcont :: "fsst \<Rightarrow> u32 \<Rightarrow> block" where "fcont s = content (fs_b s)"

definition fdirty :: "fsst \<Rightarrow> u32 set" where "fdirty s = dirty (fs_b s)"

definition fheld :: "fsst \<Rightarrow> nat \<Rightarrow> u32 option" where "fheld s = held (fs_b s)"

definition ftx :: "fsst \<Rightarrow> bool" where
  "ftx s \<longleftrightarrow> ltx (fs_log s) (fs_b s) \<and> \<not> lg_lock (fs_log s) \<and> 1 \<le> lg_outstanding (fs_log s) \<and> card (ran (held (fs_b s))) \<le> 1"

definition room :: "nat \<Rightarrow> fsst \<Rightarrow> bool" where
  "room k s \<longleftrightarrow> int (card (fdirty s) + k) < lg_size (fs_log s)"

definition fctx :: "fsst \<Rightarrow> superblock \<times> bool \<times> inode list \<times> (nat \<Rightarrow> u32 option) \<times> (u32 \<Rightarrow> block) \<times> (int \<times> u32) \<times> u32 \<times> int \<times> int" where
  "fctx s = (fs_sb s, ic_lock s, inodes s, fheld s, memdisk (fs_b s), benv (fs_b s), lg_start (fs_log s), lg_size (fs_log s), lg_outstanding (fs_log s))"

lemma fctxD:
  assumes "fctx s' = fctx s"
  shows "fs_sb s' = fs_sb s" "ic_lock s' = ic_lock s" "inodes s' = inodes s" "fheld s' = fheld s" "memdisk (fs_b s') = memdisk (fs_b s)"
    "benv (fs_b s') = benv (fs_b s)" "lg_start (fs_log s') = lg_start (fs_log s)" "lg_size (fs_log s') = lg_size (fs_log s)"
    "cur_pid (fs_b s') = cur_pid (fs_b s)" "disksize (fs_b s') = disksize (fs_b s)" "log_area (fs_log s') = log_area (fs_log s)"
    "fits (fs_b s') = fits (fs_b s)"
  using assms by (auto simp: fctx_def benv_def log_area_def fits_def)

definition usable :: "fsst \<Rightarrow> u32 \<Rightarrow> bool" where
  "usable s n \<longleftrightarrow> fits (fs_b s) n \<and> n \<notin> log_area (fs_log s) \<and> n \<notin> ran (fheld s)"

lemma usable_cong:
  assumes "fctx s' = fctx s"
  shows "usable s' = usable s"
  by (rule ext) (simp add: usable_def fctxD(4,11,12) [OF assms])

lemma card_dirty:
  assumes "ltx lg s"
  shows "int (card (dirty s)) = lh_n lg" "finite (dirty s)"
proof -
  have d: "distinct (take (nat (lh_n lg)) (lh_block lg))" "set (take (nat (lh_n lg)) (lh_block lg)) = dirty s"
    "0 \<le> lh_n lg" "nat (lh_n lg) \<le> length (lh_block lg)"
    using assms by (auto simp: ltx_def)
  show "int (card (dirty s)) = lh_n lg" using distinct_card [OF d(1)] d by simp
  show "finite (dirty s)" using d(2) by (metis List.finite_set)
qed

lemma held_finite: "finite (ran (held s))"
proof -
  have "ran (held s) \<subseteq> (\<lambda>i. b_blockno (buf_at s i)) ` {0..<NBUF}" by (auto simp: ran_def held_def split: if_splits)
  then show ?thesis by (rule finite_subset) simp
qed

lemma ftx_read_room:
  assumes "ftx s" "room 1 s"
  shows "card (fdirty s \<union> ran (fheld s)) < NBUF"
proof -
  have "card (fdirty s \<union> ran (fheld s)) \<le> card (fdirty s) + card (ran (fheld s))" by (rule card_Un_le)
  moreover have "lg_size (fs_log s) \<le> int LOGSIZE" "card (ran (fheld s)) \<le> 1" using assms(1) by (auto simp: ftx_def ltx_def fheld_def)
  ultimately show ?thesis using assms(2) by (simp add: room_def LOGSIZE_def NBUF_def)
qed

lemma fs_bread_ok:
  assumes tx: "ftx s" and n: "fits (fs_b s) n" "n \<notin> ran (fheld s)" and rm: "room 1 s"
  obtains bp b where "fs_bread 1 n s = Ok (bp, s\<lparr>fs_b := b\<rparr>)" "bwf b" "fheld s bp = None" "held b = (fheld s)(bp \<mapsto> n)"
    "fs_data (s\<lparr>fs_b := b\<rparr>) bp = fcont s n" "content b = fcont s" "dirty b = fdirty s" "memdisk b = memdisk (fs_b s)" "benv b = benv (fs_b s)"
    "ltx (fs_log s) b"
proof -
  have l: "ltx (fs_log s) (fs_b s)" using tx by (simp add: ftx_def)
  then have wf: "bwf (fs_b s)" by (simp add: ltx_def)
  have "\<exists>bp b. bread 1 n (fs_b s) = Ok (bp, b) \<and> bwf b \<and> held (fs_b s) bp = None \<and> held b = (held (fs_b s))(bp \<mapsto> n)
    \<and> content b = content (fs_b s) \<and> memdisk b = memdisk (fs_b s) \<and> dirty b = dirty (fs_b s) \<and> dwrites b = dwrites (fs_b s) \<and> benv b = benv (fs_b s)"
    using bread_spec [OF wf n(1)] n(2) ftx_read_room [OF tx rm] unfolding fheld_def fdirty_def by blast
  then obtain bp b where b: "bread 1 n (fs_b s) = Ok (bp, b)" "bwf b" "held (fs_b s) bp = None" "held b = (held (fs_b s))(bp \<mapsto> n)"
    "content b = content (fs_b s)" "memdisk b = memdisk (fs_b s)" "dirty b = dirty (fs_b s)" "benv b = benv (fs_b s)" by blast
  have "b_data (buf_at b bp) = content b n" using heldD(11) [OF b(2), of bp n] b(4) by simp
  moreover have "ltx (fs_log s) b" using ltx_cong [OF l b(2,7,6,8)] .
  ultimately show thesis using b by (intro that [of bp b]) (simp_all add: fs_bread_def fheld_def fcont_def fdirty_def fs_data_def)
qed

lemma fs_brelse_ok:
  assumes "bwf b" "held b bp = Some n" "n \<in> dirty b \<or> content b n = memdisk b n" "ltx lg b"
  obtains b' where "\<And>s. fs_brelse bp (s\<lparr>fs_b := b\<rparr>) = Ok (s\<lparr>fs_b := b'\<rparr>)" "bwf b'" "held b' = (held b)(bp := None)" "content b' = content b"
    "memdisk b' = memdisk b" "dirty b' = dirty b" "benv b' = benv b" "ltx lg b'"
proof -
  obtain b' where b: "brelse bp b = Ok b'" "bwf b'" "held b' = (held b)(bp := None)" "content b' = content b"
    "memdisk b' = memdisk b" "dirty b' = dirty b" "dwrites b' = dwrites b" "benv b' = benv b"
    using brelse_spec [OF assms(1-3)] by blast
  then show thesis using ltx_cong [OF assms(4) b(2,6,5,8)] by (intro that [of b']) (simp_all add: fs_brelse_def)
qed

text \<open>Reading a block and releasing it.\<close>

lemma fs_peek:
  assumes tx: "ftx s" and n: "usable s n" and rm: "room 1 s"
  obtains bp b b' where "fs_bread 1 n s = Ok (bp, s\<lparr>fs_b := b\<rparr>)" "fs_data (s\<lparr>fs_b := b\<rparr>) bp = fcont s n"
    "\<And>s. fs_brelse bp (s\<lparr>fs_b := b\<rparr>) = Ok (s\<lparr>fs_b := b'\<rparr>)" "fctx (s\<lparr>fs_b := b'\<rparr>) = fctx s" "ftx (s\<lparr>fs_b := b'\<rparr>)"
    "fcont (s\<lparr>fs_b := b'\<rparr>) = fcont s" "fdirty (s\<lparr>fs_b := b'\<rparr>) = fdirty s"
proof -
  obtain bp b where 1: "fs_bread 1 n s = Ok (bp, s\<lparr>fs_b := b\<rparr>)" "bwf b" "fheld s bp = None" "held b = (fheld s)(bp \<mapsto> n)"
    "fs_data (s\<lparr>fs_b := b\<rparr>) bp = fcont s n" "content b = fcont s" "dirty b = fdirty s" "memdisk b = memdisk (fs_b s)" "benv b = benv (fs_b s)"
    "ltx (fs_log s) b"
    using fs_bread_ok [OF tx _ _ rm, of n] n unfolding usable_def by blast
  have wf: "bwf (fs_b s)" using tx by (simp add: ftx_def ltx_def)
  have cl: "n \<in> dirty b \<or> content b n = memdisk b n"
    using clean_content [OF wf, of n] n 1(6-8) by (auto simp: usable_def fcont_def fdirty_def fheld_def)
  have hb: "held b bp = Some n" using 1(4) by simp
  obtain b' where b: "\<And>s. fs_brelse bp (s\<lparr>fs_b := b\<rparr>) = Ok (s\<lparr>fs_b := b'\<rparr>)" "bwf b'" "held b' = (held b)(bp := None)" "content b' = content b"
    "memdisk b' = memdisk b" "dirty b' = dirty b" "benv b' = benv b" "ltx (fs_log s) b'"
    using fs_brelse_ok [OF 1(2) hb cl 1(10)] by blast
  have h: "held b' = held (fs_b s)" using b(3) 1(3,4) by (auto simp: fheld_def)
  have "ftx (s\<lparr>fs_b := b'\<rparr>)" using tx h b(8) by (simp add: ftx_def)
  moreover have "fctx (s\<lparr>fs_b := b'\<rparr>) = fctx s" using h b 1 by (simp add: fctx_def fheld_def)
  ultimately show thesis using that [OF 1(1,5) b(1)] b(4,6) 1(6,7) by (simp add: fcont_def fdirty_def)
qed

text \<open>Editing a block through the log.\<close>

lemma fs_modify:
  assumes tx: "ftx s" and n: "usable s n" and rm: "room 1 s" and len: "length d = BSIZE"
  obtains bp b b2 lg b' where "fs_bread 1 n s = Ok (bp, s\<lparr>fs_b := b\<rparr>)" "fs_data (s\<lparr>fs_b := b\<rparr>) bp = fcont s n"
    "\<And>s0. fs_log s0 = fs_log s \<Longrightarrow> fs_log_write bp (fs_set bp d (s0\<lparr>fs_b := b\<rparr>)) = Ok (s0\<lparr>fs_log := lg, fs_b := b2\<rparr>)"
    "\<And>s. fs_brelse bp (s\<lparr>fs_b := b2\<rparr>) = Ok (s\<lparr>fs_b := b'\<rparr>)"
    "fctx (s\<lparr>fs_log := lg, fs_b := b'\<rparr>) = fctx s" "ftx (s\<lparr>fs_log := lg, fs_b := b'\<rparr>)"
    "fcont (s\<lparr>fs_log := lg, fs_b := b'\<rparr>) = (fcont s)(n := d)" "fdirty (s\<lparr>fs_log := lg, fs_b := b'\<rparr>) = insert n (fdirty s)"
proof -
  obtain bp b where 1: "fs_bread 1 n s = Ok (bp, s\<lparr>fs_b := b\<rparr>)" "bwf b" "fheld s bp = None" "held b = (fheld s)(bp \<mapsto> n)"
    "fs_data (s\<lparr>fs_b := b\<rparr>) bp = fcont s n" "content b = fcont s" "dirty b = fdirty s" "memdisk b = memdisk (fs_b s)" "benv b = benv (fs_b s)"
    "ltx (fs_log s) b"
    using fs_bread_ok [OF tx _ _ rm, of n] n unfolding usable_def by blast
  have hb: "held b bp = Some n" using 1(4) by simp
  let ?c = "set_data bp d b"
  have 2: "bwf ?c" "held ?c = held b" "content ?c = (content b)(n := d)" "memdisk ?c = memdisk b" "dirty ?c = dirty b" "benv ?c = benv b"
    using set_data_spec [OF 1(2) hb len] by auto
  have tc: "ltx (fs_log s) ?c" using ltx_cong [OF 1(10) 2(1,5,4,6)] .
  have hc: "held ?c bp = Some n" using 2(2) hb by simp
  have cd: "int (card (fdirty s)) = lh_n (fs_log s)" using card_dirty(1) [OF 1(10)] 1(7) by simp
  have lim: "lh_n (fs_log s) < lg_size (fs_log s) - 1" "lg_size (fs_log s) \<le> int LOGSIZE" using rm cd 1(10) by (auto simp: room_def ltx_def)
  have lk: "\<not> lg_lock (fs_log s)" "1 \<le> lg_outstanding (fs_log s)" using tx by (auto simp: ftx_def)
  have na: "n \<notin> log_area (fs_log s)" using n by (simp add: usable_def)
  let ?lg = "logged (fs_log s) n" and ?p = "pin bp ?c"
  have lw: "log_write bp (fs_log s) ?c = Ok (?lg, ?p)" by (rule log_write_eq [OF tc lk(1) hc]) (use lim lk in simp_all)
  have tp: "ltx ?lg ?p" by (rule logged_ltx(1) [OF tc hc na]) (use lim in simp_all)
  have 3: "bwf ?p" "held ?p = held ?c" "content ?p = content ?c" "memdisk ?p = memdisk ?c" "dirty ?p = insert n (dirty ?c)" "benv ?p = benv ?c"
    using pin_spec [OF 2(1) hc] by auto
  have hp: "held ?p bp = Some n" "n \<in> dirty ?p \<or> content ?p n = memdisk ?p n" using 3 hc by auto
  obtain b' where 4: "\<And>s. fs_brelse bp (s\<lparr>fs_b := ?p\<rparr>) = Ok (s\<lparr>fs_b := b'\<rparr>)" "bwf b'" "held b' = (held ?p)(bp := None)" "content b' = content ?p"
    "memdisk b' = memdisk ?p" "dirty b' = dirty ?p" "benv b' = benv ?p" "ltx ?lg b'"
    using fs_brelse_ok [OF 3(1) hp tp] by blast
  have h: "held b' = held (fs_b s)" using 4(3) 3(2) 2(2) 1(3,4) by (auto simp: fheld_def)
  have lg: "lg_start ?lg = lg_start (fs_log s)" "lg_size ?lg = lg_size (fs_log s)" "lg_outstanding ?lg = lg_outstanding (fs_log s)" "lg_lock ?lg = lg_lock (fs_log s)"
    by (simp_all add: logged_def)
  have w: "fs_log_write bp (fs_set bp d (s0\<lparr>fs_b := b\<rparr>)) = Ok (s0\<lparr>fs_log := ?lg, fs_b := ?p\<rparr>)" if "fs_log s0 = fs_log s" for s0
    using lw that by (simp add: fs_log_write_def fs_set_def)
  have "ftx (s\<lparr>fs_log := ?lg, fs_b := b'\<rparr>)" using tx h 4(8) lg by (simp add: ftx_def)
  moreover have "fctx (s\<lparr>fs_log := ?lg, fs_b := b'\<rparr>) = fctx s" using h 4 3 2 1 lg by (simp add: fctx_def fheld_def)
  ultimately show thesis using that [OF 1(1,5) w 4(1)] 4(4,6) 3 2 1(6,7) by (simp add: fcont_def fdirty_def)
qed

subsection \<open>The block allocator\<close>

lemma bit_mask_bit: "bit (bit_mask bi) k \<longleftrightarrow> k = bi mod 8"
  by (auto simp: bit_mask_def bit_simps)

lemma bit_used_iff: "bit_used d bi \<longleftrightarrow> bit (d ! (bi div 8)) (bi mod 8)"
  by (simp add: bit_used_def bit_mask_def bit_iff_and_push_bit_not_eq_0)

lemma same_bit: "(a :: nat) div 8 = b div 8 \<Longrightarrow> a mod 8 = b mod 8 \<Longrightarrow> a = b"
  by (metis mult_div_mod_eq)

lemma bit_set_used:
  assumes "bi div 8 < length d"
  shows "bit_used (bit_set bi d) bj \<longleftrightarrow> bj = bi \<or> bit_used d bj"
proof -
  have m: "bj mod 8 < 8" by simp
  show ?thesis
  proof (cases "bj div 8 = bi div 8")
    case True
    then show ?thesis using assms same_bit [of bj bi] m by (auto simp: bit_used_iff bit_set_def bit_simps bit_mask_bit)
  next
    case False
    then show ?thesis by (auto simp: bit_used_iff bit_set_def)
  qed
qed

lemma bit_clear_used:
  assumes "bi div 8 < length d"
  shows "bit_used (bit_clear bi d) bj \<longleftrightarrow> bj \<noteq> bi \<and> bit_used d bj"
proof (cases "bj div 8 = bi div 8")
  case True
  then show ?thesis using assms same_bit [of bj bi] by (auto simp: bit_used_iff bit_clear_def bit_simps bit_mask_bit)
next
  case False
  then show ?thesis by (auto simp: bit_used_iff bit_clear_def)
qed

lemma bit_clear_set:
  assumes "bi div 8 < length d" "\<not> bit_used d bi"
  shows "bit_clear bi (bit_set bi d) = d"
proof -
  have "((w OR bit_mask bi) AND NOT (bit_mask bi)) = w" if "\<not> bit w (bi mod 8)" for w :: u8
    by (rule bit_word_eqI) (use that in \<open>auto simp: bit_simps bit_mask_bit\<close>)
  then show ?thesis using assms by (simp add: bit_clear_def bit_set_def bit_used_iff list_update_same_conv)
qed

lemma bit_edit_length [simp]: "length (bit_set bi d) = length d" "length (bit_clear bi d) = length d"
  by (simp_all add: bit_set_def bit_clear_def)

lemma fcont_length: "ftx s \<Longrightarrow> length (fcont s n) = BSIZE"
  using bc.cont_len [of "fs_b s" n] by (simp add: ftx_def ltx_def fcont_def)

definition modified :: "fsst \<Rightarrow> u32 \<Rightarrow> block \<Rightarrow> fsst \<Rightarrow> bool" where
  "modified s n d s' \<longleftrightarrow> ftx s' \<and> fctx s' = fctx s \<and> fcont s' = (fcont s)(n := d) \<and> fdirty s' = insert n (fdirty s)"

lemma room_modified:
  assumes "room (Suc k) s" "modified s n d s'"
  shows "room k s'"
proof -
  have "finite (fdirty s)" using card_dirty(2) [of "fs_log s'" "fs_b s'"] assms(2) by (auto simp: modified_def ftx_def fdirty_def)
  then show ?thesis using assms fctxD(8) [of s' s] by (simp add: room_def modified_def card_insert_if)
qed

lemma bzero_modified:
  assumes "ftx s" "usable s n" "room 1 s"
  obtains s' where "bzero 1 n s = Ok s'" "modified s n (replicate BSIZE 0) s'"
proof -
  obtain bp b b2 lg b' where 1: "fs_bread 1 n s = Ok (bp, s\<lparr>fs_b := b\<rparr>)"
    "\<And>s0. fs_log s0 = fs_log s \<Longrightarrow> fs_log_write bp (fs_set bp (replicate BSIZE 0) (s0\<lparr>fs_b := b\<rparr>)) = Ok (s0\<lparr>fs_log := lg, fs_b := b2\<rparr>)"
    "\<And>s. fs_brelse bp (s\<lparr>fs_b := b2\<rparr>) = Ok (s\<lparr>fs_b := b'\<rparr>)"
    "fctx (s\<lparr>fs_log := lg, fs_b := b'\<rparr>) = fctx s" "ftx (s\<lparr>fs_log := lg, fs_b := b'\<rparr>)"
    "fcont (s\<lparr>fs_log := lg, fs_b := b'\<rparr>) = (fcont s)(n := replicate BSIZE 0)" "fdirty (s\<lparr>fs_log := lg, fs_b := b'\<rparr>) = insert n (fdirty s)"
    using fs_modify [OF assms, of "replicate BSIZE 0"] by (metis length_replicate)
  then show thesis by (intro that [of "s\<lparr>fs_log := lg, fs_b := b'\<rparr>"]) (simp_all add: bzero_def modified_def)
qed


text \<open>\<open>in_use s b\<close>: the bit of block \<open>b\<close> in the free map.\<close>

definition in_use :: "fsst \<Rightarrow> nat \<Rightarrow> bool" where
  "in_use s b \<longleftrightarrow> bit_used (fcont s (BBLOCK b (fs_sb s))) (b mod BPB)"

text \<open>
  The free map is intact: its blocks can be edited, every block it shows free is one that can be
  handed out, and no such block is a block of the map.
\<close>

definition map_ok :: "fsst \<Rightarrow> bool" where
  "map_ok s \<longleftrightarrow> (\<forall>b < unat (sb_size (fs_sb s)). usable s (BBLOCK b (fs_sb s)) \<and>
     (\<not> in_use s b \<longrightarrow> usable s (of_nat b) \<and> (\<forall>b' < unat (sb_size (fs_sb s)). BBLOCK b' (fs_sb s) \<noteq> of_nat b)))"

lemma map_okD:
  assumes "map_ok s" "b < unat (sb_size (fs_sb s))"
  shows "usable s (BBLOCK b (fs_sb s))" "\<not> in_use s b \<Longrightarrow> usable s (of_nat b)"
    "\<not> in_use s b \<Longrightarrow> b' < unat (sb_size (fs_sb s)) \<Longrightarrow> BBLOCK b' (fs_sb s) \<noteq> of_nat b"
  using assms by (auto simp: map_ok_def)

lemma BPB_pos: "0 < BPB" "BPB = 4096" by (simp_all add: BPB_def BSIZE_def)

lemma bit_index_bound: "(n mod BPB) div 8 < BSIZE"
proof (rule less_mult_imp_div_less)
  have "n mod BPB < BPB" by (simp add: BPB_pos)
  then show "n mod BPB < BSIZE * 8" unfolding BPB_def .
qed

lemma BBLOCK_group: "bi < BPB \<Longrightarrow> BBLOCK (k * BPB + bi) sb = BBLOCK (k * BPB) sb"
  by (simp add: BBLOCK_def BPB_pos)

lemma mod_group: "bi < BPB \<Longrightarrow> (k * BPB + bi) mod BPB = bi"
  by simp

text \<open>
  One step of the allocator: the group of \<^verbatim>\<open>BPB\<close> blocks that starts at \<open>k * BPB\<close>.
\<close>

definition group_free :: "fsst \<Rightarrow> nat \<Rightarrow> nat option" where
  "group_free s k = find (\<lambda>bi. \<not> in_use s (k * BPB + bi)) [0..<min BPB (unat (sb_size (fs_sb s)) - k * BPB)]"

lemma group_find:
  "find (\<lambda>bi. \<not> bit_used (fcont s (BBLOCK (k * BPB) (fs_sb s))) bi) [0..<min BPB (unat (sb_size (fs_sb s)) - k * BPB)] = group_free s k"
  unfolding group_free_def
  by (rule find_cong) (auto simp: in_use_def BBLOCK_group mod_group)

lemma group_free_same: "fcont s' = fcont s \<Longrightarrow> fs_sb s' = fs_sb s \<Longrightarrow> group_free s' k = group_free s k"
  by (simp add: group_free_def in_use_def)

definition allocated :: "fsst \<Rightarrow> nat \<Rightarrow> fsst \<Rightarrow> bool" where
  "allocated s b s' \<longleftrightarrow> ftx s' \<and> fctx s' = fctx s
     \<and> fcont s' = (fcont s)(BBLOCK b (fs_sb s) := bit_set (b mod BPB) (fcont s (BBLOCK b (fs_sb s))), of_nat b := replicate BSIZE 0)
     \<and> fdirty s' = insert (of_nat b) (insert (BBLOCK b (fs_sb s)) (fdirty s))"

lemma balloc_group:
  assumes tx: "ftx s" and rm: "room 2 s" and ok: "map_ok s" and k: "k * BPB < unat (sb_size (fs_sb s))"
  shows "case group_free s k of
      Some bi \<Rightarrow> \<exists>s'. balloc_loop (k * BPB # bs) 1 s = Ok (of_nat (k * BPB + bi), s') \<and> allocated s (k * BPB + bi) s'
    | None \<Rightarrow> \<exists>s'. balloc_loop (k * BPB # bs) 1 s = balloc_loop bs 1 s' \<and> ftx s' \<and> fctx s' = fctx s \<and> fcont s' = fcont s \<and> fdirty s' = fdirty s"
proof -
  let ?n = "BBLOCK (k * BPB) (fs_sb s)" and ?F = "\<lambda>d. find (\<lambda>bi. \<not> bit_used d bi) [0..<min BPB (unat (sb_size (fs_sb s)) - k * BPB)]"
  have us: "usable s ?n" and r1: "room 1 s" using map_okD(1) [OF ok k] rm by (auto simp: room_def)
  show ?thesis
  proof (cases "group_free s k")
    case None
    obtain bp b b' where 1: "fs_bread 1 ?n s = Ok (bp, s\<lparr>fs_b := b\<rparr>)" "fs_data (s\<lparr>fs_b := b\<rparr>) bp = fcont s ?n"
      "\<And>s. fs_brelse bp (s\<lparr>fs_b := b\<rparr>) = Ok (s\<lparr>fs_b := b'\<rparr>)" "fctx (s\<lparr>fs_b := b'\<rparr>) = fctx s" "ftx (s\<lparr>fs_b := b'\<rparr>)"
      "fcont (s\<lparr>fs_b := b'\<rparr>) = fcont s" "fdirty (s\<lparr>fs_b := b'\<rparr>) = fdirty s"
      using fs_peek [OF tx us r1] by blast
    have "balloc_loop (k * BPB # bs) 1 s = balloc_loop bs 1 (s\<lparr>fs_b := b'\<rparr>)"
      using 1(1-3) None group_find [of s k] by simp
    then show ?thesis using None 1 by auto
  next
    case (Some bi)
    have bi: "bi < BPB" "k * BPB + bi < unat (sb_size (fs_sb s))" "\<not> in_use s (k * BPB + bi)"
      using find_SomeD [OF Some [unfolded group_free_def]] by auto
    let ?b = "k * BPB + bi" and ?d = "bit_set bi (fcont s ?n)"
    have len: "length ?d = BSIZE" using fcont_length [OF tx] by simp
    obtain bp b b2 lg b' where 1: "fs_bread 1 ?n s = Ok (bp, s\<lparr>fs_b := b\<rparr>)" "fs_data (s\<lparr>fs_b := b\<rparr>) bp = fcont s ?n"
      "\<And>s0. fs_log s0 = fs_log s \<Longrightarrow> fs_log_write bp (fs_set bp ?d (s0\<lparr>fs_b := b\<rparr>)) = Ok (s0\<lparr>fs_log := lg, fs_b := b2\<rparr>)"
      "\<And>s. fs_brelse bp (s\<lparr>fs_b := b2\<rparr>) = Ok (s\<lparr>fs_b := b'\<rparr>)"
      "fctx (s\<lparr>fs_log := lg, fs_b := b'\<rparr>) = fctx s" "ftx (s\<lparr>fs_log := lg, fs_b := b'\<rparr>)"
      "fcont (s\<lparr>fs_log := lg, fs_b := b'\<rparr>) = (fcont s)(?n := ?d)" "fdirty (s\<lparr>fs_log := lg, fs_b := b'\<rparr>) = insert ?n (fdirty s)"
      using fs_modify [OF tx us r1 len] by blast
    let ?s = "s\<lparr>fs_log := lg, fs_b := b'\<rparr>"
    have m: "modified s ?n ?d ?s" using 1 by (simp add: modified_def)
    have r2: "room 1 ?s" using room_modified [OF _ m, of 1] rm by (simp add: numeral_2_eq_2)
    have u2: "usable ?s (of_nat ?b)" using map_okD(2) [OF ok bi(2,3)] usable_cong [OF 1(5)] by simp
    obtain s' where z: "bzero 1 (of_nat ?b) ?s = Ok s'" "modified ?s (of_nat ?b) (replicate BSIZE 0) s'"
      using bzero_modified [OF 1(6) u2 r2] by blast
    have g: "?F (fcont s ?n) = Some bi" using Some group_find [of s k] by simp
    have "balloc_loop (k * BPB # bs) 1 s = Ok (of_nat ?b, s')"
      using 1(1-4) g z(1) by simp
    moreover have "allocated s ?b s'"
      using z(2) m bi(1) by (simp add: modified_def allocated_def BBLOCK_group)
    ultimately show ?thesis using Some by auto
  qed
qed

lemma if_mono_elim: "(if c then p else q) \<Longrightarrow> (p \<Longrightarrow> p') \<Longrightarrow> (if c then p' else q)"
  by simp

lemma group_all_used:
  assumes "group_free s k = None" "\<forall>b < k * BPB. b < unat (sb_size (fs_sb s)) \<longrightarrow> in_use s b"
  shows "\<forall>b < Suc k * BPB. b < unat (sb_size (fs_sb s)) \<longrightarrow> in_use s b"
proof (intro allI impI)
  fix b
  assume b: "b < Suc k * BPB" "b < unat (sb_size (fs_sb s))"
  show "in_use s b"
  proof (cases "b < k * BPB")
    case False
    then have "b - k * BPB \<in> set [0..<min BPB (unat (sb_size (fs_sb s)) - k * BPB)]" "k * BPB + (b - k * BPB) = b" using b by auto
    then show ?thesis using assms(1) unfolding group_free_def find_None_iff by metis
  qed (use assms(2) b in auto)
qed

lemma group_first:
  assumes "group_free s k = Some bi" "\<forall>b < k * BPB. b < unat (sb_size (fs_sb s)) \<longrightarrow> in_use s b"
  shows "k * BPB + bi < unat (sb_size (fs_sb s))" "\<not> in_use s (k * BPB + bi)" "\<forall>b < k * BPB + bi. in_use s b"
proof -
  let ?m = "min BPB (unat (sb_size (fs_sb s)) - k * BPB)"
  obtain i where i: "i < ?m" "\<not> in_use s (k * BPB + i)" "bi = i" "\<forall>j < i. in_use s (k * BPB + j)"
    using assms(1) unfolding group_free_def find_Some_iff by auto
  then show "k * BPB + bi < unat (sb_size (fs_sb s))" "\<not> in_use s (k * BPB + bi)" by auto
  show "\<forall>b < k * BPB + bi. in_use s b"
  proof (intro allI impI)
    fix b
    assume b: "b < k * BPB + bi"
    show "in_use s b"
    proof (cases "b < k * BPB")
      case False
      then show ?thesis using i(4) [rule_format, of "b - k * BPB"] b i(3) by simp
    qed (use assms(2) i in auto)
  qed
qed

lemma balloc_loop_first:
  assumes "K - j = m" "j \<le> K" "\<And>k. k < K \<Longrightarrow> k * BPB < unat (sb_size (fs_sb s))" "unat (sb_size (fs_sb s)) \<le> K * BPB"
    "ftx s" "room 2 s" "map_ok s"
    "\<forall>b < j * BPB. b < unat (sb_size (fs_sb s)) \<longrightarrow> in_use s b"
  shows "if \<exists>b < unat (sb_size (fs_sb s)). \<not> in_use s b
    then \<exists>b s'. balloc_loop (map (\<lambda>k. k * BPB) [j..<K]) 1 s = Ok (of_nat b, s') \<and> b < unat (sb_size (fs_sb s)) \<and> \<not> in_use s b
      \<and> (\<forall>b' < b. in_use s b') \<and> allocated s b s'
    else balloc_loop (map (\<lambda>k. k * BPB) [j..<K]) 1 s = Panic ''balloc: out of blocks''"
  using assms
proof (induction m arbitrary: j s)
  case 0
  then have "\<not> (\<exists>b < unat (sb_size (fs_sb s)). \<not> in_use s b)" by auto
  then show ?case using 0 by simp
next
  case (Suc m)
  let ?N = "unat (sb_size (fs_sb s))"
  have jK: "j < K" using Suc.prems(1) by simp
  have e: "map (\<lambda>k. k * BPB) [j..<K] = j * BPB # map (\<lambda>k. k * BPB) [Suc j..<K]" using jK by (simp add: upt_conv_Cons)
  note g = balloc_group [OF Suc.prems(5-7) Suc.prems(3) [OF jK], of "map (\<lambda>k. k * BPB) [Suc j..<K]", folded e]
  show ?case
  proof (cases "group_free s j")
    case (Some bi)
    then obtain s' where s': "balloc_loop (map (\<lambda>k. k * BPB) [j..<K]) 1 s = Ok (of_nat (j * BPB + bi), s')" "allocated s (j * BPB + bi) s'"
      using g by auto
    note f = group_first [OF Some Suc.prems(8)]
    have ex: "\<exists>b < ?N. \<not> in_use s b" using f(1,2) by (intro exI conjI)
    show ?thesis unfolding if_P [OF ex] using s' f by (intro exI conjI)
  next
    case None
    then obtain s1 where 1: "balloc_loop (map (\<lambda>k. k * BPB) [j..<K]) 1 s = balloc_loop (map (\<lambda>k. k * BPB) [Suc j..<K]) 1 s1"
      "ftx s1" "fctx s1 = fctx s" "fcont s1 = fcont s" "fdirty s1 = fdirty s" using g by auto
    note c = fctxD [OF 1(3)]
    have same: "in_use s1 = in_use s" "usable s1 = usable s" by (auto simp: in_use_def c 1(4) usable_cong [OF 1(3)])
    have al: "allocated s1 b s' = allocated s b s'" for b s' by (simp add: allocated_def c(1) 1(3-5))
    have r1: "room 2 s1" using Suc.prems(6) by (simp add: room_def c(8) 1(5))
    have m1: "map_ok s1" using Suc.prems(7) unfolding map_ok_def c(1) same .
    have "K - Suc j = m" "Suc j \<le> K" using Suc.prems(1) jK by auto
    from Suc.IH [of "Suc j" s1, unfolded c(1) same al, OF this Suc.prems(3,4) 1(2) r1 m1 group_all_used [OF None Suc.prems(8)]]
    have "if \<exists>b < ?N. \<not> in_use s b
      then \<exists>b s'. balloc_loop (map (\<lambda>k. k * BPB) [Suc j..<K]) 1 s1 = Ok (of_nat b, s') \<and> b < ?N \<and> \<not> in_use s b \<and> (\<forall>b' < b. in_use s b') \<and> allocated s b s'
      else balloc_loop (map (\<lambda>k. k * BPB) [Suc j..<K]) 1 s1 = Panic ''balloc: out of blocks''" .
    then show ?thesis by (simp only: 1(1))
  qed
qed

lemma balloc_spec:
  assumes tx: "ftx s" and rm: "room 2 s" and ok: "map_ok s"
  shows "if \<exists>b < unat (sb_size (fs_sb s)). \<not> in_use s b
    then \<exists>b s'. balloc 1 s = Ok (of_nat b, s') \<and> b < unat (sb_size (fs_sb s)) \<and> \<not> in_use s b \<and> (\<forall>b' < b. in_use s b') \<and> allocated s b s'
    else balloc 1 s = Panic ''balloc: out of blocks''"
proof -
  let ?N = "unat (sb_size (fs_sb s))"
  let ?K = "(?N + BPB - 1) div BPB"
  have k1: "k * BPB < ?N" if "k < ?K" for k
  proof -
    have "Suc k * BPB \<le> ?K * BPB" using that by (intro mult_right_mono) auto
    also have "\<dots> \<le> ?N + BPB - 1" by (simp add: div_times_less_eq_dividend)
    finally show ?thesis using BPB_pos(1) by simp
  qed
  have k2: "?N \<le> ?K * BPB" using BPB_pos dividend_less_div_times [of BPB "?N + BPB - 1"] by simp
  show ?thesis unfolding balloc_def by (rule balloc_loop_first [OF _ _ k1 k2 tx rm ok]) simp_all
qed

text \<open>
  C14. \<^verbatim>\<open>balloc\<close> inside a transaction with room for two more blocks: if some block of the device is
  free in the map, it returns the first such block, marks it used, zeroes it and changes nothing
  else of the disk's content; if none is free it panics.
\<close>
theorem balloc_first_free:
  assumes tx: "ftx s" and rm: "room 2 s" and ok: "map_ok s"
  shows "if \<exists>b < unat (sb_size (fs_sb s)). \<not> in_use s b
    then \<exists>b s'. balloc 1 s = Ok (of_nat b, s') \<and> b < unat (sb_size (fs_sb s)) \<and> \<not> in_use s b \<and> (\<forall>b' < b. in_use s b')
      \<and> ftx s' \<and> fctx s' = fctx s
      \<and> fcont s' = (fcont s)(BBLOCK b (fs_sb s) := bit_set (b mod BPB) (fcont s (BBLOCK b (fs_sb s))), of_nat b := replicate BSIZE 0)
    else balloc 1 s = Panic ''balloc: out of blocks''"
  using balloc_spec [OF tx rm ok] unfolding allocated_def
  by (rule if_mono_elim) (elim exE conjE, intro exI conjI, assumption+)

lemma balloc_Ok:
  assumes tx: "ftx s" and rm: "room 2 s" and ok: "map_ok s"
    and al: "balloc 1 s = Ok (b, s1)"
  shows "unat b < unat (sb_size (fs_sb s))" "\<not> in_use s (unat b)" "allocated s (unat b) s1"
proof -
  note sp = balloc_spec [OF tx rm ok]
  have ex: "\<exists>b < unat (sb_size (fs_sb s)). \<not> in_use s b"
  proof (rule ccontr)
    assume n: "\<not> ?thesis"
    show False using sp unfolding if_not_P [OF n] al by simp
  qed
  obtain n s' where n: "balloc 1 s = Ok (of_nat n, s')" "n < unat (sb_size (fs_sb s))" "\<not> in_use s n" "allocated s n s'"
    using sp unfolding if_P [OF ex] by blast
  have e: "b = of_nat n" "s1 = s'" using n(1) unfolding al by simp_all
  have "unat (sb_size (fs_sb s)) < 2 ^ 32" using unsigned_less [of "sb_size (fs_sb s)"] by simp
  then have "n < 2 ^ 32" using n(2) by simp
  then have "unat b = n" unfolding e(1) by (simp add: unsigned_of_nat take_bit_eq_mod)
  then show "unat b < unat (sb_size (fs_sb s))" "\<not> in_use s (unat b)" "allocated s (unat b) s1" using n(2-4) e(2) by simp_all
qed

lemma bfree_spec:
  assumes tx: "ftx s" and us: "usable s (BBLOCK (unat b) (fs_sb s))" and rm: "room 1 s"
  shows "if in_use s (unat b)
    then \<exists>s'. bfree 1 b s = Ok s' \<and> modified s (BBLOCK (unat b) (fs_sb s)) (bit_clear (unat b mod BPB) (fcont s (BBLOCK (unat b) (fs_sb s)))) s'
    else bfree 1 b s = Panic ''freeing free block''"
proof -
  let ?n = "BBLOCK (unat b) (fs_sb s)" and ?bi = "unat b mod BPB"
  let ?d = "bit_clear ?bi (fcont s ?n)"
  have len: "length ?d = BSIZE" using fcont_length [OF tx] by simp
  obtain bp b1 b2 lg b' where 1: "fs_bread 1 ?n s = Ok (bp, s\<lparr>fs_b := b1\<rparr>)" "fs_data (s\<lparr>fs_b := b1\<rparr>) bp = fcont s ?n"
    "\<And>s0. fs_log s0 = fs_log s \<Longrightarrow> fs_log_write bp (fs_set bp ?d (s0\<lparr>fs_b := b1\<rparr>)) = Ok (s0\<lparr>fs_log := lg, fs_b := b2\<rparr>)"
    "\<And>s. fs_brelse bp (s\<lparr>fs_b := b2\<rparr>) = Ok (s\<lparr>fs_b := b'\<rparr>)"
    "fctx (s\<lparr>fs_log := lg, fs_b := b'\<rparr>) = fctx s" "ftx (s\<lparr>fs_log := lg, fs_b := b'\<rparr>)"
    "fcont (s\<lparr>fs_log := lg, fs_b := b'\<rparr>) = (fcont s)(?n := ?d)" "fdirty (s\<lparr>fs_log := lg, fs_b := b'\<rparr>) = insert ?n (fdirty s)"
    using fs_modify [OF tx us rm len] by blast
  then show ?thesis by (auto simp: bfree_def in_use_def Let_def modified_def)
qed

text \<open>
  Allocation and release are inverse on the free map: when \<^verbatim>\<open>balloc\<close> has returned a block,
  \<^verbatim>\<open>bfree\<close> of that block returns and leaves every block of the map as it was before the
  allocation; a second \<^verbatim>\<open>bfree\<close> of it panics.
\<close>
theorem bfree_undoes_balloc:
  assumes tx: "ftx s" and rm: "room 4 s" and ok: "map_ok s"
    and al: "balloc 1 s = Ok (b, s1)"
  shows "\<exists>s2. bfree 1 b s1 = Ok s2 \<and> (\<forall>b' < unat (sb_size (fs_sb s)). fcont s2 (BBLOCK b' (fs_sb s)) = fcont s (BBLOCK b' (fs_sb s)))
    \<and> bfree 1 b s2 = Panic ''freeing free block''"
proof -
  let ?N = "unat (sb_size (fs_sb s))" and ?n = "unat b"
  have r2: "room 2 s" using rm by (simp add: room_def)
  have n: "?n < ?N" "\<not> in_use s ?n" and a: "allocated s ?n s1" by (rule balloc_Ok [OF tx r2 ok al]; assumption)+
  let ?m = "BBLOCK ?n (fs_sb s)" and ?bi = "?n mod BPB"
  have s1: "ftx s1" "fctx s1 = fctx s" "fcont s1 = (fcont s)(?m := bit_set ?bi (fcont s ?m), b := replicate BSIZE 0)"
    "fdirty s1 = insert b (insert ?m (fdirty s))" using a by (simp_all add: allocated_def)
  note c = fctxD [OF s1(2)]
  have um: "usable s ?m" by (rule map_okD(1) [OF ok n(1)])
  have bi: "?bi div 8 < length (fcont s ?m)" unfolding fcont_length [OF tx] by (rule bit_index_bound)
  have nb: "BBLOCK b' (fs_sb s) \<noteq> b" if "b' < ?N" for b' using map_okD(3) [OF ok n that] by simp
  have cm: "fcont s1 ?m = bit_set ?bi (fcont s ?m)" using s1(3) nb [OF n(1)] by simp
  have used: "in_use s1 ?n" using bit_set_used [OF bi] by (simp add: in_use_def c(1) cm)
  have "finite (fdirty s)" using card_dirty(2) [of "fs_log s" "fs_b s"] tx by (simp add: ftx_def fdirty_def)
  then have r1: "room 2 s1" using rm unfolding room_def s1(4) c(8) by (auto simp: card_insert_if)
  have u1: "usable s1 (BBLOCK ?n (fs_sb s1))" "room 1 s1" using um usable_cong [OF s1(2)] r1 by (simp_all add: c(1) room_def)
  obtain s2 where 2: "bfree 1 b s1 = Ok s2" "modified s1 ?m (bit_clear ?bi (fcont s1 ?m)) s2"
    using bfree_spec [OF s1(1) u1] unfolding if_P [OF used] c(1) by blast
  have s2: "ftx s2" "fctx s2 = fctx s1" "fcont s2 = (fcont s1)(?m := fcont s ?m)"
    using 2(2) n(2) unfolding modified_def in_use_def cm by (simp_all add: bit_clear_set [OF bi])
  note c2 = fctxD [OF s2(2)]
  have "fcont s2 (BBLOCK b' (fs_sb s)) = fcont s (BBLOCK b' (fs_sb s))" if "b' < ?N" for b'
    using nb [OF that] by (simp add: s2(3) s1(3))
  moreover have "bfree 1 b s2 = Panic ''freeing free block''"
  proof -
    have "\<not> in_use s2 ?n" using n(2) by (simp add: in_use_def c2(1) c(1) s2(3))
    moreover have "usable s2 (BBLOCK ?n (fs_sb s2))" using um usable_cong [OF s2(2)] usable_cong [OF s1(2)] by (simp add: c2(1) c(1))
    moreover have "room 1 s2" using room_modified [OF _ 2(2), of 1] r1 by (simp add: numeral_2_eq_2)
    ultimately show ?thesis using bfree_spec [OF s2(1), of b] by (simp only: if_False)
  qed
  ultimately show ?thesis using 2(1) by blast
qed

subsection \<open>A file system to try them on\<close>

definition demo_map :: block where
  "demo_map = replicate 12 (- 1) @ replicate 500 0"

definition demo_fs_disk :: "u32 \<Rightarrow> block" where
  "demo_fs_disk n = (if n = 58 then demo_map else replicate BSIZE 0)"

definition demo_fs :: fsst where
  "demo_fs = \<lparr>fs_b = boot_cache demo_fs_disk 1000 1, fs_log = demo_log\<lparr>lg_outstanding := 1\<rparr>,
     fs_sb = \<lparr>sb_size = 1000, sb_nblocks = 941, sb_ninodes = 200, sb_nlog = 30, sb_logstart = 2, sb_inodestart = 32, sb_bmapstart = 58\<rparr>,
     ic_lock = False,
     inodes = replicate NINODE \<lparr>i_dev = 0, i_inum = 0, i_ref = 0, i_lock = initsleeplock ''inode'', i_valid = False, i_type = 0, i_major = 0,
       i_minor = 0, i_nlink = 0, i_size = 0, i_addrs = replicate 13 0\<rparr>\<rparr>"

lemma demo_fs_boot:
  "bwf (fs_b demo_fs)" "held (fs_b demo_fs) = Map.empty" "dirty (fs_b demo_fs) = {}" "fcont demo_fs = demo_fs_disk"
  "memdisk (fs_b demo_fs) = demo_fs_disk" "benv (fs_b demo_fs) = (1, 1000)" "disksize (fs_b demo_fs) = 1000"
  using boot_cache_bwf [of demo_fs_disk 1000 1]
  by (auto simp: demo_fs_disk_def demo_map_def BSIZE_def benv_def demo_fs_def fcont_def)

lemma demo_fs_log: "fs_log demo_fs = demo_log\<lparr>lg_outstanding := 1\<rparr>" "unat (sb_size (fs_sb demo_fs)) = 1000"
  by (simp_all add: demo_fs_def)

lemma demo_fs_ftx: "ftx demo_fs"
proof -
  have "get32 (demo_fs_disk 2) 0 = 0" by (simp add: demo_fs_disk_def get32_zero BSIZE_def)
  then have "ltx (fs_log demo_fs) (fs_b demo_fs)"
    unfolding ltx_def demo_fs_log using demo_fs_boot by (simp add: demo_log_def LOGSIZE_def MAXOPBLOCKS_def)
  then show ?thesis unfolding ftx_def demo_fs_log using demo_fs_boot(2) by (simp add: demo_log_def)
qed

lemma demo_fs_room: "k < 30 \<Longrightarrow> room k demo_fs"
  using demo_fs_boot(3) by (simp add: room_def fdirty_def demo_fs_log demo_log_def)

lemma demo_fs_usable: "32 \<le> n \<Longrightarrow> n < 1000 \<Longrightarrow> usable demo_fs (of_nat n)"
proof -
  assume n: "32 \<le> n" "n < 1000"
  have "(of_nat n :: u32) \<noteq> 2 + of_nat i" if "i < 30" for i
  proof
    assume "(of_nat n :: u32) = 2 + of_nat i"
    then have "unat (of_nat n :: u32) = unat (2 :: u32) + i" using unat_add_of_nat [of 2 i] that by simp
    then show False using n that by (simp add: unsigned_of_nat take_bit_eq_mod)
  qed
  then have "\<forall>i \<in> {0..<30}. (of_nat n :: u32) \<noteq> 2 + of_nat i" by simp
  then have "of_nat n \<notin> log_area (fs_log demo_fs)" unfolding demo_fs_log demo_area image_iff by blast
  then show ?thesis
    using n demo_fs_boot by (simp add: usable_def fits_def fheld_def word_less_nat_alt unsigned_of_nat take_bit_eq_mod)
qed

lemma demo_fs_in_use: "b < 1000 \<Longrightarrow> in_use demo_fs b \<longleftrightarrow> b < 96" "b < 1000 \<Longrightarrow> BBLOCK b (fs_sb demo_fs) = 58"
proof -
  assume b: "b < 1000"
  show e: "BBLOCK b (fs_sb demo_fs) = 58" using b by (simp add: BBLOCK_def demo_fs_def BPB_pos(2))
  have "b mod BPB = b" using b by (simp add: BPB_pos(2))
  moreover have "fcont demo_fs 58 = demo_map" using demo_fs_boot(4) by (simp add: demo_fs_disk_def)
  moreover have "bit_used demo_map b \<longleftrightarrow> b < 96"
  proof (cases "b < 96")
    case True
    then have "b div 8 < 12" by (intro less_mult_imp_div_less) simp
    then show ?thesis using True by (simp add: bit_used_iff demo_map_def nth_append)
  next
    case False
    have "12 \<le> b div 8" using div_le_mono [of 96 b 8] False by simp
    moreover have "b div 8 < 512" using b by (intro less_mult_imp_div_less) simp
    ultimately have "demo_map ! (b div 8) = 0" unfolding demo_map_def nth_append by (simp add: nth_replicate)
    then show ?thesis using False by (simp add: bit_used_iff)
  qed
  ultimately show "in_use demo_fs b \<longleftrightarrow> b < 96" by (simp add: in_use_def e)
qed

lemma demo_fs_map: "map_ok demo_fs"
proof -
  have "usable demo_fs 58" using demo_fs_usable [of 58] by simp
  moreover have "(58 :: u32) \<noteq> of_nat b" if "b < 1000" "\<not> b < 96" for b
  proof
    assume "(58 :: u32) = of_nat b"
    then have "unat (58 :: u32) = unat (of_nat b :: u32)" by simp
    then show False using that by (simp add: unsigned_of_nat take_bit_eq_mod)
  qed
  ultimately show ?thesis
    unfolding map_ok_def demo_fs_log using demo_fs_in_use demo_fs_usable by auto
qed

theorem balloc_first_free_witness: "\<exists>s'. balloc 1 demo_fs = Ok (96, s') \<and> fcont s' 96 = replicate BSIZE 0"
proof -
  have "\<exists>b < unat (sb_size (fs_sb demo_fs)). \<not> in_use demo_fs b"
    unfolding demo_fs_log by (rule exI [of _ 500]) (simp add: demo_fs_in_use)
  then obtain b s' where b: "balloc 1 demo_fs = Ok (of_nat b, s')" "b < 1000" "\<not> in_use demo_fs b" "\<forall>b' < b. in_use demo_fs b'"
    "fcont s' (of_nat b) = replicate BSIZE 0"
    using balloc_first_free [OF demo_fs_ftx demo_fs_room demo_fs_map] by (auto simp: demo_fs_log)
  have "\<not> in_use demo_fs 96" by (simp add: demo_fs_in_use)
  then have "\<not> 96 < b" using b(4) by blast
  moreover have "\<not> b < 96" using b(2,3) demo_fs_in_use(1) by blast
  ultimately have "b = 96" by simp
  then show ?thesis using b(1,5) by auto
qed

theorem bfree_undoes_balloc_witness:
  "\<exists>b s1 s2. balloc 1 demo_fs = Ok (b, s1) \<and> bfree 1 b s1 = Ok s2 \<and> fcont s2 58 = demo_map"
proof -
  have ex: "\<exists>b < unat (sb_size (fs_sb demo_fs)). \<not> in_use demo_fs b"
    unfolding demo_fs_log by (rule exI [of _ 500]) (simp add: demo_fs_in_use)
  obtain b s1 where 1: "balloc 1 demo_fs = Ok (b, s1)"
    using balloc_spec [OF demo_fs_ftx demo_fs_room demo_fs_map] unfolding if_P [OF ex] by auto
  obtain s2 where 2: "bfree 1 b s1 = Ok s2" "\<forall>b' < 1000. fcont s2 (BBLOCK b' (fs_sb demo_fs)) = fcont demo_fs (BBLOCK b' (fs_sb demo_fs))"
    using bfree_undoes_balloc [OF demo_fs_ftx demo_fs_room demo_fs_map 1] by (auto simp: demo_fs_log)
  have "fcont s2 58 = demo_map" using 2(2) [rule_format, of 0] demo_fs_boot(4) demo_fs_in_use(2) [of 0] by (simp add: demo_fs_disk_def)
  then show ?thesis using 1 2(1) by blast
qed

end
