(* ===== verification/FsInodes.thy ===== *)
theory FsInodes
  imports FsBlocks
begin

section \<open>Inodes, the inode cache and path names\<close>

text \<open>
  The layout of an inode in its block, what \<^verbatim>\<open>iupdate\<close> writes and \<^verbatim>\<open>ilock\<close> reads back, the table of
  referenced inodes, and the splitting of path names.
\<close>

subsection \<open>The layout of a disk inode\<close>

lemma put_addrs_length [simp]: "length (put_addrs off as d) = length d"
  unfolding put_addrs_def by (rule fold_put32_length)

lemma put_dinode_length [simp]: "length (put_dinode off x d) = length d"
  by (simp add: put_dinode_def)

lemma fold_put32_upto:
  assumes "off + 4 * k \<le> length d" "i < k"
  shows "get32 (fold (\<lambda>i d. put32 (off + 4 * i) (g i) d) [0..<k] d) (off + 4 * i) = g i"
  using assms
proof (induction k)
  case (Suc k)
  then show ?case by (cases "i = k") auto
qed simp

lemma fold_put32_outside:
  assumes "p + 4 \<le> off \<or> off + 4 * k \<le> p"
  shows "get32 (fold (\<lambda>i d. put32 (off + 4 * i) (g i) d) [0..<k] d) p = get32 d p"
  using assms by (induction k) auto

lemma fold_put32_outside16:
  assumes "p + 2 \<le> off \<or> off + 4 * k \<le> p"
  shows "get16 (fold (\<lambda>i d. put32 (off + 4 * i) (g i) d) [0..<k] d) p = get16 d p"
  using assms by (induction k) auto

lemma put_addrs_get:
  "off + 4 * (NDIRECT + 1) \<le> length d \<Longrightarrow> i < NDIRECT + 1 \<Longrightarrow> get32 (put_addrs off as d) (off + 4 * i) = as ! i"
  unfolding put_addrs_def by (rule fold_put32_upto)

lemma put_addrs_other:
  "p + 4 \<le> off \<or> off + 4 * (NDIRECT + 1) \<le> p \<Longrightarrow> get32 (put_addrs off as d) p = get32 d p"
  unfolding put_addrs_def by (rule fold_put32_outside)

lemma put_addrs_other16:
  "p + 2 \<le> off \<or> off + 4 * (NDIRECT + 1) \<le> p \<Longrightarrow> get16 (put_addrs off as d) p = get16 d p"
  unfolding put_addrs_def by (rule fold_put32_outside16)

lemma get_put_dinode:
  assumes "off + DINODE_SIZE \<le> length d" "length (d_addrs x) = NDIRECT + 1"
  shows "get_dinode (put_dinode off x d) off = x"
proof -
  let ?e = "put32 (off + 8) (d_size x) (put16 (off + 6) (d_nlink x) (put16 (off + 4) (d_minor x) (put16 (off + 2) (d_major x) (put16 off (d_type x) d))))"
  have l: "off + 12 + 4 * (NDIRECT + 1) \<le> length ?e" using assms(1) by (simp add: DINODE_SIZE_def NDIRECT_def)
  have "map (\<lambda>i. get32 (put_addrs (off + 12) (d_addrs x) ?e) (off + 12 + 4 * i)) [0..<NDIRECT + 1] = d_addrs x"
    by (rule nth_equalityI) (use assms(2) put_addrs_get [OF l] in \<open>auto simp del: upt_Suc\<close>)
  then show ?thesis
    using assms(1) by (cases x) (simp add: get_dinode_def put_dinode_def put_addrs_other put_addrs_other16 DINODE_SIZE_def del: upt_Suc)
qed

lemma get_put_dinode_other:
  assumes "p + DINODE_SIZE \<le> off \<or> off + DINODE_SIZE \<le> p"
  shows "get_dinode (put_dinode off x d) p = get_dinode d p"
proof -
  have "i < NDIRECT + 1 \<Longrightarrow> p + 12 + 4 * i + 4 \<le> off \<or> off + 64 \<le> p + 12 + 4 * i" for i
    using assms by (auto simp: DINODE_SIZE_def NDIRECT_def)
  then show ?thesis
    using assms by (auto simp: get_dinode_def put_dinode_def put_addrs_other put_addrs_other16 DINODE_SIZE_def NDIRECT_def)
qed

lemma IPB_8: "IPB = 8" by (simp add: IPB_def BSIZE_def DINODE_SIZE_def)

lemma dinode_off_bound: "dinode_off i + DINODE_SIZE \<le> BSIZE"
proof -
  have "unat i mod 8 < 8" by simp
  then show ?thesis unfolding dinode_off_def IPB_8 by (simp add: DINODE_SIZE_def BSIZE_def)
qed

lemma dinode_off_apart:
  assumes "unat i div IPB = unat j div IPB" "i \<noteq> j"
  shows "dinode_off i + DINODE_SIZE \<le> dinode_off j \<or> dinode_off j + DINODE_SIZE \<le> dinode_off i"
proof -
  have "unat i \<noteq> unat j" using assms(2) by (simp add: word_unat_eq_iff)
  then have "unat i mod IPB \<noteq> unat j mod IPB" using assms(1) by (metis mult_div_mod_eq)
  then show ?thesis by (auto simp: dinode_off_def DINODE_SIZE_def neq_iff)
qed

definition disk_inode :: "fsst \<Rightarrow> u32 \<Rightarrow> dinode" where
  "disk_inode s i = get_dinode (fcont s (IBLOCK i (fs_sb s))) (dinode_off i)"

lemma upd_ino_sel [simp]:
  "fs_b (upd_ino ip f s) = fs_b s" "fs_log (upd_ino ip f s) = fs_log s" "fs_sb (upd_ino ip f s) = fs_sb s" "ic_lock (upd_ino ip f s) = ic_lock s"
  "length (inodes (upd_ino ip f s)) = length (inodes s)"
  by (simp_all add: upd_ino_def)

lemma upd_ino_fs [simp]: "ftx (upd_ino ip f s) = ftx s" "fcont (upd_ino ip f s) = fcont s" "room k (upd_ino ip f s) = room k s"
  "usable (upd_ino ip f s) = usable s" "fdirty (upd_ino ip f s) = fdirty s"
  by (simp_all add: ftx_def fcont_def room_def usable_def fdirty_def fheld_def fun_eq_iff)

lemma iupdate_spec:
  assumes tx: "ftx s" and us: "usable s (IBLOCK (i_inum (ino s ip)) (fs_sb s))" and rm: "room 1 s" and dev: "i_dev (ino s ip) = 1"
  obtains s' where "iupdate ip s = Ok s'"
    "modified s (IBLOCK (i_inum (ino s ip)) (fs_sb s))
       (put_dinode (dinode_off (i_inum (ino s ip))) (dinode_of (ino s ip)) (fcont s (IBLOCK (i_inum (ino s ip)) (fs_sb s)))) s'"
proof -
  let ?n = "IBLOCK (i_inum (ino s ip)) (fs_sb s)"
  let ?d = "put_dinode (dinode_off (i_inum (ino s ip))) (dinode_of (ino s ip)) (fcont s ?n)"
  have len: "length ?d = BSIZE" using fcont_length [OF tx] by simp
  obtain bp b1 b2 lg b' where 1: "fs_bread 1 ?n s = Ok (bp, s\<lparr>fs_b := b1\<rparr>)" "fs_data (s\<lparr>fs_b := b1\<rparr>) bp = fcont s ?n"
    "\<And>s0. fs_log s0 = fs_log s \<Longrightarrow> fs_log_write bp (fs_set bp ?d (s0\<lparr>fs_b := b1\<rparr>)) = Ok (s0\<lparr>fs_log := lg, fs_b := b2\<rparr>)"
    "\<And>s. fs_brelse bp (s\<lparr>fs_b := b2\<rparr>) = Ok (s\<lparr>fs_b := b'\<rparr>)"
    "fctx (s\<lparr>fs_log := lg, fs_b := b'\<rparr>) = fctx s" "ftx (s\<lparr>fs_log := lg, fs_b := b'\<rparr>)"
    "fcont (s\<lparr>fs_log := lg, fs_b := b'\<rparr>) = (fcont s)(?n := ?d)" "fdirty (s\<lparr>fs_log := lg, fs_b := b'\<rparr>) = insert ?n (fdirty s)"
    using fs_modify [OF tx us rm len] by blast
  have "iupdate ip s = Ok (s\<lparr>fs_log := lg, fs_b := b'\<rparr>)" using 1(1-4) dev by (simp add: iupdate_def Let_def)
  then show thesis using that 1 by (simp add: modified_def)
qed

text \<open>The table of inodes: no inode number is cached twice.\<close>

definition icache_ok :: "fsst \<Rightarrow> bool" where
  "icache_ok s \<longleftrightarrow> length (inodes s) = NINODE \<and> \<not> ic_lock s \<and> (\<forall>i < NINODE. 0 \<le> i_ref (ino s i))
     \<and> (\<forall>i < NINODE. \<forall>j < NINODE. 0 < i_ref (ino s i) \<longrightarrow> 0 < i_ref (ino s j) \<longrightarrow>
          i_dev (ino s i) = i_dev (ino s j) \<longrightarrow> i_inum (ino s i) = i_inum (ino s j) \<longrightarrow> i = j)"

definition refers :: "fsst \<Rightarrow> u32 \<Rightarrow> u32 \<Rightarrow> nat \<Rightarrow> bool" where
  "refers s dev inum i \<longleftrightarrow> i_ref (ino s i) > 0 \<and> i_dev (ino s i) = dev \<and> i_inum (ino s i) = inum"

lemma iget_scan_eq:
  "iget_scan is e dev inum s =
     (case find (refers s dev inum) is of Some i \<Rightarrow> (Some i, snd (iget_scan is e dev inum s))
      | None \<Rightarrow> (None, if e = None then find (\<lambda>i. i_ref (ino s i) = 0) is else e))"
  by (induction "is" arbitrary: e) (auto simp: refers_def split: option.splits)

text \<open>
  C37. \<^verbatim>\<open>iget\<close> keeps the inode cache a table: it returns an entry for the wanted inode, the one
  already there with one more reference if there is one, else a fresh entry with one reference,
  not valid; all other entries are unchanged and no inode is cached twice. It panics exactly when
  the inode is not cached and every entry is referenced.
\<close>
theorem iget_unique_entry:
  assumes ok: "icache_ok s"
  shows "if \<exists>i < NINODE. refers s dev inum i \<or> i_ref (ino s i) = 0
    then \<exists>ip s'. iget dev inum s = Ok (ip, s') \<and> ip < NINODE \<and> icache_ok s' \<and> refers s' dev inum ip
      \<and> (if \<exists>i < NINODE. refers s dev inum i then refers s dev inum ip \<and> ino s' ip = (ino s ip)\<lparr>i_ref := i_ref (ino s ip) + 1\<rparr>
         else i_ref (ino s ip) = 0 \<and> i_ref (ino s' ip) = 1 \<and> \<not> i_valid (ino s' ip))
      \<and> (\<forall>i < NINODE. i \<noteq> ip \<longrightarrow> ino s' i = ino s i) \<and> fs_b s' = fs_b s \<and> fs_log s' = fs_log s \<and> fs_sb s' = fs_sb s
    else iget dev inum s = Panic ''iget: no inodes''"
proof -
  have s0: "length (inodes s) = NINODE" "\<not> ic_lock s" using ok by (auto simp: icache_ok_def)
  have acq: "ic_acquire s = Ok (s\<lparr>ic_lock := True\<rparr>)" using s0 by (simp add: ic_acquire_def)
  have rel: "ic_release (s'\<lparr>ic_lock := True\<rparr>) = Ok (s'\<lparr>ic_lock := False\<rparr>)" for s' by (simp add: ic_release_def)
  have sc: "iget_scan is e dev inum (s\<lparr>ic_lock := True\<rparr>) = iget_scan is e dev inum s" for "is" e
    by (induction "is" arbitrary: e) auto
  have id: "upd_ino ip f (s\<lparr>ic_lock := True\<rparr>) = (upd_ino ip f s)\<lparr>ic_lock := True\<rparr>" for ip f by (simp add: upd_ino_def)
  have fl: "(upd_ino ip f s)\<lparr>ic_lock := False\<rparr> = upd_ino ip f s" for ip f using s0(2) by (cases s) (simp add: upd_ino_def)
  have at: "ino (upd_ino ip f s) i = (if i = ip then f (ino s ip) else ino s i)" if "ip < NINODE" for ip f i
    using that s0(1) by (simp add: upd_ino_def nth_upd)
  show ?thesis
  proof (cases "find (refers s dev inum) [0..<NINODE]")
    case (Some ip)
    then have ip: "refers s dev inum ip" "ip < NINODE" using find_SomeD [OF Some] by auto
    let ?s = "upd_ino ip (\<lambda>x. x\<lparr>i_ref := i_ref x + 1\<rparr>) s"
    have "iget_scan [0..<NINODE] None dev inum s = (Some ip, snd (iget_scan [0..<NINODE] None dev inum s))"
      using iget_scan_eq [of "[0..<NINODE]" None dev inum s] Some by simp
    then obtain x where "iget_scan [0..<NINODE] None dev inum s = (Some ip, x)" by blast
    then have "iget dev inum s = Ok (ip, ?s)" by (simp add: iget_def acq sc id rel fl Let_def)
    moreover have "icache_ok ?s" using ok ip unfolding icache_ok_def refers_def by (auto simp: at)
    moreover have "refers ?s dev inum ip" using ip by (auto simp: refers_def at)
    ultimately show ?thesis using ip by (auto simp: at)
  next
    case None
    then have no: "\<not> (\<exists>i < NINODE. refers s dev inum i)" by (auto simp: find_None_iff)
    have sc0: "iget_scan [0..<NINODE] None dev inum s = (None, find (\<lambda>i. i_ref (ino s i) = 0) [0..<NINODE])"
      using iget_scan_eq [of "[0..<NINODE]" None dev inum s] None by simp
    show ?thesis
    proof (cases "find (\<lambda>i. i_ref (ino s i) = 0) [0..<NINODE]")
      case none: None
      then have "\<not> (\<exists>i < NINODE. refers s dev inum i \<or> i_ref (ino s i) = 0)" using no by (auto simp: find_None_iff)
      moreover have "iget dev inum s = Panic ''iget: no inodes''" using sc0 none by (simp add: iget_def acq sc)
      ultimately show ?thesis by simp
    next
      case (Some ip)
      then have ip: "i_ref (ino s ip) = 0" "ip < NINODE" using find_SomeD [OF Some] by auto
      let ?s = "upd_ino ip (\<lambda>x. x\<lparr>i_dev := dev, i_inum := inum, i_ref := 1, i_valid := False\<rparr>) s"
      have "iget dev inum s = Ok (ip, ?s)" using sc0 Some by (simp add: iget_def acq sc id rel fl Let_def)
      moreover have "icache_ok ?s" using ok ip no unfolding icache_ok_def refers_def by (auto simp: at)
      moreover have "refers ?s dev inum ip" using ip by (auto simp: refers_def at)
      ultimately show ?thesis using ip no by (auto simp: at)
    qed
  qed
qed

lemma demo_icache: "icache_ok demo_fs"
  by (auto simp: icache_ok_def demo_fs_def nth_replicate)

theorem iget_unique_entry_witness: "\<exists>ip s'. iget 1 1 demo_fs = Ok (ip, s') \<and> refers s' 1 1 ip \<and> \<not> i_valid (ino s' ip)"
proof -
  have z: "i < NINODE \<Longrightarrow> i_ref (ino demo_fs i) = 0" for i by (simp add: demo_fs_def)
  have ex: "\<exists>i < NINODE. refers demo_fs 1 1 i \<or> i_ref (ino demo_fs i) = 0" using z [of 0] by (intro exI [of _ 0]) (simp add: NINODE_def)
  have no: "\<not> (\<exists>i < NINODE. refers demo_fs 1 1 i)" using z by (auto simp: refers_def)
  show ?thesis using iget_unique_entry [OF demo_icache, of 1 1] unfolding if_P [OF ex] if_not_P [OF no] by blast
qed

subsection \<open>What \<^verbatim>\<open>iupdate\<close> writes\<close>

lemma IBLOCK_inj:
  assumes "IBLOCK i sb = IBLOCK j sb"
  shows "unat i div IPB = unat j div IPB"
proof -
  have b: "unat k div IPB < 2 ^ 32" for k :: u32
    by (rule le_less_trans [OF div_le_dividend]) (use unsigned_less [of k, where 'a = nat] in simp)
  have "(of_nat (unat i div IPB) :: u32) = of_nat (unat j div IPB)" using assms by (simp add: IBLOCK_def)
  then have "unat (of_nat (unat i div IPB) :: u32) = unat (of_nat (unat j div IPB) :: u32)" by simp
  then show ?thesis using b [of i] b [of j] by (simp add: unsigned_of_nat take_bit_eq_mod)
qed


definition demo_inode :: fsst where
  "demo_inode = upd_ino 3 (\<lambda>x. x\<lparr>i_dev := 1, i_inum := 5, i_ref := 1, i_type := T_FILE, i_nlink := 1, i_size := 700\<rparr>) demo_fs"


subsection \<open>Path names\<close>

text \<open>The reference: the maximal slash-free segments of a path, from left to right.\<close>

fun segments :: "u8 list \<Rightarrow> u8 list \<Rightarrow> u8 list list" where
  "segments acc [] = (if acc = [] then [] else [rev acc])"
| "segments acc (c # cs) =
     (if c = slash then (if acc = [] then segments [] cs else rev acc # segments [] cs) else segments (c # acc) cs)"

definition path_elems :: "u8 list \<Rightarrow> u8 list list" where
  "path_elems p = segments [] p"

lemma segments_run: "slash \<notin> set e \<Longrightarrow> segments acc (e @ rest) = segments (rev e @ acc) rest"
  by (induction e arbitrary: acc) auto

lemma segments_end: "acc \<noteq> [] \<Longrightarrow> rest = [] \<or> hd rest = slash \<Longrightarrow> segments acc rest = rev acc # segments [] rest"
  by (cases rest) auto

lemma path_elems_skip: "path_elems (dropWhile (\<lambda>c. c = slash) p) = path_elems p"
  by (induction p) (auto simp: path_elems_def)

lemma path_elems_first:
  assumes "p \<noteq> []" "hd p \<noteq> slash"
  defines "e \<equiv> takeWhile (\<lambda>c. c \<noteq> slash) p"
  shows "path_elems p = e # path_elems (drop (length e) p)" "e \<noteq> []"
proof -
  show ne: "e \<noteq> []" using assms by (cases p) auto
  have d: "drop (length e) p = dropWhile (\<lambda>c. c \<noteq> slash) p" unfolding e_def by (rule dropWhile_eq_drop [symmetric])
  have s: "slash \<notin> set e" unfolding e_def using set_takeWhileD by metis
  have p: "p = e @ drop (length e) p" unfolding d unfolding e_def by simp
  have r: "drop (length e) p = [] \<or> hd (drop (length e) p) = slash"
    unfolding d using hd_dropWhile [of "\<lambda>c. c \<noteq> slash" p] by auto
  have "path_elems p = segments [] (e @ drop (length e) p)" unfolding path_elems_def using p by simp
  also have "\<dots> = segments (rev e) (drop (length e) p)" using segments_run [OF s, of "[]"] by simp
  also have "\<dots> = e # segments [] (drop (length e) p)" using segments_end [OF _ r, of "rev e"] ne by simp
  finally show "path_elems p = e # path_elems (drop (length e) p)" by (simp add: path_elems_def)
qed

text \<open>
  C38. \<^verbatim>\<open>skipelem\<close> peels off the path's segments one at a time: it fails exactly when the path has no
  segment; otherwise it stores the first segment in \<^verbatim>\<open>name\<close>, NUL-terminated if shorter than
  \<^verbatim>\<open>DIRSIZ\<close> and cut to \<^verbatim>\<open>DIRSIZ\<close> bytes if not, and returns a path that does not begin with a slash
  and has exactly the remaining segments. So the loop of \<^verbatim>\<open>namex\<close> visits the segments in order.
\<close>
theorem skipelem_segments:
  "case path_elems path of
     [] \<Rightarrow> skipelem path name = None
   | e # es \<Rightarrow> (\<exists>rest name'. skipelem path name = Some (rest, name') \<and> path_elems rest = es
       \<and> \<not> (rest \<noteq> [] \<and> hd rest = slash) \<and> length rest < length path
       \<and> name' = (if length e \<ge> DIRSIZ then take DIRSIZ e @ drop DIRSIZ name else e @ [0] @ drop (length e + 1) name))"
proof -
  let ?p = "dropWhile (\<lambda>c. c = slash) path"
  let ?e = "takeWhile (\<lambda>c. c \<noteq> slash) ?p"
  show ?thesis
  proof (cases "?p = []")
    case True
    then have "path_elems path = []" using path_elems_skip [of path] by (metis path_elems_def segments.simps(1))
    then show ?thesis using True by (simp add: skipelem_def)
  next
    case False
    then have h: "hd ?p \<noteq> slash" using hd_dropWhile by blast
    have pe: "path_elems path = ?e # path_elems (drop (length ?e) ?p)"
      using path_elems_first(1) [OF False h] path_elems_skip [of path] by simp
    let ?rest = "dropWhile (\<lambda>c. c = slash) (drop (length ?e) ?p)"
    let ?name = "if length ?e \<ge> DIRSIZ then take DIRSIZ ?e @ drop DIRSIZ name else ?e @ [0] @ drop (length ?e + 1) name"
    have k: "skipelem path name = Some (?rest, ?name)" using False by (simp add: skipelem_def Let_def)
    moreover have "path_elems ?rest = path_elems (drop (length ?e) ?p)" by (rule path_elems_skip)
    moreover have "\<not> (?rest \<noteq> [] \<and> hd ?rest = slash)" using hd_dropWhile [of "\<lambda>c. c = slash" "drop (length ?e) ?p"] by blast
    ultimately show ?thesis unfolding pe using skipelem_shorter [OF k] by simp
  qed
qed

end
