(* ===== verification/Ring.thy ===== *)
theory Ring
  imports Xv6_Prelude
begin

section \<open>Ring buffers indexed by free-running counters\<close>

text \<open>
  Pipes and the console's input line are arrays indexed by counters that are only ever
  incremented, reduced modulo the size of the array at each access. The counters are 32-bit
  words and wrap around; because the size divides \<open>2 ^ 32\<close>, the bytes between the read and the
  write counter stay where they are when a counter wraps.
\<close>

definition ring :: "'a list \<Rightarrow> u32 \<Rightarrow> u32 \<Rightarrow> 'a list" where
  "ring data r w = map (\<lambda>k. data ! ((unat r + k) mod length data)) [0..<unat (w - r)]"

lemma length_ring [simp]: "length (ring data r w) = unat (w - r)"
  by (simp add: ring_def)

lemma ring_empty_iff: "ring data r w = [] \<longleftrightarrow> w = r"
  by (simp add: ring_def unat_eq_0)

lemma unat_succ_diff:
  assumes "unat ((w :: u32) - r) < 2 ^ 32 - 1"
  shows "unat (w + 1 - r) = Suc (unat (w - r))"
proof -
  have e: "w + 1 - r = (w - r) + 1" by simp
  have "unat (w - r + 1) = unat (w - r) + 1" using assms by (subst unat_add_lem [THEN iffD1]) simp_all
  then show ?thesis unfolding e by simp
qed

lemma unat_mod_dvd:
  assumes "n dvd (2 ^ 32 :: nat)"
  shows "unat (r + of_nat k :: u32) mod n = (unat r + k) mod n"
proof -
  have "unat (r + of_nat k :: u32) = (unat r + k) mod 2 ^ 32"
    by (simp add: unat_word_ariths unsigned_of_nat take_bit_eq_mod mod_simps)
  then show ?thesis using assms by (simp add: mod_mod_cancel)
qed

lemma ring_write_index:
  assumes "n dvd (2 ^ 32 :: nat)"
  shows "unat (w :: u32) mod n = (unat r + unat (w - r)) mod n"
  using unat_mod_dvd [OF assms, of r "unat (w - r)"] by simp

lemma mod_add_distinct:
  assumes "(k :: nat) < d" "d < n"
  shows "(a + k) mod n \<noteq> (a + d) mod n"
proof
  assume "(a + k) mod n = (a + d) mod n"
  then have "n dvd (a + d) - (a + k)" using assms by (subst mod_eq_dvd_iff_nat [symmetric]) simp_all
  then show False using assms by (auto dest: dvd_imp_le)
qed

text \<open>Storing at the write counter and incrementing it appends; incrementing the read counter drops
  the first byte, which is the one at the read counter.\<close>

lemma ring_put:
  assumes dv: "length data dvd (2 ^ 32 :: nat)" "length data < 2 ^ 32" and room: "unat (w - r) < length data"
  shows "ring (data[unat w mod length data := x]) r (w + 1) = ring data r w @ [x]"
proof -
  let ?n = "length data" and ?d = "unat (w - r)"
  have s: "unat (w + 1 - r) = Suc ?d" using room dv(2) by (intro unat_succ_diff) linarith
  have w: "unat w mod ?n = (unat r + ?d) mod ?n" by (rule ring_write_index [OF dv(1)])
  have "?n > 0" using room by linarith
  then have "ring (data[unat w mod ?n := x]) r (w + 1) ! k = (ring data r w @ [x]) ! k" if "k < Suc ?d" for k
    using that mod_add_distinct [of k ?d ?n "unat r"] room
    by (cases "k = ?d") (auto simp: ring_def s w nth_append nth_upd)
  then show ?thesis by (intro nth_equalityI) (simp_all add: s)
qed

lemma ring_get:
  assumes dv: "length data dvd (2 ^ 32 :: nat)" and ne: "w \<noteq> r"
  shows "ring data r w = data ! (unat r mod length data) # ring data (r + 1) w"
proof -
  have nz: "w - r \<noteq> 0" using ne by simp
  have d: "w - (r + 1) = w - r - 1" by simp
  have c: "unat (w - r) = Suc (unat (w - (r + 1)))" unfolding d using unat_minus_one [OF nz] nz by (simp add: unat_eq_0 [symmetric])
  have "(unat r + Suc k) mod length data = (unat (r + 1) + k) mod length data" for k
  proof -
    have "unat (r + 1) mod length data = (unat r + 1) mod length data" using unat_mod_dvd [OF dv, of r 1] by simp
    then show ?thesis by (metis add.assoc mod_add_left_eq plus_1_eq_Suc)
  qed
  then show ?thesis unfolding ring_def c upt_conv_Cons [OF zero_less_Suc] map_Suc_upt [symmetric] by simp
qed

text \<open>Decrementing the write counter takes the last byte back, and a third counter between the two
  splits the ring.\<close>

lemma ring_same [simp]: "ring data r r = []"
  by (simp add: ring_empty_iff)

lemma unat_dec: "e \<noteq> w \<Longrightarrow> unat (e - w :: u32) = Suc (unat (e - 1 - w))"
proof -
  assume "e \<noteq> w"
  then have "e - w \<noteq> 0" by simp
  then have "unat (e - w) = Suc (unat (e - w - 1))" using unat_minus_one [of "e - w"] by (simp add: unat_eq_0 [symmetric])
  moreover have "e - 1 - w = e - w - 1" by simp
  ultimately show ?thesis by metis
qed

lemma ring_split:
  assumes dv: "length data dvd (2 ^ 32 :: nat)" and le: "unat (w - r) \<le> unat (e - r)"
  shows "ring data r e = ring data r w @ ring data w e" "unat (e - r) = unat (w - r) + unat (e - w)"
proof -
  have "e - w = (e - r) - (w - r)" by simp
  then have "unat (e - w) = unat (e - r) - unat (w - r)" using le unat_sub [of "w - r" "e - r"] by (simp add: word_le_nat_alt)
  then show l: "unat (e - r) = unat (w - r) + unat (e - w)" using le by simp
  have "data ! ((unat r + k) mod length data) = data ! ((unat w + (k - unat (w - r))) mod length data)" if "unat (w - r) \<le> k" for k
  proof -
    have "(unat w + (k - unat (w - r))) mod length data = (unat r + unat (w - r) + (k - unat (w - r))) mod length data"
      using ring_write_index [OF dv, of w r] by (metis mod_add_left_eq)
    then show ?thesis using that by simp
  qed
  then show "ring data r e = ring data r w @ ring data w e"
    by (intro nth_equalityI) (auto simp: l nth_append ring_def)
qed

lemma ring_unput:
  assumes dv: "length data dvd (2 ^ 32 :: nat)" and ne: "e \<noteq> w"
  shows "ring data w e = ring data w (e - 1) @ [data ! (unat (e - 1) mod length data)]"
  using unat_dec [OF ne] ring_write_index [OF dv, of "e - 1" w] by (simp add: ring_def)

end
