(* ===== verification/Pipe.thy ===== *)
theory Pipe
  imports Ring Kalloc
begin

section \<open>Pipes (\<^verbatim>\<open>pipe.c\<close>)\<close>

text \<open>
  A pipe is a ring of \<^verbatim>\<open>PIPESIZE\<close> bytes with two counters. A reader that finds the pipe empty
  sleeps before it has changed anything, and starts over when it is woken: it is \<open>Blocked\<close>. A
  writer that finds the pipe full sleeps in the middle of its copy: \<open>pipewrite\<close> then returns
  \<open>Partial\<close> with the bytes still to be written, and calling it again with those bytes is what the
  code does after its \<^verbatim>\<open>sleep\<close>. \<open>killed\<close> is \<^verbatim>\<open>myproc()->killed\<close>, and the last component of the
  results the list of channels woken. \<open>pipealloc\<close> is in theory \<open>File\<close>, with the file table.
\<close>

definition PIPESIZE :: nat where "PIPESIZE = 512"

record pipe =
  pi_lock :: bool
  pi_data :: "u8 list"
  pi_nread :: u32
  pi_nwrite :: u32
  pi_readopen :: bool
  pi_writeopen :: bool

datatype wres = Wrote int | Partial "u8 list"

definition pi_acquire :: "pipe \<Rightarrow> pipe res" where
  "pi_acquire p = rbind (lk_acquire (pi_lock p)) (\<lambda>l. Ok (p\<lparr>pi_lock := l\<rparr>))"

definition pi_release :: "pipe \<Rightarrow> pipe res" where
  "pi_release p = rbind (lk_release (pi_lock p)) (\<lambda>l. Ok (p\<lparr>pi_lock := l\<rparr>))"

text \<open>\<^verbatim>\<open>pipeclose\<close> returns whether the page of the pipe is to be freed.\<close>

definition pipeclose :: "nat \<Rightarrow> bool \<Rightarrow> pipe \<Rightarrow> (bool \<times> pipe \<times> wchan list) res" where
  "pipeclose a writable p =
     rbind (pi_acquire p) (\<lambda>p.
     let (p, w) = (if writable then (p\<lparr>pi_writeopen := False\<rparr>, [PipeRead a]) else (p\<lparr>pi_readopen := False\<rparr>, [PipeWrite a])) in
     rbind (pi_release p) (\<lambda>q. Ok (\<not> pi_readopen p \<and> \<not> pi_writeopen p, q, w)))"

fun pipewrite_loop :: "nat \<Rightarrow> bool \<Rightarrow> int \<Rightarrow> u8 list \<Rightarrow> pipe \<Rightarrow> (wres \<times> pipe \<times> wchan list) res" where
  "pipewrite_loop a killed n [] p = rbind (pi_release p) (\<lambda>p. Ok (Wrote n, p, [PipeRead a]))"
| "pipewrite_loop a killed n (b # bs) p =
     (if pi_nwrite p = pi_nread p + of_nat PIPESIZE then
        if \<not> pi_readopen p \<or> killed then rbind (pi_release p) (\<lambda>p. Ok (Wrote (- 1), p, []))
        else rbind (pi_release p) (\<lambda>p. Ok (Partial (b # bs), p, [PipeRead a]))
      else
        pipewrite_loop a killed n bs
          (p\<lparr>pi_data := (pi_data p)[unat (pi_nwrite p) mod PIPESIZE := b], pi_nwrite := pi_nwrite p + 1\<rparr>))"

definition pipewrite :: "nat \<Rightarrow> bool \<Rightarrow> int \<Rightarrow> u8 list \<Rightarrow> pipe \<Rightarrow> (wres \<times> pipe \<times> wchan list) res" where
  "pipewrite a killed n bs p = rbind (pi_acquire p) (pipewrite_loop a killed n bs)"

fun piperead_loop :: "nat \<Rightarrow> pipe \<Rightarrow> u8 list \<times> pipe" where
  "piperead_loop 0 p = ([], p)"
| "piperead_loop (Suc n) p =
     (if pi_nread p = pi_nwrite p then ([], p)
      else
        let b = pi_data p ! (unat (pi_nread p) mod PIPESIZE);
            (bs, q) = piperead_loop n (p\<lparr>pi_nread := pi_nread p + 1\<rparr>)
        in (b # bs, q))"

definition piperead :: "nat \<Rightarrow> bool \<Rightarrow> int \<Rightarrow> pipe \<Rightarrow> (int \<times> u8 list \<times> pipe \<times> wchan list) res" where
  "piperead a killed n p =
     rbind (pi_acquire p) (\<lambda>p.
     if pi_nread p = pi_nwrite p \<and> pi_writeopen p then
       if killed then rbind (pi_release p) (\<lambda>p. Ok (- 1, [], p, [])) else Blocked
     else
       let (bs, p) = piperead_loop (nat n) p in
       rbind (pi_release p) (\<lambda>p. Ok (int (length bs), bs, p, [PipeWrite a])))"

subsection \<open>A pipe is a bounded queue\<close>

definition pbytes :: "pipe \<Rightarrow> u8 list" where
  "pbytes p = ring (pi_data p) (pi_nread p) (pi_nwrite p)"

definition pipe_ok :: "pipe \<Rightarrow> bool" where
  "pipe_ok p \<longleftrightarrow> length (pi_data p) = PIPESIZE \<and> length (pbytes p) \<le> PIPESIZE \<and> \<not> pi_lock p"

lemma PIPESIZE_dvd: "PIPESIZE dvd 2 ^ 32" "PIPESIZE < 2 ^ 32"
  by (simp_all add: PIPESIZE_def)

lemma pi_locks [simp]:
  "\<not> pi_lock p \<Longrightarrow> pi_acquire p = Ok (p\<lparr>pi_lock := True\<rparr>)"
  "pi_lock p \<Longrightarrow> pi_release p = Ok (p\<lparr>pi_lock := False\<rparr>)"
  by (simp_all add: pi_acquire_def pi_release_def)

lemma pbytes_upd [simp]: "pbytes (p\<lparr>pi_lock := l\<rparr>) = pbytes p" "pbytes (p\<lparr>pi_readopen := r\<rparr>) = pbytes p"
    "pbytes (p\<lparr>pi_writeopen := w\<rparr>) = pbytes p"
  by (simp_all add: pbytes_def)

lemma pipe_full_iff:
  assumes "length (pbytes p) \<le> PIPESIZE"
  shows "pi_nwrite p = pi_nread p + of_nat PIPESIZE \<longleftrightarrow> length (pbytes p) = PIPESIZE"
proof -
  have "pi_nwrite p = pi_nread p + of_nat PIPESIZE \<longleftrightarrow> pi_nwrite p - pi_nread p = of_nat PIPESIZE" by (auto simp: algebra_simps)
  also have "\<dots> \<longleftrightarrow> unat (pi_nwrite p - pi_nread p) = PIPESIZE"
    by (simp add: PIPESIZE_def word_unat_eq_iff)
  finally show ?thesis by (simp add: pbytes_def)
qed

definition keeps_ends :: "pipe \<Rightarrow> pipe \<Rightarrow> bool" where
  "keeps_ends p q \<longleftrightarrow> pi_readopen q = pi_readopen p \<and> pi_writeopen q = pi_writeopen p"

lemma pipewrite_loop_spec:
  fixes bs :: "u8 list"
  assumes "length (pi_data p) = PIPESIZE" "length (pbytes p) \<le> PIPESIZE" "pi_lock p"
  defines "k \<equiv> min (length bs) (PIPESIZE - length (pbytes p))"
  shows "\<exists>q. pipewrite_loop a killed n bs p =
      Ok (if k = length bs then (Wrote n, q, [PipeRead a])
          else if \<not> pi_readopen p \<or> killed then (Wrote (- 1), q, [])
          else (Partial (drop k bs), q, [PipeRead a]))
    \<and> pbytes q = pbytes p @ take k bs \<and> pipe_ok q \<and> keeps_ends p q \<and> pi_nwrite q = pi_nwrite p + of_nat k"
  using assms(1-3) unfolding k_def
proof (induction bs arbitrary: p)
  case Nil
  then show ?case by (simp add: pipe_ok_def keeps_ends_def)
next
  case (Cons b bs)
  show ?case
  proof (cases "length (pbytes p) = PIPESIZE")
    case True
    then show ?thesis using Cons.prems pipe_full_iff [of p] by (simp add: pipe_ok_def keeps_ends_def)
  next
    case False
    let ?p = "p\<lparr>pi_data := (pi_data p)[unat (pi_nwrite p) mod PIPESIZE := b], pi_nwrite := pi_nwrite p + 1\<rparr>"
    have "unat (pi_nwrite p - pi_nread p) < length (pi_data p)" using False Cons.prems by (simp add: pbytes_def)
    then have b: "pbytes ?p = pbytes p @ [b]"
      using ring_put [of "pi_data p"] Cons.prems(1) PIPESIZE_dvd by (simp add: pbytes_def)
    have "\<not> pi_nwrite p = pi_nread p + of_nat PIPESIZE" using pipe_full_iff [OF Cons.prems(2)] False by simp
    then have e: "pipewrite_loop a killed n (b # bs) p = pipewrite_loop a killed n bs ?p" by simp
    have k: "min (length (b # bs)) (PIPESIZE - length (pbytes p)) = Suc (min (length bs) (PIPESIZE - length (pbytes ?p)))"
      using False Cons.prems(2) by (simp add: b)
    define j where "j = min (length bs) (PIPESIZE - length (pbytes ?p))"
    have d: "length (pi_data ?p) = PIPESIZE" "pi_lock ?p" "pi_readopen ?p = pi_readopen p" using Cons.prems by simp_all
    have l: "length (pbytes ?p) \<le> PIPESIZE" using False Cons.prems(2) by (simp add: b)
    obtain q where q: "pipewrite_loop a killed n bs ?p =
        Ok (if j = length bs then (Wrote n, q, [PipeRead a]) else if \<not> pi_readopen p \<or> killed then (Wrote (- 1), q, [])
            else (Partial (drop j bs), q, [PipeRead a]))"
      "pbytes q = pbytes ?p @ take j bs" "pipe_ok q" "keeps_ends ?p q" "pi_nwrite q = pi_nwrite ?p + of_nat j"
      using Cons.IH [OF d(1) l d(2), unfolded d(3)] unfolding j_def by blast
    show ?thesis unfolding e k j_def [symmetric]
      by (rule exI [of _ q]) (use q in \<open>simp add: b keeps_ends_def\<close>)
  qed
qed

lemma pipewrite_spec:
  fixes bs :: "u8 list"
  assumes "pipe_ok p"
  defines "k \<equiv> min (length bs) (PIPESIZE - length (pbytes p))"
  shows "\<exists>q. pipewrite a killed n bs p =
      Ok (if k = length bs then (Wrote n, q, [PipeRead a])
          else if \<not> pi_readopen p \<or> killed then (Wrote (- 1), q, [])
          else (Partial (drop k bs), q, [PipeRead a]))
    \<and> pbytes q = pbytes p @ take k bs \<and> pipe_ok q \<and> keeps_ends p q \<and> pi_nwrite q = pi_nwrite p + of_nat k"
proof -
  let ?p = "p\<lparr>pi_lock := True\<rparr>"
  have 1: "pipewrite a killed n bs p = pipewrite_loop a killed n bs ?p" using assms(1) by (simp add: pipewrite_def pipe_ok_def)
  have 2: "keeps_ends ?p = keeps_ends p" "pi_readopen ?p = pi_readopen p" "pi_nwrite ?p = pi_nwrite p"
    by (simp_all add: keeps_ends_def fun_eq_iff)
  have "length (pi_data ?p) = PIPESIZE" "length (pbytes ?p) \<le> PIPESIZE" "pi_lock ?p" using assms(1) by (simp_all add: pipe_ok_def)
  from pipewrite_loop_spec [OF this, where bs = bs and a = a and killed = killed and n = n] show ?thesis unfolding 1 2 k_def pbytes_upd .
qed

lemma piperead_loop_spec:
  assumes "length (pi_data p) = PIPESIZE" "length (pbytes p) \<le> PIPESIZE"
  shows "\<exists>q. piperead_loop n p = (take n (pbytes p), q) \<and> pbytes q = drop n (pbytes p)
    \<and> length (pi_data q) = PIPESIZE \<and> pi_lock q = pi_lock p \<and> keeps_ends p q"
  using assms
proof (induction n arbitrary: p)
  case 0
  then show ?case by (simp add: keeps_ends_def)
next
  case (Suc n)
  show ?case
  proof (cases "pi_nread p = pi_nwrite p")
    case True
    then have "pbytes p = []" by (simp add: pbytes_def ring_empty_iff)
    then show ?thesis using True Suc.prems by (simp add: keeps_ends_def)
  next
    case False
    let ?p = "p\<lparr>pi_nread := pi_nread p + 1\<rparr>"
    have b: "pbytes p = pi_data p ! (unat (pi_nread p) mod PIPESIZE) # pbytes ?p"
      using ring_get [of "pi_data p" "pi_nwrite p" "pi_nread p"] False Suc.prems(1) PIPESIZE_dvd by (simp add: pbytes_def)
    obtain q where "piperead_loop n ?p = (take n (pbytes ?p), q)" "pbytes q = drop n (pbytes ?p)"
      "length (pi_data q) = PIPESIZE" "pi_lock q = pi_lock p" "keeps_ends p q"
      using Suc.IH [of ?p] Suc.prems b by (auto simp: keeps_ends_def)
    then show ?thesis using False by (simp add: b)
  qed
qed

lemma piperead_spec:
  assumes "pipe_ok p" "pbytes p \<noteq> [] \<or> \<not> pi_writeopen p"
  shows "\<exists>q. piperead a killed n p = Ok (int (length (take (nat n) (pbytes p))), take (nat n) (pbytes p), q, [PipeWrite a])
    \<and> pbytes q = drop (nat n) (pbytes p) \<and> pipe_ok q \<and> keeps_ends p q"
proof -
  let ?p = "p\<lparr>pi_lock := True\<rparr>"
  obtain q where q: "piperead_loop (nat n) ?p = (take (nat n) (pbytes p), q)" "pbytes q = drop (nat n) (pbytes p)"
    "length (pi_data q) = PIPESIZE" "pi_lock q" "keeps_ends ?p q"
    using piperead_loop_spec [of ?p "nat n"] assms(1) by (auto simp: pipe_ok_def)
  have "\<not> (pi_nread p = pi_nwrite p \<and> pi_writeopen p)" using assms(2) by (auto simp: pbytes_def ring_empty_iff)
  then show ?thesis using assms(1) q by (auto simp: piperead_def pipe_ok_def keeps_ends_def)
qed

lemma piperead_empty:
  assumes "pipe_ok p" "pbytes p = []" "pi_writeopen p"
  shows "piperead a killed n p = (if killed then Ok (- 1, [], p, []) else Blocked)"
  using assms by (auto simp: piperead_def pipe_ok_def pbytes_def ring_empty_iff)

subsection \<open>First in, first out\<close>

text \<open>
  The states of a pipe under any interleaving of writers, readers and closing ends, with the
  bytes the writers have put into it and the bytes the readers were given. A writer that sleeps
  or fails has put in as many bytes as it advanced \<^verbatim>\<open>nwrite\<close>.
\<close>

inductive pipe_history :: "pipe \<Rightarrow> u8 list \<Rightarrow> u8 list \<Rightarrow> bool" where
  start: "pipe_ok p \<Longrightarrow> pbytes p = [] \<Longrightarrow> pipe_history p [] []"
| wrote: "pipe_history p w r \<Longrightarrow> pipewrite a killed n bs p = Ok (res, q, wk) \<Longrightarrow>
    pipe_history q (w @ take (unat (pi_nwrite q - pi_nwrite p)) bs) r"
| received: "pipe_history p w r \<Longrightarrow> piperead a killed n p = Ok (res, bs, q, wk) \<Longrightarrow> pipe_history q w (r @ bs)"
| closed: "pipe_history p w r \<Longrightarrow> pipeclose a wr p = Ok (gone, q, wk) \<Longrightarrow> \<not> gone \<Longrightarrow> pipe_history q w r"

lemma pipe_history_inv: "pipe_history p w r \<Longrightarrow> pipe_ok p \<and> w = r @ pbytes p"
proof (induction rule: pipe_history.induct)
  case (wrote p w r a killed n bs res q wk)
  let ?k = "min (length bs) (PIPESIZE - length (pbytes p))"
  have q: "pbytes q = pbytes p @ take ?k bs" "pipe_ok q" "pi_nwrite q = pi_nwrite p + of_nat ?k"
    using pipewrite_spec [where p = p and bs = bs and a = a and killed = killed and n = n] wrote by (auto split: if_splits)
  have "?k < 2 ^ 32" using PIPESIZE_dvd(2) by linarith
  then have "unat (pi_nwrite q - pi_nwrite p) = ?k" unfolding q(3) by (simp add: unsigned_of_nat take_bit_nat_eq_self)
  then show ?case using q wrote by simp
next
  case (received p w r a killed n res bs q wk)
  show ?case
  proof (cases "pbytes p \<noteq> [] \<or> \<not> pi_writeopen p")
    case True
    then show ?thesis using piperead_spec [OF _ True, of a killed n] received by auto
  next
    case False
    then show ?thesis using piperead_empty [of p a killed n] received by (auto split: if_splits)
  qed
next
  case (closed p w r a wr gone q wk)
  then show ?case by (auto simp: pipeclose_def pipe_ok_def Let_def split: if_splits)
qed simp

text \<open>
  C7. A pipe delivers every byte exactly once and in the order of writing, however its writers and
  readers interleave and however often the 32-bit counters wrap around: the bytes written so far
  are the bytes delivered followed by those in the buffer. A reader gets the next bytes as soon as
  there are any, and a writer whose bytes fit in the rest of the buffer never waits.
\<close>
theorem pipe_fifo:
  assumes "pipe_history p w r"
  shows "w = r @ pbytes p \<and> length w - length r \<le> PIPESIZE
    \<and> (length r < length w \<longrightarrow> (\<exists>q wk. piperead a killed n p = Ok (int (min (nat n) (length w - length r)), take (nat n) (drop (length r) w), q, wk)
          \<and> pipe_history q w (r @ take (nat n) (drop (length r) w))))
    \<and> (length w - length r + length bs \<le> PIPESIZE \<longrightarrow> (\<exists>q wk. pipewrite a killed m bs p = Ok (Wrote m, q, wk) \<and> pipe_history q (w @ bs) r))"
proof -
  have p: "pipe_ok p" "w = r @ pbytes p" using pipe_history_inv [OF assms] by simp_all
  have rd: "\<exists>q wk. piperead a killed n p = Ok (int (min (nat n) (length w - length r)), take (nat n) (drop (length r) w), q, wk)
      \<and> pipe_history q w (r @ take (nat n) (drop (length r) w))" if ne: "length r < length w"
  proof -
    obtain q where "piperead a killed n p = Ok (int (length (take (nat n) (pbytes p))), take (nat n) (pbytes p), q, [PipeWrite a])"
      using piperead_spec [OF p(1), of a killed n] ne p(2) by auto
    then show ?thesis using pipe_history.received [OF assms] p(2) by (fastforce simp: min.commute)
  qed
  have wr: "\<exists>q wk. pipewrite a killed m bs p = Ok (Wrote m, q, wk) \<and> pipe_history q (w @ bs) r"
    if fits: "length w - length r + length bs \<le> PIPESIZE"
  proof -
    have k: "min (length bs) (PIPESIZE - length (pbytes p)) = length bs" using fits p(2) by simp
    obtain q where q: "pipewrite a killed m bs p = Ok (Wrote m, q, [PipeRead a])" "pi_nwrite q = pi_nwrite p + of_nat (length bs)"
      using pipewrite_spec [OF p(1), where bs = bs and a = a and killed = killed and n = m] unfolding k by auto
    have "length bs < 2 ^ 32" using fits PIPESIZE_dvd(2) by linarith
    then have "unat (pi_nwrite q - pi_nwrite p) = length bs" unfolding q(2) by (simp add: unsigned_of_nat take_bit_nat_eq_self)
    then have "pipe_history q (w @ bs) r" using pipe_history.wrote [OF assms q(1)] by simp
    then show ?thesis using q(1) by blast
  qed
  show ?thesis using p rd wr by (auto simp: pipe_ok_def)
qed

text \<open>A pipe whose counters are about to wrap around.\<close>

definition demo_pipe :: pipe where
  "demo_pipe = \<lparr>pi_lock = False, pi_data = replicate 512 0, pi_nread = 0xFFFFFFFE, pi_nwrite = 0xFFFFFFFE,
     pi_readopen = True, pi_writeopen = True\<rparr>"

theorem pipe_fifo_witness:
  "\<exists>q wk. pipewrite 0 False 3 [7, 8, 9] demo_pipe = Ok (Wrote 3, q, wk)"
proof -
  have "pipe_history demo_pipe [] []"
    by (rule pipe_history.start) (simp_all add: demo_pipe_def pipe_ok_def pbytes_def ring_def PIPESIZE_def)
  then show ?thesis using pipe_fifo [of demo_pipe "[]" "[]" 0 False 0 "[7, 8, 9]" 3] by (auto simp: PIPESIZE_def)
qed

end
