(* ===== verification/File.thy ===== *)
theory File
  imports Fs Pipe ProcLife
begin

section \<open>Open files (\<^verbatim>\<open>file.c\<close>, \<^verbatim>\<open>pipealloc\<close> of \<^verbatim>\<open>pipe.c\<close>)\<close>

text \<open>
  The table of open files over the file system and the pipes. The state \<open>kfs\<close> has what a system
  call on files works with: the file system, the page allocator, the pipes by the address of
  their page, the table, the calling process and its memory as its page table maps it. A
  \<^verbatim>\<open>struct file *\<close> is an index into the table. A call that has to sleep is \<open>Blocked\<close>; only a write
  to a pipe returns what is left to write.
\<close>

datatype filetype = FD_NONE | FD_PIPE | FD_INODE

record kfile =
  f_type :: filetype
  f_ref :: int
  f_readable :: bool
  f_writable :: bool
  f_pipe :: u32
  f_ip :: nat
  f_off :: u32

record kfs =
  kf_fs :: fsst
  kf_km :: kmem
  kf_end :: u32
  kf_pipes :: "u32 \<Rightarrow> pipe"
  ft_lock :: bool
  ftable :: "kfile list"
  kf_proc :: proc
  kf_um :: mem

abbreviation fl :: "kfs \<Rightarrow> nat \<Rightarrow> kfile" where
  "fl s f \<equiv> ftable s ! f"

definition upd_file :: "nat \<Rightarrow> (kfile \<Rightarrow> kfile) \<Rightarrow> kfs \<Rightarrow> kfs" where
  "upd_file f g s = s\<lparr>ftable := (ftable s)[f := g (ftable s ! f)]\<rparr>"

definition ft_acquire :: "kfs \<Rightarrow> kfs res" where
  "ft_acquire s = rbind (lk_acquire (ft_lock s)) (\<lambda>l. Ok (s\<lparr>ft_lock := l\<rparr>))"

definition ft_release :: "kfs \<Rightarrow> kfs res" where
  "ft_release s = rbind (lk_release (ft_lock s)) (\<lambda>l. Ok (s\<lparr>ft_lock := l\<rparr>))"

text \<open>The calls into the components, on this state.\<close>

definition on_fs :: "(fsst \<Rightarrow> fsst res) \<Rightarrow> kfs \<Rightarrow> kfs res" where
  "on_fs g s = rbind (g (kf_fs s)) (\<lambda>x. Ok (s\<lparr>kf_fs := x\<rparr>))"

definition wake_chans :: "wchan list \<Rightarrow> kfs \<Rightarrow> kfs" where
  "wake_chans w s = s\<lparr>kf_fs := (kf_fs s)\<lparr>fs_b := (fs_b (kf_fs s))\<lparr>woken := woken (fs_b (kf_fs s)) @ w\<rparr>\<rparr>\<rparr>"

definition kf_begin_op :: "kfs \<Rightarrow> kfs res" where
  "kf_begin_op s = on_fs (\<lambda>x. rbind (begin_op (fs_log x) (fs_b x)) (\<lambda>(lg, b). Ok (x\<lparr>fs_log := lg, fs_b := b\<rparr>))) s"

definition kf_end_op :: "kfs \<Rightarrow> kfs res" where
  "kf_end_op s = on_fs (\<lambda>x. rbind (end_op (fs_log x) (fs_b x)) (\<lambda>(lg, b). Ok (x\<lparr>fs_log := lg, fs_b := b\<rparr>))) s"

definition kf_kfree :: "u32 \<Rightarrow> kfs \<Rightarrow> kfs res" where
  "kf_kfree p s = rbind (kfree (kf_end s) p (kf_km s)) (\<lambda>k. Ok (s\<lparr>kf_km := k\<rparr>))"

definition kf_kalloc :: "kfs \<Rightarrow> (u32 \<times> kfs) res" where
  "kf_kalloc s = rbind (kalloc (kf_km s)) (\<lambda>(p, k). Ok (p, s\<lparr>kf_km := k\<rparr>))"

subsection \<open>The table\<close>

definition fileinit :: "kfs \<Rightarrow> kfs" where
  "fileinit s = s\<lparr>ft_lock := False\<rparr>"

definition filealloc :: "kfs \<Rightarrow> (nat option \<times> kfs) res" where
  "filealloc s =
     rbind (ft_acquire s) (\<lambda>s.
     case find (\<lambda>f. f_ref (fl s f) = 0) [0..<NFILE] of
       Some f \<Rightarrow> rbind (ft_release (upd_file f (\<lambda>x. x\<lparr>f_ref := 1\<rparr>) s)) (\<lambda>s. Ok (Some f, s))
     | None \<Rightarrow> rbind (ft_release s) (\<lambda>s. Ok (None, s)))"

definition filedup :: "nat \<Rightarrow> kfs \<Rightarrow> (nat \<times> kfs) res" where
  "filedup f s =
     rbind (ft_acquire s) (\<lambda>s.
     if f_ref (fl s f) < 1 then Panic ''filedup''
     else rbind (ft_release (upd_file f (\<lambda>x. x\<lparr>f_ref := f_ref x + 1\<rparr>) s)) (\<lambda>s. Ok (f, s)))"

text \<open>\<^verbatim>\<open>pipeclose\<close> on the page of a pipe, which it frees when both ends are closed.\<close>

definition kf_pipeclose :: "u32 \<Rightarrow> bool \<Rightarrow> kfs \<Rightarrow> kfs res" where
  "kf_pipeclose p wr s =
     rbind (pipeclose (unat p) wr (kf_pipes s p)) (\<lambda>(gone, q, w).
     let s = wake_chans w (s\<lparr>kf_pipes := (kf_pipes s)(p := q)\<rparr>) in
     if gone then kf_kfree p s else Ok s)"

definition fileclose :: "nat \<Rightarrow> kfs \<Rightarrow> kfs res" where
  "fileclose f s =
     rbind (ft_acquire s) (\<lambda>s.
     if f_ref (fl s f) < 1 then Panic ''fileclose''
     else
       let s = upd_file f (\<lambda>x. x\<lparr>f_ref := f_ref x - 1\<rparr>) s in
       if f_ref (fl s f) > 0 then ft_release s
       else
         let ff = fl s f; s = upd_file f (\<lambda>x. x\<lparr>f_ref := 0, f_type := FD_NONE\<rparr>) s in
         rbind (ft_release s) (\<lambda>s.
         case f_type ff of
           FD_PIPE \<Rightarrow> kf_pipeclose (f_pipe ff) (f_writable ff) s
         | FD_INODE \<Rightarrow>
             rbind (kf_begin_op s) (\<lambda>s.
             rbind (on_fs (iput (f_ip ff)) s) (\<lambda>s.
             kf_end_op s))
         | FD_NONE \<Rightarrow> Ok s))"

definition filestat :: "nat \<Rightarrow> kfs \<Rightarrow> (int \<times> stat option \<times> kfs) res" where
  "filestat f s =
     (if f_type (fl s f) = FD_INODE then
        rbind (on_fs (ilock (Some (f_ip (fl s f)))) s) (\<lambda>s.
        let st = stati (f_ip (fl s f)) (kf_fs s) in
        rbind (on_fs (iunlock (Some (f_ip (fl s f)))) s) (\<lambda>s. Ok (0, Some st, s)))
      else Ok (- 1, None, s))"

definition fileread :: "(nat \<Rightarrow> devsw_ops) \<Rightarrow> nat \<Rightarrow> int \<Rightarrow> kfs \<Rightarrow> (int \<times> u8 list \<times> kfs) res" where
  "fileread devsw f n s =
     (if \<not> f_readable (fl s f) then Ok (- 1, [], s)
      else case f_type (fl s f) of
        FD_PIPE \<Rightarrow>
          rbind (piperead (unat (f_pipe (fl s f))) (p_killed (kf_proc s)) n (kf_pipes s (f_pipe (fl s f)))) (\<lambda>(r, bs, q, w).
          Ok (r, bs, wake_chans w (s\<lparr>kf_pipes := (kf_pipes s)(f_pipe (fl s f) := q)\<rparr>)))
      | FD_INODE \<Rightarrow>
          rbind (on_fs (ilock (Some (f_ip (fl s f)))) s) (\<lambda>s.
          rbind (readi devsw (f_ip (fl s f)) (f_off (fl s f)) (of_int n) (kf_fs s)) (\<lambda>(r, bs, x).
          let s = s\<lparr>kf_fs := x\<rparr>; s = (if r > 0 then upd_file f (\<lambda>y. y\<lparr>f_off := f_off y + of_int r\<rparr>) s else s) in
          rbind (on_fs (iunlock (Some (f_ip (fl s f)))) s) (\<lambda>s. Ok (r, bs, s))))
      | FD_NONE \<Rightarrow> Panic ''fileread'')"

text \<open>The most that \<^verbatim>\<open>filewrite\<close> writes in one transaction, and one such write.\<close>

definition filewrite_max :: int where
  "filewrite_max = int ((MAXOPBLOCKS - 1 - 1 - 2) div 2 * 512)"

definition filewrite_one :: "(nat \<Rightarrow> devsw_ops) \<Rightarrow> nat \<Rightarrow> u8 list \<Rightarrow> int \<Rightarrow> kfs \<Rightarrow> (int \<times> kfs) res" where
  "filewrite_one devsw f bs n1 s =
     rbind (kf_begin_op s) (\<lambda>s.
     rbind (on_fs (ilock (Some (f_ip (fl s f)))) s) (\<lambda>s.
     rbind (writei devsw (f_ip (fl s f)) bs (f_off (fl s f)) (of_int n1) (kf_fs s)) (\<lambda>(r, x).
     let s = s\<lparr>kf_fs := x\<rparr>; s = (if r > 0 then upd_file f (\<lambda>y. y\<lparr>f_off := f_off y + of_int r\<rparr>) s else s) in
     rbind (on_fs (iunlock (Some (f_ip (fl s f)))) s) (\<lambda>s.
     rbind (kf_end_op s) (\<lambda>s. Ok (r, s))))))"

lemma filewrite_max_pos: "filewrite_max > 0"
  by (simp add: filewrite_max_def MAXOPBLOCKS_def)

function filewrite_loop :: "(nat \<Rightarrow> devsw_ops) \<Rightarrow> nat \<Rightarrow> u8 list \<Rightarrow> int \<Rightarrow> int \<Rightarrow> kfs \<Rightarrow> (int \<times> kfs) res" where
  "filewrite_loop devsw f bs i n s =
     (if i < n then
        let n1 = min (n - i) filewrite_max in
        rbind (filewrite_one devsw f (drop (nat i) bs) n1 s) (\<lambda>(r, s).
        if r < 0 then Ok (i, s)
        else if r \<noteq> n1 then Panic ''short filewrite''
        else filewrite_loop devsw f bs (i + n1) n s)
      else Ok (i, s))"
  by pat_completeness auto
termination
  by (relation "measure (\<lambda>(devsw, f, bs, i, n, s). nat (n - i))") (use filewrite_max_pos in auto)

definition filewrite :: "(nat \<Rightarrow> devsw_ops) \<Rightarrow> nat \<Rightarrow> u8 list \<Rightarrow> int \<Rightarrow> kfs \<Rightarrow> (wres \<times> kfs) res" where
  "filewrite devsw f bs n s =
     (if \<not> f_writable (fl s f) then Ok (Wrote (- 1), s)
      else case f_type (fl s f) of
        FD_PIPE \<Rightarrow>
          rbind (pipewrite (unat (f_pipe (fl s f))) (p_killed (kf_proc s)) n (take (nat n) bs) (kf_pipes s (f_pipe (fl s f)))) (\<lambda>(r, q, w).
          Ok (r, wake_chans w (s\<lparr>kf_pipes := (kf_pipes s)(f_pipe (fl s f) := q)\<rparr>)))
      | FD_INODE \<Rightarrow>
          rbind (filewrite_loop devsw f bs 0 n s) (\<lambda>(i, s). Ok (Wrote (if i = n then n else - 1), s))
      | FD_NONE \<Rightarrow> Panic ''filewrite'')"

declare filewrite_loop.simps [simp del]

subsection \<open>Making a pipe\<close>

definition pipealloc_bad :: "u32 \<Rightarrow> nat option \<Rightarrow> nat option \<Rightarrow> kfs \<Rightarrow> ((nat \<times> nat) option \<times> kfs) res" where
  "pipealloc_bad p f0 f1 s =
     rbind (if p \<noteq> 0 then kf_kfree p s else Ok s) (\<lambda>s.
     rbind (case f0 of Some f \<Rightarrow> fileclose f s | None \<Rightarrow> Ok s) (\<lambda>s.
     rbind (case f1 of Some f \<Rightarrow> fileclose f s | None \<Rightarrow> Ok s) (\<lambda>s.
     Ok (None, s))))"

definition pipealloc :: "kfs \<Rightarrow> ((nat \<times> nat) option \<times> kfs) res" where
  "pipealloc s =
     rbind (filealloc s) (\<lambda>(f0, s).
     case f0 of None \<Rightarrow> pipealloc_bad 0 None None s | Some r \<Rightarrow>
     rbind (filealloc s) (\<lambda>(f1, s).
     case f1 of None \<Rightarrow> pipealloc_bad 0 (Some r) None s | Some w \<Rightarrow>
     rbind (kf_kalloc s) (\<lambda>(p, s).
     if p = 0 then pipealloc_bad p (Some r) (Some w) s
     else
       let s = s\<lparr>kf_pipes := (kf_pipes s)(p := (kf_pipes s p)\<lparr>pi_readopen := True, pi_writeopen := True, pi_nwrite := 0,
                 pi_nread := 0, pi_lock := False\<rparr>)\<rparr>;
           s = upd_file r (\<lambda>x. x\<lparr>f_type := FD_PIPE, f_readable := True, f_writable := False, f_pipe := p\<rparr>) s;
           s = upd_file w (\<lambda>x. x\<lparr>f_type := FD_PIPE, f_readable := False, f_writable := True, f_pipe := p\<rparr>) s in
       Ok (Some (r, w), s))))"

end
