(* ===== verification/Sysfile.thy ===== *)
theory Sysfile
  imports File Syscall
begin

section \<open>File system calls (\<^verbatim>\<open>sysfile.c\<close>)\<close>

text \<open>
  Every routine takes its arguments from the stack of the calling process \<open>kf_proc\<close>, works on the
  state of theory \<open>File\<close> and returns the result for the user. Bytes that the code stores through a
  user pointer are stored in \<open>kf_um\<close>. A local \<^verbatim>\<open>char name[DIRSIZ]\<close> starts as zeros. \<^verbatim>\<open>sys_exec\<close> is in
  theory \<open>Exec\<close>.
\<close>

unbundle bit_operations_syntax

definition O_RDONLY :: int where "O_RDONLY = 0"
definition O_WRONLY :: u32 where "O_WRONLY = 1"
definition O_RDWR :: u32 where "O_RDWR = 2"
definition O_CREATE :: u32 where "O_CREATE = 0x200"

abbreviation arg_int :: "kfs \<Rightarrow> int \<Rightarrow> int option" where
  "arg_int s n \<equiv> argint (kf_proc s) (kf_um s) n"

abbreviation arg_ptr :: "kfs \<Rightarrow> int \<Rightarrow> int \<Rightarrow> u32 option" where
  "arg_ptr s n nb \<equiv> argptr (kf_proc s) (kf_um s) n nb"

definition arg_path :: "kfs \<Rightarrow> int \<Rightarrow> u8 list option" where
  "arg_path s n = map_option (\<lambda>(a, len). bytes_at (kf_um s) a len) (argstr (kf_proc s) (kf_um s) n)"

definition store16 :: "u32 \<Rightarrow> u16 \<Rightarrow> mem \<Rightarrow> mem" where
  "store16 a w m = m(a := ucast w, a + 1 := ucast (drop_bit 8 w))"

subsection \<open>File descriptors\<close>

definition argfd :: "int \<Rightarrow> kfs \<Rightarrow> (nat \<times> nat) option" where
  "argfd n s =
     (case arg_int s n of
        None \<Rightarrow> None
      | Some fd \<Rightarrow>
          if fd < 0 \<or> fd \<ge> int NOFILE then None
          else case p_ofile (kf_proc s) ! nat fd of None \<Rightarrow> None | Some f \<Rightarrow> Some (nat fd, f))"

definition set_fd :: "nat \<Rightarrow> nat option \<Rightarrow> kfs \<Rightarrow> kfs" where
  "set_fd fd v s = s\<lparr>kf_proc := (kf_proc s)\<lparr>p_ofile := (p_ofile (kf_proc s))[fd := v]\<rparr>\<rparr>"

definition fdalloc :: "nat \<Rightarrow> kfs \<Rightarrow> nat option \<times> kfs" where
  "fdalloc f s =
     (case find (\<lambda>fd. p_ofile (kf_proc s) ! fd = None) [0..<NOFILE] of
        Some fd \<Rightarrow> (Some fd, set_fd fd (Some f) s)
      | None \<Rightarrow> (None, s))"

definition sys_dup :: "kfs \<Rightarrow> (int \<times> kfs) res" where
  "sys_dup s =
     (case argfd 0 s of
        None \<Rightarrow> Ok (- 1, s)
      | Some (_, f) \<Rightarrow>
          case fdalloc f s of
            (None, s) \<Rightarrow> Ok (- 1, s)
          | (Some fd, s) \<Rightarrow> rbind (filedup f s) (\<lambda>(_, s). Ok (int fd, s)))"

definition sys_read :: "(nat \<Rightarrow> devsw_ops) \<Rightarrow> kfs \<Rightarrow> (int \<times> kfs) res" where
  "sys_read devsw s =
     (case argfd 0 s of None \<Rightarrow> Ok (- 1, s) | Some (_, f) \<Rightarrow>
      case arg_int s 2 of None \<Rightarrow> Ok (- 1, s) | Some n \<Rightarrow>
      case arg_ptr s 1 n of None \<Rightarrow> Ok (- 1, s) | Some p \<Rightarrow>
      rbind (fileread devsw f n s) (\<lambda>(r, bs, s). Ok (r, s\<lparr>kf_um := store_bytes p bs (kf_um s)\<rparr>)))"

definition sys_write :: "(nat \<Rightarrow> devsw_ops) \<Rightarrow> kfs \<Rightarrow> (wres \<times> kfs) res" where
  "sys_write devsw s =
     (case argfd 0 s of None \<Rightarrow> Ok (Wrote (- 1), s) | Some (_, f) \<Rightarrow>
      case arg_int s 2 of None \<Rightarrow> Ok (Wrote (- 1), s) | Some n \<Rightarrow>
      case arg_ptr s 1 n of None \<Rightarrow> Ok (Wrote (- 1), s) | Some p \<Rightarrow>
      filewrite devsw f (bytes_at (kf_um s) p (nat n)) n s)"

definition sys_close :: "kfs \<Rightarrow> (int \<times> kfs) res" where
  "sys_close s =
     (case argfd 0 s of
        None \<Rightarrow> Ok (- 1, s)
      | Some (fd, f) \<Rightarrow> rbind (fileclose f (set_fd fd None s)) (\<lambda>s. Ok (0, s)))"

definition store_stat :: "u32 \<Rightarrow> stat \<Rightarrow> mem \<Rightarrow> mem" where
  "store_stat a st m =
     store32 (a + 16) (st_size st) (store16 (a + 12) (st_nlink st) (store16 a (st_type st)
       (store32 (a + 8) (st_ino st) (store32 (a + 4) (st_dev st) m))))"

definition sys_fstat :: "kfs \<Rightarrow> (int \<times> kfs) res" where
  "sys_fstat s =
     (case argfd 0 s of None \<Rightarrow> Ok (- 1, s) | Some (_, f) \<Rightarrow>
      case arg_ptr s 1 20 of None \<Rightarrow> Ok (- 1, s) | Some a \<Rightarrow>
      rbind (filestat f s) (\<lambda>(r, st, s).
      Ok (r, case st of None \<Rightarrow> s | Some st \<Rightarrow> s\<lparr>kf_um := store_stat a st (kf_um s)\<rparr>)))"

subsection \<open>Links\<close>

text \<open>The directory a relative path starts from; following a null pointer is a fault.\<close>

definition start_dir :: "u8 list \<Rightarrow> kfs \<Rightarrow> nat res" where
  "start_dir path s =
     (case p_cwd (kf_proc s) of
        Some d \<Rightarrow> Ok d
      | None \<Rightarrow> if path \<noteq> [] \<and> hd path = slash then Ok 0 else Fault)"

definition kf_namei :: "(nat \<Rightarrow> devsw_ops) \<Rightarrow> u8 list \<Rightarrow> kfs \<Rightarrow> (nat option \<times> kfs) res" where
  "kf_namei devsw path s =
     rbind (start_dir path s) (\<lambda>d.
     rbind (namei devsw d path (kf_fs s)) (\<lambda>(ip, x). Ok (ip, s\<lparr>kf_fs := x\<rparr>)))"

definition kf_nameiparent :: "(nat \<Rightarrow> devsw_ops) \<Rightarrow> u8 list \<Rightarrow> kfs \<Rightarrow> (nat option \<times> u8 list \<times> kfs) res" where
  "kf_nameiparent devsw path s =
     rbind (start_dir path s) (\<lambda>d.
     rbind (nameiparent devsw d path (replicate DIRSIZ 0) (kf_fs s)) (\<lambda>(ip, name, x). Ok (ip, name, s\<lparr>kf_fs := x\<rparr>)))"

definition kf_ino :: "kfs \<Rightarrow> nat \<Rightarrow> inode" where
  "kf_ino s ip = ino (kf_fs s) ip"

definition kf_upd_ino :: "nat \<Rightarrow> (inode \<Rightarrow> inode) \<Rightarrow> kfs \<Rightarrow> kfs" where
  "kf_upd_ino ip g s = s\<lparr>kf_fs := upd_ino ip g (kf_fs s)\<rparr>"

text \<open>Ending the transaction and returning -1, the common failure exit.\<close>

definition fail_op :: "kfs \<Rightarrow> (int \<times> kfs) res" where
  "fail_op s = rbind (kf_end_op s) (\<lambda>s. Ok (- 1, s))"

definition link_bad :: "nat \<Rightarrow> kfs \<Rightarrow> (int \<times> kfs) res" where
  "link_bad ip s =
     rbind (on_fs (ilock (Some ip)) s) (\<lambda>s.
     let s = kf_upd_ino ip (\<lambda>x. x\<lparr>i_nlink := i_nlink x - 1\<rparr>) s in
     rbind (on_fs (iupdate ip) s) (\<lambda>s.
     rbind (on_fs (iunlockput ip) s) fail_op))"

definition kf_dirlink :: "(nat \<Rightarrow> devsw_ops) \<Rightarrow> nat \<Rightarrow> u8 list \<Rightarrow> u32 \<Rightarrow> kfs \<Rightarrow> (int \<times> kfs) res" where
  "kf_dirlink devsw dp name inum s = rbind (dirlink devsw dp name inum (kf_fs s)) (\<lambda>(r, x). Ok (r, s\<lparr>kf_fs := x\<rparr>))"

definition kf_dirlookup :: "(nat \<Rightarrow> devsw_ops) \<Rightarrow> nat \<Rightarrow> u8 list \<Rightarrow> kfs \<Rightarrow> ((nat \<times> nat) option \<times> kfs) res" where
  "kf_dirlookup devsw dp name s = rbind (dirlookup devsw dp name (kf_fs s)) (\<lambda>(r, x). Ok (r, s\<lparr>kf_fs := x\<rparr>))"

definition sys_link :: "(nat \<Rightarrow> devsw_ops) \<Rightarrow> kfs \<Rightarrow> (int \<times> kfs) res" where
  "sys_link devsw s =
     (case arg_path s 0 of None \<Rightarrow> Ok (- 1, s) | Some old \<Rightarrow>
      case arg_path s 1 of None \<Rightarrow> Ok (- 1, s) | Some new \<Rightarrow>
      rbind (kf_begin_op s) (\<lambda>s.
      rbind (kf_namei devsw old s) (\<lambda>(ip, s).
      case ip of None \<Rightarrow> fail_op s | Some ip \<Rightarrow>
      rbind (on_fs (ilock (Some ip)) s) (\<lambda>s.
      if i_type (kf_ino s ip) = T_DIR then rbind (on_fs (iunlockput ip) s) fail_op
      else
        let s = kf_upd_ino ip (\<lambda>x. x\<lparr>i_nlink := i_nlink x + 1\<rparr>) s in
        rbind (on_fs (iupdate ip) s) (\<lambda>s.
        rbind (on_fs (iunlock (Some ip)) s) (\<lambda>s.
        rbind (kf_nameiparent devsw new s) (\<lambda>(dp, name, s).
        case dp of None \<Rightarrow> link_bad ip s | Some dp \<Rightarrow>
        rbind (on_fs (ilock (Some dp)) s) (\<lambda>s.
        rbind (if i_dev (kf_ino s dp) \<noteq> i_dev (kf_ino s ip) then Ok (- 1, s)
               else kf_dirlink devsw dp name (i_inum (kf_ino s ip)) s) (\<lambda>(r, s).
        if r < 0 then rbind (on_fs (iunlockput dp) s) (link_bad ip)
        else
          rbind (on_fs (iunlockput dp) s) (\<lambda>s.
          rbind (on_fs (iput ip) s) (\<lambda>s.
          rbind (kf_end_op s) (\<lambda>s. Ok (0, s)))))))))))))"

fun isdirempty_loop :: "(nat \<Rightarrow> devsw_ops) \<Rightarrow> nat list \<Rightarrow> nat \<Rightarrow> fsst \<Rightarrow> (bool \<times> fsst) res" where
  "isdirempty_loop devsw [] dp s = Ok (True, s)"
| "isdirempty_loop devsw (off # offs) dp s =
     rbind (readi devsw dp (of_nat off) (of_nat DIRENT_SIZE) s) (\<lambda>(r, de, s).
     if r \<noteq> int DIRENT_SIZE then Panic ''isdirempty: readi''
     else if de_inum de \<noteq> 0 then Ok (False, s)
     else isdirempty_loop devsw offs dp s)"

definition isdirempty :: "(nat \<Rightarrow> devsw_ops) \<Rightarrow> nat \<Rightarrow> kfs \<Rightarrow> (bool \<times> kfs) res" where
  "isdirempty devsw dp s =
     rbind (isdirempty_loop devsw (drop 2 (dir_offsets (unat (i_size (kf_ino s dp))))) dp (kf_fs s)) (\<lambda>(r, x).
     Ok (r, s\<lparr>kf_fs := x\<rparr>))"

definition kf_writei :: "(nat \<Rightarrow> devsw_ops) \<Rightarrow> nat \<Rightarrow> u8 list \<Rightarrow> u32 \<Rightarrow> u32 \<Rightarrow> kfs \<Rightarrow> (int \<times> kfs) res" where
  "kf_writei devsw ip src off n s = rbind (writei devsw ip src off n (kf_fs s)) (\<lambda>(r, x). Ok (r, s\<lparr>kf_fs := x\<rparr>))"

text \<open>The part of \<^verbatim>\<open>sys_unlink\<close> after both inodes are locked and checked.\<close>

definition unlink_entry :: "(nat \<Rightarrow> devsw_ops) \<Rightarrow> nat \<Rightarrow> nat \<Rightarrow> nat \<Rightarrow> kfs \<Rightarrow> (int \<times> kfs) res" where
  "unlink_entry devsw dp ip off s =
     rbind (kf_writei devsw dp (replicate DIRENT_SIZE 0) (of_nat off) (of_nat DIRENT_SIZE) s) (\<lambda>(r, s).
     if r \<noteq> int DIRENT_SIZE then Panic ''unlink: writei''
     else
       rbind (if i_type (kf_ino s ip) = T_DIR
              then on_fs (iupdate dp) (kf_upd_ino dp (\<lambda>x. x\<lparr>i_nlink := i_nlink x - 1\<rparr>) s) else Ok s) (\<lambda>s.
       rbind (on_fs (iunlockput dp) s) (\<lambda>s.
       rbind (on_fs (iupdate ip) (kf_upd_ino ip (\<lambda>x. x\<lparr>i_nlink := i_nlink x - 1\<rparr>) s)) (\<lambda>s.
       rbind (on_fs (iunlockput ip) s) (\<lambda>s.
       rbind (kf_end_op s) (\<lambda>s. Ok (0, s)))))))"

definition sys_unlink :: "(nat \<Rightarrow> devsw_ops) \<Rightarrow> kfs \<Rightarrow> (int \<times> kfs) res" where
  "sys_unlink devsw s =
     (case arg_path s 0 of None \<Rightarrow> Ok (- 1, s) | Some path \<Rightarrow>
      rbind (kf_begin_op s) (\<lambda>s.
      rbind (kf_nameiparent devsw path s) (\<lambda>(dp, name, s).
      case dp of None \<Rightarrow> fail_op s | Some dp \<Rightarrow>
      rbind (on_fs (ilock (Some dp)) s) (\<lambda>s.
      if namecmp name [46] = 0 \<or> namecmp name [46, 46] = 0 then rbind (on_fs (iunlockput dp) s) fail_op
      else
        rbind (kf_dirlookup devsw dp name s) (\<lambda>(r, s).
        case r of None \<Rightarrow> rbind (on_fs (iunlockput dp) s) fail_op | Some (ip, off) \<Rightarrow>
        rbind (on_fs (ilock (Some ip)) s) (\<lambda>s.
        if sint (i_nlink (kf_ino s ip)) < 1 then Panic ''unlink: nlink < 1''
        else
          rbind (if i_type (kf_ino s ip) = T_DIR then isdirempty devsw ip s else Ok (True, s)) (\<lambda>(empty, s).
          if \<not> empty then
            rbind (on_fs (iunlockput ip) s) (\<lambda>s. rbind (on_fs (iunlockput dp) s) fail_op)
          else unlink_entry devsw dp ip off s)))))))"

subsection \<open>Creating and opening\<close>

definition create :: "(nat \<Rightarrow> devsw_ops) \<Rightarrow> u8 list \<Rightarrow> u16 \<Rightarrow> u16 \<Rightarrow> u16 \<Rightarrow> kfs \<Rightarrow> (nat option \<times> kfs) res" where
  "create devsw path ty major minor s =
     rbind (kf_nameiparent devsw path s) (\<lambda>(dp, name, s).
     case dp of None \<Rightarrow> Ok (None, s) | Some dp \<Rightarrow>
     rbind (on_fs (ilock (Some dp)) s) (\<lambda>s.
     rbind (kf_dirlookup devsw dp name s) (\<lambda>(r, s).
     case r of
       Some (ip, _) \<Rightarrow>
         rbind (on_fs (iunlockput dp) s) (\<lambda>s.
         rbind (on_fs (ilock (Some ip)) s) (\<lambda>s.
         if ty = T_FILE \<and> i_type (kf_ino s ip) = T_FILE then Ok (Some ip, s)
         else rbind (on_fs (iunlockput ip) s) (\<lambda>s. Ok (None, s))))
     | None \<Rightarrow>
         rbind (ialloc (i_dev (kf_ino s dp)) ty (kf_fs s)) (\<lambda>(ip, x).
         let s = s\<lparr>kf_fs := x\<rparr> in
         rbind (on_fs (ilock (Some ip)) s) (\<lambda>s.
         let s = kf_upd_ino ip (\<lambda>x. x\<lparr>i_major := major, i_minor := minor, i_nlink := 1\<rparr>) s in
         rbind (on_fs (iupdate ip) s) (\<lambda>s.
         rbind (if ty = T_DIR then
                  let s = kf_upd_ino dp (\<lambda>x. x\<lparr>i_nlink := i_nlink x + 1\<rparr>) s in
                  rbind (on_fs (iupdate dp) s) (\<lambda>s.
                  rbind (kf_dirlink devsw ip [46] (i_inum (kf_ino s ip)) s) (\<lambda>(r, s).
                  if r < 0 then Panic ''create dots''
                  else
                    rbind (kf_dirlink devsw ip [46, 46] (i_inum (kf_ino s dp)) s) (\<lambda>(r, s).
                    if r < 0 then Panic ''create dots'' else Ok s)))
                else Ok s) (\<lambda>s.
         rbind (kf_dirlink devsw dp name (i_inum (kf_ino s ip)) s) (\<lambda>(r, s).
         if r < 0 then Panic ''create: dirlink''
         else rbind (on_fs (iunlockput dp) s) (\<lambda>s. Ok (Some ip, s))))))))))"

text \<open>The two ways in which \<^verbatim>\<open>sys_open\<close> gets its locked inode; \<open>None\<close> when it has none.\<close>

definition open_inode :: "(nat \<Rightarrow> devsw_ops) \<Rightarrow> u8 list \<Rightarrow> int \<Rightarrow> kfs \<Rightarrow> (nat option \<times> kfs) res" where
  "open_inode devsw path omode s =
     (if of_int omode AND O_CREATE \<noteq> 0 then create devsw path T_FILE 0 0 s
      else
        rbind (kf_namei devsw path s) (\<lambda>(ip, s).
        case ip of None \<Rightarrow> Ok (None, s) | Some ip \<Rightarrow>
        rbind (on_fs (ilock (Some ip)) s) (\<lambda>s.
        if i_type (kf_ino s ip) = T_DIR \<and> omode \<noteq> O_RDONLY then rbind (on_fs (iunlockput ip) s) (\<lambda>s. Ok (None, s))
        else Ok (Some ip, s))))"

definition sys_open :: "(nat \<Rightarrow> devsw_ops) \<Rightarrow> kfs \<Rightarrow> (int \<times> kfs) res" where
  "sys_open devsw s =
     (case arg_path s 0 of None \<Rightarrow> Ok (- 1, s) | Some path \<Rightarrow>
      case arg_int s 1 of None \<Rightarrow> Ok (- 1, s) | Some omode \<Rightarrow>
      rbind (kf_begin_op s) (\<lambda>s.
      rbind (open_inode devsw path omode s) (\<lambda>(ip, s).
      case ip of None \<Rightarrow> fail_op s | Some ip \<Rightarrow>
      rbind (filealloc s) (\<lambda>(f, s).
      case f of
        None \<Rightarrow> rbind (on_fs (iunlockput ip) s) fail_op
      | Some f \<Rightarrow>
          case fdalloc f s of
            (None, s) \<Rightarrow> rbind (fileclose f s) (\<lambda>s. rbind (on_fs (iunlockput ip) s) fail_op)
          | (Some fd, s) \<Rightarrow>
              rbind (on_fs (iunlock (Some ip)) s) (\<lambda>s.
              rbind (kf_end_op s) (\<lambda>s.
              let s = upd_file f (\<lambda>x. x\<lparr>f_type := FD_INODE, f_ip := ip, f_off := 0,
                        f_readable := (of_int omode AND O_WRONLY = 0),
                        f_writable := (of_int omode AND O_WRONLY \<noteq> 0 \<or> of_int omode AND O_RDWR \<noteq> 0)\<rparr>) s in
              Ok (int fd, s)))))))"

definition create_only :: "(nat \<Rightarrow> devsw_ops) \<Rightarrow> u8 list \<Rightarrow> u16 \<Rightarrow> u16 \<Rightarrow> u16 \<Rightarrow> kfs \<Rightarrow> (int \<times> kfs) res" where
  "create_only devsw path ty major minor s =
     rbind (create devsw path ty major minor s) (\<lambda>(ip, s).
     case ip of None \<Rightarrow> fail_op s | Some ip \<Rightarrow>
     rbind (on_fs (iunlockput ip) s) (\<lambda>s.
     rbind (kf_end_op s) (\<lambda>s. Ok (0, s))))"

definition sys_mkdir :: "(nat \<Rightarrow> devsw_ops) \<Rightarrow> kfs \<Rightarrow> (int \<times> kfs) res" where
  "sys_mkdir devsw s =
     rbind (kf_begin_op s) (\<lambda>s.
     case arg_path s 0 of None \<Rightarrow> fail_op s | Some path \<Rightarrow> create_only devsw path T_DIR 0 0 s)"

definition sys_mknod :: "(nat \<Rightarrow> devsw_ops) \<Rightarrow> kfs \<Rightarrow> (int \<times> kfs) res" where
  "sys_mknod devsw s =
     rbind (kf_begin_op s) (\<lambda>s.
     case arg_path s 0 of None \<Rightarrow> fail_op s | Some path \<Rightarrow>
     case arg_int s 1 of None \<Rightarrow> fail_op s | Some major \<Rightarrow>
     case arg_int s 2 of None \<Rightarrow> fail_op s | Some minor \<Rightarrow>
     create_only devsw path T_DEV (of_int major) (of_int minor) s)"

definition sys_chdir :: "(nat \<Rightarrow> devsw_ops) \<Rightarrow> kfs \<Rightarrow> (int \<times> kfs) res" where
  "sys_chdir devsw s =
     rbind (kf_begin_op s) (\<lambda>s.
     case arg_path s 0 of None \<Rightarrow> fail_op s | Some path \<Rightarrow>
     rbind (kf_namei devsw path s) (\<lambda>(ip, s).
     case ip of None \<Rightarrow> fail_op s | Some ip \<Rightarrow>
     rbind (on_fs (ilock (Some ip)) s) (\<lambda>s.
     if i_type (kf_ino s ip) \<noteq> T_DIR then rbind (on_fs (iunlockput ip) s) fail_op
     else
       rbind (on_fs (iunlock (Some ip)) s) (\<lambda>s.
       case p_cwd (kf_proc s) of None \<Rightarrow> Fault | Some cwd \<Rightarrow>
       rbind (on_fs (iput cwd) s) (\<lambda>s.
       rbind (kf_end_op s) (\<lambda>s.
       Ok (0, s\<lparr>kf_proc := (kf_proc s)\<lparr>p_cwd := Some ip\<rparr>\<rparr>)))))))"

definition sys_pipe :: "kfs \<Rightarrow> (int \<times> kfs) res" where
  "sys_pipe s =
     (case arg_ptr s 0 8 of None \<Rightarrow> Ok (- 1, s) | Some fd \<Rightarrow>
      rbind (pipealloc s) (\<lambda>(r, s).
      case r of None \<Rightarrow> Ok (- 1, s) | Some (rfl, wfl) \<Rightarrow>
      case fdalloc rfl s of
        (None, s) \<Rightarrow> rbind (fileclose rfl s) (\<lambda>s. rbind (fileclose wfl s) (\<lambda>s. Ok (- 1, s)))
      | (Some fd0, s) \<Rightarrow>
          case fdalloc wfl s of
            (None, s) \<Rightarrow>
              let s = set_fd fd0 None s in
              rbind (fileclose rfl s) (\<lambda>s. rbind (fileclose wfl s) (\<lambda>s. Ok (- 1, s)))
          | (Some fd1, s) \<Rightarrow>
              Ok (0, s\<lparr>kf_um := store32 (fd + 4) (of_nat fd1) (store32 fd (of_nat fd0) (kf_um s))\<rparr>)))"

end
