(* ===== verification/SysfileProps.thy ===== *)
theory SysfileProps
  imports Sysfile FsBlocks
begin

section \<open>Reference counts of open files\<close>

text \<open>
  The count of a file in the table is the number of descriptors that refer to it, over all
  processes. The calls that make and drop descriptors keep the count exact: of the calling
  process they are counted in \<^verbatim>\<open>ofile\<close>, of the others by \<open>others\<close>.
\<close>

definition fd_count :: "kfs \<Rightarrow> nat \<Rightarrow> int" where
  "fd_count s f = int (count_list (p_ofile (kf_proc s)) (Some f))"

definition refs_ok :: "(nat \<Rightarrow> int) \<Rightarrow> kfs \<Rightarrow> bool" where
  "refs_ok others s \<longleftrightarrow> length (p_ofile (kf_proc s)) = NOFILE \<and> length (ftable s) = NFILE
     \<and> (\<forall>f. Some f \<in> set (p_ofile (kf_proc s)) \<longrightarrow> f < NFILE)
     \<and> (\<forall>f<NFILE. f_ref (fl s f) = fd_count s f + others f)"

lemma count_list_upd:
  "i < length xs \<Longrightarrow> int (count_list (xs[i := v]) y) = int (count_list xs y) - (if xs ! i = y then 1 else 0) + (if v = y then 1 else 0)"
proof (induction xs arbitrary: i)
  case (Cons x xs)
  show ?case
  proof (cases i)
    case (Suc j)
    then show ?thesis using Cons.IH [of j] Cons.prems by (auto split: if_splits)
  qed auto
qed simp

text \<open>What leaves the table and the descriptors alone.\<close>

definition same_files :: "kfs \<Rightarrow> kfs \<Rightarrow> bool" where
  "same_files s s' \<longleftrightarrow> ftable s' = ftable s \<and> kf_proc s' = kf_proc s"

named_theorems same_intros \<open>calls that do not touch the open files\<close>

lemma same_files_refl [simp]: "same_files s s"
  by (simp add: same_files_def)

lemma same_files_trans [trans]: "same_files s s' \<Longrightarrow> same_files s' s'' \<Longrightarrow> same_files s s''"
  by (simp add: same_files_def)

lemma same_files_upd [simp]: "same_files s (s\<lparr>kf_fs := x\<rparr>)" "same_files s (kf_upd_ino ip g s)"
    "same_files s (s\<lparr>kf_pipes := ps\<rparr>)" "same_files s (wake_chans w s)" "same_files s (s\<lparr>kf_km := k\<rparr>)"
  by (simp_all add: same_files_def kf_upd_ino_def wake_chans_def)

lemma on_fs_same [same_intros]: "on_fs g s = Ok s' \<Longrightarrow> same_files s s'"
  by (auto simp: on_fs_def rbind_eq_Ok)

lemma ops_same [same_intros]:
  "kf_begin_op s = Ok s' \<Longrightarrow> same_files s s'" "kf_end_op s = Ok s' \<Longrightarrow> same_files s s'"
  "kf_namei devsw path s = Ok (ip, s') \<Longrightarrow> same_files s s'"
  "kf_nameiparent devsw path s = Ok (ip, name, s') \<Longrightarrow> same_files s s'"
  "kf_dirlink devsw dp nm inum s = Ok (r, s') \<Longrightarrow> same_files s s'"
  "kf_dirlookup devsw dp nm s = Ok (o', s') \<Longrightarrow> same_files s s'"
  by (auto simp: kf_begin_op_def kf_end_op_def kf_namei_def kf_nameiparent_def kf_dirlink_def kf_dirlookup_def rbind_eq_Ok
      intro: on_fs_same)

lemma fail_op_same [same_intros]: "fail_op s = Ok (r, s') \<Longrightarrow> same_files s s'"
  by (auto simp: fail_op_def rbind_eq_Ok intro: ops_same)

text \<open>Sequencing: what holds of both parts holds of the whole.\<close>

lemma same_rbind:
  assumes "rbind m f = Ok y" and "\<And>x. m = Ok x \<Longrightarrow> same_files s (st x)" and "\<And>x. m = Ok x \<Longrightarrow> f x = Ok y \<Longrightarrow> same_files (st x) s'"
  shows "same_files s s'"
  using assms same_files_trans by (auto simp: rbind_eq_Ok)

lemma create_same [same_intros]:
  assumes "create devsw path ty major minor s = Ok (ip, s')"
  shows "same_files s s'"
  using assms unfolding create_def
  by (auto simp: rbind_eq_Ok Let_def same_files_def kf_upd_ino_def split: option.splits prod.splits if_splits
      dest!: ops_same on_fs_same)

lemma open_inode_same [same_intros]:
  assumes "open_inode devsw path omode s = Ok (ip, s')"
  shows "same_files s s'"
  using assms unfolding open_inode_def
  by (auto simp: rbind_eq_Ok same_files_def split: option.splits if_splits dest!: ops_same on_fs_same create_same)

lemma refs_ok_same: "same_files s s' \<Longrightarrow> refs_ok others s' = refs_ok others s"
  by (simp add: same_files_def refs_ok_def fd_count_def)

subsection \<open>The operations on the table\<close>

lemma ft_locks: "ft_acquire s = Ok s' \<Longrightarrow> s' = s\<lparr>ft_lock := True\<rparr>" "ft_release s = Ok s' \<Longrightarrow> s' = s\<lparr>ft_lock := False\<rparr>"
  by (auto simp: ft_acquire_def ft_release_def lk_acquire_def lk_release_def rbind_eq_Ok split: if_splits)

definition refs_moved :: "(nat \<Rightarrow> int) \<Rightarrow> kfs \<Rightarrow> kfs \<Rightarrow> bool" where
  "refs_moved d s s' \<longleftrightarrow> kf_proc s' = kf_proc s \<and> length (ftable s') = length (ftable s)
     \<and> (\<forall>f<length (ftable s). f_ref (fl s' f) = f_ref (fl s f) + d f)"

lemma refs_moved_trans: "refs_moved d s s' \<Longrightarrow> refs_moved e s' s'' \<Longrightarrow> refs_moved (\<lambda>f. d f + e f) s s''"
  by (simp add: refs_moved_def)

lemma refs_moved_same: "same_files s s' \<Longrightarrow> refs_moved (\<lambda>_. 0) s s'"
  by (simp add: refs_moved_def same_files_def)

lemma filealloc_refs:
  assumes "filealloc s = Ok (r, s')"
  shows "case r of None \<Rightarrow> same_files s s' | Some f \<Rightarrow> f < NFILE \<and> f_ref (fl s f) = 0 \<and> refs_moved (\<lambda>g. if g = f then 1 else 0) s s'"
proof (cases "find (\<lambda>f. f_ref (fl s f) = 0) [0..<NFILE]")
  case None
  then show ?thesis using assms by (auto simp: filealloc_def rbind_eq_Ok same_files_def dest!: ft_locks)
next
  case (Some f)
  then have "f_ref (fl s f) = 0" "f < NFILE" using find_SomeD [OF Some] by auto
  moreover have "r = Some f \<and> s' = (upd_file f (\<lambda>x. x\<lparr>f_ref := 1\<rparr>) (s\<lparr>ft_lock := True\<rparr>))\<lparr>ft_lock := False\<rparr>"
    using assms by (auto simp: filealloc_def rbind_eq_Ok Some dest!: ft_locks)
  ultimately show ?thesis by (simp add: refs_moved_def upd_file_def nth_upd)
qed

lemma filedup_refs: "filedup f s = Ok (g, s') \<Longrightarrow> refs_moved (\<lambda>g. if g = f then 1 else 0) s s'"
  by (auto simp: filedup_def rbind_eq_Ok refs_moved_def upd_file_def nth_upd dest!: ft_locks split: if_splits)

lemma kf_pipeclose_same: "kf_pipeclose p wr s = Ok s' \<Longrightarrow> same_files s s'"
  by (auto simp: kf_pipeclose_def kf_kfree_def rbind_eq_Ok Let_def same_files_def wake_chans_def split: if_splits)

lemma fileclose_refs:
  assumes "fileclose f s = Ok s'"
  shows "refs_moved (\<lambda>g. if g = f then - 1 else 0) s s'" "f_ref (fl s f) \<ge> 1 \<or> length (ftable s) \<le> f"
proof -
  let ?s0 = "s\<lparr>ft_lock := True\<rparr>"
  let ?s1 = "upd_file f (\<lambda>x. x\<lparr>f_ref := f_ref x - 1\<rparr>) ?s0"
  let ?s2 = "(upd_file f (\<lambda>x. x\<lparr>f_ref := 0, f_type := FD_NONE\<rparr>) ?s1)\<lparr>ft_lock := False\<rparr>"
  have r: "\<not> f_ref (fl s f) < 1" using assms by (auto simp: fileclose_def rbind_eq_Ok dest!: ft_locks split: if_splits)
  then show "f_ref (fl s f) \<ge> 1 \<or> length (ftable s) \<le> f" by simp
  have "s' = ?s1\<lparr>ft_lock := False\<rparr> \<or> \<not> f_ref (fl ?s1 f) > 0 \<and> same_files ?s2 s'"
    using assms r
    by (cases "f_type (fl ?s1 f)") (auto simp: fileclose_def rbind_eq_Ok Let_def dest!: ft_locks split: if_splits filetype.splits
        intro: kf_pipeclose_same same_files_trans [OF ops_same(1) same_files_trans [OF on_fs_same ops_same(2)]])
  then show "refs_moved (\<lambda>g. if g = f then - 1 else 0) s s'"
    using r by (auto simp: refs_moved_def upd_file_def nth_upd same_files_def)
qed

subsection \<open>References in the hands of the kernel\<close>

text \<open>
  Between taking a reference and storing it in a descriptor, a system call holds it itself: it is
  then counted among the others.
\<close>

definition bump :: "nat \<Rightarrow> (nat \<Rightarrow> int) \<Rightarrow> nat \<Rightarrow> int" where
  "bump f others = (\<lambda>g. others g + (if g = f then 1 else 0))"

lemma refs_ok_moved: "refs_ok others s \<Longrightarrow> refs_moved d s s' \<Longrightarrow> refs_ok (\<lambda>f. others f + d f) s'"
  by (simp add: refs_ok_def refs_moved_def fd_count_def)

lemma refs_ok_filealloc:
  assumes "refs_ok others s" "filealloc s = Ok (r, s')"
  shows "case r of None \<Rightarrow> refs_ok others s' | Some f \<Rightarrow> f < NFILE \<and> refs_ok (bump f others) s'"
  using filealloc_refs [OF assms(2)] refs_ok_moved [OF assms(1)] refs_ok_same [of s s' others] assms(1)
  by (cases r) (auto simp: bump_def)

lemma refs_ok_fileclose:
  assumes "refs_ok (bump f others) s" "fileclose f s = Ok s'"
  shows "refs_ok others s'"
proof -
  have "(\<lambda>g. bump f others g + (if g = f then - 1 else 0)) = others" by (auto simp: bump_def)
  then show ?thesis using refs_ok_moved [OF assms(1) fileclose_refs(1) [OF assms(2)]] by simp
qed

lemma refs_ok_take_fd:
  assumes "refs_ok (bump f others) s" "f < NFILE" "fdalloc f s = (r, s')"
  shows "case r of None \<Rightarrow> s' = s | Some fd \<Rightarrow> fd < NOFILE \<and> refs_ok others s' \<and> p_ofile (kf_proc s') ! fd = Some f"
proof (cases "find (\<lambda>fd. p_ofile (kf_proc s) ! fd = None) [0..<NOFILE]")
  case None
  then show ?thesis using assms by (auto simp: fdalloc_def)
next
  case (Some fd)
  have fd: "p_ofile (kf_proc s) ! fd = None" "fd < NOFILE" using find_SomeD [OF Some] by auto
  moreover have "r = Some fd" "s' = set_fd fd (Some f) s" using assms(3) by (simp_all add: fdalloc_def Some)
  moreover have "refs_ok others (set_fd fd (Some f) s)"
    using assms(1,2) fd set_update_subset_insert [of "p_ofile (kf_proc s)" fd "Some f"]
    by (auto simp: refs_ok_def set_fd_def fd_count_def count_list_upd bump_def)
  ultimately show ?thesis using assms(1) by (simp add: refs_ok_def set_fd_def)
qed

lemma refs_ok_drop_fd:
  assumes "refs_ok others s" "fd < NOFILE" "p_ofile (kf_proc s) ! fd = Some f"
  shows "refs_ok (bump f others) (set_fd fd None s)"
  using assms set_update_subset_insert [of "p_ofile (kf_proc s)" fd None]
  by (auto simp: refs_ok_def set_fd_def fd_count_def count_list_upd bump_def)

lemma argfd_refs:
  assumes "argfd n s = Some (fd, f)" "refs_ok others s"
  shows "fd < NOFILE" "p_ofile (kf_proc s) ! fd = Some f" "f < NFILE"
proof -
  show fd: "fd < NOFILE" "p_ofile (kf_proc s) ! fd = Some f"
    using assms(1) by (auto simp: argfd_def split: option.splits if_splits)
  then show "f < NFILE" using assms(2) nth_mem [of fd "p_ofile (kf_proc s)"] by (auto simp: refs_ok_def)
qed

lemma pipealloc_refs:
  assumes "refs_ok others s" "pipealloc s = Ok (r, s')"
  shows "case r of None \<Rightarrow> refs_ok others s' | Some (f, g) \<Rightarrow> f < NFILE \<and> g < NFILE \<and> refs_ok (bump f (bump g others)) s'"
proof -
  obtain r0 s0 where 0: "filealloc s = Ok (r0, s0)" using assms(2) by (auto simp: pipealloc_def rbind_eq_Ok)
  show ?thesis
  proof (cases r0)
    case None
    then show ?thesis using 0 assms refs_ok_filealloc [OF assms(1) 0] by (auto simp: pipealloc_def pipealloc_bad_def)
  next
    case (Some f)
    have f: "f < NFILE" "refs_ok (bump f others) s0" using refs_ok_filealloc [OF assms(1) 0] Some by auto
    obtain r1 s1 where 1: "filealloc s0 = Ok (r1, s1)" using assms(2) 0 Some by (auto simp: pipealloc_def rbind_eq_Ok)
    show ?thesis
    proof (cases r1)
      case None
      then have s1: "refs_ok (bump f others) s1" using refs_ok_filealloc [OF f(2) 1] by simp
      then show ?thesis using assms(2) 0 1 Some None refs_ok_fileclose [OF s1]
        by (auto simp: pipealloc_def pipealloc_bad_def rbind_eq_Ok)
    next
      case 2: (Some g)
      have g: "g < NFILE" "refs_ok (bump g (bump f others)) s1" using refs_ok_filealloc [OF f(2) 1] 2 by auto
      have bc: "bump g (bump f others) = bump f (bump g others)" by (auto simp: bump_def)
      obtain p s2 where k: "kf_kalloc s1 = Ok (p, s2)" using assms(2) 0 1 Some 2 by (auto simp: pipealloc_def rbind_eq_Ok)
      then have "same_files s1 s2" by (auto simp: kf_kalloc_def rbind_eq_Ok)
      then have s2: "refs_ok (bump f (bump g others)) s2" using g(2) refs_ok_same bc by simp
      show ?thesis
      proof (cases "p = 0")
        case True
        then obtain s3 where "fileclose f s2 = Ok s3" "fileclose g s3 = Ok s'" "r = None"
          using assms(2) 0 1 Some 2 k by (auto simp: pipealloc_def pipealloc_bad_def rbind_eq_Ok)
        then show ?thesis using refs_ok_fileclose [OF refs_ok_fileclose [OF s2]] by simp
      next
        case False
        let ?t = "s2\<lparr>kf_pipes := (kf_pipes s2)(p := (kf_pipes s2 p)\<lparr>pi_readopen := True, pi_writeopen := True, pi_nwrite := 0,
                 pi_nread := 0, pi_lock := False\<rparr>)\<rparr>"
        have "r = Some (f, g)" "refs_moved (\<lambda>_. 0) s2 s'"
          using assms(2) 0 1 Some 2 k False
          by (auto simp: pipealloc_def Let_def refs_moved_def upd_file_def nth_upd)
        then show ?thesis using refs_ok_moved [OF s2] f(1) g(1) by fastforce
      qed
    qed
  qed
qed

lemma sys_dup_refs:
  assumes "refs_ok others s" "sys_dup s = Ok (r, s')"
  shows "refs_ok others s'"
proof (cases "argfd 0 s")
  case None
  then show ?thesis using assms by (simp add: sys_dup_def)
next
  case (Some x)
  then obtain fd0 f where x: "argfd 0 s = Some (fd0, f)" by (cases x) auto
  let ?o = "\<lambda>g. others g - (if g = f then 1 else 0)"
  have o: "bump f ?o = others" by (auto simp: bump_def)
  obtain ro s1 where a: "fdalloc f s = (ro, s1)" by (cases "fdalloc f s")
  note t = refs_ok_take_fd [of f ?o, unfolded o, OF assms(1) argfd_refs(3) [OF x assms(1)] a]
  show ?thesis
  proof (cases ro)
    case None
    then show ?thesis using t assms x a by (simp add: sys_dup_def)
  next
    case (Some fd)
    then obtain g where "filedup f s1 = Ok (g, s')" using assms(2) x a by (auto simp: sys_dup_def rbind_eq_Ok)
    then show ?thesis using refs_ok_moved [OF _ filedup_refs, of ?o s1 f] t Some by fastforce
  qed
qed

lemma sys_dup_returns:
  assumes "refs_ok others s" "\<forall>f. others f \<ge> 0" "\<not> ft_lock s"
  shows "\<exists>r s'. sys_dup s = Ok (r, s')"
proof (cases "argfd 0 s")
  case (Some x)
  then obtain fd0 f where x: "argfd 0 s = Some (fd0, f)" by (cases x) auto
  note f = argfd_refs [OF x assms(1)]
  have "Some f \<in> set (p_ofile (kf_proc s))" using f(1,2) assms(1) nth_mem [of fd0 "p_ofile (kf_proc s)"] by (auto simp: refs_ok_def)
  then have "fd_count s f \<ge> 1" by (simp add: fd_count_def Suc_le_eq count_list_0_iff flip: neq0_conv)
  then have "f_ref (fl s f) \<ge> 1" using assms(1) f(3) spec [OF assms(2), of f] by (simp add: refs_ok_def)
  then show ?thesis using x assms(3)
    by (auto simp: sys_dup_def fdalloc_def filedup_def ft_acquire_def ft_release_def upd_file_def set_fd_def split: option.splits)
qed (simp add: sys_dup_def)

lemma sys_close_refs:
  assumes "refs_ok others s" "sys_close s = Ok (r, s')"
  shows "refs_ok others s'"
proof (cases "argfd 0 s")
  case None
  then show ?thesis using assms by (simp add: sys_close_def)
next
  case (Some x)
  then obtain fd f where x: "argfd 0 s = Some (fd, f)" by (cases x) auto
  then have "fileclose f (set_fd fd None s) = Ok s'" using assms(2) by (auto simp: sys_close_def rbind_eq_Ok)
  then show ?thesis using refs_ok_fileclose [OF refs_ok_drop_fd [OF assms(1) argfd_refs(1,2) [OF x assms(1)]]] by blast
qed

lemma sys_open_refs:
  assumes "refs_ok others s" "sys_open devsw s = Ok (r, s')"
  shows "refs_ok others s'"
proof (cases "arg_path s 0 = None \<or> arg_int s 1 = None")
  case True
  then show ?thesis using assms by (auto simp: sys_open_def split: option.splits)
next
  case False
  then obtain path omode where a: "arg_path s 0 = Some path" "arg_int s 1 = Some omode" by auto
  obtain s1 ip s2 where 1: "kf_begin_op s = Ok s1" "open_inode devsw path omode s1 = Ok (ip, s2)"
    using assms(2) a by (auto simp: sys_open_def rbind_eq_Ok)
  have s2: "refs_ok others s2" using refs_ok_same [OF same_files_trans [OF ops_same(1) [OF 1(1)] open_inode_same [OF 1(2)]]] assms(1) by simp
  show ?thesis
  proof (cases ip)
    case None
    then have "fail_op s2 = Ok (r, s')" using assms(2) a 1 by (simp add: sys_open_def)
    then show ?thesis using refs_ok_same [OF fail_op_same] s2 by simp
  next
    case (Some i)
    obtain fo s3 where 3: "filealloc s2 = Ok (fo, s3)" using assms(2) a 1 Some by (auto simp: sys_open_def rbind_eq_Ok)
    note al = refs_ok_filealloc [OF s2 3]
    show ?thesis
    proof (cases fo)
      case None
      then obtain s4 where "on_fs (iunlockput i) s3 = Ok s4" "fail_op s4 = Ok (r, s')"
        using assms(2) a 1 Some 3 by (auto simp: sys_open_def rbind_eq_Ok)
      then show ?thesis using refs_ok_same [OF same_files_trans [OF on_fs_same fail_op_same]] al None by simp
    next
      case f: (Some f)
      obtain ro s4 where 4: "fdalloc f s3 = (ro, s4)" by (cases "fdalloc f s3")
      have b: "refs_ok (bump f others) s3" "f < NFILE" using al f by simp_all
      note t = refs_ok_take_fd [OF b 4]
      show ?thesis
      proof (cases ro)
        case None
        then obtain s5 s6 where "fileclose f s3 = Ok s5" "on_fs (iunlockput i) s5 = Ok s6" "fail_op s6 = Ok (r, s')"
          using assms(2) a 1 Some 3 4 f t by (auto simp: sys_open_def rbind_eq_Ok)
        then show ?thesis using refs_ok_same [OF same_files_trans [OF on_fs_same fail_op_same]] refs_ok_fileclose [OF b(1)] by blast
      next
        case fd: (Some fd)
        obtain s5 s6 where 5: "on_fs (iunlock (Some i)) s4 = Ok s5" "kf_end_op s5 = Ok s6" "refs_moved (\<lambda>_. 0) s6 s'"
          using assms(2) a 1 Some 3 4 f fd
          by (auto simp: sys_open_def rbind_eq_Ok Let_def refs_moved_def upd_file_def nth_upd)
        have "refs_ok others s6" using refs_ok_same [OF same_files_trans [OF on_fs_same [OF 5(1)] ops_same(2) [OF 5(2)]]] t fd by simp
        then show ?thesis using refs_ok_moved [OF _ 5(3)] by fastforce
      qed
    qed
  qed
qed

lemma sys_pipe_refs:
  assumes "refs_ok others s" "sys_pipe s = Ok (r, s')"
  shows "refs_ok others s'"
proof (cases "arg_ptr s 0 8")
  case None
  then show ?thesis using assms by (simp add: sys_pipe_def)
next
  case (Some a)
  obtain ro s1 where 1: "pipealloc s = Ok (ro, s1)" using assms(2) Some by (auto simp: sys_pipe_def rbind_eq_Ok)
  note pa = pipealloc_refs [OF assms(1) 1]
  show ?thesis
  proof (cases ro)
    case None
    then show ?thesis using pa assms(2) Some 1 by (simp add: sys_pipe_def)
  next
    case 2: (Some fg)
    obtain f g where fg: "fg = (f, g)" by (cases fg)
    have p: "refs_ok (bump f (bump g others)) s1" "f < NFILE" "g < NFILE" using pa 2 fg by auto
    have p': "refs_ok (bump g (bump f others)) s1" using p(1) by (simp add: bump_def algebra_simps)
    obtain r0 s2 where 3: "fdalloc f s1 = (r0, s2)" by (cases "fdalloc f s1")
    note t0 = refs_ok_take_fd [OF p(1,2) 3]
    show ?thesis
    proof (cases r0)
      case None
      then obtain s3 where "fileclose f s1 = Ok s3" "fileclose g s3 = Ok s'"
        using assms(2) Some 1 2 fg 3 t0 by (auto simp: sys_pipe_def rbind_eq_Ok)
      then show ?thesis using refs_ok_fileclose [OF refs_ok_fileclose [OF p(1)]] by blast
    next
      case fd0: (Some fd0)
      then have s2: "refs_ok (bump g others) s2" "fd0 < NOFILE" "p_ofile (kf_proc s2) ! fd0 = Some f" using t0 by simp_all
      obtain r1 s3 where 4: "fdalloc g s2 = (r1, s3)" by (cases "fdalloc g s2")
      note t1 = refs_ok_take_fd [OF s2(1) p(3) 4]
      show ?thesis
      proof (cases r1)
        case None
        then obtain s4 where c: "fileclose f (set_fd fd0 None s2) = Ok s4" "fileclose g s4 = Ok s'"
          using assms(2) Some 1 2 fg 3 4 fd0 t1 by (auto simp: sys_pipe_def rbind_eq_Ok Let_def)
        then show ?thesis using refs_ok_fileclose [OF refs_ok_fileclose [OF refs_ok_drop_fd [OF s2] c(1)] c(2)] by blast
      next
        case (Some fd1)
        then have "same_files s3 s'" using assms(2) \<open>arg_ptr s 0 8 = Some a\<close> 1 2 fg 3 4 fd0 by (auto simp: sys_pipe_def same_files_def)
        then show ?thesis using refs_ok_same t1 Some by simp
      qed
    qed
  qed
qed

text \<open>
  C18. The system calls that make and drop descriptors keep the reference counts of the open files
  exact: after \<^verbatim>\<open>dup\<close>, \<^verbatim>\<open>close\<close>, \<^verbatim>\<open>open\<close> and \<^verbatim>\<open>pipe\<close>, on every path of each, the count of a file
  is again the number of the caller's descriptors for it plus those of the other processes. So
  \<^verbatim>\<open>dup\<close> of a descriptor never hits the panic in \<^verbatim>\<open>filedup\<close>.
\<close>
theorem descriptor_counts_exact:
  assumes "refs_ok others s"
  shows "(sys_dup s = Ok (r, s') \<longrightarrow> refs_ok others s') \<and> (sys_close s = Ok (r, s') \<longrightarrow> refs_ok others s')
    \<and> (sys_open devsw s = Ok (r, s') \<longrightarrow> refs_ok others s') \<and> (sys_pipe s = Ok (r, s') \<longrightarrow> refs_ok others s')
    \<and> ((\<forall>f. others f \<ge> 0) \<and> \<not> ft_lock s \<longrightarrow> (\<exists>r s'. sys_dup s = Ok (r, s')))"
  using sys_dup_refs [OF assms] sys_close_refs [OF assms] sys_open_refs [OF assms] sys_pipe_refs [OF assms]
    sys_dup_returns [OF assms] by blast

text \<open>A process with one open file, which it duplicates.\<close>

definition demo_file :: kfile where
  "demo_file = \<lparr>f_type = FD_NONE, f_ref = 0, f_readable = True, f_writable = False, f_pipe = 0, f_ip = 0, f_off = 0\<rparr>"

definition demo_files :: kfs where
  "demo_files = \<lparr>kf_fs = demo_fs,
     kf_km = \<lparr>km_lock = False, km_use_lock = True, km_freelist = 0, km_mem = (\<lambda>_. 1)\<rparr>, kf_end = 0x80112000, kf_pipes = (\<lambda>_. demo_pipe), ft_lock = False,
     ftable = demo_file\<lparr>f_ref := 1\<rparr> # replicate 99 demo_file,
     kf_proc = demo_caller\<lparr>p_ofile := Some 0 # replicate 15 None\<rparr>, kf_um = (\<lambda>_. 0)\<rparr>"

theorem descriptor_counts_exact_witness:
  "\<exists>r s'. sys_dup demo_files = Ok (r, s') \<and> refs_ok (\<lambda>_. 0) s'"
proof -
  have "refs_ok (\<lambda>_. 0) demo_files"
    by (auto simp: refs_ok_def demo_files_def fd_count_def NOFILE_def NFILE_def nth_Cons demo_file_def count_list_0_iff split: nat.split)
  note d = descriptor_counts_exact [OF this]
  have "\<not> ft_lock demo_files" by (simp add: demo_files_def)
  then obtain r s' where "sys_dup demo_files = Ok (r, s')" using d by blast
  then show ?thesis using d by blast
qed

end
