(* ===== verification/Vm.thy ===== *)
theory Vm
  imports Fs Kalloc
begin

section \<open>Page tables (\<^verbatim>\<open>vm.c\<close>)\<close>

text \<open>
  Page directories and page tables are pages of the allocator: the model reads and writes their
  entries in its memory. A \<^verbatim>\<open>pde_t *\<close> or \<^verbatim>\<open>pte_t *\<close> is the kernel address of the entry, 0 the null
  pointer. The linker symbols \<^verbatim>\<open>end\<close> and \<^verbatim>\<open>data\<close> are the parameters \<open>kend\<close> and \<open>kdata\<close>. A loop over the
  pages of a range is a recursion over the list of their addresses.
\<close>

unbundle bit_operations_syntax

definition PTE_P :: u32 where "PTE_P = 1"
definition PTE_W :: u32 where "PTE_W = 2"
definition PTE_U :: u32 where "PTE_U = 4"
definition NPDENTRIES :: nat where "NPDENTRIES = 1024"
definition EXTMEM :: u32 where "EXTMEM = 0x100000"
definition DEVSPACE :: u32 where "DEVSPACE = 0xFE000000"
definition KERNLINK :: u32 where "KERNLINK = KERNBASE + EXTMEM"

definition PDX :: "u32 \<Rightarrow> u32" where "PDX va = drop_bit 22 va AND 0x3FF"
definition PTX :: "u32 \<Rightarrow> u32" where "PTX va = drop_bit 12 va AND 0x3FF"
definition PGADDR :: "u32 \<Rightarrow> u32 \<Rightarrow> u32 \<Rightarrow> u32" where "PGADDR d t o1 = push_bit 22 d OR push_bit 12 t OR o1"
definition PTE_ADDR :: "u32 \<Rightarrow> u32" where "PTE_ADDR pte = pte AND NOT 0xFFF"
definition PTE_FLAGS :: "u32 \<Rightarrow> u32" where "PTE_FLAGS pte = pte AND 0xFFF"

definition present :: "u32 \<Rightarrow> bool" where
  "present e \<longleftrightarrow> e AND PTE_P \<noteq> 0"

definition ld :: "kmem \<Rightarrow> u32 \<Rightarrow> u32" where
  "ld s a = load32 (km_mem s) a"

definition st :: "u32 \<Rightarrow> u32 \<Rightarrow> kmem \<Rightarrow> kmem" where
  "st a w s = s\<lparr>km_mem := store32 a w (km_mem s)\<rparr>"

definition zero_page :: "u32 \<Rightarrow> kmem \<Rightarrow> kmem" where
  "zero_page p s = s\<lparr>km_mem := memset p 0 PGSIZE (km_mem s)\<rparr>"

subsection \<open>Walking and mapping\<close>

definition walkpgdir :: "u32 \<Rightarrow> u32 \<Rightarrow> bool \<Rightarrow> kmem \<Rightarrow> (u32 \<times> kmem) res" where
  "walkpgdir pgdir va alloc s =
     (let pde = pgdir + 4 * PDX va in
      if present (ld s pde) then Ok (P2V (PTE_ADDR (ld s pde)) + 4 * PTX va, s)
      else if \<not> alloc then Ok (0, s)
      else
        rbind (kalloc s) (\<lambda>(pgtab, s).
        if pgtab = 0 then Ok (0, s)
        else
          let s = st pde (V2P pgtab OR PTE_P OR PTE_W OR PTE_U) (zero_page pgtab s) in
          Ok (pgtab + 4 * PTX va, s)))"

fun mappages_loop :: "u32 list \<Rightarrow> u32 \<Rightarrow> u32 \<Rightarrow> u32 \<Rightarrow> kmem \<Rightarrow> (int \<times> kmem) res" where
  "mappages_loop [] pgdir pa perm s = Ok (0, s)"
| "mappages_loop (a # as) pgdir pa perm s =
     rbind (walkpgdir pgdir a True s) (\<lambda>(pte, s).
     if pte = 0 then Ok (- 1, s)
     else if present (ld s pte) then Panic ''remap''
     else mappages_loop as pgdir (pa + PGSIZE) perm (st pte (pa OR perm OR PTE_P) s))"

text \<open>The pages from \<open>a\<close> up to and with \<open>la\<close>, both page-aligned; \<open>la\<close> may be reached across 0.\<close>

definition pages_to :: "u32 \<Rightarrow> u32 \<Rightarrow> u32 list" where
  "pages_to a la = map (\<lambda>i. a + of_nat i * PGSIZE) [0..<Suc (unat (la - a) div 4096)]"

definition mappages :: "u32 \<Rightarrow> u32 \<Rightarrow> u32 \<Rightarrow> u32 \<Rightarrow> u32 \<Rightarrow> kmem \<Rightarrow> (int \<times> kmem) res" where
  "mappages pgdir va sz pa perm s =
     mappages_loop (pages_to (PGROUNDDOWN va) (PGROUNDDOWN (va + sz - 1))) pgdir pa perm s"

subsection \<open>Freeing\<close>

text \<open>
  The loop of \<^verbatim>\<open>deallocuvm\<close>, with the number of iterations bounded by \<open>fuel\<close>; running out of it is
  \<open>Blocked\<close>. Each iteration raises the address by at least a page, so the fuel \<^verbatim>\<open>deallocuvm\<close> starts
  with is enough for \<^verbatim>\<open>oldsz\<close> up to \<^verbatim>\<open>KERNBASE\<close>, the largest the kernel uses.
\<close>

fun deallocuvm_loop :: "nat \<Rightarrow> u32 \<Rightarrow> u32 \<Rightarrow> u32 \<Rightarrow> u32 \<Rightarrow> kmem \<Rightarrow> kmem res" where
  "deallocuvm_loop 0 kend pgdir a oldsz s = Blocked"
| "deallocuvm_loop (Suc fuel) kend pgdir a oldsz s =
     (if a < oldsz then
        rbind (walkpgdir pgdir a False s) (\<lambda>(pte, s).
        if pte = 0 then deallocuvm_loop fuel kend pgdir (PGADDR (PDX a + 1) 0 0 - PGSIZE + PGSIZE) oldsz s
        else if present (ld s pte) then
          let pa = PTE_ADDR (ld s pte) in
          if pa = 0 then Panic ''kfree''
          else
            rbind (kfree kend (P2V pa) s) (\<lambda>s.
            deallocuvm_loop fuel kend pgdir (a + PGSIZE) oldsz (st pte 0 s))
        else deallocuvm_loop fuel kend pgdir (a + PGSIZE) oldsz s)
      else Ok s)"

definition deallocuvm :: "u32 \<Rightarrow> u32 \<Rightarrow> u32 \<Rightarrow> u32 \<Rightarrow> kmem \<Rightarrow> (u32 \<times> kmem) res" where
  "deallocuvm kend pgdir oldsz newsz s =
     (if newsz \<ge> oldsz then Ok (oldsz, s)
      else
        rbind (deallocuvm_loop (Suc (unat oldsz div 4096 + 1)) kend pgdir (PGROUNDUP newsz) oldsz s) (\<lambda>s. Ok (newsz, s)))"

fun free_tables :: "nat list \<Rightarrow> u32 \<Rightarrow> u32 \<Rightarrow> kmem \<Rightarrow> kmem res" where
  "free_tables [] kend pgdir s = Ok s"
| "free_tables (i # is) kend pgdir s =
     (let e = ld s (pgdir + 4 * of_nat i) in
      if present e then rbind (kfree kend (P2V (PTE_ADDR e)) s) (\<lambda>s. free_tables is kend pgdir s)
      else free_tables is kend pgdir s)"

definition freevm :: "u32 \<Rightarrow> u32 \<Rightarrow> kmem \<Rightarrow> kmem res" where
  "freevm kend pgdir s =
     (if pgdir = 0 then Panic ''freevm: no pgdir''
      else
        rbind (deallocuvm kend pgdir KERNBASE 0 s) (\<lambda>(_, s).
        rbind (free_tables [0..<NPDENTRIES] kend pgdir s) (\<lambda>s.
        kfree kend pgdir s)))"

subsection \<open>The kernel part of a page table\<close>

record kmap_entry =
  k_virt :: u32
  k_phys_start :: u32
  k_phys_end :: u32
  k_perm :: u32

definition kmap :: "u32 \<Rightarrow> kmap_entry list" where
  "kmap kdata =
     [\<lparr>k_virt = KERNBASE, k_phys_start = 0, k_phys_end = EXTMEM, k_perm = PTE_W\<rparr>,
      \<lparr>k_virt = KERNLINK, k_phys_start = V2P KERNLINK, k_phys_end = V2P kdata, k_perm = 0\<rparr>,
      \<lparr>k_virt = kdata, k_phys_start = V2P kdata, k_phys_end = PHYSTOP, k_perm = PTE_W\<rparr>,
      \<lparr>k_virt = DEVSPACE, k_phys_start = DEVSPACE, k_phys_end = 0, k_perm = PTE_W\<rparr>]"

fun map_kernel :: "kmap_entry list \<Rightarrow> u32 \<Rightarrow> u32 \<Rightarrow> kmem \<Rightarrow> (u32 \<times> kmem) res" where
  "map_kernel [] kend pgdir s = Ok (pgdir, s)"
| "map_kernel (k # ks) kend pgdir s =
     rbind (mappages pgdir (k_virt k) (k_phys_end k - k_phys_start k) (k_phys_start k) (k_perm k) s) (\<lambda>(r, s).
     if r < 0 then rbind (freevm kend pgdir s) (\<lambda>s. Ok (0, s)) else map_kernel ks kend pgdir s)"

definition setupkvm :: "u32 \<Rightarrow> u32 \<Rightarrow> kmem \<Rightarrow> (u32 \<times> kmem) res" where
  "setupkvm kend kdata s =
     rbind (kalloc s) (\<lambda>(pgdir, s).
     if pgdir = 0 then Ok (0, s)
     else
       let s = zero_page pgdir s in
       if P2V PHYSTOP > DEVSPACE then Panic ''PHYSTOP too high'' else map_kernel (kmap kdata) kend pgdir s)"

definition kvmalloc :: "u32 \<Rightarrow> u32 \<Rightarrow> kmem \<Rightarrow> (u32 \<times> u32 \<times> kmem) res" where
  "kvmalloc kend kdata s = rbind (setupkvm kend kdata s) (\<lambda>(kpgdir, s). Ok (kpgdir, V2P kpgdir, s))"

subsection \<open>User memory\<close>

definition inituvm :: "u32 \<Rightarrow> u32 \<Rightarrow> u32 \<Rightarrow> kmem \<Rightarrow> kmem res" where
  "inituvm pgdir init sz s =
     (if sz \<ge> PGSIZE then Panic ''inituvm: more than a page''
      else
        rbind (kalloc s) (\<lambda>(m, s).
        if m = 0 then Fault
        else
          let s = zero_page m s in
          rbind (mappages pgdir 0 PGSIZE (V2P m) (PTE_W OR PTE_U) s) (\<lambda>(_, s).
          Ok (s\<lparr>km_mem := memmove m init sz (km_mem s)\<rparr>))))"

text \<open>The page addresses \<open>a\<close>, \<open>a + PGSIZE\<close>, \<dots> below \<open>lim\<close>.\<close>

definition pages_below :: "u32 \<Rightarrow> u32 \<Rightarrow> u32 list" where
  "pages_below a lim = map (\<lambda>i. a + of_nat i * PGSIZE) [0..<(unat lim - unat a + 4095) div 4096]"

fun loaduvm_loop :: "(nat \<Rightarrow> devsw_ops) \<Rightarrow> u32 list \<Rightarrow> u32 \<Rightarrow> u32 \<Rightarrow> nat \<Rightarrow> u32 \<Rightarrow> u32 \<Rightarrow> fsst \<times> kmem \<Rightarrow> (int \<times> fsst \<times> kmem) res" where
  "loaduvm_loop devsw [] pgdir addr ip offset sz (x, s) = Ok (0, x, s)"
| "loaduvm_loop devsw (i # is) pgdir addr ip offset sz (x, s) =
     rbind (walkpgdir pgdir (addr + i) False s) (\<lambda>(pte, s).
     if pte = 0 then Panic ''loaduvm: address should exist''
     else
       let pa = PTE_ADDR (ld s pte); n = (if sz - i < PGSIZE then sz - i else PGSIZE) in
       rbind (readi devsw ip (offset + i) n x) (\<lambda>(r, bytes, x).
       let s = s\<lparr>km_mem := store_bytes (P2V pa) bytes (km_mem s)\<rparr> in
       if r \<noteq> sint n then Ok (- 1, x, s)
       else loaduvm_loop devsw is pgdir addr ip offset sz (x, s)))"

definition loaduvm :: "(nat \<Rightarrow> devsw_ops) \<Rightarrow> u32 \<Rightarrow> u32 \<Rightarrow> nat \<Rightarrow> u32 \<Rightarrow> u32 \<Rightarrow> fsst \<times> kmem \<Rightarrow> (int \<times> fsst \<times> kmem) res" where
  "loaduvm devsw pgdir addr ip offset sz w =
     (if addr mod PGSIZE \<noteq> 0 then Panic ''loaduvm: addr must be page aligned''
      else loaduvm_loop devsw (pages_below 0 sz) pgdir addr ip offset sz w)"

fun allocuvm_loop :: "u32 list \<Rightarrow> u32 \<Rightarrow> u32 \<Rightarrow> u32 \<Rightarrow> u32 \<Rightarrow> kmem \<Rightarrow> (u32 \<times> kmem) res" where
  "allocuvm_loop [] kend pgdir oldsz newsz s = Ok (newsz, s)"
| "allocuvm_loop (a # as) kend pgdir oldsz newsz s =
     rbind (kalloc s) (\<lambda>(m, s).
     if m = 0 then rbind (deallocuvm kend pgdir newsz oldsz s) (\<lambda>(_, s). Ok (0, s))
     else
       let s = zero_page m s in
       rbind (mappages pgdir a PGSIZE (V2P m) (PTE_W OR PTE_U) s) (\<lambda>(r, s).
       if r < 0 then
         rbind (deallocuvm kend pgdir newsz oldsz s) (\<lambda>(_, s).
         rbind (kfree kend m s) (\<lambda>s. Ok (0, s)))
       else allocuvm_loop as kend pgdir oldsz newsz s))"

definition allocuvm :: "u32 \<Rightarrow> u32 \<Rightarrow> u32 \<Rightarrow> u32 \<Rightarrow> kmem \<Rightarrow> (u32 \<times> kmem) res" where
  "allocuvm kend pgdir oldsz newsz s =
     (if newsz \<ge> KERNBASE then Ok (0, s)
      else if newsz < oldsz then Ok (oldsz, s)
      else allocuvm_loop (pages_below (PGROUNDUP oldsz) newsz) kend pgdir oldsz newsz s)"

definition clearpteu :: "u32 \<Rightarrow> u32 \<Rightarrow> kmem \<Rightarrow> kmem res" where
  "clearpteu pgdir uva s =
     rbind (walkpgdir pgdir uva False s) (\<lambda>(pte, s).
     if pte = 0 then Panic ''clearpteu'' else Ok (st pte (ld s pte AND NOT PTE_U) s))"

fun copyuvm_loop :: "u32 list \<Rightarrow> u32 \<Rightarrow> u32 \<Rightarrow> u32 \<Rightarrow> kmem \<Rightarrow> (u32 \<times> kmem) res" where
  "copyuvm_loop [] kend pgdir d s = Ok (d, s)"
| "copyuvm_loop (i # is) kend pgdir d s =
     rbind (walkpgdir pgdir i False s) (\<lambda>(pte, s).
     if pte = 0 then Panic ''copyuvm: pte should exist''
     else if \<not> present (ld s pte) then Panic ''copyuvm: page not present''
     else
       let pa = PTE_ADDR (ld s pte); flags = PTE_FLAGS (ld s pte) in
       rbind (kalloc s) (\<lambda>(m, s).
       if m = 0 then rbind (freevm kend d s) (\<lambda>s. Ok (0, s))
       else
         let s = s\<lparr>km_mem := memmove m (P2V pa) PGSIZE (km_mem s)\<rparr> in
         rbind (mappages d i PGSIZE (V2P m) flags s) (\<lambda>(r, s).
         if r < 0 then rbind (kfree kend m s) (\<lambda>s. rbind (freevm kend d s) (\<lambda>s. Ok (0, s)))
         else copyuvm_loop is kend pgdir d s)))"

definition copyuvm :: "u32 \<Rightarrow> u32 \<Rightarrow> u32 \<Rightarrow> u32 \<Rightarrow> kmem \<Rightarrow> (u32 \<times> kmem) res" where
  "copyuvm kend kdata pgdir sz s =
     rbind (setupkvm kend kdata s) (\<lambda>(d, s).
     if d = 0 then Ok (0, s) else copyuvm_loop (pages_below 0 sz) kend pgdir d s)"

text \<open>\<^verbatim>\<open>uva2ka\<close> follows the pointer that \<^verbatim>\<open>walkpgdir\<close> returns without a test for null.\<close>

definition uva2ka :: "u32 \<Rightarrow> u32 \<Rightarrow> kmem \<Rightarrow> u32 res" where
  "uva2ka pgdir uva s =
     rbind (walkpgdir pgdir uva False s) (\<lambda>(pte, s).
     if pte = 0 then Fault
     else if \<not> present (ld s pte) then Ok 0
     else if ld s pte AND PTE_U = 0 then Ok 0
     else Ok (P2V (PTE_ADDR (ld s pte))))"

lemma page_offset: "unat (va - PGROUNDDOWN va) = unat va mod 4096"
  unfolding PGROUNDDOWN_def by (simp add: unat_sub_if_size round_down minus_div_mult_eq_mod)

lemma copyout_progress: "0 < unat (PGSIZE - (va - PGROUNDDOWN va))"
proof (rule ccontr)
  assume "\<not> 0 < unat (PGSIZE - (va - PGROUNDDOWN va))"
  then have "va - PGROUNDDOWN va = 4096" by (simp add: PGSIZE_def unat_eq_0)
  then show False using page_offset [of va] by simp
qed

function copyout :: "u32 \<Rightarrow> u32 \<Rightarrow> u8 list \<Rightarrow> kmem \<Rightarrow> (int \<times> kmem) res" where
  "copyout pgdir va buf s =
     (if buf = [] then Ok (0, s)
      else
        let va0 = PGROUNDDOWN va in
        rbind (uva2ka pgdir va0 s) (\<lambda>pa0.
        if pa0 = 0 then Ok (- 1, s)
        else
          let n = min (unat (PGSIZE - (va - va0))) (length buf) in
          copyout pgdir (va0 + PGSIZE) (drop n buf) (s\<lparr>km_mem := store_bytes (pa0 + (va - va0)) (take n buf) (km_mem s)\<rparr>)))"
  by pat_completeness auto
termination
  by (relation "measure (\<lambda>(pgdir, va, buf, s). length buf)") (auto intro!: diff_less simp: copyout_progress)

declare copyout.simps [simp del]

end
