(* ===== verification/VmProps.thy ===== *)
theory VmProps
  imports Vm Ring
begin

section \<open>What a page table maps\<close>

text \<open>
  \<open>vmap m d va\<close> is what the paging hardware finds for the address \<open>va\<close> with the page directory at
  \<open>d\<close>: the entry of the page table, if the directory entry and the entry itself are present.
  \<open>pt_ok\<close> is the shape of a page directory: its tables are pages of the allocator, different from
  each other and from the directory, and none of them is free.
\<close>

unbundle bit_operations_syntax

definition pde_of :: "mem \<Rightarrow> u32 \<Rightarrow> u32 \<Rightarrow> u32" where
  "pde_of m d va = load32 m (d + 4 * PDX va)"

definition table_of :: "u32 \<Rightarrow> u32" where
  "table_of e = P2V (PTE_ADDR e)"

definition pte_of :: "mem \<Rightarrow> u32 \<Rightarrow> u32 \<Rightarrow> u32" where
  "pte_of m d va = load32 m (table_of (pde_of m d va) + 4 * PTX va)"

definition vmap :: "mem \<Rightarrow> u32 \<Rightarrow> u32 \<Rightarrow> u32 option" where
  "vmap m d va = (if present (pde_of m d va) \<and> present (pte_of m d va) then Some (pte_of m d va) else None)"

definition pt_ok :: "u32 \<Rightarrow> mem \<Rightarrow> u32 \<Rightarrow> u32 list \<Rightarrow> bool" where
  "pt_ok kend m d ps \<longleftrightarrow> kpage kend d \<and> d \<notin> set ps
     \<and> (\<forall>va. present (pde_of m d va) \<longrightarrow> kpage kend (table_of (pde_of m d va)) \<and> table_of (pde_of m d va) \<noteq> d
          \<and> table_of (pde_of m d va) \<notin> set ps)
     \<and> (\<forall>va vb. present (pde_of m d va) \<and> present (pde_of m d vb) \<and> table_of (pde_of m d va) = table_of (pde_of m d vb)
          \<longrightarrow> PDX va = PDX vb)"

subsection \<open>Indices and slots\<close>

lemma unat_and_3FF: "unat ((x :: u32) AND 0x3FF) = unat x mod 1024"
proof -
  have "x AND 0x3FF = take_bit 10 x" by (simp add: take_bit_eq_mask mask_eq_exp_minus_1)
  then show ?thesis by (simp add: take_bit_eq_mod unat_mod)
qed

lemma unat_PTX: "unat (PTX va) = unat va div 4096 mod 1024"
  unfolding PTX_def unat_and_3FF by (simp add: drop_bit_eq_div unat_div)

lemma unat_PDX: "unat (PDX va) = unat va div 4096 div 1024"
proof -
  have "unat va div 4194304 < 1024" by (rule less_mult_imp_div_less) (use unsigned_less [of va, where 'a = nat] in simp)
  then show ?thesis unfolding PDX_def unat_and_3FF by (simp add: drop_bit_eq_div unat_div div_mult2_eq [symmetric])
qed

lemma index_bounds: "unat (PDX va) < 1024" "unat (PTX va) < 1024"
  unfolding unat_PTX using unsigned_less [of va, where 'a = nat]
  by (simp_all add: unat_PDX div_mult2_eq [symmetric] less_mult_imp_div_less)

lemma same_page_iff: "PDX a = PDX b \<and> PTX a = PTX b \<longleftrightarrow> in_page a b"
proof -
  have "PDX a = PDX b \<and> PTX a = PTX b \<longleftrightarrow> unat (PDX a) = unat (PDX b) \<and> unat (PTX a) = unat (PTX b)"
    by (simp add: word_unat_eq_iff)
  also have "\<dots> \<longleftrightarrow> unat a div 4096 = unat b div 4096" unfolding unat_PDX unat_PTX by (metis div_mult_mod_eq)
  finally show ?thesis by (auto simp: in_page_def)
qed

lemma slot_unat:
  assumes "aligned p" "unat i < 1024" "k < 4"
  shows "unat (p + 4 * i + of_nat k) = unat p + 4 * unat i + k"
proof -
  have 1: "unat (4 * i) = 4 * unat i" using assms(2) by (subst unat_mult_lem [THEN iffD1]) simp_all
  have 2: "unat (p + 4 * i) = unat p + 4 * unat i"
    using assms(2) aligned_bound [OF assms(1)] by (subst unat_add_lem [THEN iffD1]) (simp_all add: 1)
  have k: "unat (of_nat k :: u32) = k" using assms(3) by (simp add: unsigned_of_nat take_bit_nat_eq_self)
  show ?thesis using assms(2,3) aligned_bound [OF assms(1)] by (subst unat_add_lem [THEN iffD1]) (simp_all add: 2 k)
qed

lemma slots_apart:
  assumes "aligned p" "aligned q" "unat i < 1024" "unat j < 1024" "\<not> (p = q \<and> i = j)" "k < 4" "l < 4"
  shows "p + 4 * i + of_nat k \<noteq> q + 4 * j + of_nat l"
proof
  assume "p + 4 * i + of_nat k = q + 4 * j + of_nat l"
  then have e: "unat p + 4 * unat i + k = unat q + 4 * unat j + l"
    using slot_unat [OF assms(1,3,6)] slot_unat [OF assms(2,4,7)] by metis
  obtain u v where uv: "unat p = 4096 * u" "unat q = 4096 * v"
    using assms(1,2) by (auto simp: aligned_unat mod_eq_0_iff_dvd elim!: dvdE)
  have "u = v" using e assms(3,4,6,7) unfolding uv by linarith
  then have "p = q" using uv by (simp add: word_unat_eq_iff)
  moreover have "unat i = unat j" using e \<open>u = v\<close> assms(6,7) unfolding uv by linarith
  ultimately show False using assms(5) by (simp add: word_unat_eq_iff)
qed

lemma load_store_slot:
  assumes "aligned p" "aligned q" "unat i < 1024" "unat j < 1024"
  shows "load32 (store32 (p + 4 * i) w m) (q + 4 * j) = (if p = q \<and> i = j then w else load32 m (q + 4 * j))"
proof (cases "p = q \<and> i = j")
  case False
  have ne: "q + 4 * j + of_nat l \<noteq> p + 4 * i + of_nat k" if "k < 4" "l < 4" for k l
    using slots_apart [OF assms False that] by metis
  have "store32 (p + 4 * i) w m (q + 4 * j + of_nat l) = m (q + 4 * j + of_nat l)" if "l < 4" for l
    using ne [OF _ that, of 0] ne [OF _ that, of 1] ne [OF _ that, of 2] ne [OF _ that, of 3] by (simp add: store32_def)
  from this [of 0] this [of 1] this [of 2] this [of 3] show ?thesis unfolding if_not_P [OF False] by (simp add: load32_def)
qed simp

lemma slot_in_page: "aligned q \<Longrightarrow> unat j < 1024 \<Longrightarrow> k < 4 \<Longrightarrow> in_page q (q + 4 * j + of_nat k)"
  using page_div [of "unat q" "unat (q + 4 * j + of_nat k)"] by (simp add: in_page_def slot_unat aligned_unat)

lemma load_zero_slot:
  assumes "aligned p" "aligned q" "unat j < 1024"
  shows "load32 (memset p 0 PGSIZE m) (q + 4 * j) = (if p = q then 0 else load32 m (q + 4 * j))"
proof -
  have "memset p 0 PGSIZE m (q + 4 * j + of_nat k) = (if p = q then 0 else m (q + 4 * j + of_nat k))" if "k < 4" for k
    using in_page_unique [OF assms(1,2)] slot_in_page [OF assms(2,3) that] by (auto simp: memset_page [OF assms(1)])
  from this [of 0] this [of 1] this [of 2] this [of 3] show ?thesis by (auto simp: load32_def)
qed

lemma store_slot_other:
  assumes "aligned p" "unat i < 1024" "\<not> in_page p a"
  shows "store32 (p + 4 * i) w m a = m a"
proof -
  have "a \<noteq> p + 4 * i + of_nat k" if "k < 4" for k using slot_in_page [OF assms(1,2) that] assms(3) by auto
  from this [of 0] this [of 1] this [of 2] this [of 3] show ?thesis by (simp add: store32_def)
qed

subsection \<open>Entries\<close>

lemma present_iff: "present e \<longleftrightarrow> bit e 0"
  by (simp add: present_def PTE_P_def and_one_eq bit_0 odd_iff_mod_2_eq_one)

lemma present_or [simp]: "present (x OR PTE_P)" "present (x OR PTE_P OR y)" "\<not> present 0"
  by (simp_all add: present_iff bit_or_iff) (simp_all add: PTE_P_def)

lemma aligned_bits: "aligned x \<Longrightarrow> n < 12 \<Longrightarrow> \<not> bit x n"
proof -
  assume a: "aligned x" and n: "n < 12"
  have "unat (take_bit 12 x) = 0" using a by (simp add: aligned_unat take_bit_eq_mod unat_mod)
  then have "take_bit 12 x = 0" by (simp add: unat_eq_0)
  then have "\<not> bit (take_bit 12 x) n" by simp
  then show ?thesis using n by (simp add: bit_take_bit_iff)
qed

lemma table_of_new:
  assumes "kpage kend p"
  shows "table_of (V2P p OR PTE_P OR PTE_W OR PTE_U) = p"
proof -
  have "unat (V2P p) = unat p - 0x80000000"
    using kpage_unat [OF assms] by (simp add: V2P_def KERNBASE_def unat_sub_if_size)
  moreover obtain u where "unat p = 4096 * u" using kpage_aligned [OF assms] by (auto simp: aligned_unat mod_eq_0_iff_dvd elim!: dvdE)
  ultimately have "unat (V2P p) = 4096 * (u - 524288)" by simp
  then have al: "aligned (V2P p)" by (simp add: aligned_unat)
  have m: "PTE_P OR PTE_W OR PTE_U = mask 3" "(0xFFF :: u32) = mask 12"
    by (simp_all add: PTE_P_def PTE_W_def PTE_U_def mask_eq_exp_minus_1)
  have "PTE_ADDR (V2P p OR PTE_P OR PTE_W OR PTE_U) = V2P p"
    unfolding PTE_ADDR_def m by (rule bit_word_eqI) (use aligned_bits [OF al] in \<open>auto simp: bit_simps not_less [symmetric]\<close>)
  then show ?thesis by (simp add: table_of_def P2V_def V2P_def)
qed

subsection \<open>Finding, or making, the entry of an address\<close>

lemma pt_okD:
  assumes "pt_ok kend m d ps"
  shows "kpage kend d" "d \<notin> set ps"
    "present (pde_of m d va) \<Longrightarrow> kpage kend (table_of (pde_of m d va))"
    "present (pde_of m d va) \<Longrightarrow> table_of (pde_of m d va) \<noteq> d"
    "present (pde_of m d va) \<Longrightarrow> table_of (pde_of m d va) \<notin> set ps"
    "present (pde_of m d va) \<Longrightarrow> present (pde_of m d vb) \<Longrightarrow> table_of (pde_of m d va) = table_of (pde_of m d vb) \<Longrightarrow> PDX va = PDX vb"
  using assms unfolding pt_ok_def by blast+

text \<open>What \<^verbatim>\<open>walkpgdir\<close> does to the memory when it takes page \<open>p\<close> for a new table.\<close>

definition new_table :: "u32 \<Rightarrow> u32 \<Rightarrow> u32 \<Rightarrow> mem \<Rightarrow> mem" where
  "new_table d va p m = store32 (d + 4 * PDX va) (V2P p OR PTE_P OR PTE_W OR PTE_U) (memset p 0 PGSIZE m)"

lemma new_table_pde:
  assumes "kpage kend d" "kpage kend p" "p \<noteq> d"
  shows "pde_of (new_table d va p m) d vb = (if PDX vb = PDX va then V2P p OR PTE_P OR PTE_W OR PTE_U else pde_of m d vb)"
  using load_store_slot [OF kpage_aligned [OF assms(1)] kpage_aligned [OF assms(1)] index_bounds(1) index_bounds(1)]
    load_zero_slot [OF kpage_aligned [OF assms(2)] kpage_aligned [OF assms(1)] index_bounds(1)] assms(3)
  by (auto simp: pde_of_def new_table_def)

lemma new_table_slot:
  assumes "kpage kend d" "kpage kend p" "kpage kend t" "t \<noteq> d"
  shows "load32 (new_table d va p m) (t + 4 * PTX vb) = (if t = p then 0 else load32 m (t + 4 * PTX vb))"
  using load_store_slot [OF kpage_aligned [OF assms(1)] kpage_aligned [OF assms(3)] index_bounds(1) index_bounds(2)]
    load_zero_slot [OF kpage_aligned [OF assms(2)] kpage_aligned [OF assms(3)] index_bounds(2)] assms(4)
  by (auto simp: new_table_def)

lemma new_table_ok:
  assumes ok: "pt_ok kend m d (p # ps)" and p: "kpage kend p" "p \<notin> set ps" and ab: "\<not> present (pde_of m d va)"
  shows "pt_ok kend (new_table d va p m) d ps" "vmap (new_table d va p m) d = vmap m d"
    "table_of (pde_of (new_table d va p m) d va) = p" "present (pde_of (new_table d va p m) d va)"
proof -
  let ?m = "new_table d va p m"
  note D = pt_okD [OF ok]
  have pd: "p \<noteq> d" using D(2) by auto
  note pde = new_table_pde [OF D(1) p(1) pd]
  have in_dir: "PDX vb = PDX va \<Longrightarrow> pde_of m d vb = pde_of m d va" for vb by (simp add: pde_of_def)
  show tp: "table_of (pde_of ?m d va) = p" "present (pde_of ?m d va)"
    unfolding pde using table_of_new [OF p(1)] present_or(2) by simp_all
  have pr: "present (pde_of ?m d vb) \<longleftrightarrow> PDX vb = PDX va \<or> present (pde_of m d vb)" for vb
    using tp(2) pde [of vb] pde [of va] by simp
  have tb: "table_of (pde_of ?m d vb) = (if PDX vb = PDX va then p else table_of (pde_of m d vb))" for vb
    using tp(1) pde [of vb] pde [of va] by simp
  show "pt_ok kend ?m d ps"
    unfolding pt_ok_def
  proof (intro conjI allI impI)
    show "kpage kend d" "d \<notin> set ps" using D(1,2) by simp_all
    fix vb
    show "kpage kend (table_of (pde_of ?m d vb))" "table_of (pde_of ?m d vb) \<noteq> d" "table_of (pde_of ?m d vb) \<notin> set ps"
      if "present (pde_of ?m d vb)"
      using that p pd D(3-5) [of vb] unfolding pr tb by auto
    show "PDX vb = PDX vc"
      if "present (pde_of ?m d vb) \<and> present (pde_of ?m d vc) \<and> table_of (pde_of ?m d vb) = table_of (pde_of ?m d vc)" for vc
      using that D(5) [of vb] D(5) [of vc] D(6) [of vb vc] unfolding pr tb by (auto split: if_splits)
  qed
  show "vmap ?m d = vmap m d"
  proof
    fix vb
    show "vmap ?m d vb = vmap m d vb"
    proof (cases "PDX vb = PDX va")
      case True
      have "pte_of ?m d vb = 0" unfolding pte_of_def tb using new_table_slot [OF D(1) p(1) p(1) pd] True by simp
      then show ?thesis using ab in_dir [OF True] by (simp add: vmap_def)
    next
      case False
      have "pte_of ?m d vb = pte_of m d vb" if "present (pde_of m d vb)"
        using new_table_slot [OF D(1) p(1) D(3,4), OF that that] False D(5) [OF that]
        unfolding pte_of_def tb by simp
      then show ?thesis using False by (auto simp: vmap_def pr pde)
    qed
  qed
qed

lemma new_table_inv:
  assumes inv: "km_inv kend s ps" and p: "kpage kend p" "p \<notin> set ps" and d: "kpage kend d" "d \<notin> set ps"
  shows "km_inv kend (s\<lparr>km_mem := new_table d va p (km_mem s)\<rparr>) ps"
proof (rule km.write_law [OF inv])
  fix q a
  assume q: "q \<in> set ps" "in_page q a"
  then have al: "aligned q" "q \<noteq> p" "q \<noteq> d" using inv p(2) d(2) kpage_aligned by (auto simp: km_inv_def)
  have "\<not> in_page p a" "\<not> in_page d a"
    using in_page_unique [OF al(1) kpage_aligned [OF p(1)] q(2)] in_page_unique [OF al(1) kpage_aligned [OF d(1)] q(2)] al(2,3) by auto
  then show "new_table d va p (km_mem s) a = km_mem s a"
    using store_slot_other [OF kpage_aligned [OF d(1)] index_bounds(1)] by (simp add: new_table_def memset_page [OF kpage_aligned [OF p(1)]])
qed

lemma walk_spec:
  assumes inv: "km_inv kend s ps" and ok: "pt_ok kend (km_mem s) d ps"
  obtains r s' ps' where "walkpgdir d va True s = Ok (r, s')" "km_inv kend s' ps'" "pt_ok kend (km_mem s') d ps'" "set ps' \<subseteq> set ps"
    "vmap (km_mem s') d = vmap (km_mem s) d"
    "r = 0 \<and> ps' = [] \<or> r \<noteq> 0 \<and> present (pde_of (km_mem s') d va) \<and> r = table_of (pde_of (km_mem s') d va) + 4 * PTX va"
proof (cases "present (pde_of (km_mem s) d va)")
  case True
  have w: "walkpgdir d va True s = Ok (table_of (pde_of (km_mem s) d va) + 4 * PTX va, s)"
    using True by (simp add: walkpgdir_def ld_def pde_of_def table_of_def Let_def)
  have k: "kpage kend (table_of (pde_of (km_mem s) d va))" by (rule pt_okD(3) [OF ok True])
  have "unat (table_of (pde_of (km_mem s) d va) + 4 * PTX va) \<noteq> 0"
    using slot_unat [OF kpage_aligned [OF k] index_bounds(2), of 0] kpage_unat(1) [OF k] by simp
  then have "table_of (pde_of (km_mem s) d va) + 4 * PTX va \<noteq> 0" by auto
  then show thesis using that [OF w inv ok] True by simp
next
  case False
  obtain s1 where s1: "kalloc s = Ok (if ps = [] then 0 else hd ps, s1)" "km_inv kend s1 (tl ps)" "km_mem s1 = km_mem s"
    using km.alloc_law [OF inv] by blast
  show thesis
  proof (cases ps)
    case Nil
    have w: "walkpgdir d va True s = Ok (0, s1)" using False s1(1) Nil by (simp add: walkpgdir_def ld_def pde_of_def Let_def)
    then show thesis using that [OF w s1(2)] ok s1(3) Nil by simp
  next
    case (Cons p qs)
    have p: "kpage kend p" "p \<notin> set qs" using inv Cons by (auto simp: km_inv_def)
    have d: "kpage kend d" "d \<notin> set qs" using pt_okD(1,2) [OF ok] Cons by auto
    let ?s = "s1\<lparr>km_mem := new_table d va p (km_mem s1)\<rparr>"
    have w: "walkpgdir d va True s = Ok (p + 4 * PTX va, ?s)"
      using False s1(1) Cons kpage_nonzero [OF p(1)]
      by (simp add: walkpgdir_def ld_def pde_of_def Let_def st_def zero_page_def new_table_def or.assoc)
    note n = new_table_ok [OF ok [unfolded Cons] p False]
    have "unat (p + 4 * PTX va) \<noteq> 0" using slot_unat [OF kpage_aligned [OF p(1)] index_bounds(2), of 0] kpage_unat(1) [OF p(1)] by simp
    then have "p + 4 * PTX va \<noteq> 0" by auto
    then show thesis using that [OF w new_table_inv [OF s1(2) [unfolded Cons list.sel] p d]] n s1(3) Cons by auto
  qed
qed

subsection \<open>Setting an entry\<close>

lemma set_entry:
  assumes inv: "km_inv kend s ps" and ok: "pt_ok kend (km_mem s) d ps" and pr: "present (pde_of (km_mem s) d va)" and w: "present w"
  defines "s' \<equiv> st (table_of (pde_of (km_mem s) d va) + 4 * PTX va) w s"
  shows "km_inv kend s' ps" "pt_ok kend (km_mem s') d ps"
    "vmap (km_mem s') d vb = (if in_page va vb then Some w else vmap (km_mem s) d vb)"
proof -
  let ?m = "km_mem s"
  let ?t = "table_of (pde_of ?m d va)"
  note D = pt_okD [OF ok]
  have t: "kpage kend ?t" "?t \<noteq> d" "?t \<notin> set ps" by (rule D(3) [OF pr], rule D(4) [OF pr], rule D(5) [OF pr])
  note at = kpage_aligned [OF t(1)] and ad = kpage_aligned [OF D(1)]
  have m: "km_mem s' = store32 (?t + 4 * PTX va) w ?m" by (simp add: s'_def st_def)
  have pde: "pde_of (km_mem s') d vc = pde_of ?m d vc" for vc
    using load_store_slot [OF at ad index_bounds(2) index_bounds(1)] t(2) by (simp add: m pde_of_def)
  show "pt_ok kend (km_mem s') d ps" using ok unfolding pt_ok_def pde .
  show "km_inv kend s' ps"
    unfolding s'_def st_def
    by (rule km.owner_write [OF inv t(1,3)]) (rule store_slot_other [OF at index_bounds(2)])
  have pte: "pte_of (km_mem s') d vb = (if in_page va vb then w else pte_of ?m d vb)" if b: "present (pde_of ?m d vb)"
  proof -
    have "?t = table_of (pde_of ?m d vb) \<longleftrightarrow> PDX va = PDX vb"
      using D(6) [OF pr b] by (auto simp: pde_of_def)
    then have e: "?t = table_of (pde_of ?m d vb) \<and> PTX va = PTX vb \<longleftrightarrow> in_page va vb" using same_page_iff [of va vb] by blast
    show ?thesis
      unfolding pte_of_def pde unfolding m load_store_slot [OF at kpage_aligned [OF D(3) [OF b]] index_bounds(2) index_bounds(2)] e ..
  qed
  show "vmap (km_mem s') d vb = (if in_page va vb then Some w else vmap ?m d vb)"
  proof (cases "in_page va vb")
    case True
    then have "PDX vb = PDX va" using same_page_iff [of va vb] by simp
    then have "present (pde_of ?m d vb)" using pr by (simp add: pde_of_def)
    then show ?thesis using True pte w by (simp add: vmap_def pde)
  next
    case False
    then show ?thesis using pte by (auto simp: vmap_def pde)
  qed
qed

subsection \<open>Mapping a range\<close>

definition mapped_by :: "u32 list \<Rightarrow> u32 \<Rightarrow> u32 \<Rightarrow> (u32 \<Rightarrow> u32 option) \<Rightarrow> bool" where
  "mapped_by as pa perm v \<longleftrightarrow> (\<forall>i<length as. v (as ! i) = Some ((pa + of_nat i * PGSIZE) OR perm OR PTE_P))"

definition same_outside :: "u32 list \<Rightarrow> (u32 \<Rightarrow> u32 option) \<Rightarrow> (u32 \<Rightarrow> u32 option) \<Rightarrow> bool" where
  "same_outside as v v' \<longleftrightarrow> (\<forall>x. (\<forall>a\<in>set as. \<not> in_page a x) \<longrightarrow> v' x = v x)"

fun pages_distinct :: "u32 list \<Rightarrow> bool" where
  "pages_distinct [] \<longleftrightarrow> True"
| "pages_distinct (a # as) \<longleftrightarrow> (\<forall>b\<in>set as. \<not> in_page a b) \<and> pages_distinct as"

lemma in_page_sym: "in_page a b \<longleftrightarrow> in_page b a"
  by (auto simp: in_page_def)

lemma mappages_loop_spec:
  assumes "km_inv kend s ps" "pt_ok kend (km_mem s) d ps" "pages_distinct as" "\<forall>a\<in>set as. vmap (km_mem s) d a = None"
  shows "\<exists>r s' ps'. mappages_loop as d pa perm s = Ok (r, s') \<and> km_inv kend s' ps' \<and> pt_ok kend (km_mem s') d ps' \<and> set ps' \<subseteq> set ps
    \<and> (r = 0 \<and> mapped_by as pa perm (vmap (km_mem s') d) \<or> r = - 1 \<and> ps' = [])
    \<and> same_outside as (vmap (km_mem s) d) (vmap (km_mem s') d)"
  using assms
proof (induction as arbitrary: pa s ps)
  case Nil
  then show ?case by (auto simp: mapped_by_def same_outside_def)
next
  case (Cons a as)
  obtain r s1 ps1 where w: "walkpgdir d a True s = Ok (r, s1)" "km_inv kend s1 ps1" "pt_ok kend (km_mem s1) d ps1" "set ps1 \<subseteq> set ps"
    "vmap (km_mem s1) d = vmap (km_mem s) d"
    "r = 0 \<and> ps1 = [] \<or> r \<noteq> 0 \<and> present (pde_of (km_mem s1) d a) \<and> r = table_of (pde_of (km_mem s1) d a) + 4 * PTX a"
    by (rule walk_spec [OF Cons.prems(1,2), of a])
  show ?case
  proof (cases "r = 0")
    case True
    then show ?thesis using w by (auto simp: same_outside_def)
  next
    case False
    then have r: "present (pde_of (km_mem s1) d a)" "r = table_of (pde_of (km_mem s1) d a) + 4 * PTX a" using w(6) by auto
    have "vmap (km_mem s1) d a = None" using Cons.prems(4) w(5) by simp
    then have np: "\<not> present (ld s1 r)" using r by (simp add: vmap_def pte_of_def ld_def split: if_splits)
    let ?e = "pa OR perm OR PTE_P"
    let ?s = "st r ?e s1"
    have pe: "present ?e" using present_or(1) [of "pa OR perm"] by (simp only: or.assoc)
    note e = set_entry [OF w(2,3) r(1) pe, folded r(2)]
    have fr: "\<forall>b\<in>set as. vmap (km_mem ?s) d b = None" using Cons.prems(3,4) e(3) w(5) by simp
    have pd: "pages_distinct as" "\<forall>b\<in>set as. \<not> in_page b a" using Cons.prems(3) in_page_sym [of a] by simp_all
    obtain r' s' ps' where i: "mappages_loop as d (pa + PGSIZE) perm ?s = Ok (r', s')" "km_inv kend s' ps'" "pt_ok kend (km_mem s') d ps'"
      "set ps' \<subseteq> set ps1" "r' = 0 \<and> mapped_by as (pa + PGSIZE) perm (vmap (km_mem s') d) \<or> r' = - 1 \<and> ps' = []"
      "same_outside as (vmap (km_mem ?s) d) (vmap (km_mem s') d)"
      using Cons.IH [OF e(1,2) pd(1) fr, of "pa + PGSIZE"] by (elim exE conjE)
    have "vmap (km_mem s') d a = vmap (km_mem ?s) d a" using i(6) pd(2) unfolding same_outside_def by blast
    also have "\<dots> = Some ?e" using e(3) [of a] by (simp add: in_page_def)
    finally have "mapped_by as (pa + PGSIZE) perm (vmap (km_mem s') d) \<longrightarrow> mapped_by (a # as) pa perm (vmap (km_mem s') d)"
      by (auto simp: mapped_by_def nth_Cons algebra_simps split: nat.split)
    then have "r' = 0 \<and> mapped_by (a # as) pa perm (vmap (km_mem s') d) \<or> r' = - 1 \<and> ps' = []" using i(5) by blast
    moreover have "same_outside (a # as) (vmap (km_mem s) d) (vmap (km_mem s') d)"
      using i(6) e(3) w(5) by (simp add: same_outside_def)
    moreover have "mappages_loop (a # as) d pa perm s = Ok (r', s')" using w(1) False np i(1) by simp
    moreover have "set ps' \<subseteq> set ps" using i(4) w(4) by blast
    ultimately show ?thesis using i(2,3) by (intro exI conjI)
  qed
qed

lemma unat_of_nat_small: "x < 2 ^ 32 \<Longrightarrow> unat (of_nat x :: u32) = x"
  by (simp add: unsigned_of_nat take_bit_nat_eq_self)

lemma pages_distinct_upt:
  assumes a: "aligned a" and n: "n \<le> 2 ^ 20"
  shows "pages_distinct (map (\<lambda>i. a + of_nat i * PGSIZE) [k..<n])"
proof -
  have al: "aligned (a + of_nat i * PGSIZE)" for i
    using unat_mod_dvd [of 4096 a "i * 4096"] a by (simp add: aligned_unat PGSIZE_def mod_simps)
  have inj: "i = j" if "in_page (a + of_nat i * PGSIZE) (a + of_nat j * PGSIZE)" "i < n" "j < n" for i j
  proof -
    have "a + of_nat i * PGSIZE = a + of_nat j * PGSIZE"
      using in_page_unique [OF al al, of i "a + of_nat j * PGSIZE" j] that(1) by (simp add: in_page_def)
    then have "(of_nat (i * 4096) :: u32) = of_nat (j * 4096)" by (simp add: PGSIZE_def)
    then have "unat (of_nat (i * 4096) :: u32) = unat (of_nat (j * 4096) :: u32)" by (simp only:)
    moreover have "i * 4096 < 2 ^ 32" "j * 4096 < 2 ^ 32" using that(2,3) n by simp_all
    ultimately have "i * 4096 = j * 4096" using unat_of_nat_small by metis
    then show "i = j" by simp
  qed
  show ?thesis
  proof (induction "n - k" arbitrary: k)
    case (Suc l)
    then have k: "[k..<n] = k # [Suc k..<n]" by (simp add: upt_conv_Cons)
    have "pages_distinct (map (\<lambda>i. a + of_nat i * PGSIZE) [Suc k..<n])" by (rule Suc.hyps) (use Suc in simp)
    then show ?case unfolding k using inj [of k] Suc.hyps(2) by fastforce
  qed simp
qed

lemma pages_to_distinct:
  assumes "aligned a"
  shows "pages_distinct (pages_to a la)"
proof -
  have "unat (la - a) div 4096 < 2 ^ 20" by (rule less_mult_imp_div_less) (use unsigned_less [of "la - a", where 'a = nat] in simp)
  then show ?thesis unfolding pages_to_def by (intro pages_distinct_upt [OF assms]) simp
qed

lemma aligned_down: "aligned (PGROUNDDOWN va)"
  by (simp add: aligned_unat PGROUNDDOWN_def round_down)

text \<open>
  C12. \<^verbatim>\<open>mappages\<close> on a well-formed page directory and a range none of whose pages is mapped: it
  returns, leaving the directory and the allocator well formed. If it returns 0, the hardware
  finds for the i-th page of the range the i-th page from \<^verbatim>\<open>pa\<close> with the permissions asked for; it
  returns -1 only when the allocator has no page left. The translation of every address outside
  of the range is unchanged.
\<close>
theorem mappages_maps_range:
  assumes inv: "km_inv kend s ps" and ok: "pt_ok kend (km_mem s) d ps"
    and fresh: "\<forall>a\<in>set (pages_to (PGROUNDDOWN va) (PGROUNDDOWN (va + sz - 1))). vmap (km_mem s) d a = None"
  shows "\<exists>r s' ps'. mappages d va sz pa perm s = Ok (r, s') \<and> km_inv kend s' ps' \<and> pt_ok kend (km_mem s') d ps'
    \<and> (r = 0 \<and> mapped_by (pages_to (PGROUNDDOWN va) (PGROUNDDOWN (va + sz - 1))) pa perm (vmap (km_mem s') d) \<or> r = - 1 \<and> ps' = [])
    \<and> same_outside (pages_to (PGROUNDDOWN va) (PGROUNDDOWN (va + sz - 1))) (vmap (km_mem s) d) (vmap (km_mem s') d)"
  using mappages_loop_spec [OF inv ok pages_to_distinct [OF aligned_down] fresh, of pa perm] unfolding mappages_def by blast

subsection \<open>The fuel of \<^verbatim>\<open>deallocuvm\<close>\<close>

text \<open>The two ways the loop raises its address: by a page, and to the start of the next directory entry.\<close>

lemma next_page_unat: "unat a < 0x80000000 \<Longrightarrow> unat (a + PGSIZE) = unat a + 4096"
  by (subst unat_add_lem [THEN iffD1]) (simp_all add: PGSIZE_def)

lemma next_entry:
  assumes a: "aligned a" "unat a < 0x80000000"
  defines "b \<equiv> PGADDR (PDX a + 1) 0 0 - PGSIZE + PGSIZE"
  shows "aligned b" "unat a + 4096 \<le> unat b"
proof -
  have d: "unat (PDX a) = unat a div 4194304" by (simp add: unat_PDX div_mult2_eq [symmetric])
  have "unat a div 4194304 < 512" by (rule less_mult_imp_div_less) (use a(2) in simp)
  then have s: "unat (PDX a + 1) = unat a div 4194304 + 1" by (subst unat_add_lem [THEN iffD1]) (simp_all add: d)
  have "b = (PDX a + 1) * 4194304" by (simp add: b_def PGADDR_def push_bit_eq_mult)
  moreover have "unat ((PDX a + 1) * 4194304) = (unat a div 4194304 + 1) * 4194304"
    using \<open>unat a div 4194304 < 512\<close> by (subst unat_mult_lem [THEN iffD1]) (simp_all only: s, simp_all)
  ultimately have u: "unat b = (unat a div 4194304 + 1) * 4194304" by simp
  then have "unat b = 4096 * ((unat a div 4194304 + 1) * 1024)" by simp
  then show al: "aligned b" by (simp only: aligned_unat mod_mult_self1_is_0)
  have "unat a < unat b" unfolding u using dividend_less_div_times [of 4194304 "unat a"] by simp
  then show "unat a + 4096 \<le> unat b" using aligned_less [OF a(1) al] by simp
qed

lemma dealloc_enough_fuel:
  assumes "unat oldsz \<le> 0x80000000" "aligned a" "unat oldsz \<le> unat a + 4096 * n"
  shows "deallocuvm_loop (Suc n + k) kend d a oldsz s = deallocuvm_loop (Suc n) kend d a oldsz s"
  using assms(2,3)
proof (induction n arbitrary: a s)
  case 0
  then show ?case by (simp add: word_less_nat_alt)
next
  case (Suc n)
  show ?case
  proof (cases "a < oldsz")
    case True
    then have lt: "unat a < 0x80000000" using assms(1) by (simp add: word_less_nat_alt)
    have p: "aligned (a + PGSIZE)" "unat oldsz \<le> unat (a + PGSIZE) + 4096 * n"
      using Suc.prems next_page_unat [OF lt] by (simp_all add: aligned_unat)
    have q: "unat oldsz \<le> unat (PGADDR (PDX a + 1) 0 0 - PGSIZE + PGSIZE) + 4096 * n"
      using next_entry(2) [OF Suc.prems(1) lt] Suc.prems(2) by simp
    note ih = Suc.IH [OF p, unfolded add_Suc] Suc.IH [OF next_entry(1) [OF Suc.prems(1) lt] q, unfolded add_Suc]
    show ?thesis unfolding add_Suc deallocuvm_loop.simps(2) [of "Suc (n + k)"] deallocuvm_loop.simps(2) [of "Suc n"] ih ..
  qed simp
qed

lemma deallocuvm_fuel:
  assumes "oldsz \<le> KERNBASE" "newsz < oldsz"
  shows "deallocuvm kend d oldsz newsz s =
    rbind (deallocuvm_loop (Suc (unat oldsz div 4096 + 1) + k) kend d (PGROUNDUP newsz) oldsz s) (\<lambda>s. Ok (newsz, s))"
proof -
  have b: "unat oldsz \<le> 0x80000000" "unat newsz \<le> 0x8E000000"
    using assms by (simp_all add: KERNBASE_def word_le_nat_alt word_less_nat_alt)
  have "unat oldsz \<le> unat (PGROUNDUP newsz) + 4096 * (unat oldsz div 4096 + 1)"
    using dividend_less_div_times [of 4096 "unat oldsz"] by simp
  note f = dealloc_enough_fuel [OF b(1) round_up_props(1) [OF b(2)] this]
  have "\<not> newsz \<ge> oldsz" using assms(2) by simp
  then show ?thesis unfolding deallocuvm_def f by (rule if_not_P)
qed

text \<open>An empty directory and two free pages: one page mapped at \<open>0x1000\<close>.\<close>

definition demo_km :: kmem where
  "demo_km = \<lparr>km_lock = False, km_use_lock = True, km_freelist = 0x80114000, km_mem = (\<lambda>_. 0)\<rparr>"

theorem mappages_maps_range_witness:
  "\<exists>r s'. mappages 0x80113000 0x1000 0x1000 0x200000 6 demo_km = Ok (r, s')
    \<and> (r = 0 \<and> vmap (km_mem s') 0x80113000 0x1000 = Some 0x200007 \<or> r = - 1)"
proof -
  have k: "kpage 0x80112000 0x80113000" "kpage 0x80112000 0x80114000"
    by (simp_all add: kpage_def PGSIZE_def V2P_def PHYSTOP_def KERNBASE_def)
  have z: "load32 (\<lambda>_. 0) a = 0" for a by (simp add: load32_def)
  have inv: "km_inv 0x80112000 demo_km [0x80114000]" using k by (simp add: km_inv_def demo_km_def z)
  have ok: "pt_ok 0x80112000 (km_mem demo_km) 0x80113000 [0x80114000]"
    using k by (simp add: pt_ok_def pde_of_def demo_km_def z)
  have pg: "pages_to (PGROUNDDOWN 0x1000) (PGROUNDDOWN (0x1000 + 0x1000 - 1)) = [0x1000]"
    by (simp add: pages_to_def PGROUNDDOWN_def PGSIZE_def)
  have fr: "\<forall>a\<in>set (pages_to (PGROUNDDOWN 0x1000) (PGROUNDDOWN (0x1000 + 0x1000 - 1))). vmap (km_mem demo_km) 0x80113000 a = None"
    by (simp add: vmap_def pde_of_def demo_km_def z)
  show ?thesis using mappages_maps_range [OF inv ok fr, where pa = "0x200000" and perm = 6] unfolding pg by (auto simp: mapped_by_def PTE_P_def)
qed

end
