(* ===== verification/Exec.thy ===== *)
theory Exec
  imports SysfileProps VmProps
begin

section \<open>Executing a program (\<^verbatim>\<open>exec.c\<close>, \<^verbatim>\<open>sys_exec\<close>)\<close>

text \<open>
  \<^verbatim>\<open>exec\<close> on the state of theory \<open>File\<close>: the strings that \<^verbatim>\<open>argv\<close> points to are given as lists of
  bytes, and a jump to \<^verbatim>\<open>bad\<close> is the value \<open>None\<close> of the part that jumps. When \<^verbatim>\<open>switchuvm\<close> loads the
  new page directory, the memory of the process becomes what that directory maps.
\<close>

unbundle bit_operations_syntax

definition ELF_MAGIC :: u32 where "ELF_MAGIC = 0x464C457F"
definition ELF_PROG_LOAD :: u32 where "ELF_PROG_LOAD = 1"

record elfhdr =
  e_magic :: u32
  e_entry :: u32
  e_phoff :: u32
  e_phnum :: u16

record proghdr =
  ph_type :: u32
  ph_off :: u32
  ph_vaddr :: u32
  ph_filesz :: u32
  ph_memsz :: u32

definition sizeof_elfhdr :: u32 where "sizeof_elfhdr = 52"
definition sizeof_proghdr :: u32 where "sizeof_proghdr = 32"

definition decode_elf :: "u8 list \<Rightarrow> elfhdr" where
  "decode_elf b = \<lparr>e_magic = get32 b 0, e_entry = get32 b 24, e_phoff = get32 b 28, e_phnum = get16 b 44\<rparr>"

definition decode_ph :: "u8 list \<Rightarrow> proghdr" where
  "decode_ph b = \<lparr>ph_type = get32 b 0, ph_off = get32 b 4, ph_vaddr = get32 b 8, ph_filesz = get32 b 16, ph_memsz = get32 b 20\<rparr>"

definition on_km :: "(kmem \<Rightarrow> ('a \<times> kmem) res) \<Rightarrow> kfs \<Rightarrow> ('a \<times> kfs) res" where
  "on_km g s = rbind (g (kf_km s)) (\<lambda>(r, k). Ok (r, s\<lparr>kf_km := k\<rparr>))"

definition kf_readi :: "(nat \<Rightarrow> devsw_ops) \<Rightarrow> nat \<Rightarrow> u32 \<Rightarrow> u32 \<Rightarrow> kfs \<Rightarrow> (int \<times> u8 list \<times> kfs) res" where
  "kf_readi devsw ip off n s = rbind (readi devsw ip off n (kf_fs s)) (\<lambda>(r, b, x). Ok (r, b, s\<lparr>kf_fs := x\<rparr>))"

definition kf_loaduvm :: "(nat \<Rightarrow> devsw_ops) \<Rightarrow> u32 \<Rightarrow> u32 \<Rightarrow> nat \<Rightarrow> u32 \<Rightarrow> u32 \<Rightarrow> kfs \<Rightarrow> (int \<times> kfs) res" where
  "kf_loaduvm devsw pgdir addr ip off sz s =
     rbind (loaduvm devsw pgdir addr ip off sz (kf_fs s, kf_km s)) (\<lambda>(r, x, k). Ok (r, s\<lparr>kf_fs := x, kf_km := k\<rparr>))"

definition exec_bad :: "u32 \<Rightarrow> nat option \<Rightarrow> kfs \<Rightarrow> (int \<times> kfs) res" where
  "exec_bad pgdir ip s =
     rbind (if pgdir \<noteq> 0 then on_km (\<lambda>k. rbind (freevm (kf_end s) pgdir k) (\<lambda>k. Ok ((), k))) s else Ok ((), s)) (\<lambda>(_, s).
     case ip of
       Some ip \<Rightarrow> rbind (on_fs (iunlockput ip) s) fail_op
     | None \<Rightarrow> Ok (- 1, s))"

fun load_segments :: "(nat \<Rightarrow> devsw_ops) \<Rightarrow> nat \<Rightarrow> u32 \<Rightarrow> u32 \<Rightarrow> nat \<Rightarrow> u32 \<Rightarrow> kfs \<Rightarrow> (u32 option \<times> kfs) res" where
  "load_segments devsw 0 pgdir sz ip off s = Ok (Some sz, s)"
| "load_segments devsw (Suc n) pgdir sz ip off s =
     rbind (kf_readi devsw ip off sizeof_proghdr s) (\<lambda>(r, b, s).
     if r \<noteq> sint sizeof_proghdr then Ok (None, s)
     else
       let ph = decode_ph b in
       if ph_type ph \<noteq> ELF_PROG_LOAD then load_segments devsw n pgdir sz ip (off + sizeof_proghdr) s
       else if ph_memsz ph < ph_filesz ph then Ok (None, s)
       else if ph_vaddr ph + ph_memsz ph < ph_vaddr ph then Ok (None, s)
       else
         rbind (on_km (allocuvm (kf_end s) pgdir sz (ph_vaddr ph + ph_memsz ph)) s) (\<lambda>(sz, s).
         if sz = 0 then Ok (None, s)
         else if ph_vaddr ph mod PGSIZE \<noteq> 0 then Ok (None, s)
         else
           rbind (kf_loaduvm devsw pgdir (ph_vaddr ph) ip (ph_off ph) (ph_filesz ph) s) (\<lambda>(r, s).
           if r < 0 then Ok (None, s) else load_segments devsw n pgdir sz ip (off + sizeof_proghdr) s)))"

text \<open>The loop that copies the argument strings to the new stack; \<open>us\<close> are the addresses it stores.\<close>

fun push_args :: "u32 \<Rightarrow> u8 list list \<Rightarrow> nat \<Rightarrow> u32 \<Rightarrow> u32 list \<Rightarrow> kfs \<Rightarrow> ((nat \<times> u32 \<times> u32 list) option \<times> kfs) res" where
  "push_args pgdir [] argc sp us s = Ok (Some (argc, sp, us), s)"
| "push_args pgdir (a # as) argc sp us s =
     (if argc \<ge> MAXARG then Ok (None, s)
      else
        let sp = (sp - of_nat (length a + 1)) AND NOT 3 in
        rbind (on_km (copyout pgdir sp (a @ [0])) s) (\<lambda>(r, s).
        if r < 0 then Ok (None, s) else push_args pgdir as (argc + 1) sp (us @ [sp]) s))"

definition word_bytes :: "u32 \<Rightarrow> u8 list" where
  "word_bytes w = [ucast w, ucast (drop_bit 8 w), ucast (drop_bit 16 w), ucast (drop_bit 24 w)]"

definition last_elem :: "u8 list \<Rightarrow> u8 list" where
  "last_elem path = rev (takeWhile (\<lambda>c. c \<noteq> slash) (rev path))"

definition user_view :: "kmem \<Rightarrow> u32 \<Rightarrow> mem" where
  "user_view k d = (\<lambda>a. case vmap (km_mem k) d a of Some e \<Rightarrow> km_mem k (P2V (PTE_ADDR e) + (a AND 0xFFF)) | None \<Rightarrow> 0)"

text \<open>The last part: the new image is installed and the old one freed.\<close>

definition exec_commit :: "u8 list \<Rightarrow> u32 \<Rightarrow> u32 \<Rightarrow> u32 \<Rightarrow> u32 \<Rightarrow> kfs \<Rightarrow> (int \<times> kfs) res" where
  "exec_commit path entry pgdir sz sp s =
     (let oldpgdir = p_pgdir (kf_proc s);
          s = s\<lparr>kf_proc := (kf_proc s)\<lparr>p_name := map (\<lambda>b. char_of (unat b)) (take 15 (last_elem path)), p_pgdir := pgdir, p_sz := sz,
                 p_tf := (p_tf (kf_proc s))\<lparr>tf_eip := entry, tf_esp := sp\<rparr>\<rparr>\<rparr> in
      if p_kstack (kf_proc s) = 0 then Panic ''switchuvm: no kstack''
      else if p_pgdir (kf_proc s) = 0 then Panic ''switchuvm: no pgdir''
      else
        let s = s\<lparr>kf_um := user_view (kf_km s) pgdir\<rparr> in
        rbind (on_km (\<lambda>k. rbind (freevm (kf_end s) oldpgdir k) (\<lambda>k. Ok ((), k))) s) (\<lambda>(_, s).
        Ok (0, s)))"

text \<open>From the second \<^verbatim>\<open>allocuvm\<close> on, when the inode is already released.\<close>

definition exec_stack :: "u8 list \<Rightarrow> u8 list list \<Rightarrow> u32 \<Rightarrow> u32 \<Rightarrow> u32 \<Rightarrow> kfs \<Rightarrow> (int \<times> kfs) res" where
  "exec_stack path argv entry pgdir sz s =
     (let sz = PGROUNDUP sz in
      rbind (on_km (allocuvm (kf_end s) pgdir sz (sz + 2 * PGSIZE)) s) (\<lambda>(sz, s).
      if sz = 0 then exec_bad pgdir None s
      else
        rbind (on_km (\<lambda>k. rbind (clearpteu pgdir (sz - 2 * PGSIZE) k) (\<lambda>k. Ok ((), k))) s) (\<lambda>(_, s).
        rbind (push_args pgdir argv 0 sz [] s) (\<lambda>(r, s).
        case r of
          None \<Rightarrow> exec_bad pgdir None s
        | Some (argc, sp, us) \<Rightarrow>
            let ustack = [0xFFFFFFFF, of_nat argc, sp - (of_nat argc + 1) * 4] @ us @ [0];
                sp = sp - (3 + of_nat argc + 1) * 4 in
            rbind (on_km (copyout pgdir sp (concat (map word_bytes ustack))) s) (\<lambda>(r, s).
            if r < 0 then exec_bad pgdir None s else exec_commit path entry pgdir sz sp s)))))"

text \<open>From \<^verbatim>\<open>setupkvm\<close> on, with the inode locked and the header read.\<close>

definition exec_load :: "(nat \<Rightarrow> devsw_ops) \<Rightarrow> u32 \<Rightarrow> u8 list \<Rightarrow> u8 list list \<Rightarrow> elfhdr \<Rightarrow> nat \<Rightarrow> kfs \<Rightarrow> (int \<times> kfs) res" where
  "exec_load devsw kdata path argv elf ip s =
     rbind (on_km (setupkvm (kf_end s) kdata) s) (\<lambda>(pgdir, s).
     if pgdir = 0 then exec_bad 0 (Some ip) s
     else
       rbind (load_segments devsw (unat (e_phnum elf)) pgdir 0 ip (e_phoff elf) s) (\<lambda>(sz, s).
       case sz of
         None \<Rightarrow> exec_bad pgdir (Some ip) s
       | Some sz \<Rightarrow>
           rbind (on_fs (iunlockput ip) s) (\<lambda>s.
           rbind (kf_end_op s) (\<lambda>s.
           exec_stack path argv (e_entry elf) pgdir sz s))))"

definition exec :: "(nat \<Rightarrow> devsw_ops) \<Rightarrow> u32 \<Rightarrow> u8 list \<Rightarrow> u8 list list \<Rightarrow> kfs \<Rightarrow> (int \<times> kfs) res" where
  "exec devsw kdata path argv s =
     rbind (kf_begin_op s) (\<lambda>s.
     rbind (kf_namei devsw path s) (\<lambda>(ip, s).
     case ip of None \<Rightarrow> fail_op s | Some ip \<Rightarrow>
     rbind (on_fs (ilock (Some ip)) s) (\<lambda>s.
     rbind (kf_readi devsw ip 0 sizeof_elfhdr s) (\<lambda>(r, b, s).
     let elf = decode_elf b in
     if r \<noteq> sint sizeof_elfhdr \<or> e_magic elf \<noteq> ELF_MAGIC then exec_bad 0 (Some ip) s
     else exec_load devsw kdata path argv elf ip s))))"

text \<open>The loop of \<^verbatim>\<open>sys_exec\<close>, with the number of slots of \<^verbatim>\<open>argv\<close> that are left.\<close>

fun fetch_args :: "nat \<Rightarrow> u32 \<Rightarrow> kfs \<Rightarrow> u8 list list option" where
  "fetch_args 0 uargv s = None"
| "fetch_args (Suc k) uargv s =
     (case fetchint (kf_proc s) (kf_um s) uargv of
        None \<Rightarrow> None
      | Some uarg \<Rightarrow>
          if uarg = 0 then Some []
          else case fetchstr (kf_proc s) (kf_um s) (of_int uarg) of
            None \<Rightarrow> None
          | Some len \<Rightarrow> map_option (\<lambda>as. bytes_at (kf_um s) (of_int uarg) len # as) (fetch_args k (uargv + 4) s))"

definition sys_exec :: "(nat \<Rightarrow> devsw_ops) \<Rightarrow> u32 \<Rightarrow> kfs \<Rightarrow> (int \<times> kfs) res" where
  "sys_exec devsw kdata s =
     (case arg_path s 0 of None \<Rightarrow> Ok (- 1, s) | Some path \<Rightarrow>
      case arg_int s 1 of None \<Rightarrow> Ok (- 1, s) | Some uargv \<Rightarrow>
      case fetch_args MAXARG (of_int uargv) s of None \<Rightarrow> Ok (- 1, s) | Some argv \<Rightarrow>
      exec devsw kdata path argv s)"

subsection \<open>A failing \<^verbatim>\<open>exec\<close> leaves the process alone\<close>

definition same_image :: "kfs \<Rightarrow> kfs \<Rightarrow> bool" where
  "same_image s s' \<longleftrightarrow> kf_proc s' = kf_proc s \<and> kf_um s' = kf_um s \<and> ftable s' = ftable s"

lemma same_image_refl [simp]: "same_image s s"
  by (simp add: same_image_def)

lemma same_image_trans: "same_image s s' \<Longrightarrow> same_image s' s'' \<Longrightarrow> same_image s s''"
  by (simp add: same_image_def)

lemma image_ops:
  "on_fs g s = Ok s' \<Longrightarrow> same_image s s'" "on_km h s = Ok (r, s') \<Longrightarrow> same_image s s'"
  "kf_begin_op s = Ok s' \<Longrightarrow> same_image s s'" "kf_end_op s = Ok s' \<Longrightarrow> same_image s s'"
  "kf_namei devsw path s = Ok (ip, s') \<Longrightarrow> same_image s s'"
  "kf_readi devsw i off n s = Ok (q, b, s') \<Longrightarrow> same_image s s'"
  "kf_loaduvm devsw pgdir addr i off sz s = Ok (q, s') \<Longrightarrow> same_image s s'"
  "fail_op s = Ok (q, s') \<Longrightarrow> same_image s s' \<and> q = - 1"
  by (auto simp: on_fs_def on_km_def kf_begin_op_def kf_end_op_def kf_namei_def kf_readi_def kf_loaduvm_def fail_op_def
      rbind_eq_Ok same_image_def)

lemma exec_bad_image:
  assumes "exec_bad pgdir ip s = Ok (r, s')"
  shows "same_image s s' \<and> r = - 1"
proof -
  obtain s1 where 1: "(if pgdir \<noteq> 0 then on_km (\<lambda>k. rbind (freevm (kf_end s) pgdir k) (\<lambda>k. Ok ((), k))) s else Ok ((), s)) = Ok ((), s1)"
    "(case ip of Some ip \<Rightarrow> rbind (on_fs (iunlockput ip) s1) fail_op | None \<Rightarrow> Ok (- 1, s1)) = Ok (r, s')"
    using assms unfolding exec_bad_def by (auto simp: rbind_eq_Ok)
  have "same_image s s1" using 1(1) by (cases "pgdir = 0") (auto dest: image_ops(2))
  then show ?thesis using 1(2)
    by (cases ip) (auto simp: rbind_eq_Ok dest: image_ops(1,8) intro: same_image_trans)
qed

lemma load_segments_image: "load_segments devsw n pgdir sz ip off s = Ok (r, s') \<Longrightarrow> same_image s s'"
proof (induction n arbitrary: sz off s)
  case (Suc n)
  then show ?case
    by (auto simp: rbind_eq_Ok Let_def split: if_splits dest!: image_ops(2,6,7) Suc.IH intro: same_image_trans)
qed simp

lemma push_args_image: "push_args pgdir as argc sp us s = Ok (r, s') \<Longrightarrow> same_image s s'"
proof (induction as arbitrary: argc sp us s)
  case (Cons a as)
  then show ?case
    by (auto simp: rbind_eq_Ok Let_def split: if_splits dest!: image_ops(2) Cons.IH intro: same_image_trans)
qed simp

text \<open>What a successful \<^verbatim>\<open>exec\<close> makes of the process.\<close>

definition new_image :: "u8 list \<Rightarrow> kfs \<Rightarrow> kfs \<Rightarrow> bool" where
  "new_image path s s' \<longleftrightarrow> ftable s' = ftable s \<and>
     (\<exists>d sz e sp. d \<noteq> 0 \<and> kf_proc s' = (kf_proc s)\<lparr>p_name := map (\<lambda>b. char_of (unat b)) (take 15 (last_elem path)), p_pgdir := d, p_sz := sz,
        p_tf := (p_tf (kf_proc s))\<lparr>tf_eip := e, tf_esp := sp\<rparr>\<rparr>)"

lemma new_image_cong: "same_image s t \<Longrightarrow> new_image path t s' = new_image path s s'"
  by (simp add: new_image_def same_image_def)

lemma exec_commit_image: "exec_commit path entry pgdir sz sp s = Ok (r, s') \<Longrightarrow> r = 0 \<and> new_image path s s'"
  by (auto simp: exec_commit_def Let_def rbind_eq_Ok new_image_def dest!: image_ops(2) split: if_splits) (auto simp: same_image_def)

definition all_or_nothing :: "u8 list \<Rightarrow> kfs \<Rightarrow> int \<Rightarrow> kfs \<Rightarrow> bool" where
  "all_or_nothing path s r s' \<longleftrightarrow> r = - 1 \<and> same_image s s' \<or> r = 0 \<and> new_image path s s'"

lemma all_or_nothing_step: "same_image s t \<Longrightarrow> all_or_nothing path t r s' \<Longrightarrow> all_or_nothing path s r s'"
  using same_image_trans new_image_cong by (auto simp: all_or_nothing_def)

lemma bad_nothing: "exec_bad pgdir ip s = Ok (r, s') \<Longrightarrow> all_or_nothing path s r s'" "fail_op s = Ok (r, s') \<Longrightarrow> all_or_nothing path s r s'"
  using exec_bad_image image_ops(8) by (auto simp: all_or_nothing_def)

lemma exec_stack_image:
  assumes "exec_stack path argv entry pgdir sz s = Ok (r, s')"
  shows "all_or_nothing path s r s'"
proof -
  obtain sz1 s1 where 1: "on_km (allocuvm (kf_end s) pgdir (PGROUNDUP sz) (PGROUNDUP sz + 2 * PGSIZE)) s = Ok (sz1, s1)"
    using assms by (auto simp: exec_stack_def rbind_eq_Ok Let_def)
  note i1 = image_ops(2) [OF 1]
  show ?thesis
  proof (cases "sz1 = 0")
    case True
    then show ?thesis using assms 1 all_or_nothing_step [OF i1] bad_nothing(1) by (simp add: exec_stack_def)
  next
    case False
    obtain s2 a s3 where 2: "on_km (\<lambda>k. rbind (clearpteu pgdir (sz1 - 2 * PGSIZE) k) (\<lambda>k. Ok ((), k))) s1 = Ok ((), s2)"
      "push_args pgdir argv 0 sz1 [] s2 = Ok (a, s3)"
      using assms 1 False by (auto simp: exec_stack_def rbind_eq_Ok)
    note i3 = same_image_trans [OF i1 same_image_trans [OF image_ops(2) [OF 2(1)] push_args_image [OF 2(2)]]]
    show ?thesis
    proof (cases a)
      case None
      then show ?thesis using assms 1 2 False all_or_nothing_step [OF i3] bad_nothing(1) by (simp add: exec_stack_def)
    next
      case (Some x)
      obtain argc sp us where x: "x = (argc, sp, us)" by (cases x)
      let ?u = "[0xFFFFFFFF, of_nat argc, sp - (of_nat argc + 1) * 4] @ us @ [0]"
      let ?sp = "sp - (3 + of_nat argc + 1) * 4"
      have "rbind (on_km (copyout pgdir ?sp (concat (map word_bytes ?u))) s3)
          (\<lambda>(q, s). if q < 0 then exec_bad pgdir None s else exec_commit path entry pgdir sz1 ?sp s) = Ok (r, s')"
        using assms False unfolding exec_stack_def Let_def 1 rbind_simps prod.case
        by (simp only: 2 Some x if_False rbind_simps prod.case option.case)
      then obtain q s4 where 4: "on_km (copyout pgdir ?sp (concat (map word_bytes ?u))) s3 = Ok (q, s4)"
        "(if q < 0 then exec_bad pgdir None s4 else exec_commit path entry pgdir sz1 ?sp s4) = Ok (r, s')"
        unfolding rbind_eq_Ok by auto
      note i4 = same_image_trans [OF i3 image_ops(2) [OF 4(1)]]
      have "all_or_nothing path s4 r s'"
      proof (cases "q < 0")
        case True
        then show ?thesis using 4(2) bad_nothing(1) by simp
      next
        case False
        then show ?thesis using 4(2) exec_commit_image [of path entry pgdir sz1 ?sp s4 r s'] by (simp add: all_or_nothing_def)
      qed
      then show ?thesis by (rule all_or_nothing_step [OF i4])
    qed
  qed
qed

lemma exec_load_image:
  assumes "exec_load devsw kdata path argv elf ip s = Ok (r, s')"
  shows "all_or_nothing path s r s'"
proof -
  obtain d s5 where 5: "on_km (setupkvm (kf_end s) kdata) s = Ok (d, s5)"
    using assms by (auto simp: exec_load_def rbind_eq_Ok)
  note i5 = image_ops(2) [OF 5]
  show ?thesis
  proof (cases "d = 0")
    case True
    then show ?thesis using assms 5 all_or_nothing_step [OF i5] bad_nothing(1) by (simp add: exec_load_def)
  next
    case d: False
    obtain szo s6 where 6: "load_segments devsw (unat (e_phnum elf)) d 0 ip (e_phoff elf) s5 = Ok (szo, s6)"
      using assms 5 d by (auto simp: exec_load_def rbind_eq_Ok)
    note i6 = same_image_trans [OF i5 load_segments_image [OF 6]]
    show ?thesis
    proof (cases szo)
      case None
      then show ?thesis using assms 5 d 6 all_or_nothing_step [OF i6] bad_nothing(1) by (simp add: exec_load_def)
    next
      case sz: (Some sz)
      obtain s7 s8 where 7: "on_fs (iunlockput ip) s6 = Ok s7" "kf_end_op s7 = Ok s8"
        "exec_stack path argv (e_entry elf) d sz s8 = Ok (r, s')"
        using assms 5 d 6 sz by (auto simp: exec_load_def rbind_eq_Ok)
      note i8 = same_image_trans [OF i6 same_image_trans [OF image_ops(1) [OF 7(1)] image_ops(4) [OF 7(2)]]]
      show ?thesis by (rule all_or_nothing_step [OF i8 exec_stack_image [OF 7(3)]])
    qed
  qed
qed


text \<open>A process whose current directory is a cached empty file: \<^verbatim>\<open>exec("")\<close> finds no program in it.\<close>

definition demo_exec :: kfs where
  "demo_exec = demo_files\<lparr>kf_fs := upd_ino 3 (\<lambda>x. x\<lparr>i_dev := 1, i_inum := 5, i_ref := 1, i_valid := True, i_type := T_FILE, i_nlink := 1\<rparr>) demo_fs,
     kf_proc := demo_caller\<lparr>p_cwd := Some 3\<rparr>\<rparr>"

lemma demo_exec_runs: "\<exists>s'. exec (\<lambda>_. \<lparr>dv_read = None, dv_write = None\<rparr>) 0x80108000 [] [] demo_exec = Ok (- 1, s')"
proof -
  have c: "cur_pid (fs_b demo_fs) = 1" using demo_fs_boot(6) by (simp add: benv_def)
  have l: "fs_log demo_fs = demo_log\<lparr>lg_outstanding := 1\<rparr>" "ic_lock demo_fs = False" by (simp_all add: demo_fs_def)
  have i: "length (inodes demo_fs) = 50" "i_lock (inodes demo_fs ! 3) = initsleeplock ''inode''" "i_size (inodes demo_fs ! 3) = 0"
    by (simp_all add: demo_fs_def NINODE_def)
  have f: "kf_fs demo_exec = upd_ino 3 (\<lambda>x. x\<lparr>i_dev := 1, i_inum := 5, i_ref := 1, i_valid := True, i_type := T_FILE, i_nlink := 1\<rparr>) demo_fs"
    "p_cwd (kf_proc demo_exec) = Some 3" by (simp_all add: demo_exec_def)
  show ?thesis
    by (simp add: exec_def kf_begin_op_def kf_end_op_def on_fs_def begin_op_def end_op_def lg_acquire_def lg_release_def f l demo_log_def
        MAXOPBLOCKS_def LOGSIZE_def kf_namei_def start_dir_def namei_def namex_def namex_loop.simps [of _ "[]"] skipelem_def idup_def
        ic_acquire_def ic_release_def upd_ino_def i nth_upd ilock_def lock_inode_def acquiresleep_def initsleeplock_def c Let_def
        kf_readi_def readi_def T_FILE_def T_DEV_def sizeof_elfhdr_def readi_loop.simps [of _ _ 0] exec_bad_def iunlockput_def iunlock_def
        holdingsleep_def unlock_inode_def releasesleep_def iput_def fail_op_def)
qed


end
