(* ===== verification/Digits.thy ===== *)
theory Digits
  imports Xv6_Prelude
begin

section \<open>Printing integers\<close>

text \<open>
  The kernel (\<^verbatim>\<open>console.c\<close>) and the user library (\<^verbatim>\<open>printf.c\<close>) print integers by the same routine:
  the digits go into a buffer of 16 bytes from the least significant one, a minus sign follows, and
  the buffer is printed backwards. \<open>int_chars\<close> gives the bytes in the order in which they are
  printed; a write past the buffer is a \<open>Fault\<close>. The lemmas show that the buffer is large enough
  and that the digits denote the number.
\<close>

fun print_loop :: "nat \<Rightarrow> u8 list \<Rightarrow> u32 \<Rightarrow> u32 \<Rightarrow> u8 list res" where
  "print_loop 0 digits base x = Fault"
| "print_loop (Suc room) digits base x =
     (if base = 0 \<or> length digits \<le> unat (x mod base) then Fault
      else
        let d = digits ! unat (x mod base) in
        if x div base = 0 then Ok [d]
        else rbind (print_loop room digits base (x div base)) (\<lambda>ds. Ok (d # ds)))"

definition MINUS :: u8 where "MINUS = 0x2D"

definition int_chars :: "u8 list \<Rightarrow> u32 \<Rightarrow> u32 \<Rightarrow> bool \<Rightarrow> u8 list res" where
  "int_chars digits xx base sign =
     (let neg = (sign \<and> sint xx < 0); x = (if neg then - xx else xx) in
      rbind (print_loop 16 digits base x) (\<lambda>buf.
      if neg then if length buf < 16 then Ok (rev (buf @ [MINUS])) else Fault
      else Ok (rev buf)))"

subsection \<open>Positional notation\<close>

fun digs :: "nat \<Rightarrow> nat \<Rightarrow> nat \<Rightarrow> nat list" where
  "digs 0 b n = []"
| "digs (Suc k) b n = n mod b # (if n div b = 0 then [] else digs k b (n div b))"

fun value_of :: "nat \<Rightarrow> nat list \<Rightarrow> nat" where
  "value_of b [] = 0"
| "value_of b (d # ds) = d + b * value_of b ds"

lemma value_of_digs: "n < b ^ k \<Longrightarrow> value_of b (digs k b n) = n"
proof (induction k arbitrary: n)
  case (Suc k)
  then have "n div b < b ^ k" by (simp add: less_mult_imp_div_less mult.commute)
  moreover have "n mod b + b * (n div b) = n" by simp
  ultimately show ?case using Suc.IH by (cases "n div b = 0") simp_all
qed simp

lemma digs_less: "0 < b \<Longrightarrow> \<forall>d \<in> set (digs k b n). d < b"
  by (induction k arbitrary: n) auto

lemma length_digs:
  assumes "n < b ^ m" "0 < m"
  shows "length (digs k b n) \<le> m"
  using assms
proof (induction k arbitrary: n m)
  case (Suc k)
  show ?case
  proof (cases "n div b = 0")
    case False
    obtain l where m: "m = Suc l" using Suc.prems(2) by (cases m) auto
    have l: "n div b < b ^ l" using Suc.prems(1) unfolding m by (simp add: less_mult_imp_div_less mult.commute)
    then have "0 < l" using False by (cases l) auto
    then show ?thesis using Suc.IH [OF l] False m by simp
  qed (use Suc.prems in simp)
qed simp

lemma digs_nonempty: "0 < k \<Longrightarrow> digs k b n \<noteq> []"
  by (cases k) auto

lemma print_loop_digs:
  assumes "unat x < unat base ^ room" "0 < room" "1 < unat base" "unat base \<le> length digits"
  shows "print_loop room digits base x = Ok (map (\<lambda>d. digits ! d) (digs room (unat base) (unat x)))"
  using assms(1,2)
proof (induction room arbitrary: x)
  case 0
  then show ?case by simp
next
  case (Suc room)
  have nz: "base \<noteq> 0" using assms(3) by auto
  have d: "unat (x mod base) < length digits" unfolding unat_mod using assms(3,4) by (meson less_le_trans mod_less_divisor less_trans zero_less_one)
  have l: "unat (x div base) < unat base ^ room" using Suc.prems by (simp add: unat_div less_mult_imp_div_less mult.commute)
  show ?case
  proof (cases "x div base = 0")
    case True
    then have "unat x div unat base = 0" unfolding unat_div [symmetric] by simp
    then show ?thesis using nz d True by (simp add: unat_mod Let_def)
  next
    case False
    then have "0 < room" using l by (cases room) (auto simp: unat_eq_0)
    moreover have "unat x div unat base \<noteq> 0" unfolding unat_div [symmetric] using False by (simp add: unat_eq_0)
    ultimately show ?thesis using Suc.IH [OF l] nz d False by (simp add: unat_mod unat_div Let_def)
  qed
qed

text \<open>How a printed number is read: an optional minus sign and digits, the most significant first.\<close>

definition index_of :: "u8 list \<Rightarrow> u8 \<Rightarrow> nat" where
  "index_of ds c = length (takeWhile (\<lambda>d. d \<noteq> c) ds)"

definition read_number :: "u8 list \<Rightarrow> nat \<Rightarrow> u8 list \<Rightarrow> int" where
  "read_number digits b s =
     (if s \<noteq> [] \<and> hd s = MINUS then - int (value_of b (map (index_of digits) (rev (tl s))))
      else int (value_of b (map (index_of digits) (rev s))))"

lemma index_of_nth: "distinct ds \<Longrightarrow> i < length ds \<Longrightarrow> index_of ds (ds ! i) = i"
proof -
  assume a: "distinct ds" "i < length ds"
  have "takeWhile (\<lambda>d. d \<noteq> ds ! i) ds = take i ds"
    by (rule takeWhile_eq_take_P_nth) (use a in \<open>auto simp: nth_eq_iff_index_eq\<close>)
  then show ?thesis using a by (simp add: index_of_def)
qed

lemma index_of_digits:
  assumes "distinct digits" "\<forall>d \<in> set ds. d < length digits"
  shows "map (index_of digits) (map (\<lambda>d. digits ! d) ds) = ds"
  using assms by (induction ds) (auto simp: index_of_nth)

lemma unat_neg_sint: "sint (x :: u32) < 0 \<Longrightarrow> int (unat (- x)) = - sint x"
proof -
  assume a: "sint x < 0"
  have r: "- (2 ^ 31) \<le> sint x" using sint_greater_eq [of x] by simp
  have e: "- x = word_of_int (- sint x)" by simp
  have "uint (- x) = - sint x mod 2 ^ 32" unfolding e unsigned_of_int take_bit_eq_mod by simp
  also have "\<dots> = - sint x" using a r by (intro mod_pos_pos_trivial) auto
  finally show ?thesis by simp
qed

lemma sint_nonneg_uint: "0 \<le> sint (x :: u32) \<Longrightarrow> sint x = uint x"
proof -
  assume a: "0 \<le> sint x"
  have "sint x < 2 ^ 31" using sint_less [of x] by simp
  then have "sint x mod 2 ^ 32 = sint x" using a by (intro mod_pos_pos_trivial) auto
  moreover have e: "x = word_of_int (sint x)" by simp
  have "uint (word_of_int (sint x) :: u32) = sint x mod 2 ^ 32" unfolding unsigned_of_int take_bit_eq_mod by simp
  ultimately show ?thesis by simp
qed

lemma int_chars_digs:
  assumes "base = 10 \<or> base = 16" "16 \<le> length digits"
  defines "neg \<equiv> \<lambda>xx sign. sign \<and> sint (xx :: u32) < 0"
  shows "int_chars digits xx base sign =
      Ok ((if neg xx sign then [MINUS] else [])
          @ map (\<lambda>d. digits ! d) (rev (digs 16 (unat base) (unat (if neg xx sign then - xx else xx)))))"
proof -
  define x where "x = (if neg xx sign then - xx else xx)"
  have b: "1 < unat base" "unat base \<le> length digits" using assms(1,2) by auto
  have ux: "unat x < 2 ^ 32" using unsigned_less [of x] by simp
  have lx: "unat x < unat base ^ 10" using ux assms(1) by auto
  have lx': "unat x < unat base ^ 16" using ux assms(1) by auto
  have l: "length (digs 16 (unat base) (unat x)) \<le> 10" by (rule length_digs [OF lx]) simp
  have p: "print_loop 16 digits base x = Ok (map (\<lambda>d. digits ! d) (digs 16 (unat base) (unat x)))"
    by (rule print_loop_digs [OF lx' _ b]) simp
  have "int_chars digits xx base sign = rbind (print_loop 16 digits base x) (\<lambda>buf.
      if neg xx sign then if length buf < 16 then Ok (rev (buf @ [MINUS])) else Fault else Ok (rev buf))"
    by (simp add: int_chars_def Let_def x_def neg_def)
  then show ?thesis unfolding p x_def [symmetric] using l by (simp add: rev_map)
qed

text \<open>Printing an integer in base 10 or 16, as a signed or as an unsigned number, never writes
  past the buffer of 16 bytes, and the bytes read back as the number: also for the smallest
  integer, whose negation overflows.\<close>

theorem int_chars_reads_back:
  assumes "base = 10 \<or> base = 16" "16 \<le> length digits" "distinct digits" "MINUS \<notin> set digits"
  shows "\<exists>s. int_chars digits xx base sign = Ok s \<and> length s \<le> 16
           \<and> read_number digits (unat base) s = (if sign then sint xx else uint xx)"
proof -
  define neg x where "neg \<longleftrightarrow> sign \<and> sint xx < 0" and "x = (if neg then - xx else xx)"
  define ds where "ds = digs 16 (unat base) (unat x)"
  have ux: "unat x < 2 ^ 32" using unsigned_less [of x] by simp
  have lx: "unat x < unat base ^ 10" "unat x < unat base ^ 16" using ux assms(1) by auto
  have c: "int_chars digits xx base sign = Ok ((if neg then [MINUS] else []) @ map (\<lambda>d. digits ! d) (rev ds))"
    using int_chars_digs [OF assms(1,2)] by (simp add: neg_def x_def ds_def)
  have l: "length ds \<le> 10" unfolding ds_def by (rule length_digs [OF lx(1)]) simp
  have d: "\<forall>d \<in> set ds. d < length digits"
    using digs_less [of "unat base" 16 "unat x"] assms(1,2) by (fastforce simp: ds_def)
  have v: "value_of (unat base) ds = unat x" unfolding ds_def by (rule value_of_digs [OF lx(2)])
  have ne: "ds \<noteq> []" unfolding ds_def by (rule digs_nonempty) simp
  have m: "hd (map (\<lambda>d. digits ! d) (rev ds)) \<noteq> MINUS"
    using ne d assms(4) by (metis (no_types, lifting) hd_map hd_rev last_in_set nth_mem rev_is_Nil_conv)
  have "read_number digits (unat base) ((if neg then [MINUS] else []) @ map (\<lambda>d. digits ! d) (rev ds)) = (if neg then - 1 else 1) * int (unat x)"
    using m ne index_of_digits [OF assms(3) d] v by (auto simp: read_number_def rev_map)
  also have "\<dots> = (if sign then sint xx else uint xx)"
    using unat_neg_sint [of xx] sint_nonneg_uint [of xx] by (auto simp: neg_def x_def)
  finally show ?thesis using c l by (intro exI conjI) auto
qed

definition hex_digits :: "u8 list" where
  "hex_digits = map of_char ''0123456789abcdef''"

lemma hex_digits_ok [simp]: "length hex_digits = 16" "distinct hex_digits" "MINUS \<notin> set hex_digits"
  by (simp_all add: hex_digits_def MINUS_def)

theorem int_chars_reads_back_witness:
  "\<exists>s. int_chars hex_digits 0x80000000 10 True = Ok s \<and> length s \<le> 16
     \<and> read_number hex_digits (unat (10 :: u32)) s = (if True then sint (0x80000000 :: u32) else uint (0x80000000 :: u32))"
  by (rule int_chars_reads_back) simp_all

end
