(* ===== verification/Console.thy ===== *)
theory Console
  imports Ring Digits Fs
begin

section \<open>The console (\<^verbatim>\<open>console.c\<close>, \<^verbatim>\<open>uart.c\<close>)\<close>

text \<open>
  Output goes to the serial port and to the screen. The screen is the memory of the graphics
  adapter, a list of cells, and its two cursor registers; the serial port is the list of the bytes
  sent. Input is a ring of 128 bytes with three counters: the bytes from \<^verbatim>\<open>r\<close> to \<^verbatim>\<open>w\<close> are complete
  lines to be read, those from \<^verbatim>\<open>w\<close> to \<^verbatim>\<open>e\<close> the line that is being edited. \<open>consoleintr\<close> receives the
  characters that \<^verbatim>\<open>getc\<close> returns until it has no more. Once a CPU has panicked the others spin in
  \<^verbatim>\<open>consputc\<close>: they are \<open>Blocked\<close>. The lemmas show that the cursor stays on the screen, which scrolls,
  that the interrupt handler is a line editor, and that a read returns one line.
\<close>

subsection \<open>Output\<close>

record screen =
  crt :: "u16 list"
  cur_hi :: u8
  cur_lo :: u8
  uart_on :: bool
  uart_out :: "u8 list"
  panicked :: bool

definition BACKSPACE :: int where "BACKSPACE = 0x100"

definition uartputc :: "int \<Rightarrow> screen \<Rightarrow> screen" where
  "uartputc c s = (if \<not> uart_on s then s else s\<lparr>uart_out := uart_out s @ [word_of_int c]\<rparr>)"

text \<open>\<^verbatim>\<open>uartgetc\<close>, with the line status register and the data register as arguments.\<close>

definition uartgetc :: "u8 \<Rightarrow> u8 \<Rightarrow> screen \<Rightarrow> int" where
  "uartgetc lsr data s = (if \<not> uart_on s then - 1 else if lsr AND 0x01 = 0 then - 1 else uint data)"

definition put_cell :: "nat \<Rightarrow> u16 \<Rightarrow> u16 list \<Rightarrow> u16 list res" where
  "put_cell i x m = (if i < length m then Ok (m[i := x]) else Fault)"

definition cell :: "int \<Rightarrow> u16" where
  "cell c = ucast (word_of_int c :: u8) OR 0x0700"

definition cursor :: "screen \<Rightarrow> nat" where
  "cursor s = unat (cur_hi s) * 256 + unat (cur_lo s)"

definition scroll_up :: "nat \<Rightarrow> u16 list \<Rightarrow> nat \<times> u16 list" where
  "scroll_up pos m =
     (let m = take (23 * 80) (drop 80 m) @ drop (23 * 80) m; pos = pos - 80 in
      (pos, take pos m @ replicate (24 * 80 - pos) 0 @ drop (24 * 80) m))"

definition cga_settle :: "nat \<Rightarrow> u16 list \<Rightarrow> screen \<Rightarrow> screen res" where
  "cga_settle pos m s =
     (if pos > 25 * 80 then Panic ''pos under/overflow''
      else
        let (pos, m) = (if pos div 80 \<ge> 24 then scroll_up pos m else (pos, m)) in
        rbind (put_cell pos (cell 32) m) (\<lambda>m.
        Ok (s\<lparr>crt := m, cur_hi := of_nat (pos div 256), cur_lo := of_nat pos\<rparr>)))"

definition cgaputc :: "int \<Rightarrow> screen \<Rightarrow> screen res" where
  "cgaputc c s =
     (let pos = cursor s in
      if c = 10 then cga_settle (pos + (80 - pos mod 80)) (crt s) s
      else if c = BACKSPACE then cga_settle (if pos > 0 then pos - 1 else pos) (crt s) s
      else rbind (put_cell pos (cell c) (crt s)) (\<lambda>m. cga_settle (pos + 1) m s))"

definition consputc :: "int \<Rightarrow> screen \<Rightarrow> screen res" where
  "consputc c s =
     (if panicked s then Blocked
      else if c = BACKSPACE then cgaputc c (uartputc 8 (uartputc 32 (uartputc 8 s)))
      else cgaputc c (uartputc c s))"

fun consputs :: "int list \<Rightarrow> screen \<Rightarrow> screen res" where
  "consputs [] s = Ok s"
| "consputs (c # cs) s = rbind (consputc c s) (consputs cs)"

definition printint :: "u32 \<Rightarrow> u32 \<Rightarrow> bool \<Rightarrow> screen \<Rightarrow> screen res" where
  "printint xx base sign s = rbind (int_chars hex_digits xx base sign) (\<lambda>cs. consputs (map uint cs) s)"

text \<open>\<^verbatim>\<open>cprintf\<close>: the arguments are words, and \<open>str\<close> gives the string at an address. Taking an
  argument that was not passed is a \<open>Fault\<close>.\<close>

fun cprintf_loop :: "(u32 \<Rightarrow> u8 list) \<Rightarrow> u8 list \<Rightarrow> u32 list \<Rightarrow> screen \<Rightarrow> screen res" where
  "cprintf_loop str [] args s = Ok s"
| "cprintf_loop str [c] args s = (if c \<noteq> 0x25 then consputc (uint c) s else Ok s)"
| "cprintf_loop str (c # d # fmt) args s =
     (if c \<noteq> 0x25 then rbind (consputc (uint c) s) (cprintf_loop str (d # fmt) args)
      else if d = 0x64 then
        (case args of [] \<Rightarrow> Fault | x # args \<Rightarrow> rbind (printint x 10 True s) (cprintf_loop str fmt args))
      else if d = 0x78 \<or> d = 0x70 then
        (case args of [] \<Rightarrow> Fault | x # args \<Rightarrow> rbind (printint x 16 False s) (cprintf_loop str fmt args))
      else if d = 0x73 then
        (case args of [] \<Rightarrow> Fault
         | x # args \<Rightarrow> rbind (consputs (map uint (if x = 0 then map of_char ''(null)'' else str x)) s) (cprintf_loop str fmt args))
      else if d = 0x25 then rbind (consputc 0x25 s) (cprintf_loop str fmt args)
      else rbind (consputs [0x25, uint d] s) (cprintf_loop str fmt args))"

record console =
  c_lock :: bool
  c_locking :: bool
  c_scr :: screen
  in_buf :: "u8 list"
  in_r :: u32
  in_w :: u32
  in_e :: u32

definition c_acquire :: "console \<Rightarrow> console res" where
  "c_acquire s = rbind (lk_acquire (c_lock s)) (\<lambda>l. Ok (s\<lparr>c_lock := l\<rparr>))"

definition c_release :: "console \<Rightarrow> console res" where
  "c_release s = rbind (lk_release (c_lock s)) (\<lambda>l. Ok (s\<lparr>c_lock := l\<rparr>))"

definition c_putc :: "int \<Rightarrow> console \<Rightarrow> console res" where
  "c_putc c s = rbind (consputc c (c_scr s)) (\<lambda>x. Ok (s\<lparr>c_scr := x\<rparr>))"

definition cprintf :: "(u32 \<Rightarrow> u8 list) \<Rightarrow> u8 list option \<Rightarrow> u32 list \<Rightarrow> console \<Rightarrow> console res" where
  "cprintf str fmt args s =
     rbind (if c_locking s then c_acquire s else Ok s) (\<lambda>s.
     case fmt of
       None \<Rightarrow> Panic ''null fmt''
     | Some fmt \<Rightarrow>
         rbind (cprintf_loop str fmt args (c_scr s)) (\<lambda>x.
         let t = s\<lparr>c_scr := x\<rparr> in
         if c_locking s then c_release t else Ok t))"

subsection \<open>Input\<close>

definition INPUT_BUF :: nat where "INPUT_BUF = 128"

lemma c_putc_keeps: "c_putc c s = Ok t \<Longrightarrow> in_e t = in_e s \<and> in_w t = in_w s"
  by (auto simp: c_putc_def res_simps)

function kill_line :: "console \<Rightarrow> console res" where
  "kill_line s =
     (if in_e s \<noteq> in_w s \<and> in_buf s ! (unat (in_e s - 1) mod INPUT_BUF) \<noteq> 10 then
        rbind (c_putc BACKSPACE (s\<lparr>in_e := in_e s - 1\<rparr>)) kill_line
      else Ok s)"
  by pat_completeness auto
termination
  by (relation "measure (\<lambda>s. unat (in_e s - in_w s))") (auto dest!: c_putc_keeps simp: unat_dec)

declare kill_line.simps [simp del]

text \<open>One turn of the loop of \<^verbatim>\<open>consoleintr\<close>: the new state, whether a process listing is asked
  for, and whether readers are woken.\<close>

definition console_char :: "int \<Rightarrow> console \<Rightarrow> (console \<times> bool \<times> wchan list) res" where
  "console_char c s =
     (if c = 16 then Ok (s, True, [])
      else if c = 21 then rbind (kill_line s) (\<lambda>s. Ok (s, False, []))
      else if c = 8 \<or> c = 0x7F then
        if in_e s \<noteq> in_w s then rbind (c_putc BACKSPACE (s\<lparr>in_e := in_e s - 1\<rparr>)) (\<lambda>s. Ok (s, False, []))
        else Ok (s, False, [])
      else if c \<noteq> 0 \<and> in_e s - in_r s < of_nat INPUT_BUF then
        let c = (if c = 13 then 10 else c) in
        rbind (c_putc c (s\<lparr>in_buf := (in_buf s)[unat (in_e s) mod INPUT_BUF := word_of_int c], in_e := in_e s + 1\<rparr>)) (\<lambda>s.
        if c = 10 \<or> c = 4 \<or> in_e s = in_r s + of_nat INPUT_BUF
        then Ok (s\<lparr>in_w := in_e s\<rparr>, False, [ConsChan]) else Ok (s, False, []))
      else Ok (s, False, []))"

fun consoleintr_loop :: "int list \<Rightarrow> console \<Rightarrow> (console \<times> bool \<times> wchan list) res" where
  "consoleintr_loop [] s = Ok (s, False, [])"
| "consoleintr_loop (c # cs) s =
     (if c < 0 then Ok (s, False, [])
      else
        rbind (console_char c s) (\<lambda>(s, d, w).
        rbind (consoleintr_loop cs s) (\<lambda>(s, d', w'). Ok (s, d \<or> d', w @ w'))))"

definition consoleintr :: "int list \<Rightarrow> console \<Rightarrow> (console \<times> bool \<times> wchan list) res" where
  "consoleintr cs s =
     rbind (c_acquire s) (\<lambda>s.
     rbind (consoleintr_loop cs s) (\<lambda>(s, d, w).
     rbind (c_release s) (\<lambda>s. Ok (s, d, w))))"

text \<open>\<^verbatim>\<open>consoleread\<close>. The loop ends with \<open>n\<close> bytes not read, or finds the process killed, or has to
  sleep with \<open>n\<close> bytes still to read; after the sleep it goes on from there.\<close>

datatype rstop = Ends nat | Killed | Sleeps nat

fun consoleread_loop :: "bool \<Rightarrow> nat \<Rightarrow> nat \<Rightarrow> console \<Rightarrow> u8 list \<times> rstop \<times> console" where
  "consoleread_loop killed target 0 s = ([], Ends 0, s)"
| "consoleread_loop killed target (Suc n) s =
     (if in_r s = in_w s then if killed then ([], Killed, s) else ([], Sleeps (Suc n), s)
      else
        let c = in_buf s ! (unat (in_r s) mod INPUT_BUF); t = s\<lparr>in_r := in_r s + 1\<rparr> in
        if c = 4 then ([], Ends (Suc n), if Suc n < target then t\<lparr>in_r := in_r t - 1\<rparr> else t)
        else if c = 10 then ([c], Ends n, t)
        else
          let (bs, r, t) = consoleread_loop killed target n t in (c # bs, r, t))"

datatype cread = Returned int "u8 list" | Asleep nat "u8 list"

definition consoleread_from :: "bool \<Rightarrow> nat \<Rightarrow> nat \<Rightarrow> nat \<Rightarrow> fsst \<times> console \<Rightarrow> (cread \<times> fsst \<times> console) res" where
  "consoleread_from killed ip target n = (\<lambda>(f, s).
     let (bs, r, s) = consoleread_loop killed target n s in
     rbind (c_release s) (\<lambda>s.
     case r of
       Ends m \<Rightarrow> rbind (ilock (Some ip) f) (\<lambda>f. Ok (Returned (int target - int m) bs, f, s))
     | Killed \<Rightarrow> rbind (ilock (Some ip) f) (\<lambda>f. Ok (Returned (- 1) bs, f, s))
     | Sleeps m \<Rightarrow> Ok (Asleep m bs, f, s)))"

definition consoleread :: "bool \<Rightarrow> nat \<Rightarrow> int \<Rightarrow> fsst \<times> console \<Rightarrow> (cread \<times> fsst \<times> console) res" where
  "consoleread killed ip n = (\<lambda>(f, s).
     rbind (iunlock (Some ip) f) (\<lambda>f.
     rbind (c_acquire s) (\<lambda>s.
     consoleread_from killed ip (nat n) (nat n) (f, s))))"

definition consolewrite :: "nat \<Rightarrow> u8 list \<Rightarrow> int \<Rightarrow> fsst \<times> console \<Rightarrow> (int \<times> fsst \<times> console) res" where
  "consolewrite ip buf n = (\<lambda>(f, s).
     rbind (iunlock (Some ip) f) (\<lambda>f.
     rbind (c_acquire s) (\<lambda>s.
     rbind (consputs (map uint (take (nat n) buf)) (c_scr s)) (\<lambda>x.
     rbind (c_release (s\<lparr>c_scr := x\<rparr>)) (\<lambda>s.
     rbind (ilock (Some ip) f) (\<lambda>f. Ok (n, f, s)))))))"

definition consoleinit :: "console \<Rightarrow> console" where
  "consoleinit s = s\<lparr>c_lock := False, c_locking := True\<rparr>"

subsection \<open>The screen scrolls\<close>

definition screen_ok :: "screen \<Rightarrow> bool" where
  "screen_ok s \<longleftrightarrow> 25 * 80 \<le> length (crt s) \<and> cursor s < 24 * 80 \<and> \<not> panicked s"

definition shown :: "screen \<Rightarrow> u16 list" where
  "shown s = take (cursor s) (crt s)"

lemma cursor_set:
  assumes "pos < 2 ^ 16"
  shows "cursor (s\<lparr>crt := m, cur_hi := of_nat (pos div 256), cur_lo := of_nat pos\<rparr>) = pos"
proof -
  have "pos div 256 < 256" using assms by (simp add: less_mult_imp_div_less)
  then show ?thesis by (simp add: cursor_def unsigned_of_nat take_bit_eq_mod)
qed

lemma scroll_up_shown:
  assumes "pos = 24 * 80" "25 * 80 \<le> length m"
  shows "\<exists>m'. scroll_up pos m = (23 * 80, m') \<and> length m' = length m \<and> take (23 * 80) m' = drop 80 (take pos m)"
  using assms by (auto simp: scroll_up_def Let_def min_def take_drop)

lemma cga_settle_ok:
  assumes "pos \<le> 24 * 80" "25 * 80 \<le> length m" "\<not> panicked s"
  shows "\<exists>s'. cga_settle pos m s = Ok s' \<and> screen_ok s'
     \<and> shown s' = (if pos < 24 * 80 then take pos m else drop 80 (take pos m))
     \<and> uart_on s' = uart_on s \<and> uart_out s' = uart_out s"
proof (cases "pos < 24 * 80")
  case True
  then have "\<not> 24 \<le> pos div 80" by (simp add: div_less_iff_less_mult not_le)
  then show ?thesis using True assms
    by (simp add: cga_settle_def put_cell_def screen_ok_def shown_def cursor_set)
next
  case False
  then have p: "pos = 24 * 80" using assms(1) by simp
  obtain m' where m: "scroll_up pos m = (23 * 80, m')" "length m' = length m" "take (23 * 80) m' = drop 80 (take pos m)"
    using scroll_up_shown [OF p assms(2)] by blast
  let ?s = "s\<lparr>crt := m'[23 * 80 := cell 32], cur_hi := of_nat ((23 * 80) div 256), cur_lo := of_nat (23 * 80)\<rparr>"
  have "cga_settle pos m s = Ok ?s" using p m assms(2) by (simp add: cga_settle_def put_cell_def)
  moreover have c: "cursor ?s = 23 * 80" by (rule cursor_set) simp
  moreover have "shown ?s = drop 80 (take pos m)" unfolding shown_def c using m(3) by simp
  ultimately show ?thesis using p m(2) assms(2,3) unfolding screen_ok_def by (intro exI [of _ ?s]) simp
qed

lemma next_row: "pos < 24 * 80 \<Longrightarrow> pos + (80 - pos mod 80) \<le> 24 * (80 :: nat)"
proof -
  assume a: "pos < 24 * 80"
  obtain q r where p: "pos = q * 80 + r" "r < 80"
    by (metis div_mod_decomp mod_less_divisor zero_less_numeral)
  then have "q < 24" using a by linarith
  moreover have "pos + (80 - pos mod 80) = (q + 1) * 80" using p by simp
  ultimately show ?thesis by simp
qed

lemma uartputc_screen [simp]: "cursor (uartputc c s) = cursor s" "crt (uartputc c s) = crt s"
    "panicked (uartputc c s) = panicked s" "uart_on (uartputc c s) = uart_on s"
    "screen_ok (uartputc c s) = screen_ok s" "shown (uartputc c s) = shown s"
  by (simp_all add: uartputc_def cursor_def screen_ok_def shown_def)

text \<open>An ordinary character printed on the console appears at the cursor and is sent to the serial
  port; the cursor stays in the first 24 rows, because the screen scrolls by a row when they are
  full. Whatever the character, nothing panics.\<close>

lemma consputc_ordinary:
  assumes "screen_ok s" "c \<noteq> 10" "c \<noteq> BACKSPACE"
  shows "\<exists>s'. consputc c s = Ok s' \<and> screen_ok s'
     \<and> shown s' = (let t = shown s @ [cell c] in if length t < 24 * 80 then t else drop 80 t)
     \<and> uart_out s' = uart_out s @ (if uart_on s then [word_of_int c] else [])"
proof -
  let ?u = "uartputc c s" and ?m = "(crt s)[cursor s := cell c]"
  have o: "25 * 80 \<le> length (crt s)" "cursor s < 24 * 80" "\<not> panicked s" using assms(1) by (simp_all add: screen_ok_def)
  have t: "take (cursor s + 1) ?m = shown s @ [cell c]" "length (shown s @ [cell c]) = cursor s + 1"
    using o by (simp_all add: take_Suc_conv_app_nth shown_def)
  have "consputc c s = cga_settle (cursor s + 1) ?m ?u"
    using assms o by (simp add: consputc_def cgaputc_def put_cell_def Let_def)
  moreover have "uart_out ?u = uart_out s @ (if uart_on s then [word_of_int c] else [])" by (simp add: uartputc_def)
  moreover have "cursor s + 1 \<le> 24 * 80" "25 * 80 \<le> length ?m" "\<not> panicked ?u" using o by simp_all
  note cga_settle_ok [OF this, unfolded t(1)]
  ultimately show ?thesis unfolding Let_def t(2) by metis
qed

lemma consputc_ok:
  assumes "screen_ok s"
  shows "\<exists>s'. consputc c s = Ok s' \<and> screen_ok s'"
proof -
  have o: "25 * 80 \<le> length (crt s)" "cursor s < 24 * 80" "\<not> panicked s" using assms by (simp_all add: screen_ok_def)
  consider "c = 10" | "c = BACKSPACE" | "c \<noteq> 10" "c \<noteq> BACKSPACE" by blast
  then show ?thesis
  proof cases
    case 1
    then show ?thesis using cga_settle_ok [OF next_row [OF o(2)] o(1), of "uartputc c s"] o
      by (auto simp: consputc_def cgaputc_def BACKSPACE_def Let_def)
  next
    case 2
    let ?u = "uartputc 8 (uartputc 32 (uartputc 8 s))"
    have "\<exists>s'. cga_settle (if cursor s > 0 then cursor s - 1 else cursor s) (crt s) ?u = Ok s' \<and> screen_ok s'"
    proof -
      have le: "(if cursor s > 0 then cursor s - 1 else cursor s) \<le> 24 * 80" and np: "\<not> panicked ?u" using o by auto
      show ?thesis using cga_settle_ok [OF le o(1) np] by blast
    qed
    then show ?thesis using 2 o(3) by (simp add: consputc_def cgaputc_def BACKSPACE_def Let_def)
  qed (use consputc_ordinary [OF assms] in blast)
qed

subsection \<open>The interrupt handler is a line editor\<close>

definition committed :: "console \<Rightarrow> u8 list" where
  "committed s = ring (in_buf s) (in_r s) (in_w s)"

definition editing :: "console \<Rightarrow> u8 list" where
  "editing s = ring (in_buf s) (in_w s) (in_e s)"

definition console_ok :: "console \<Rightarrow> bool" where
  "console_ok s \<longleftrightarrow> length (in_buf s) = INPUT_BUF \<and> unat (in_w s - in_r s) \<le> unat (in_e s - in_r s)
     \<and> unat (in_e s - in_r s) \<le> INPUT_BUF \<and> 10 \<notin> set (editing s) \<and> screen_ok (c_scr s)"

text \<open>What the keys do to the complete lines and to the line being edited.\<close>

definition edit :: "int \<Rightarrow> u8 list \<times> u8 list \<Rightarrow> u8 list \<times> u8 list" where
  "edit c = (\<lambda>(done, line).
     if c = 16 then (done, line)
     else if c = 21 then (done, [])
     else if c = 8 \<or> c = 0x7F then (done, butlast line)
     else if c \<noteq> 0 \<and> length done + length line < INPUT_BUF then
       let b = (if c = 13 then 10 else word_of_int c) in
       if b = 10 \<or> b = 4 \<or> length done + length line + 1 = INPUT_BUF then (done @ line @ [b], [])
       else (done, line @ [b])
     else (done, line))"

lemma INPUT_BUF_dvd: "INPUT_BUF dvd 2 ^ 32" "INPUT_BUF < 2 ^ 32"
  by (simp_all add: INPUT_BUF_def)

lemma console_ring:
  assumes "console_ok s"
  shows "ring (in_buf s) (in_r s) (in_e s) = committed s @ editing s"
    "unat (in_e s - in_r s) = length (committed s) + length (editing s)"
  using assms ring_split [of "in_buf s" "in_w s" "in_r s" "in_e s"] INPUT_BUF_dvd
  by (simp_all add: console_ok_def committed_def editing_def)

lemma console_scr_upd [simp]:
  "committed (s\<lparr>c_scr := x\<rparr>) = committed s" "editing (s\<lparr>c_scr := x\<rparr>) = editing s"
  "committed (s\<lparr>c_lock := l\<rparr>) = committed s" "editing (s\<lparr>c_lock := l\<rparr>) = editing s"
  "console_ok (s\<lparr>c_lock := l\<rparr>) = console_ok s"
  by (simp_all add: committed_def editing_def console_ok_def)

lemma c_putc_ok:
  assumes "screen_ok (c_scr s)"
  shows "\<exists>x. c_putc c s = Ok (s\<lparr>c_scr := x\<rparr>) \<and> screen_ok x"
  using consputc_ok [OF assms, of c] by (auto simp: c_putc_def)

lemma erase_ok:
  assumes ok: "console_ok s" and ne: "in_e s \<noteq> in_w s"
  shows "\<exists>t. c_putc BACKSPACE (s\<lparr>in_e := in_e s - 1\<rparr>) = Ok t \<and> console_ok t \<and> committed t = committed s
     \<and> editing t = butlast (editing s) \<and> c_lock t = c_lock s"
proof -
  have dv: "length (in_buf s) dvd 2 ^ 32" using ok INPUT_BUF_dvd by (simp add: console_ok_def)
  have u: "editing s = ring (in_buf s) (in_w s) (in_e s - 1) @ [in_buf s ! (unat (in_e s - 1) mod length (in_buf s))]"
    unfolding editing_def by (rule ring_unput [OF dv ne])
  have "0 < length (editing s)" unfolding u by simp
  then have l: "unat (in_w s - in_r s) < unat (in_e s - in_r s)"
    using console_ring(2) [OF ok] by (simp add: committed_def)
  then have "in_e s \<noteq> in_r s" by auto
  then have "unat (in_e s - in_r s) = Suc (unat (in_e s - 1 - in_r s))" by (rule unat_dec)
  then have b: "unat (in_w s - in_r s) \<le> unat (in_e s - 1 - in_r s)" "unat (in_e s - 1 - in_r s) \<le> INPUT_BUF"
    using l ok by (simp_all add: console_ok_def)
  obtain x where x: "c_putc BACKSPACE (s\<lparr>in_e := in_e s - 1\<rparr>) = Ok (s\<lparr>in_e := in_e s - 1, c_scr := x\<rparr>)" "screen_ok x"
    using c_putc_ok [of "s\<lparr>in_e := in_e s - 1\<rparr>" BACKSPACE] ok by (auto simp: console_ok_def)
  let ?t = "s\<lparr>in_e := in_e s - 1, c_scr := x\<rparr>"
  have e: "editing ?t = butlast (editing s)" unfolding u by (simp add: editing_def)
  then have "10 \<notin> set (editing ?t)" using ok by (auto simp: console_ok_def dest: in_set_butlastD)
  then show ?thesis using x e b ok by (intro exI [of _ ?t]) (simp add: console_ok_def committed_def)
qed

lemma kill_line_ok:
  "console_ok s \<Longrightarrow> \<exists>t. kill_line s = Ok t \<and> console_ok t \<and> committed t = committed s \<and> editing t = [] \<and> c_lock t = c_lock s"
proof (induction s rule: kill_line.induct)
  case (1 s)
  show ?case
  proof (cases "in_e s = in_w s")
    case True
    then show ?thesis using 1(2) by (subst kill_line.simps) (simp add: editing_def ring_empty_iff)
  next
    case ne: False
    have lb: "length (in_buf s) = INPUT_BUF" using 1(2) by (simp add: console_ok_def)
    then have "in_buf s ! (unat (in_e s - 1) mod INPUT_BUF) \<in> set (editing s)"
      using ring_unput [of "in_buf s", OF _ ne] INPUT_BUF_dvd by (simp add: editing_def)
    then have c: "in_buf s ! (unat (in_e s - 1) mod INPUT_BUF) \<noteq> 10" using 1(2) by (auto simp: console_ok_def)
    obtain t where t: "c_putc BACKSPACE (s\<lparr>in_e := in_e s - 1\<rparr>) = Ok t" "console_ok t" "committed t = committed s"
        "c_lock t = c_lock s"
      using erase_ok [OF 1(2) ne] by blast
    have "kill_line s = kill_line t" using ne c t(1) by (subst kill_line.simps) simp
    then show ?thesis using 1(1) [OF conjI [OF ne c] t(1,2)] t(3,4) by simp
  qed
qed

lemma insert_ok:
  fixes b :: u8
  assumes ok: "console_ok s" and room: "unat (in_e s - in_r s) < INPUT_BUF"
  defines "t \<equiv> s\<lparr>in_buf := (in_buf s)[unat (in_e s) mod INPUT_BUF := b], in_e := in_e s + 1\<rparr>"
  shows "committed t = committed s" "editing t = editing s @ [b]" "length (in_buf t) = INPUT_BUF"
    "unat (in_e t - in_r t) = length (committed s) + length (editing s) + 1"
    "ring (in_buf t) (in_r t) (in_e t) = committed s @ editing s @ [b]"
proof -
  let ?d = "(in_buf s)[unat (in_e s) mod INPUT_BUF := b]"
  have lb: "length (in_buf s) = INPUT_BUF" using ok by (simp add: console_ok_def)
  have a: "ring ?d (in_r s) (in_e s + 1) = (committed s @ editing s) @ [b]"
    using ring_put [of "in_buf s" "in_e s" "in_r s" b] INPUT_BUF_dvd room lb console_ring(1) [OF ok] by simp
  have le: "unat (in_e s + 1 - in_r s) = Suc (unat (in_e s - in_r s))"
    using room by (intro unat_succ_diff) (simp add: INPUT_BUF_def)
  then have "unat (in_w s - in_r s) \<le> unat (in_e s + 1 - in_r s)" using ok by (simp add: console_ok_def)
  then have "ring ?d (in_r s) (in_e s + 1) = ring ?d (in_r s) (in_w s) @ ring ?d (in_w s) (in_e s + 1)"
    using lb INPUT_BUF_dvd by (intro ring_split) simp
  then have "ring ?d (in_r s) (in_w s) = committed s \<and> ring ?d (in_w s) (in_e s + 1) = editing s @ [b]"
    unfolding a using append_eq_append_conv [of "committed s" "ring ?d (in_r s) (in_w s)" "editing s @ [b]"]
    by (simp add: committed_def)
  then show "committed t = committed s" "editing t = editing s @ [b]" by (simp_all add: t_def committed_def editing_def)
  show "length (in_buf t) = INPUT_BUF" by (simp add: t_def lb)
  show "unat (in_e t - in_r t) = length (committed s) + length (editing s) + 1"
    using le console_ring(2) [OF ok] by (simp add: t_def)
  show "ring (in_buf t) (in_r t) (in_e t) = committed s @ editing s @ [b]" using a by (simp add: t_def)
qed

lemma console_insert:
  fixes c :: int
  assumes ok: "console_ok s" and room: "unat (in_e s - in_r s) < INPUT_BUF" and c: "0 \<le> c" "c < 256"
  defines "b \<equiv> word_of_int c :: u8"
  defines "ends \<equiv> c = 10 \<or> c = 4 \<or> length (committed s) + length (editing s) + 1 = INPUT_BUF"
  shows "\<exists>t. rbind (c_putc c (s\<lparr>in_buf := (in_buf s)[unat (in_e s) mod INPUT_BUF := b], in_e := in_e s + 1\<rparr>)) (\<lambda>s.
        if c = 10 \<or> c = 4 \<or> in_e s = in_r s + of_nat INPUT_BUF
        then Ok (s\<lparr>in_w := in_e s\<rparr>, False, [ConsChan]) else Ok (s, False, [])) = Ok (t, False, if ends then [ConsChan] else [])
    \<and> console_ok t \<and> c_lock t = c_lock s
    \<and> (committed t, editing t) = (if ends then (committed s @ editing s @ [b], []) else (committed s, editing s @ [b]))"
proof -
  let ?u = "s\<lparr>in_buf := (in_buf s)[unat (in_e s) mod INPUT_BUF := b], in_e := in_e s + 1\<rparr>"
  note i = insert_ok [OF ok room, of b]
  have so: "screen_ok (c_scr ?u)" using ok by (simp add: console_ok_def)
  obtain x where x: "c_putc c ?u = Ok (?u\<lparr>c_scr := x\<rparr>)" "screen_ok x" using c_putc_ok [OF so] by blast
  have "in_e ?u = in_r ?u + of_nat INPUT_BUF \<longleftrightarrow> in_e ?u - in_r ?u = of_nat INPUT_BUF" by (auto simp: algebra_simps)
  also have "\<dots> \<longleftrightarrow> length (committed s) + length (editing s) + 1 = INPUT_BUF"
    unfolding i(4) [symmetric] by (simp add: INPUT_BUF_def word_unat_eq_iff)
  finally have full: "(c = 10 \<or> c = 4 \<or> in_e ?u = in_r ?u + of_nat INPUT_BUF) = ends" unfolding ends_def by simp
  have l: "length (committed s) + length (editing s) < INPUT_BUF" using room console_ring(2) [OF ok] by simp
  have b10: "b = 10 \<longleftrightarrow> c = 10" using c by (auto simp: b_def word_uint_eq_iff uint_word_of_int take_bit_eq_mod)
  show ?thesis
  proof (cases ends)
    case True
    let ?t = "?u\<lparr>c_scr := x, in_w := in_e ?u\<rparr>"
    have "committed ?t = committed s @ editing s @ [b]" using i(5) by (simp add: committed_def)
    moreover have "editing ?t = []" by (simp add: editing_def ring_empty_iff)
    moreover have "console_ok ?t" using calculation i(3,4) l x(2) by (simp add: console_ok_def)
    ultimately show ?thesis using x(1) full True by (intro exI [of _ ?t]) simp
  next
    case False
    let ?t = "?u\<lparr>c_scr := x\<rparr>"
    have e: "committed ?t = committed s" "editing ?t = editing s @ [b]" using i(1,2) by simp_all
    moreover have "unat (in_w ?t - in_r ?t) \<le> unat (in_e ?t - in_r ?t)"
      using i(4) ok console_ring(2) [OF ok] by (simp add: console_ok_def)
    moreover have "10 \<notin> set (editing s @ [b])" using ok False b10 by (auto simp: console_ok_def ends_def)
    ultimately have "console_ok ?t" using i(3,4) l x(2) by (simp add: console_ok_def)
    then show ?thesis using x(1) full False e by (intro exI [of _ ?t]) simp
  qed
qed

lemma console_char_edits:
  assumes ok: "console_ok s" and c: "0 \<le> c" "c < 256"
  shows "\<exists>t w. console_char c s = Ok (t, c = 16, w) \<and> console_ok t \<and> c_lock t = c_lock s
    \<and> (committed t, editing t) = edit c (committed s, editing s)
    \<and> w = (if committed t = committed s then [] else [ConsChan])"
proof -
  have room: "in_e s - in_r s < of_nat INPUT_BUF \<longleftrightarrow> length (committed s) + length (editing s) < INPUT_BUF"
    using console_ring(2) [OF ok] by (simp add: word_less_nat_alt INPUT_BUF_def)
  consider "c = 16" | "c = 21" | "c = 8 \<or> c = 0x7F" "in_e s = in_w s" | "c = 8 \<or> c = 0x7F" "in_e s \<noteq> in_w s"
    | "c \<notin> {16, 21, 8, 0x7F}" "c = 0 \<or> \<not> length (committed s) + length (editing s) < INPUT_BUF"
    | "c \<notin> {16, 21, 8, 0x7F}" "c \<noteq> 0" "length (committed s) + length (editing s) < INPUT_BUF"
    by blast
  then show ?thesis
  proof cases
    case 1
    then show ?thesis using ok by (simp add: console_char_def edit_def)
  next
    case 2
    then show ?thesis using kill_line_ok [OF ok] by (auto simp: console_char_def edit_def)
  next
    case 3
    then have "editing s = []" by (simp add: editing_def ring_empty_iff)
    then show ?thesis using 3 ok by (auto simp: console_char_def edit_def)
  next
    case 4
    then show ?thesis using erase_ok [OF ok 4(2)] by (auto simp: console_char_def edit_def)
  next
    case 5
    then show ?thesis using ok room by (auto simp: console_char_def edit_def)
  next
    case 6
    define d where "d = (if c = 13 then 10 else c)"
    let ?ends = "d = 10 \<or> d = 4 \<or> length (committed s) + length (editing s) + 1 = INPUT_BUF"
    have r: "unat (in_e s - in_r s) < INPUT_BUF" using 6(3) console_ring(2) [OF ok] by simp
    have dd: "0 \<le> d" "d < 256" using c by (simp_all add: d_def)
    have b: "(if c = 13 then 10 else word_of_int c) = (word_of_int d :: u8)" by (simp add: d_def)
    have b4: "(word_of_int d :: u8) = 10 \<longleftrightarrow> d = 10" "(word_of_int d :: u8) = 4 \<longleftrightarrow> d = 4"
      using dd by (auto simp: word_uint_eq_iff uint_word_of_int take_bit_eq_mod)
    have ed: "edit c (committed s, editing s) = (if ?ends then (committed s @ editing s @ [word_of_int d], []) else (committed s, editing s @ [word_of_int d]))"
      unfolding edit_def b using 6 by (simp add: Let_def b4)
    have cs: "console_char c s = rbind (c_putc d (s\<lparr>in_buf := (in_buf s)[unat (in_e s) mod INPUT_BUF := word_of_int d], in_e := in_e s + 1\<rparr>)) (\<lambda>s.
        if d = 10 \<or> d = 4 \<or> in_e s = in_r s + of_nat INPUT_BUF
        then Ok (s\<lparr>in_w := in_e s\<rparr>, False, [ConsChan]) else Ok (s, False, []))"
      using 6 room by (simp add: console_char_def Let_def d_def)
    obtain t where t: "console_char c s = Ok (t, False, if ?ends then [ConsChan] else [])" "console_ok t" "c_lock t = c_lock s"
        "(committed t, editing t) = edit c (committed s, editing s)"
      unfolding ed cs using console_insert [OF ok r dd] by blast
    have "committed t = committed s \<longleftrightarrow> \<not> ?ends" using t(4) unfolding ed by (cases ?ends) simp_all
    then show ?thesis using t 6(1) by (intro exI [of _ t]) simp
  qed
qed

lemma consoleintr_line_editor:
  assumes "console_ok s" "\<not> c_lock s" "\<forall>c \<in> set keys. 0 \<le> c \<and> c < 256"
  shows "\<exists>t w. consoleintr keys s = Ok (t, 16 \<in> set keys, w) \<and> console_ok t \<and> \<not> c_lock t
    \<and> (committed t, editing t) = fold edit keys (committed s, editing s)"
proof -
  have "\<exists>t w. consoleintr_loop keys s = Ok (t, 16 \<in> set keys, w) \<and> console_ok t \<and> c_lock t = c_lock s
      \<and> (committed t, editing t) = fold edit keys (committed s, editing s)" if "console_ok s" for s
    using that assms(3)
  proof (induction keys arbitrary: s)
    case Nil
    then show ?case by simp
  next
    case (Cons c keys)
    then obtain u w where u: "console_char c s = Ok (u, c = 16, w)" "console_ok u" "c_lock u = c_lock s"
        "(committed u, editing u) = edit c (committed s, editing s)"
      using console_char_edits [of s c] by auto
    obtain t w' where "consoleintr_loop keys u = Ok (t, 16 \<in> set keys, w')" "console_ok t" "c_lock t = c_lock u"
        "(committed t, editing t) = fold edit keys (committed u, editing u)"
      using Cons.IH [OF u(2)] Cons.prems(2) by auto
    then show ?case using u Cons.prems(2) by auto
  qed
  from this [of "s\<lparr>c_lock := True\<rparr>"] show ?thesis
    using assms(1,2) by (auto simp: consoleintr_def c_acquire_def c_release_def)
qed

text \<open>C8. The console's interrupt handler is a line editor. Whatever keys arrive, it never overruns
  the ring, the screen or the serial port, and the complete lines and the line being edited become
  what the keys make of them one after the other: a character is appended, backspace removes the
  last one of the line, control-U the whole line, and newline, control-D or a full buffer complete
  it. A process listing is asked for exactly when control-P was pressed.\<close>

theorem consoleintr_edits:
  assumes "console_ok s" "\<not> c_lock s" "\<forall>c \<in> set keys. 0 \<le> c \<and> c < 256"
  shows "\<exists>t w. consoleintr keys s = Ok (t, 16 \<in> set keys, w) \<and> console_ok t \<and> \<not> c_lock t
    \<and> (committed t, editing t) = fold edit keys (committed s, editing s)"
  by (rule consoleintr_line_editor [OF assms])

subsection \<open>Reading a line\<close>

lemma console_get:
  assumes "console_ok s" "committed s = c # q"
  shows "in_r s \<noteq> in_w s" "in_buf s ! (unat (in_r s) mod INPUT_BUF) = c"
    "committed (s\<lparr>in_r := in_r s + 1\<rparr>) = q" "editing (s\<lparr>in_r := in_r s + 1\<rparr>) = editing s" "console_ok (s\<lparr>in_r := in_r s + 1\<rparr>)"
proof -
  show ne: "in_r s \<noteq> in_w s" using assms(2) by (auto simp: committed_def ring_def)
  have lb: "length (in_buf s) = INPUT_BUF" using assms(1) by (simp add: console_ok_def)
  have g: "committed s = in_buf s ! (unat (in_r s) mod INPUT_BUF) # ring (in_buf s) (in_r s + 1) (in_w s)"
    using ring_get [of "in_buf s" "in_w s" "in_r s"] lb INPUT_BUF_dvd ne by (simp add: committed_def)
  show "in_buf s ! (unat (in_r s) mod INPUT_BUF) = c" using g assms(2) by simp
  show q: "committed (s\<lparr>in_r := in_r s + 1\<rparr>) = q" using g assms(2) by (simp add: committed_def)
  show e: "editing (s\<lparr>in_r := in_r s + 1\<rparr>) = editing s" by (simp add: editing_def)
  have l: "unat (in_e s - in_r s) = Suc (length q) + length (editing s)" using console_ring(2) [OF assms(1)] assms(2) by simp
  then have "in_e s \<noteq> in_r s" by auto
  then have "unat (in_e s - in_r s) = Suc (unat (in_e s - 1 - in_r s))" by (rule unat_dec)
  moreover have "in_e s - 1 - in_r s = in_e s - (in_r s + 1)" by simp
  ultimately have "unat (in_e s - (in_r s + 1)) = length q + length (editing s)" using l by simp
  moreover have "unat (in_w s - (in_r s + 1)) = length q" using q by (auto simp: committed_def)
  ultimately show "console_ok (s\<lparr>in_r := in_r s + 1\<rparr>)" using assms(1) e l by (simp add: console_ok_def)
qed

lemma consoleread_loop_line:
  assumes "console_ok s" "committed s = l @ c # q" "4 \<notin> set l" "10 \<notin> set l" "c = 10 \<or> c = 4" "length l < n"
  shows "\<exists>t. consoleread_loop killed target n s = (if c = 10 then l @ [10] else l, Ends (n - length l - (if c = 10 then 1 else 0)), t)
     \<and> console_ok t \<and> c_lock t = c_lock s \<and> editing t = editing s
     \<and> committed t = (if c = 4 \<and> n - length l < target then 4 # q else q)"
  using assms
proof (induction l arbitrary: s n)
  case Nil
  obtain m where n: "n = Suc m" using Nil.prems by (cases n) auto
  have g: "committed s = c # q" using Nil.prems by simp
  have same: "s\<lparr>in_r := in_r s + 1 - 1\<rparr> = s" by simp
  show ?case using console_get [OF Nil.prems(1) g] Nil.prems(1,5) g by (auto simp: n Let_def same)
next
  case (Cons b l)
  obtain m where n: "n = Suc m" using Cons.prems by (cases n) auto
  let ?t = "s\<lparr>in_r := in_r s + 1\<rparr>"
  have g: "committed s = b # l @ c # q" using Cons.prems by simp
  note t = console_get [OF Cons.prems(1) g]
  obtain t where "consoleread_loop killed target m ?t = (if c = 10 then l @ [10] else l, Ends (m - length l - (if c = 10 then 1 else 0)), t)"
      "console_ok t \<and> c_lock t = c_lock ?t \<and> editing t = editing ?t \<and> committed t = (if c = 4 \<and> m - length l < target then 4 # q else q)"
    using Cons.IH [OF t(5,3)] Cons.prems n by auto
  then show ?case using t Cons.prems by (auto simp: n Let_def)
qed

definition ordinary :: "u8 \<Rightarrow> bool" where
  "ordinary b \<longleftrightarrow> b \<notin> {0, 4, 8, 10, 13, 16, 21, 0x7F}"

lemma edit_ordinary:
  assumes "ordinary b" "length q + length l + 1 < INPUT_BUF"
  shows "edit (uint b) (q, l) = (q, l @ [b])"
proof -
  have "uint b \<notin> {0, 4, 8, 10, 13, 16, 21, 0x7F}" "b \<noteq> 10" "b \<noteq> 4" using assms(1) by (auto simp: ordinary_def word_uint_eq_iff)
  then show ?thesis using assms(2) by (simp add: edit_def Let_def)
qed

lemma edit_line:
  "\<forall>b \<in> set bs. ordinary b \<Longrightarrow> length q + length l + length bs < INPUT_BUF \<Longrightarrow> fold edit (map uint bs) (q, l) = (q, l @ bs)"
  by (induction bs arbitrary: l) (simp_all add: edit_ordinary)

lemma edit_enter: "length q + length l < INPUT_BUF \<Longrightarrow> edit 13 (q, l) = (q @ l @ [10], [])"
  by (simp add: edit_def Let_def)

lemma line_keys:
  assumes "\<forall>b \<in> set l. ordinary b"
  shows "\<forall>c \<in> set (map uint l @ [13]). 0 \<le> c \<and> c < 256" "16 \<notin> set (map uint l @ [13])" "4 \<notin> set l" "10 \<notin> set l"
proof -
  have "uint b < 256" for b :: u8 using uint_lt2p [of b] by simp
  then show "\<forall>c \<in> set (map uint l @ [13]). 0 \<le> c \<and> c < 256" by auto
  show "16 \<notin> set (map uint l @ [13])" using assms by (auto simp: ordinary_def word_uint_eq_iff)
  show "4 \<notin> set l" "10 \<notin> set l" using assms by (auto simp: ordinary_def)
qed

text \<open>A line of ordinary characters that is typed on an idle console and ended with the enter
  key is what the next read returns, with a newline at its end; nothing of it is left in the
  console.\<close>

theorem typed_line_is_read:
  assumes "console_ok s" "\<not> c_lock s" "committed s = []" "editing s = []"
    and "\<forall>b \<in> set l. ordinary b" "length l < INPUT_BUF" "length l < n"
  shows "\<exists>t w u. consoleintr (map uint l @ [13]) s = Ok (t, False, w) \<and> console_ok u \<and> committed u = [] \<and> editing u = []
    \<and> consoleread killed ip (int n) (f, t) =
        rbind (iunlock (Some ip) f) (\<lambda>f. rbind (ilock (Some ip) f) (\<lambda>f. Ok (Returned (int (length l + 1)) (l @ [10]), f, u)))"
proof -
  note k = line_keys [OF assms(5)]
  have "fold edit (map uint l @ [13]) ([], []) = (l @ [10], [])"
    using edit_line [of l "[]" "[]"] edit_enter [of "[]" l] assms(5,6) by simp
  then obtain t w where t: "consoleintr (map uint l @ [13]) s = Ok (t, False, w)" "console_ok t" "\<not> c_lock t"
      "committed t = l @ [10]" "editing t = []"
    using consoleintr_line_editor [OF assms(1,2) k(1)] k(2) assms(3,4) by auto
  let ?t = "t\<lparr>c_lock := True\<rparr>"
  have c: "committed ?t = l @ 10 # []" "console_ok ?t" using t by simp_all
  obtain u where u: "consoleread_loop killed n n ?t = (l @ [10], Ends (n - length l - 1), u)" "console_ok u" "c_lock u"
      "editing u = []" "committed u = []"
    using consoleread_loop_line [OF c(2,1) k(3,4) _ assms(7), of killed n] t(5) by auto
  have "int n - int (n - length l - 1) = int (length l + 1)" using assms(7) by simp
  then have "consoleread killed ip (int n) (f, t) =
      rbind (iunlock (Some ip) f) (\<lambda>f. rbind (ilock (Some ip) f) (\<lambda>f. Ok (Returned (int (length l + 1)) (l @ [10]), f, u\<lparr>c_lock := False\<rparr>)))"
    using u t(3) by (simp add: consoleread_def consoleread_from_def c_acquire_def c_release_def)
  then show ?thesis using t(1) u by (intro exI [of _ t] exI [of _ w] exI [of _ "u\<lparr>c_lock := False\<rparr>"]) simp
qed

subsection \<open>An idle console\<close>

definition demo_screen :: screen where
  "demo_screen = \<lparr>crt = replicate 2000 0, cur_hi = 7, cur_lo = 0x7F, uart_on = True, uart_out = [], panicked = False\<rparr>"

definition demo_console :: console where
  "demo_console = \<lparr>c_lock = False, c_locking = True, c_scr = demo_screen, in_buf = replicate 128 0,
     in_r = 0xFFFFFFFF, in_w = 0xFFFFFFFF, in_e = 0xFFFFFFFF\<rparr>"

lemma demo_console_ok: "console_ok demo_console" "\<not> c_lock demo_console" "committed demo_console = []" "editing demo_console = []"
  by (simp_all add: console_ok_def demo_console_def demo_screen_def screen_ok_def cursor_def committed_def editing_def
      INPUT_BUF_def)

text \<open>The keys are a, b, backspace, c, enter; the counters wrap around.\<close>

theorem consoleintr_edits_witness:
  "\<exists>t w. consoleintr [97, 98, 8, 99, 13] demo_console = Ok (t, False, w) \<and> console_ok t \<and> committed t = [97, 99, 10] \<and> editing t = []"
proof -
  have "fold edit [97, 98, 8, 99, 13] ([], []) = ([97, 99, 10], [])" by (simp add: edit_def INPUT_BUF_def)
  then show ?thesis using consoleintr_edits [OF demo_console_ok(1,2), of "[97, 98, 8, 99, 13]"] demo_console_ok(3,4) by auto
qed

theorem typed_line_is_read_witness:
  "\<forall>f. \<exists>t w u. consoleintr [108, 115, 13] demo_console = Ok (t, False, w) \<and> console_ok u \<and> committed u = [] \<and> editing u = []
    \<and> consoleread False 3 (int 100) (f, t) =
        rbind (iunlock (Some 3) f) (\<lambda>f. rbind (ilock (Some 3) f) (\<lambda>f. Ok (Returned 3 [108, 115, 10], f, u)))"
  using typed_line_is_read [OF demo_console_ok, where l = "[108, 115]" and n = 100 and killed = False and ip = 3]
  by (simp add: ordinary_def INPUT_BUF_def)

end
