(* ===== verification/Kbd.thy ===== *)
theory Kbd
  imports Console
begin

section \<open>The keyboard (\<^verbatim>\<open>kbd.c\<close>, \<^verbatim>\<open>kbd.h\<close>)\<close>

text \<open>
  The driver turns the scan codes of the keyboard controller into characters. Its state is the word
  \<^verbatim>\<open>shift\<close> of modifiers; the status and the data register are arguments. An interrupt is served with
  the bytes that the controller has buffered, and goes to the line editor of the console. The
  lemmas show that every value the driver returns is one the console expects, and that releasing
  a modifier key undoes pressing it.
\<close>

unbundle bit_operations_syntax

definition KBS_DIB :: u8 where "KBS_DIB = 0x01"
definition SHIFT :: u32 where "SHIFT = 1"
definition CTL :: u32 where "CTL = 2"
definition ALT :: u32 where "ALT = 4"
definition CAPSLOCK :: u32 where "CAPSLOCK = 8"
definition NUMLOCK :: u32 where "NUMLOCK = 16"
definition SCROLLLOCK :: u32 where "SCROLLLOCK = 32"
definition E0ESC :: u32 where "E0ESC = 64"

text \<open>A table initialised with a first run of entries and some designated ones; the others are 0.\<close>

definition key_table :: "u8 list \<Rightarrow> (nat \<times> u8) list \<Rightarrow> nat \<Rightarrow> u8" where
  "key_table run extra i = (if i < length run then run ! i else case map_of extra i of None \<Rightarrow> 0 | Some c \<Rightarrow> c)"

definition shiftcode :: "nat \<Rightarrow> u32" where
  "shiftcode i =
     (if i = 0x1D then CTL else if i = 0x2A then SHIFT else if i = 0x36 then SHIFT
      else if i = 0x38 then ALT else if i = 0x9D then CTL else if i = 0xB8 then ALT else 0)"

definition togglecode :: "nat \<Rightarrow> u32" where
  "togglecode i = (if i = 0x3A then CAPSLOCK else if i = 0x45 then NUMLOCK else if i = 0x46 then SCROLLLOCK else 0)"

definition normalmap :: "nat \<Rightarrow> u8" where
  "normalmap = key_table
     [0, 27, 49, 50, 51, 52, 53, 54,
      55, 56, 57, 48, 45, 61, 8, 9,
      113, 119, 101, 114, 116, 121, 117, 105,
      111, 112, 91, 93, 10, 0, 97, 115,
      100, 102, 103, 104, 106, 107, 108, 59,
      39, 96, 0, 92, 122, 120, 99, 118,
      98, 110, 109, 44, 46, 47, 0, 42,
      0, 32, 0, 0, 0, 0, 0, 0,
      0, 0, 0, 0, 0, 0, 0, 55,
      56, 57, 45, 52, 53, 54, 43, 49,
      50, 51, 48, 46, 0, 0, 0, 0]
     [(0x9C, 10), (0xB5, 47), (0xC8, 0xE2), (0xD0, 0xE3), (0xC9, 0xE6), (0xD1, 0xE7), (0xCB, 0xE4), (0xCD, 0xE5), (0x97, 0xE0), (0xCF, 0xE1), (0xD2, 0xE8), (0xD3, 0xE9)]"

definition shiftmap :: "nat \<Rightarrow> u8" where
  "shiftmap = key_table
     [0, 27, 33, 64, 35, 36, 37, 94,
      38, 42, 40, 41, 95, 43, 8, 9,
      81, 87, 69, 82, 84, 89, 85, 73,
      79, 80, 123, 125, 10, 0, 65, 83,
      68, 70, 71, 72, 74, 75, 76, 58,
      34, 126, 0, 124, 90, 88, 67, 86,
      66, 78, 77, 60, 62, 63, 0, 42,
      0, 32, 0, 0, 0, 0, 0, 0,
      0, 0, 0, 0, 0, 0, 0, 55,
      56, 57, 45, 52, 53, 54, 43, 49,
      50, 51, 48, 46, 0, 0, 0, 0]
     [(0x9C, 10), (0xB5, 47), (0xC8, 0xE2), (0xD0, 0xE3), (0xC9, 0xE6), (0xD1, 0xE7), (0xCB, 0xE4), (0xCD, 0xE5), (0x97, 0xE0), (0xCF, 0xE1), (0xD2, 0xE8), (0xD3, 0xE9)]"

definition ctlmap :: "nat \<Rightarrow> u8" where
  "ctlmap = key_table
     [0, 0, 0, 0, 0, 0, 0, 0,
      0, 0, 0, 0, 0, 0, 0, 0,
      17, 23, 5, 18, 20, 25, 21, 9,
      15, 16, 0, 0, 13, 0, 1, 19,
      4, 6, 7, 8, 10, 11, 12, 0,
      0, 0, 0, 28, 26, 24, 3, 22,
      2, 14, 13, 0, 0, 239, 0, 0]
     [(0x9C, 13), (0xB5, 0xEF), (0xC8, 0xE2), (0xD0, 0xE3), (0xC9, 0xE6), (0xD1, 0xE7), (0xCB, 0xE4), (0xCD, 0xE5), (0x97, 0xE0), (0xCF, 0xE1), (0xD2, 0xE8), (0xD3, 0xE9)]"

definition charcode :: "u32 \<Rightarrow> nat \<Rightarrow> u8" where
  "charcode m = (if m = 0 then normalmap else if m = SHIFT then shiftmap else ctlmap)"

definition swap_case :: "u8 \<Rightarrow> u8" where
  "swap_case c = (if 97 \<le> c \<and> c \<le> 122 then c - 32 else if 65 \<le> c \<and> c \<le> 90 then c + 32 else c)"

definition kbdgetc :: "u8 \<Rightarrow> u8 \<Rightarrow> u32 \<Rightarrow> int \<times> u32" where
  "kbdgetc st data shift =
     (if st AND KBS_DIB = 0 then (- 1, shift)
      else if data = 0xE0 then (0, shift OR E0ESC)
      else if data AND 0x80 \<noteq> 0 then
        let data = (if shift AND E0ESC \<noteq> 0 then data else data AND 0x7F) in
        (0, shift AND NOT (shiftcode (unat data) OR E0ESC))
      else
        let (data, shift) = (if shift AND E0ESC \<noteq> 0 then (data OR 0x80, shift AND NOT E0ESC) else (data, shift));
            shift = (shift OR shiftcode (unat data)) XOR togglecode (unat data);
            c = charcode (shift AND (CTL OR SHIFT)) (unat data)
        in (uint (if shift AND CAPSLOCK \<noteq> 0 then swap_case c else c), shift))"

text \<open>The values that \<^verbatim>\<open>kbdgetc\<close> returns while the controller has data, and the interrupt handler.\<close>

fun kbd_chars :: "u8 list \<Rightarrow> u32 \<Rightarrow> int list \<times> u32" where
  "kbd_chars [] shift = ([], shift)"
| "kbd_chars (data # codes) shift =
     (let (c, shift) = kbdgetc KBS_DIB data shift; (cs, shift) = kbd_chars codes shift in (c # cs, shift))"

definition kbdintr :: "u8 list \<Rightarrow> u32 \<times> console \<Rightarrow> (u32 \<times> console \<times> bool \<times> wchan list) res" where
  "kbdintr codes = (\<lambda>(shift, s).
     let (cs, shift) = kbd_chars codes shift in
     rbind (consoleintr cs s) (\<lambda>(s, d, w). Ok (shift, s, d, w)))"

subsection \<open>Characters and modifiers\<close>

lemma kbdgetc_range:
  assumes "st AND KBS_DIB \<noteq> 0"
  shows "0 \<le> fst (kbdgetc st data shift) \<and> fst (kbdgetc st data shift) < 256"
proof -
  have "uint c < 256" for c :: u8 using uint_lt2p [of c] by simp
  then show ?thesis using assms by (simp add: kbdgetc_def Let_def split_beta)
qed

lemma kbd_chars_range: "\<forall>c \<in> set (fst (kbd_chars codes shift)). 0 \<le> c \<and> c < 256"
proof (induction codes arbitrary: shift)
  case (Cons data codes)
  have "KBS_DIB AND KBS_DIB \<noteq> 0" by (simp add: KBS_DIB_def)
  from kbdgetc_range [OF this, of data shift] Cons show ?case by (auto simp: split_beta Let_def)
qed simp

lemma kbdintr_edits:
  fixes codes :: "u8 list" and shift :: u32
  assumes "console_ok s" "\<not> c_lock s"
  defines "keys \<equiv> fst (kbd_chars codes shift)"
  shows "\<exists>t w. kbdintr codes (shift, s) = Ok (snd (kbd_chars codes shift), t, 16 \<in> set keys, w) \<and> console_ok t \<and> \<not> c_lock t
    \<and> (committed t, editing t) = fold edit keys (committed s, editing s)"
  using consoleintr_line_editor [OF assms(1,2) kbd_chars_range [of codes shift]]
  by (auto simp: kbdintr_def keys_def split_beta Let_def)

text \<open>Pressing and releasing a shift key leaves the other modifiers as they were and the shift off.\<close>

lemma modifier_off:
  assumes "(shift :: u32) AND e = 0"
  shows "(shift OR k) AND NOT (k OR e) = shift AND NOT k"
proof (rule bit_word_eqI)
  fix n
  have "\<not> bit (shift AND e) n" using assms by simp
  then show "bit ((shift OR k) AND NOT (k OR e)) n = bit (shift AND NOT k) n"
    by (auto simp: bit_simps)
qed

lemma press_release_shift:
  assumes "shift AND E0ESC = 0" "k = 0x2A \<or> k = 0x36"
  shows "snd (kbd_chars [k, k OR 0x80] shift) = shift AND NOT SHIFT"
proof -
  have e: "(shift OR SHIFT) AND E0ESC = 0"
  proof (rule bit_word_eqI)
    fix n
    have "\<not> bit (shift AND E0ESC) n" "\<not> bit (SHIFT AND E0ESC) n" using assms by (simp_all add: SHIFT_def E0ESC_def)
    then show "bit ((shift OR SHIFT) AND E0ESC) n = bit (0 :: u32) n" by (auto simp: bit_simps)
  qed
  have k: "k AND 0x80 = 0" "k \<noteq> 0xE0" "shiftcode (unat k) = SHIFT" "togglecode (unat k) = 0"
      "(k OR 0x80) AND 0x80 \<noteq> 0" "k OR 0x80 \<noteq> 0xE0" "(k OR 0x80) AND 0x7F = k" "KBS_DIB AND KBS_DIB \<noteq> 0"
    using assms(2) by (auto simp: shiftcode_def togglecode_def KBS_DIB_def)
  have "snd (kbdgetc KBS_DIB k shift) = shift OR SHIFT"
    using k assms(1) by (simp add: kbdgetc_def Let_def)
  moreover have "snd (kbdgetc KBS_DIB (k OR 0x80) (shift OR SHIFT)) = (shift OR SHIFT) AND NOT (SHIFT OR E0ESC)"
    using k e by (simp add: kbdgetc_def Let_def)
  ultimately show ?thesis using modifier_off [OF assms(1), of SHIFT] by (simp add: split_beta Let_def)
qed

end
