(* ===== verification/Grep.thy ===== *)
theory Grep
  imports Xv6_Prelude
begin

section \<open>The pattern search program (\<^verbatim>\<open>grep.c\<close>)\<close>

text \<open>
  A pointer into a NUL-terminated string is the list of the bytes from there to the NUL, so that
  \<^verbatim>\<open>*text == 0\<close> is \<open>text = []\<close>. The search through a file works on a buffer of 1024 bytes that is
  refilled by \<^verbatim>\<open>read\<close>: \<open>avail\<close> lists how many bytes each of the calls finds available (a regular
  file always has as many as are asked for, a pipe may have fewer), and the list ends where
  \<^verbatim>\<open>read\<close> returns 0. The lemmas show that the matcher decides the usual meaning of the patterns,
  and that the program prints the matching lines when its reads fill the buffer.
\<close>

definition CARET :: u8 where "CARET = 0x5E"
definition STAR :: u8 where "STAR = 0x2A"
definition DOT :: u8 where "DOT = 0x2E"
definition DOLLAR :: u8 where "DOLLAR = 0x24"
definition NL :: u8 where "NL = 0x0A"

subsection \<open>The matcher\<close>

function matchhere :: "u8 list \<Rightarrow> u8 list \<Rightarrow> bool"
  and matchstar :: "u8 \<Rightarrow> u8 list \<Rightarrow> u8 list \<Rightarrow> bool" where
  "matchhere [] ts = True"
| "matchhere (c # re) ts =
     (if re \<noteq> [] \<and> hd re = STAR then matchstar c (tl re) ts
      else if c = DOLLAR \<and> re = [] then ts = []
      else if ts \<noteq> [] \<and> (c = DOT \<or> c = hd ts) then matchhere re (tl ts)
      else False)"
| "matchstar c re ts =
     (if matchhere re ts then True
      else if ts \<noteq> [] \<and> (hd ts = c \<or> c = DOT) then matchstar c re (tl ts)
      else False)"
  by pat_completeness auto
termination
  by (relation "measures [\<lambda>x. case x of Inl (re, t) \<Rightarrow> length re + length t | Inr (c, re, t) \<Rightarrow> length re + length t,
        \<lambda>x. case x of Inl _ \<Rightarrow> 0 | Inr _ \<Rightarrow> 1]") (auto simp: neq_Nil_conv)

fun match_from :: "u8 list \<Rightarrow> u8 list \<Rightarrow> bool" where
  "match_from re [] = matchhere re []"
| "match_from re (c # ts) = (if matchhere re (c # ts) then True else match_from re ts)"

definition match :: "u8 list \<Rightarrow> u8 list \<Rightarrow> bool" where
  "match re ts = (if re \<noteq> [] \<and> hd re = CARET then matchhere (tl re) ts else match_from re ts)"

subsection \<open>The meaning of a pattern\<close>

text \<open>A pattern is a sequence of items: one character, any number of a character, or the end of
  the text. The strings an item stands for are a set, and a pattern stands for the
  concatenations.\<close>

datatype item = One u8 | Many u8 | End

definition fits :: "u8 \<Rightarrow> u8 \<Rightarrow> bool" where
  "fits c x \<longleftrightarrow> c = DOT \<or> c = x"

fun items :: "u8 list \<Rightarrow> item list" where
  "items [] = []"
| "items [c] = (if c = DOLLAR then [End] else [One c])"
| "items (c # d # re) = (if d = STAR then Many c # items re else One c # items (d # re))"

fun item_lang :: "item \<Rightarrow> u8 list set" where
  "item_lang (One c) = {[x] | x. fits c x}"
| "item_lang (Many c) = {xs. \<forall>x \<in> set xs. fits c x}"
| "item_lang End = {[]}"

definition pattern_lang :: "item list \<Rightarrow> u8 list set" where
  "pattern_lang is = {concat ps | ps. list_all2 (\<lambda>p i. p \<in> item_lang i) ps is}"

definition regex_matches :: "u8 list \<Rightarrow> u8 list \<Rightarrow> bool" where
  "regex_matches re ts \<longleftrightarrow>
     (let anchored = (re \<noteq> [] \<and> hd re = CARET); is = items (if anchored then tl re else re) in
      \<exists>before found after. ts = before @ found @ after \<and> found \<in> pattern_lang is
        \<and> (anchored \<longrightarrow> before = []) \<and> (End \<in> set is \<longrightarrow> after = []))"

definition found_here :: "item list \<Rightarrow> u8 list \<Rightarrow> bool" where
  "found_here is ts \<longleftrightarrow> (\<exists>found after. ts = found @ after \<and> found \<in> pattern_lang is \<and> (End \<in> set is \<longrightarrow> after = []))"

lemma pattern_lang_Nil [simp]: "pattern_lang [] = {[]}"
  by (auto simp: pattern_lang_def)

lemma pattern_lang_Cons: "w \<in> pattern_lang (i # is) \<longleftrightarrow> (\<exists>p q. w = p @ q \<and> p \<in> item_lang i \<and> q \<in> pattern_lang is)"
proof
  assume "w \<in> pattern_lang (i # is)"
  then obtain p ps where "w = p @ concat ps" "p \<in> item_lang i" "list_all2 (\<lambda>p i. p \<in> item_lang i) ps is"
    by (auto simp: pattern_lang_def list_all2_Cons2)
  then show "\<exists>p q. w = p @ q \<and> p \<in> item_lang i \<and> q \<in> pattern_lang is" unfolding pattern_lang_def by blast
next
  assume "\<exists>p q. w = p @ q \<and> p \<in> item_lang i \<and> q \<in> pattern_lang is"
  then obtain p ps where "w = p @ concat ps" "p \<in> item_lang i" "list_all2 (\<lambda>p i. p \<in> item_lang i) ps is"
    by (auto simp: pattern_lang_def)
  then show "w \<in> pattern_lang (i # is)" unfolding pattern_lang_def by (intro CollectI exI [of _ "p # ps"]) simp
qed

lemma found_here_Nil [simp]: "found_here [] ts"
  by (simp add: found_here_def)

lemma found_here_Cons:
  assumes "i \<noteq> End"
  shows "found_here (i # is) ts \<longleftrightarrow> (\<exists>p rest. ts = p @ rest \<and> p \<in> item_lang i \<and> found_here is rest)"
proof
  assume "found_here (i # is) ts"
  then obtain w after where w: "ts = w @ after" "w \<in> pattern_lang (i # is)" "End \<in> set is \<longrightarrow> after = []"
    using assms unfolding found_here_def by auto
  then obtain p q where "w = p @ q" "p \<in> item_lang i" "q \<in> pattern_lang is" unfolding pattern_lang_Cons by blast
  then show "\<exists>p rest. ts = p @ rest \<and> p \<in> item_lang i \<and> found_here is rest"
    using w unfolding found_here_def by (intro exI [of _ p] exI [of _ "q @ after"]) auto
next
  assume "\<exists>p rest. ts = p @ rest \<and> p \<in> item_lang i \<and> found_here is rest"
  then obtain p q after where w: "ts = p @ q @ after" "p \<in> item_lang i" "q \<in> pattern_lang is" "End \<in> set is \<longrightarrow> after = []"
    unfolding found_here_def by blast
  then have "p @ q \<in> pattern_lang (i # is)" unfolding pattern_lang_Cons by blast
  then show "found_here (i # is) ts"
    using w assms unfolding found_here_def by (intro exI [of _ "p @ q"] exI [of _ after]) auto
qed

lemma found_here_One:
  "found_here (One c # is) ts \<longleftrightarrow> (\<exists>x rest. ts = x # rest \<and> fits c x \<and> found_here is rest)"
proof -
  have "found_here (One c # is) ts \<longleftrightarrow> (\<exists>p rest. ts = p @ rest \<and> (\<exists>x. p = [x] \<and> fits c x) \<and> found_here is rest)"
    by (simp add: found_here_Cons)
  also have "\<dots> \<longleftrightarrow> (\<exists>x rest. ts = [x] @ rest \<and> fits c x \<and> found_here is rest)" by blast
  finally show ?thesis by simp
qed

lemma found_here_End: "found_here [End] ts \<longleftrightarrow> ts = []"
  by (auto simp: found_here_def pattern_lang_Cons)

lemma found_here_Many:
  "found_here (Many c # is) ts \<longleftrightarrow>
     found_here is ts \<or> (\<exists>x rest. ts = x # rest \<and> fits c x \<and> found_here (Many c # is) rest)"
proof
  assume "found_here (Many c # is) ts"
  then obtain p rest where t: "ts = p @ rest" "\<forall>x \<in> set p. fits c x" "found_here is rest" by (auto simp: found_here_Cons)
  show "found_here is ts \<or> (\<exists>x rest. ts = x # rest \<and> fits c x \<and> found_here (Many c # is) rest)"
  proof (cases p)
    case (Cons x p')
    then have "found_here (Many c # is) (p' @ rest)" using t by (auto simp: found_here_Cons)
    then show ?thesis using t Cons by auto
  qed (use t in simp)
next
  assume "found_here is ts \<or> (\<exists>x rest. ts = x # rest \<and> fits c x \<and> found_here (Many c # is) rest)"
  then consider "found_here is ts"
    | x p rest where "ts = (x # p) @ rest" "fits c x" "\<forall>x \<in> set p. fits c x" "found_here is rest"
    by (auto simp: found_here_Cons)
  then show "found_here (Many c # is) ts"
  proof cases
    case 1
    then show ?thesis unfolding found_here_Cons [of "Many c", simplified] by (intro exI [of _ "[]"] exI [of _ ts]) simp
  next
    case 2
    then show ?thesis unfolding found_here_Cons [of "Many c", simplified] by (intro exI [of _ "x # p"] exI [of _ rest]) simp
  qed
qed

lemma items_Cons:
  "items (c # re) = (if re \<noteq> [] \<and> hd re = STAR then Many c # items (tl re)
                    else if c = DOLLAR \<and> re = [] then [End] else One c # items re)"
  by (cases re) auto

lemma matchhere_found:
  "matchhere re ts = found_here (items re) ts"
  "matchstar c re ts = found_here (Many c # items re) ts"
proof (induction re ts and c re ts rule: matchhere_matchstar.induct)
  case (1 ts)
  then show ?case by simp
next
  case (2 c re ts)
  then show ?case
    by (cases ts) (auto simp: items_Cons found_here_End found_here_One fits_def simp del: matchhere.simps(2) matchstar.simps items.simps
        simp: matchhere.simps(2) [of c re])
next
  case (3 c re ts)
  then show ?case
    by (subst found_here_Many) (cases ts; auto simp: fits_def simp del: matchstar.simps simp: matchstar.simps [of c re])
qed

lemma match_from_iff: "match_from re ts \<longleftrightarrow> (\<exists>before rest. ts = before @ rest \<and> matchhere re rest)"
  by (induction ts) (auto simp: Cons_eq_append_conv)

text \<open>C13. The matcher of \<^verbatim>\<open>grep\<close> decides exactly the usual meaning of its patterns: the text has a
  part that is a concatenation of strings of the items of the pattern, at the start of the text if
  the pattern begins with a caret and at its end if it ends with a dollar sign.\<close>

theorem match_iff_regex: "match re ts = regex_matches re ts"
proof (cases "re \<noteq> [] \<and> hd re = CARET")
  case True
  then have "match re ts = found_here (items (tl re)) ts" by (simp add: match_def matchhere_found)
  then show ?thesis using True by (simp add: regex_matches_def found_here_def Let_def)
next
  case False
  have "match re ts \<longleftrightarrow> (\<exists>before rest. ts = before @ rest \<and> found_here (items re) rest)"
    unfolding match_def if_not_P [OF False] match_from_iff matchhere_found ..
  also have "\<dots> \<longleftrightarrow> regex_matches re ts"
    unfolding regex_matches_def Let_def if_not_P [OF False] found_here_def using False by blast
  finally show ?thesis .
qed

subsection \<open>Searching a file\<close>

fun strchr :: "u8 list \<Rightarrow> u8 \<Rightarrow> nat option" where
  "strchr [] c = None"
| "strchr (x # s) c = (if x = 0 then None else if x = c then Some 0 else map_option Suc (strchr s c))"

lemma strchr_less: "strchr s c = Some q \<Longrightarrow> q < length s"
  by (induction s arbitrary: q) (auto split: if_splits)

text \<open>The inner loop: the lines that \<^verbatim>\<open>write\<close> prints, and what is left of the buffer at \<^verbatim>\<open>p\<close>.\<close>

function grep_lines :: "u8 list \<Rightarrow> u8 list \<Rightarrow> u8 list \<times> u8 list" where
  "grep_lines pat p =
     (case strchr p NL of
        None \<Rightarrow> ([], p)
      | Some q \<Rightarrow>
          let (out, r) = grep_lines pat (drop (q + 1) p) in
          ((if match pat (take q p) then take (q + 1) p else []) @ out, r))"
  by pat_completeness auto
termination
  by (relation "measure (\<lambda>(pat, p). length p)") (auto dest: strchr_less)

declare grep_lines.simps [simp del]

definition BUFSZ :: nat where "BUFSZ = 1024"

primrec grep :: "u8 list \<Rightarrow> nat list \<Rightarrow> u8 list \<Rightarrow> u8 list \<Rightarrow> u8 list" where
  "grep pat [] input buf = []"
| "grep pat (a # avail) input buf =
     (let n = min a (BUFSZ - length buf - 1); chunk = take n input in
      if chunk = [] then []
      else
        let (out, p) = grep_lines pat (buf @ chunk) in
        out @ grep pat avail (drop n input) (if length p = length (buf @ chunk) then [] else p))"

definition to_bytes :: "string \<Rightarrow> u8 list" where
  "to_bytes s = map of_char s"

text \<open>\<^verbatim>\<open>main\<close>, with the bytes printed on standard output and on standard error. \<open>opn\<close> gives what can
  be read from a file, if it can be opened.\<close>

fun grep_files :: "(u8 list \<Rightarrow> (nat list \<times> u8 list) option) \<Rightarrow> u8 list \<Rightarrow> u8 list list \<Rightarrow> u8 list" where
  "grep_files opn pat [] = []"
| "grep_files opn pat (f # fs) =
     (case opn f of
        None \<Rightarrow> to_bytes ''grep: cannot open '' @ f @ [NL]
      | Some (avail, input) \<Rightarrow> grep pat avail input [] @ grep_files opn pat fs)"

definition grep_main :: "(u8 list \<Rightarrow> (nat list \<times> u8 list) option) \<Rightarrow> nat list \<times> u8 list \<Rightarrow> u8 list list \<Rightarrow> u8 list \<times> u8 list" where
  "grep_main opn stdin argv =
     (if length argv \<le> 1 then ([], to_bytes ''usage: grep pattern [file ...]'' @ [NL])
      else if length argv \<le> 2 then (grep (argv ! 1) (fst stdin) (snd stdin) [], [])
      else (grep_files opn (argv ! 1) (drop 2 argv), []))"

subsection \<open>The lines of a ts\<close>

function split_lines :: "u8 list \<Rightarrow> u8 list list \<times> u8 list" where
  "split_lines s =
     (if NL \<in> set s then
        let l = takeWhile (\<lambda>x. x \<noteq> NL) s; (ls, r) = split_lines (drop (Suc (length l)) s) in (l # ls, r)
      else ([], s))"
  by pat_completeness auto
termination
  by (relation "measure length") (auto dest: length_pos_if_in_set intro!: diff_less)

declare split_lines.simps [simp del]

definition print_matching :: "u8 list \<Rightarrow> u8 list list \<Rightarrow> u8 list" where
  "print_matching pat ls = concat (map (\<lambda>l. l @ [NL]) (filter (match pat) ls))"

lemma print_matching_simps [simp]:
  "print_matching pat [] = []"
  "print_matching pat (l # ls) = (if match pat l then l @ [NL] else []) @ print_matching pat ls"
  "print_matching pat (ls @ ls') = print_matching pat ls @ print_matching pat ls'"
  by (simp_all add: print_matching_def)

lemma split_lines_no_NL: "NL \<notin> set s \<Longrightarrow> split_lines s = ([], s)"
  by (simp add: split_lines.simps)

lemma split_lines_Cons: "NL \<notin> set l \<Longrightarrow> split_lines (l @ NL # s) = (l # fst (split_lines s), snd (split_lines s))"
proof -
  assume "NL \<notin> set l"
  then have "takeWhile (\<lambda>x. x \<noteq> NL) (l @ NL # s) = l" by (induction l) auto
  then show ?thesis by (subst split_lines.simps) (simp add: Let_def split_beta)
qed

lemma split_first: "NL \<in> set s \<Longrightarrow> \<exists>l r. s = l @ NL # r \<and> NL \<notin> set l"
  by (metis split_list_first)

lemma split_lines_append:
  "split_lines (s @ t) = (fst (split_lines s) @ fst (split_lines (snd (split_lines s) @ t)), snd (split_lines (snd (split_lines s) @ t)))"
proof (induction s rule: length_induct)
  case (1 s)
  show ?case
  proof (cases "NL \<in> set s")
    case True
    then obtain l r where s: "s = l @ NL # r" "NL \<notin> set l" using split_first by blast
    have "length r < length s" by (simp add: s)
    with 1 have "split_lines (r @ t) = (fst (split_lines r) @ fst (split_lines (snd (split_lines r) @ t)), snd (split_lines (snd (split_lines r) @ t)))"
      by blast
    then show ?thesis using split_lines_Cons [OF s(2), of "r @ t"] split_lines_Cons [OF s(2), of r] by (simp add: s(1))
  qed (simp add: split_lines_no_NL)
qed

lemma split_lines_rest: "NL \<notin> set (snd (split_lines s)) \<and> set (snd (split_lines s)) \<subseteq> set s
    \<and> (NL \<in> set s \<longrightarrow> length (snd (split_lines s)) < length s)"
proof (induction s rule: length_induct)
  case (1 s)
  show ?case
  proof (cases "NL \<in> set s")
    case True
    then obtain l r where s: "s = l @ NL # r" "NL \<notin> set l" using split_first by blast
    have "length r < length s" by (simp add: s)
    with 1 have "NL \<notin> set (snd (split_lines r)) \<and> set (snd (split_lines r)) \<subseteq> set r \<and> (NL \<in> set r \<longrightarrow> length (snd (split_lines r)) < length r)"
      by blast
    then show ?thesis using split_lines_Cons [OF s(2), of r] split_lines_no_NL [of r]
      by (cases "NL \<in> set r") (auto simp: s(1))
  qed (simp add: split_lines_no_NL)
qed

lemma strchr_None: "0 \<notin> set s \<Longrightarrow> c \<notin> set s \<Longrightarrow> strchr s c = None"
  by (induction s) auto

lemma strchr_first: "0 \<notin> set l \<Longrightarrow> c \<notin> set l \<Longrightarrow> c \<noteq> 0 \<Longrightarrow> strchr (l @ c # s) c = Some (length l)"
  by (induction l) auto

lemma grep_lines_split:
  assumes "0 \<notin> set p"
  shows "grep_lines pat p = (print_matching pat (fst (split_lines p)), snd (split_lines p))"
  using assms
proof (induction p rule: length_induct)
  case (1 p)
  show ?case
  proof (cases "NL \<in> set p")
    case True
    then obtain l r where p: "p = l @ NL # r" "NL \<notin> set l" using split_first by blast
    then have "0 \<notin> set r" "0 \<notin> set l" "length r < length p" using 1(2) by auto
    moreover from this have "grep_lines pat r = (print_matching pat (fst (split_lines r)), snd (split_lines r))" using 1(1) by blast
    moreover have "strchr p NL = Some (length l)" unfolding p(1) by (rule strchr_first) (use calculation p(2) in \<open>simp_all add: NL_def\<close>)
    ultimately show ?thesis using split_lines_Cons [OF p(2), of r] by (subst grep_lines.simps) (simp add: p(1))
  next
    case False
    then show ?thesis using 1(2) by (subst grep_lines.simps) (simp add: strchr_None split_lines_no_NL)
  qed
qed

definition short_lines :: "u8 list \<Rightarrow> bool" where
  "short_lines s \<longleftrightarrow> (\<forall>l \<in> set (fst (split_lines s)). length l < BUFSZ - 1)"

lemma short_lines_append: "short_lines (s @ t) \<longleftrightarrow> short_lines s \<and> short_lines (snd (split_lines s) @ t)"
  unfolding short_lines_def by (subst split_lines_append) auto

lemma long_line:
  assumes "NL \<notin> set b" "BUFSZ - 1 \<le> length b" "short_lines (b @ t)"
  shows "NL \<notin> set t"
proof
  assume "NL \<in> set t"
  then obtain l r where t: "t = l @ NL # r" "NL \<notin> set l" using split_first by blast
  then have "split_lines (b @ t) = ((b @ l) # fst (split_lines r), snd (split_lines r))"
    using split_lines_Cons [of "b @ l" r] assms(1) by simp
  then show False using assms(2,3) by (simp add: short_lines_def)
qed

lemma grep_buffered:
  assumes "0 \<notin> set (buf @ input)" "NL \<notin> set buf" "length buf < BUFSZ - 1" "short_lines (buf @ input)"
    and "\<forall>a \<in> set avail. BUFSZ - 1 \<le> a" "length input \<le> length avail"
  shows "grep pat avail input buf = print_matching pat (fst (split_lines (buf @ input)))"
  using assms
proof (induction avail arbitrary: input buf)
  case Nil
  then show ?case by (simp add: split_lines_no_NL)
next
  case (Cons a avail)
  define n where "n = BUFSZ - length buf - 1"
  define b rest where "b = buf @ take n input" and "rest = drop n input"
  have n: "min a (BUFSZ - length buf - 1) = n" "0 < n" using Cons.prems by (auto simp: n_def)
  have bi: "buf @ input = b @ rest" by (simp add: b_def rest_def)
  have zb: "0 \<notin> set b" "0 \<notin> set rest" using Cons.prems(1) unfolding bi by simp_all
  have lr: "length rest \<le> length avail" if "input \<noteq> []" using Cons.prems(6) n(2) that by (cases input) (auto simp: rest_def)
  have lb: "length b \<le> BUFSZ - 1" using Cons.prems(3) by (simp add: b_def n_def)
  show ?case
  proof (cases "input = []")
    case True
    then show ?thesis using Cons.prems(2) by (simp add: split_lines_no_NL)
  next
    case False
    then have e: "grep pat (a # avail) input buf = print_matching pat (fst (split_lines b))
        @ grep pat avail rest (if length (snd (split_lines b)) = length b then [] else snd (split_lines b))"
      using n grep_lines_split [OF zb(1), of pat] by (simp add: Let_def b_def rest_def)
    show ?thesis
    proof (cases "NL \<in> set b")
      case True
      let ?p = "snd (split_lines b)"
      have p: "NL \<notin> set ?p" "set ?p \<subseteq> set b" "length ?p < length b" using split_lines_rest [of b] True by auto
      have "grep pat avail rest ?p = print_matching pat (fst (split_lines (?p @ rest)))"
      proof (rule Cons.IH)
        show "0 \<notin> set (?p @ rest)" using p(2) zb by auto
        show "short_lines (?p @ rest)" using Cons.prems(4) unfolding bi short_lines_append [of b rest] by simp
      qed (use p lb Cons.prems(5) lr False in auto)
      moreover have "fst (split_lines (b @ rest)) = fst (split_lines b) @ fst (split_lines (?p @ rest))"
        by (subst split_lines_append) simp
      ultimately show ?thesis using e p(3) unfolding bi by simp
    next
      case no: False
      have "NL \<notin> set rest"
      proof (cases "rest = []")
        case False
        then have "BUFSZ - 1 \<le> length b" using Cons.prems(3) by (simp add: b_def rest_def n_def)
        then show ?thesis using long_line [OF no] Cons.prems(4) unfolding bi by blast
      qed simp
      moreover have "grep pat avail rest [] = print_matching pat (fst (split_lines ([] @ rest)))"
        using calculation zb Cons.prems(5) lr [OF False]
        by (intro Cons.IH) (simp_all add: short_lines_def split_lines_no_NL BUFSZ_def)
      ultimately show ?thesis using e no unfolding bi by (simp add: split_lines_no_NL)
    qed
  qed
qed

text \<open>C24. On a text without NUL bytes whose lines fit the buffer, when every \<^verbatim>\<open>read\<close> returns as much
  as it is asked for, \<^verbatim>\<open>grep\<close> prints the lines of the text that match, each with its newline, in
  their order, and nothing else. (A last line that no newline ends is not printed.)\<close>

theorem grep_prints_matching_lines:
  assumes "0 \<notin> set input" "short_lines input" "\<forall>a \<in> set avail. BUFSZ - 1 \<le> a" "length input \<le> length avail"
  shows "grep pat avail input [] = print_matching pat (fst (split_lines input))"
  using grep_buffered [of "[]" input avail pat] assms by (simp add: BUFSZ_def)

definition demo_text :: "u8 list" where
  "demo_text = to_bytes ''abc'' @ [NL] @ to_bytes ''xyz'' @ [NL] @ to_bytes ''zbb'' @ [NL]"

lemma demo_lines: "split_lines demo_text = ([to_bytes ''abc'', to_bytes ''xyz'', to_bytes ''zbb''], [])"
  by (simp add: demo_text_def to_bytes_def NL_def split_lines.simps)

theorem grep_prints_matching_lines_witness:
  "grep (to_bytes ''b*c'') (replicate 12 2000) demo_text [] = to_bytes ''abc'' @ [NL]
   \<and> grep (to_bytes ''^.b'') (replicate 12 2000) demo_text [] = to_bytes ''abc'' @ [NL] @ to_bytes ''zbb'' @ [NL]"
proof -
  have h: "0 \<notin> set demo_text" "short_lines demo_text" "\<forall>a \<in> set (replicate 12 2000). BUFSZ - 1 \<le> a"
      "length demo_text \<le> length (replicate 12 (2000 :: nat))"
    by (simp_all add: short_lines_def demo_lines) (simp_all add: demo_text_def to_bytes_def NL_def BUFSZ_def)
  show ?thesis
    unfolding grep_prints_matching_lines [OF h] demo_lines
    by (simp add: to_bytes_def print_matching_def match_def CARET_def STAR_def DOT_def DOLLAR_def)
qed

text \<open>A \<^verbatim>\<open>read\<close> that returns less than a line into an empty buffer, as it may from a pipe, loses what
  it has read: no newline is found, and the buffer is emptied.\<close>

lemma grep_short_read_dropped:
  assumes "0 \<notin> set chunk" "NL \<notin> set chunk" "chunk \<noteq> []" "length chunk < BUFSZ"
  shows "grep pat (length chunk # avail) (chunk @ rest) [] = grep pat avail rest []"
proof -
  have "min (length chunk) (BUFSZ - 1) = length chunk" using assms(4) by simp
  then show ?thesis using assms grep_lines_split [of chunk pat] by (simp add: Let_def split_lines_no_NL)
qed

end
