(* ===== verification/Ulib.thy ===== *)
theory Ulib
  imports Digits Grep
begin

section \<open>The user library and small programs (\<^verbatim>\<open>ulib.c\<close>, \<^verbatim>\<open>printf.c\<close>, \<^verbatim>\<open>wc.c\<close>, \<^verbatim>\<open>cat.c\<close>, \<^verbatim>\<open>echo.c\<close>, \<^verbatim>\<open>kill.c\<close>, \<^verbatim>\<open>ln.c\<close>, \<^verbatim>\<open>mkdir.c\<close>, \<^verbatim>\<open>rm.c\<close>)\<close>

text \<open>
  Strings are lists of the bytes before the NUL, as in theory \<open>Grep\<close>. The bytes that go to a
  descriptor are a list. What the system calls return is an argument of the program: the results of
  the calls of \<^verbatim>\<open>read\<close> as a list of \<open>Some\<close> bytes, ended by the empty list or by \<open>None\<close> for an error (writes succeed); for
  \<^verbatim>\<open>link\<close>, \<^verbatim>\<open>mkdir\<close> and \<^verbatim>\<open>unlink\<close> whether they succeed. The lemmas show that \<^verbatim>\<open>atoi\<close> inverts \<^verbatim>\<open>printf\<close>'s decimal
  output, and that \<^verbatim>\<open>wc\<close> counts lines, words and bytes however the input is cut into reads.
\<close>

subsection \<open>Strings and numbers\<close>

fun strcmp :: "u8 list \<Rightarrow> u8 list \<Rightarrow> int" where
  "strcmp (a # p) (b # q) = (if a = b then strcmp p q else uint a - uint b)"
| "strcmp (a # p) [] = uint a"
| "strcmp [] (b # q) = - uint b"
| "strcmp [] [] = 0"

fun atoi_loop :: "u32 \<Rightarrow> u8 list \<Rightarrow> u32" where
  "atoi_loop n [] = n"
| "atoi_loop n (c # s) = (if 0x30 \<le> c \<and> c \<le> 0x39 then atoi_loop (n * 10 + ucast c - 0x30) s else n)"

definition atoi :: "u8 list \<Rightarrow> u32" where
  "atoi s = atoi_loop 0 s"

text \<open>\<^verbatim>\<open>gets\<close> reads byte by byte: the line that it stores, without its NUL, and the input left.\<close>

fun gets_loop :: "nat \<Rightarrow> u8 list \<Rightarrow> u8 list \<times> u8 list" where
  "gets_loop 0 input = ([], input)"
| "gets_loop (Suc room) [] = ([], [])"
| "gets_loop (Suc room) (c # input) =
     (if c = 0x0A \<or> c = 0x0D then ([c], input)
      else let (l, r) = gets_loop room input in (c # l, r))"

definition gets :: "int \<Rightarrow> u8 list \<Rightarrow> u8 list \<times> u8 list" where
  "gets n input = gets_loop (nat (n - 1)) input"

definition upper_digits :: "u8 list" where
  "upper_digits = map of_char ''0123456789ABCDEF''"

definition printint :: "u32 \<Rightarrow> u32 \<Rightarrow> bool \<Rightarrow> u8 list res" where
  "printint xx base sign = int_chars upper_digits xx base sign"

text \<open>\<^verbatim>\<open>printf\<close>: \<open>pct\<close> says whether the last byte was a percent sign. Words and strings are passed as in
  \<open>cprintf\<close>: \<open>str\<close> gives the string at an address.\<close>

fun printf_loop :: "(u32 \<Rightarrow> u8 list) \<Rightarrow> bool \<Rightarrow> u8 list \<Rightarrow> u32 list \<Rightarrow> u8 list res" where
  "printf_loop str pct [] args = Ok []"
| "printf_loop str False (c # fmt) args =
     (if c = 0x25 then printf_loop str True fmt args
      else rbind (printf_loop str False fmt args) (\<lambda>out. Ok (c # out)))"
| "printf_loop str True (c # fmt) args =
     (if c = 0x25 then rbind (printf_loop str False fmt args) (\<lambda>out. Ok (c # out))
      else if c \<in> {0x64, 0x78, 0x70, 0x73, 0x63} then
        (case args of
           [] \<Rightarrow> Fault
         | x # args \<Rightarrow>
             rbind (if c = 0x64 then printint x 10 True
                    else if c = 0x78 \<or> c = 0x70 then printint x 16 False
                    else if c = 0x73 then Ok (if x = 0 then to_bytes ''(null)'' else str x)
                    else Ok [ucast x]) (\<lambda>s.
             rbind (printf_loop str False fmt args) (\<lambda>out. Ok (s @ out))))
      else rbind (printf_loop str False fmt args) (\<lambda>out. Ok (0x25 # c # out)))"

definition printf :: "(u32 \<Rightarrow> u8 list) \<Rightarrow> u8 list \<Rightarrow> u32 list \<Rightarrow> u8 list res" where
  "printf str fmt args = printf_loop str False fmt args"

subsection \<open>Programs\<close>

type_synonym wc_state = "u32 \<times> u32 \<times> u32 \<times> bool"

definition wc_byte :: "u8 \<Rightarrow> wc_state \<Rightarrow> wc_state" where
  "wc_byte b = (\<lambda>(l, w, c, inword).
     let c = c + 1; l = (if b = NL then l + 1 else l) in
     if strchr [0x20, 0x0D, 0x09, 0x0A, 0x0B] b \<noteq> None then (l, w, c, False)
     else if \<not> inword then (l, w + 1, c, True)
     else (l, w, c, inword))"

fun wc_loop :: "u8 list option list \<Rightarrow> wc_state \<Rightarrow> wc_state option" where
  "wc_loop [] st = Some st"
| "wc_loop (None # reads) st = None"
| "wc_loop (Some buf # reads) st = (if buf = [] then Some st else wc_loop reads (fold wc_byte buf st))"

definition decimal :: "u32 \<Rightarrow> u8 list" where
  "decimal x = (case printint x 10 True of Ok s \<Rightarrow> s | _ \<Rightarrow> [])"

text \<open>\<^verbatim>\<open>wc\<close> and \<^verbatim>\<open>cat\<close> on one descriptor: what is printed, and whether the program goes on. \<open>on_files\<close>
  is the \<^verbatim>\<open>main\<close> that both have: \<open>opn\<close> gives the reads of a file, if it can be opened.\<close>

definition wc :: "u8 list option list \<Rightarrow> u8 list \<Rightarrow> u8 list \<times> bool" where
  "wc reads name =
     (case wc_loop reads (0, 0, 0, False) of
        None \<Rightarrow> (to_bytes ''wc: read error'' @ [NL], False)
      | Some (l, w, c, _) \<Rightarrow> (decimal l @ [0x20] @ decimal w @ [0x20] @ decimal c @ [0x20] @ name @ [NL], True))"

fun cat :: "u8 list option list \<Rightarrow> u8 list \<times> bool" where
  "cat [] = ([], True)"
| "cat (None # reads) = (to_bytes ''cat: read error'' @ [NL], False)"
| "cat (Some buf # reads) = (if buf = [] then ([], True) else let (out, go) = cat reads in (buf @ out, go))"

fun on_files :: "(u8 list option list \<Rightarrow> u8 list \<Rightarrow> u8 list \<times> bool) \<Rightarrow> u8 list \<Rightarrow> (u8 list \<Rightarrow> u8 list option list option) \<Rightarrow> u8 list list \<Rightarrow> u8 list" where
  "on_files prog name opn [] = []"
| "on_files prog name opn (f # fs) =
     (case opn f of
        None \<Rightarrow> name @ to_bytes '': cannot open '' @ f @ [NL]
      | Some reads \<Rightarrow> let (out, go) = prog reads f in if go then out @ on_files prog name opn fs else out)"

definition wc_main :: "(u8 list \<Rightarrow> u8 list option list option) \<Rightarrow> u8 list option list \<Rightarrow> u8 list list \<Rightarrow> u8 list" where
  "wc_main opn stdin argv =
     (if length argv \<le> 1 then fst (wc stdin []) else on_files wc (to_bytes ''wc'') opn (tl argv))"

definition cat_main :: "(u8 list \<Rightarrow> u8 list option list option) \<Rightarrow> u8 list option list \<Rightarrow> u8 list list \<Rightarrow> u8 list" where
  "cat_main opn stdin argv =
     (if length argv \<le> 1 then fst (cat stdin) else on_files (\<lambda>reads f. cat reads) (to_bytes ''cat'') opn (tl argv))"

fun echo_args :: "u8 list list \<Rightarrow> u8 list" where
  "echo_args [] = []"
| "echo_args [a] = a @ [NL]"
| "echo_args (a # b # args) = a @ [0x20] @ echo_args (b # args)"

text \<open>The pids that \<^verbatim>\<open>kill\<close> is called with, and what is printed.\<close>

definition kill_main :: "u8 list list \<Rightarrow> u32 list \<times> u8 list" where
  "kill_main argv =
     (if length argv < 2 then ([], to_bytes ''usage: kill pid...'' @ [NL]) else (map atoi (tl argv), []))"

definition ln_main :: "bool \<Rightarrow> u8 list list \<Rightarrow> u8 list" where
  "ln_main linked argv =
     (if length argv \<noteq> 3 then to_bytes ''Usage: ln old new'' @ [NL]
      else if \<not> linked then to_bytes ''link '' @ argv ! 1 @ [0x20] @ argv ! 2 @ to_bytes '': failed'' @ [NL]
      else [])"

text \<open>\<^verbatim>\<open>mkdir\<close> and \<^verbatim>\<open>rm\<close> stop at the first name for which the call fails: the names they call it with,
  and what they print.\<close>

fun each_name :: "(u8 list \<Rightarrow> bool) \<Rightarrow> (u8 list \<Rightarrow> u8 list) \<Rightarrow> u8 list list \<Rightarrow> u8 list list \<times> u8 list" where
  "each_name ok msg [] = ([], [])"
| "each_name ok msg (a # args) =
     (if \<not> ok a then ([a], msg a) else let (calls, out) = each_name ok msg args in (a # calls, out))"

definition mkdir_main :: "(u8 list \<Rightarrow> bool) \<Rightarrow> u8 list list \<Rightarrow> u8 list list \<times> u8 list" where
  "mkdir_main ok argv =
     (if length argv < 2 then ([], to_bytes ''Usage: mkdir files...'' @ [NL])
      else each_name ok (\<lambda>a. to_bytes ''mkdir: '' @ a @ to_bytes '' failed to create'' @ [NL]) (tl argv))"

definition rm_main :: "(u8 list \<Rightarrow> bool) \<Rightarrow> u8 list list \<Rightarrow> u8 list list \<times> u8 list" where
  "rm_main ok argv =
     (if length argv < 2 then ([], to_bytes ''Usage: rm files...'' @ [NL])
      else each_name ok (\<lambda>a. to_bytes ''rm: '' @ a @ to_bytes '' failed to delete'' @ [NL]) (tl argv))"

subsection \<open>Reading back what was printed\<close>

lemma upper_digits_ok: "length upper_digits = 16" "distinct upper_digits" "MINUS \<notin> set upper_digits"
  by (simp_all add: upper_digits_def MINUS_def)

lemma upper_digits_nth: "d < 10 \<Longrightarrow> upper_digits ! d = 0x30 + of_nat d"
  by (auto simp: upper_digits_def less_Suc_eq numeral_eq_Suc)

lemma strcmp_eq_0: "strcmp p q = 0 \<longleftrightarrow> p = q" if "0 \<notin> set p" "0 \<notin> set q"
  using that by (induction p q rule: strcmp.induct) (auto simp: word_uint_eq_iff [symmetric] unsigned_eq_0_iff)

lemma atoi_digit:
  assumes "d < 10"
  shows "atoi_loop n (upper_digits ! d # s) = atoi_loop (n * 10 + of_nat d) s"
proof -
  have d: "upper_digits ! d = 0x30 + of_nat d" using assms by (rule upper_digits_nth)
  have u: "unat (0x30 + of_nat d :: u8) = 0x30 + d" using assms by (simp add: unat_word_ariths unsigned_of_nat take_bit_eq_mod)
  then have "0x30 \<le> (0x30 + of_nat d :: u8)" "(0x30 + of_nat d :: u8) \<le> 0x39" using assms by (simp_all add: word_le_nat_alt)
  moreover have "(ucast (0x30 + of_nat d :: u8) :: u32) = 0x30 + of_nat d"
    using u assms by (simp add: word_unat_eq_iff unsigned_ucast_eq unat_word_ariths unsigned_of_nat take_bit_eq_mod)
  ultimately show ?thesis by (simp add: d algebra_simps)
qed

lemma atoi_append:
  "\<forall>d \<in> set ds. d < 10 \<Longrightarrow> atoi_loop n (map (\<lambda>d. upper_digits ! d) ds @ s) = atoi_loop (atoi_loop n (map (\<lambda>d. upper_digits ! d) ds)) s"
  by (induction ds arbitrary: n) (simp_all add: atoi_digit del: atoi_loop.simps(2))

lemma atoi_digits:
  "\<forall>d \<in> set ds. d < 10 \<Longrightarrow> atoi_loop 0 (map (\<lambda>d. upper_digits ! d) (rev ds)) = of_nat (value_of 10 ds)"
proof (induction ds)
  case (Cons d ds)
  then have "\<forall>d \<in> set (rev ds). d < 10" "d < 10" by auto
  then show ?case using Cons.IH Cons.prems atoi_append [of "rev ds" 0 "[upper_digits ! d]"] atoi_digit [of d _ "[]"]
    by (simp add: algebra_simps del: atoi_loop.simps(2))
qed simp

text \<open>What \<^verbatim>\<open>printf\<close> prints for \<open>%d\<close> of a number that is not negative, \<^verbatim>\<open>atoi\<close> reads back as that number.\<close>

theorem atoi_inverts_printint:
  assumes "0 \<le> sint x"
  shows "\<exists>s. printint x 10 True = Ok s \<and> atoi s = x"
proof -
  let ?ds = "digs 16 10 (unat x)"
  have "printint x 10 True = Ok (map (\<lambda>d. upper_digits ! d) (rev ?ds))"
    using assms int_chars_digs [of 10 upper_digits x True] upper_digits_ok(1) by (simp add: printint_def)
  moreover have ux: "unat x < 2 ^ 32" using unsigned_less [of x] by simp
  have "unat x < 10 ^ 16" using ux by simp
  then have "value_of 10 ?ds = unat x" by (rule value_of_digs)
  moreover have "\<forall>d \<in> set ?ds. d < 10" by (rule digs_less) simp
  ultimately show ?thesis using atoi_digits [of ?ds] by (simp add: atoi_def)
qed

theorem atoi_inverts_printint_witness:
  "\<exists>s. printint 2026 10 True = Ok s \<and> atoi s = 2026"
  by (rule atoi_inverts_printint) simp

subsection \<open>Counting words\<close>

definition white :: "u8 \<Rightarrow> bool" where
  "white b \<longleftrightarrow> b \<in> {0x20, 0x0D, 0x09, 0x0A, 0x0B}"

function words_in :: "u8 list \<Rightarrow> u8 list list" where
  "words_in s =
     (let t = dropWhile white s in
      if t = [] then [] else takeWhile (\<lambda>b. \<not> white b) t # words_in (dropWhile (\<lambda>b. \<not> white b) t))"
  by pat_completeness auto
termination
proof (relation "measure length", goal_cases)
  case (2 s t)
  then obtain b r where t: "dropWhile white s = b # r" by (cases "dropWhile white s") auto
  then have "\<not> white b" by (simp add: dropWhile_eq_Cons_conv)
  then have "length (dropWhile (\<lambda>b. \<not> white b) (b # r)) \<le> length r" by (simp add: length_dropWhile_le)
  moreover have "length (b # r) \<le> length s" using length_dropWhile_le [of white s] unfolding t .
  ultimately show ?case using 2 t by simp
qed simp

declare words_in.simps [simp del]

lemma words_in_Nil [simp]: "words_in [] = []"
  by (subst words_in.simps) simp

lemma words_in_white: "white b \<Longrightarrow> words_in (b # s) = words_in s"
  by (subst (1 2) words_in.simps) simp

lemma words_in_black: "\<not> white b \<Longrightarrow> words_in (b # s) = (b # takeWhile (\<lambda>b. \<not> white b) s) # words_in (dropWhile (\<lambda>b. \<not> white b) s)"
  by (subst words_in.simps) simp

lemma strchr_white: "strchr [0x20, 0x0D, 0x09, 0x0A, 0x0B] b \<noteq> None \<longleftrightarrow> white b"
  by (auto simp: white_def)

lemma wc_bytes:
  "\<exists>iw'. fold wc_byte s (l, w, c, iw) = (l + of_nat (count_list s NL),
     w + of_nat (length (words_in (if iw then dropWhile (\<lambda>b. \<not> white b) s else s))), c + of_nat (length s), iw')"
proof (induction s arbitrary: l w c iw)
  case (Cons b s)
  show ?case
  proof (cases "white b")
    case True
    then have "wc_byte b (l, w, c, iw) = (if b = NL then l + 1 else l, w, c + 1, False)"
      using strchr_white [of b] by (simp add: wc_byte_def Let_def del: strchr.simps)
    then show ?thesis using Cons.IH [of "if b = NL then l + 1 else l" w "c + 1" False] True
      by (cases "b = NL") (auto simp: words_in_white algebra_simps)
  next
    case False
    then have b: "b \<noteq> NL" by (auto simp: white_def NL_def)
    then have "wc_byte b (l, w, c, iw) = (l, if iw then w else w + 1, c + 1, True)"
      using strchr_white [of b] False by (simp add: wc_byte_def Let_def del: strchr.simps)
    then show ?thesis using Cons.IH [of l "if iw then w else w + 1" "c + 1" True] False b
      by (cases iw) (auto simp: words_in_black algebra_simps)
  qed
qed simp

lemma wc_loop_fold: "\<forall>b \<in> set bufs. b \<noteq> [] \<Longrightarrow> wc_loop (map Some bufs @ [Some []]) st = Some (fold wc_byte (concat bufs) st)"
  by (induction bufs arbitrary: st) auto

text \<open>However the input is cut into the pieces that \<^verbatim>\<open>read\<close> returns, also in the middle of a word,
  \<^verbatim>\<open>wc\<close> counts the newlines, the words and the bytes of the whole input. (The counters are
  32-bit and wrap.)\<close>

theorem wc_counts:
  assumes "\<forall>b \<in> set bufs. b \<noteq> []"
  shows "wc (map Some bufs @ [Some []]) name =
     (decimal (of_nat (count_list (concat bufs) NL)) @ [0x20] @ decimal (of_nat (length (words_in (concat bufs)))) @ [0x20]
      @ decimal (of_nat (length (concat bufs))) @ [0x20] @ name @ [NL], True)"
  using wc_loop_fold [OF assms] wc_bytes [of "concat bufs" 0 0 0 False] by (auto simp: wc_def)

theorem wc_counts_witness:
  "wc [Some (to_bytes ''ab c''), Some (to_bytes ''d e'' @ [NL]), Some []] (to_bytes ''f'') =
     (decimal 1 @ [0x20] @ decimal 3 @ [0x20] @ decimal 8 @ [0x20] @ to_bytes ''f'' @ [NL], True)"
proof -
  have "words_in (concat [to_bytes ''ab c'', to_bytes ''d e'' @ [NL]]) = [to_bytes ''ab'', to_bytes ''cd'', to_bytes ''e'']"
    by (simp add: to_bytes_def NL_def words_in_white words_in_black white_def)
  moreover have "count_list (concat [to_bytes ''ab c'', to_bytes ''d e'' @ [NL]]) NL = 1" by (simp add: to_bytes_def NL_def)
  ultimately show ?thesis using wc_counts [of "[to_bytes ''ab c'', to_bytes ''d e'' @ [NL]]" "to_bytes ''f''"] by (simp add: to_bytes_def)
qed

end
