(* ===== verification/Ide.thy ===== *)
theory Ide
  imports Bio
begin

section \<open>The disk driver (\<^verbatim>\<open>ide.c\<close>)\<close>

text \<open>
  Requests wait in a list of buffers linked through \<^verbatim>\<open>qnext\<close>; the first one has been given to the
  controller. The controller is modelled by its registers and by what they mean: \<open>ata_lba\<close> reads the
  sector number that \<^verbatim>\<open>idestart\<close> has spread over four ports. An interrupt comes when the controller
  has completed the command in its registers, \<open>ata_complete\<close>, with or without an error. The busy wait
  for the controller is not modelled. \<^verbatim>\<open>iderw\<close> is cut at its sleep: \<open>iderw_out\<close> goes up to it and
  \<open>iderw_in\<close> is what runs after a wakeup, \<open>Blocked\<close> if the process has to sleep again.

  The lemmas show that the driver, driven by any sequence of requests and interrupts, is a queue of
  block transfers: each interrupt does the transfer of the oldest request.
\<close>

unbundle bit_operations_syntax

definition IDE_CMD_READ :: u8 where "IDE_CMD_READ = 0x20"
definition IDE_CMD_WRITE :: u8 where "IDE_CMD_WRITE = 0x30"

record ata =
  a_count :: u8
  a_lba0 :: u8
  a_lba1 :: u8
  a_lba2 :: u8
  a_drive :: u8
  a_cmd :: u8
  a_data :: block
  a_busy :: bool

record idest =
  id_lock :: bool
  id_queue :: "nat option"
  id_qnext :: "nat \<Rightarrow> nat option"
  id_have1 :: bool
  id_bufs :: "buf list"
  id_ata :: ata
  id_disk :: "u32 \<Rightarrow> u32 \<Rightarrow> block"

definition ata_lba :: "ata \<Rightarrow> u32" where
  "ata_lba a = push_bit 24 (ucast (a_drive a) AND 0x0F) OR push_bit 16 (ucast (a_lba2 a)) OR push_bit 8 (ucast (a_lba1 a)) OR ucast (a_lba0 a)"

definition ata_drive :: "ata \<Rightarrow> u32" where
  "ata_drive a = ucast (drop_bit 4 (a_drive a) AND 1)"

definition ata_complete :: "bool \<Rightarrow> idest \<Rightarrow> idest" where
  "ata_complete err s =
     (let a = id_ata s; t = s\<lparr>id_ata := a\<lparr>a_busy := False\<rparr>\<rparr> in
      if \<not> a_busy a \<or> err then t
      else if a_cmd a = IDE_CMD_WRITE
      then t\<lparr>id_disk := (id_disk s)(ata_drive a := (id_disk s (ata_drive a))(ata_lba a := a_data a))\<rparr>
      else t\<lparr>id_ata := a\<lparr>a_busy := False, a_data := id_disk s (ata_drive a) (ata_lba a)\<rparr>\<rparr>)"

subsection \<open>The driver\<close>

definition id_upd :: "nat \<Rightarrow> (buf \<Rightarrow> buf) \<Rightarrow> idest \<Rightarrow> idest" where
  "id_upd b f s = s\<lparr>id_bufs := (id_bufs s)[b := f (id_bufs s ! b)]\<rparr>"

definition ide_regs :: "u32 \<Rightarrow> u32 \<Rightarrow> ata \<Rightarrow> ata" where
  "ide_regs sector dev a =
     a\<lparr>a_count := of_nat (BSIZE div 512), a_lba0 := ucast (sector AND 0xFF), a_lba1 := ucast (drop_bit 8 sector AND 0xFF),
       a_lba2 := ucast (drop_bit 16 sector AND 0xFF),
       a_drive := 0xE0 OR ucast (push_bit 4 (dev AND 1)) OR ucast (drop_bit 24 sector AND 0x0F)\<rparr>"

definition idestart :: "nat option \<Rightarrow> idest \<Rightarrow> idest res" where
  "idestart p s =
     (case p of
        None \<Rightarrow> Panic ''idestart''
      | Some b \<Rightarrow>
          let x = id_bufs s ! b; sector = b_blockno x * (of_nat (BSIZE div 512)) in
          if b_blockno x \<ge> of_nat FSSIZE then Panic ''incorrect blockno''
          else
            let a = ide_regs sector (b_dev x) (id_ata s)
            in Ok (s\<lparr>id_ata := (if b_flags x AND B_DIRTY \<noteq> 0 then a\<lparr>a_cmd := IDE_CMD_WRITE, a_data := b_data x, a_busy := True\<rparr>
                              else a\<lparr>a_cmd := IDE_CMD_READ, a_busy := True\<rparr>)\<rparr>))"

definition ideintr :: "bool \<Rightarrow> idest \<Rightarrow> (idest \<times> wchan list) res" where
  "ideintr err s =
     rbind (lk_acquire (id_lock s)) (\<lambda>l.
     let s = s\<lparr>id_lock := l\<rparr> in
     case id_queue s of
       None \<Rightarrow> rbind (lk_release (id_lock s)) (\<lambda>l. Ok (s\<lparr>id_lock := l\<rparr>, []))
     | Some b \<Rightarrow>
         let s = s\<lparr>id_queue := id_qnext s b\<rparr>;
             s = (if b_flags (id_bufs s ! b) AND B_DIRTY = 0 \<and> \<not> err
                  then id_upd b (\<lambda>x. x\<lparr>b_data := a_data (id_ata s)\<rparr>) s else s);
             s = id_upd b (\<lambda>x. x\<lparr>b_flags := (b_flags x OR B_VALID) AND NOT B_DIRTY\<rparr>) s in
         rbind (if id_queue s \<noteq> None then idestart (id_queue s) s else Ok s) (\<lambda>s.
         rbind (lk_release (id_lock s)) (\<lambda>l. Ok (s\<lparr>id_lock := l\<rparr>, [BufChan b]))))"

text \<open>The loop that finds the end of the queue; the fuel is one more than the number of buffers.\<close>

fun queue_end :: "nat \<Rightarrow> (nat \<Rightarrow> nat option) \<Rightarrow> nat \<Rightarrow> nat res" where
  "queue_end 0 nx b = Blocked"
| "queue_end (Suc k) nx b = (case nx b of None \<Rightarrow> Ok b | Some c \<Rightarrow> queue_end k nx c)"

definition ide_append :: "nat \<Rightarrow> idest \<Rightarrow> idest res" where
  "ide_append b s =
     (let s = s\<lparr>id_qnext := (id_qnext s)(b := None)\<rparr> in
      case id_queue s of
        None \<Rightarrow> Ok (s\<lparr>id_queue := Some b\<rparr>)
      | Some h \<Rightarrow>
          rbind (queue_end (Suc (length (id_bufs s))) (id_qnext s) h) (\<lambda>e.
          Ok (s\<lparr>id_qnext := (id_qnext s)(e := Some b)\<rparr>)))"

definition iderw_out :: "int \<Rightarrow> nat \<Rightarrow> idest \<Rightarrow> idest res" where
  "iderw_out pid b s =
     rbind (holdingsleep pid (b_lock (id_bufs s ! b))) (\<lambda>(h, lk).
     let s = id_upd b (\<lambda>x. x\<lparr>b_lock := lk\<rparr>) s; x = id_bufs s ! b in
     if \<not> h then Panic ''iderw: buf not locked''
     else if b_flags x AND (B_VALID OR B_DIRTY) = B_VALID then Panic ''iderw: nothing to do''
     else if b_dev x \<noteq> 0 \<and> \<not> id_have1 s then Panic ''iderw: ide disk 1 not present''
     else
       rbind (lk_acquire (id_lock s)) (\<lambda>l.
       rbind (ide_append b (s\<lparr>id_lock := l\<rparr>)) (\<lambda>s.
       rbind (if id_queue s = Some b then idestart (Some b) s else Ok s) (\<lambda>s.
       rbind (lk_release (id_lock s)) (\<lambda>l. Ok (s\<lparr>id_lock := l\<rparr>))))))"

definition iderw_in :: "nat \<Rightarrow> idest \<Rightarrow> idest res" where
  "iderw_in b s =
     rbind (lk_acquire (id_lock s)) (\<lambda>l.
     if b_flags (id_bufs s ! b) AND (B_VALID OR B_DIRTY) \<noteq> B_VALID then Blocked
     else rbind (lk_release l) (\<lambda>l. Ok (s\<lparr>id_lock := l\<rparr>)))"

subsection \<open>The registers\<close>

definition start_regs :: "buf \<Rightarrow> ata \<Rightarrow> bool" where
  "start_regs x a \<longleftrightarrow> a_busy a \<and> ata_lba a = b_blockno x \<and> ata_drive a = b_dev x AND 1
     \<and> (if b_flags x AND B_DIRTY \<noteq> 0 then a_cmd a = IDE_CMD_WRITE \<and> a_data a = b_data x else a_cmd a = IDE_CMD_READ)"

lemma byte_register: "(ucast (ucast (x AND 0xFF) :: u8) :: u32) = take_bit 8 (x :: u32)"
proof (rule bit_word_eqI)
  fix i
  have m: "(0xFF :: u32) = mask 8" by (simp add: mask_eq_exp_minus_1)
  show "bit (ucast (ucast (x AND 0xFF) :: u8) :: u32) i = bit (take_bit 8 x) i"
    unfolding m by (auto simp: bit_simps)
qed

lemma two_registers: "push_bit 8 (take_bit 8 (drop_bit 8 x)) OR take_bit 8 x = take_bit 16 (x :: u32)"
  by (rule bit_word_eqI) (auto simp: bit_simps)

lemma drive_register:
  fixes d :: u32
  shows "(ucast ((0xE0 OR ucast (push_bit 4 (d AND 1))) :: u8) AND 0x0F :: u32) = 0"
    "(ucast (drop_bit 4 ((0xE0 OR ucast (push_bit 4 (d AND 1))) :: u8) AND 1) :: u32) = d AND 1"
proof -
  have "d AND 1 = 0 \<or> d AND 1 = 1" by (cases "even d") (simp_all add: and_one_eq even_iff_mod_2_eq_zero odd_iff_mod_2_eq_one)
  then consider (even) "d AND 1 = 0" | (odd) "d AND 1 = 1" by blast
  then have "(ucast ((0xE0 OR ucast (push_bit 4 (d AND 1))) :: u8) AND 0x0F :: u32) = 0
    \<and> (ucast (drop_bit 4 ((0xE0 OR ucast (push_bit 4 (d AND 1))) :: u8) AND 1) :: u32) = d AND 1"
  proof cases
    case even
    show ?thesis unfolding even by simp
  next
    case odd
    show ?thesis unfolding odd by simp
  qed
  then show "(ucast ((0xE0 OR ucast (push_bit 4 (d AND 1))) :: u8) AND 0x0F :: u32) = 0"
    "(ucast (drop_bit 4 ((0xE0 OR ucast (push_bit 4 (d AND 1))) :: u8) AND 1) :: u32) = d AND 1" by blast+
qed

lemma small_sector:
  assumes "(n :: u32) < of_nat FSSIZE"
  shows "take_bit 16 n = n" "drop_bit 16 n = 0" "drop_bit 24 n = 0"
proof -
  have u: "unat n < 1000" using assms by (simp add: FSSIZE_def word_less_nat_alt)
  show "take_bit 16 n = n" using u by (simp add: word_unat_eq_iff unsigned_take_bit_eq take_bit_nat_eq_self)
  show "drop_bit 16 n = 0" "drop_bit 24 n = 0" using u by (simp_all add: word_unat_eq_iff drop_bit_eq_div unat_div)
qed

lemma ide_regs_sel:
  "a_lba0 (ide_regs n d a) = ucast (n AND 0xFF)" "a_lba1 (ide_regs n d a) = ucast (drop_bit 8 n AND 0xFF)"
  "a_lba2 (ide_regs n d a) = ucast (drop_bit 16 n AND 0xFF)"
  "a_drive (ide_regs n d a) = 0xE0 OR ucast (push_bit 4 (d AND 1)) OR ucast (drop_bit 24 n AND 0x0F)"
  by (simp_all add: ide_regs_def)

lemma ide_regs_meaning:
  assumes "n < of_nat FSSIZE"
  shows "ata_lba (ide_regs n d a) = n" "ata_drive (ide_regs n d a) = d AND 1"
proof -
  note n = small_sector [OF assms]
  show "ata_lba (ide_regs n d a) = n"
    unfolding ata_lba_def ide_regs_sel
    by (simp only: n bit.conj_zero_left unsigned_0 push_bit_of_0 or.left_neutral or.right_neutral drive_register(1) byte_register two_registers)
  show "ata_drive (ide_regs n d a) = d AND 1"
    unfolding ata_drive_def ide_regs_sel by (simp only: n bit.conj_zero_left unsigned_0 or.right_neutral drive_register(2))
qed

lemma ata_upd [simp]: "ata_lba (a\<lparr>a_cmd := c\<rparr>) = ata_lba a" "ata_lba (a\<lparr>a_data := d\<rparr>) = ata_lba a"
    "ata_lba (a\<lparr>a_busy := f\<rparr>) = ata_lba a" "ata_drive (a\<lparr>a_busy := f\<rparr>) = ata_drive a"
    "ata_drive (a\<lparr>a_cmd := c\<rparr>) = ata_drive a" "ata_drive (a\<lparr>a_data := d\<rparr>) = ata_drive a"
  by (simp_all add: ata_lba_def ata_drive_def)

lemma idestart_regs:
  assumes "b_blockno (id_bufs s ! b) < of_nat FSSIZE"
  shows "\<exists>a. idestart (Some b) s = Ok (s\<lparr>id_ata := a\<rparr>) \<and> start_regs (id_bufs s ! b) a"
  using assms ide_regs_meaning [OF assms]
  by (auto simp: idestart_def Let_def BSIZE_def start_regs_def intro: exI [of _ "ide_regs _ _ _\<lparr>a_cmd := _, a_data := _\<rparr>"])

subsection \<open>The queue\<close>

fun qchain :: "(nat \<Rightarrow> nat option) \<Rightarrow> nat option \<Rightarrow> nat list \<Rightarrow> bool" where
  "qchain nx p [] \<longleftrightarrow> p = None"
| "qchain nx p (x # xs) \<longleftrightarrow> p = Some x \<and> qchain nx (nx x) xs"

lemma qchain_upd [simp]: "b \<notin> set xs \<Longrightarrow> qchain (nx(b := v)) p xs = qchain nx p xs"
  by (induction xs arbitrary: p) auto

lemma queue_end_last: "qchain nx (Some h) (h # xs) \<Longrightarrow> length xs < k \<Longrightarrow> queue_end k nx h = Ok (last (h # xs))"
proof (induction xs arbitrary: h k)
  case Nil
  then show ?case by (cases k) auto
next
  case (Cons x xs)
  then show ?case by (cases k) auto
qed

lemma qchain_append:
  "qchain nx p xs \<Longrightarrow> xs \<noteq> [] \<Longrightarrow> distinct xs \<Longrightarrow> b \<notin> set xs \<Longrightarrow> nx b = None \<Longrightarrow> qchain (nx(last xs := Some b)) p (xs @ [b])"
proof (induction xs arbitrary: p)
  case (Cons x xs)
  then show ?case by (cases xs) auto
qed simp

definition ide_ok :: "idest \<Rightarrow> nat list \<Rightarrow> bool" where
  "ide_ok s q \<longleftrightarrow> \<not> id_lock s \<and> qchain (id_qnext s) (id_queue s) q \<and> distinct q
     \<and> (\<forall>b \<in> set q. b < length (id_bufs s) \<and> b_blockno (id_bufs s ! b) < of_nat FSSIZE)
     \<and> (if q = [] then \<not> a_busy (id_ata s) else start_regs (id_bufs s ! hd q) (id_ata s))"

definition request_ok :: "int \<Rightarrow> nat \<Rightarrow> bool \<Rightarrow> nat list \<Rightarrow> buf list \<Rightarrow> bool" where
  "request_ok pid b have1 q bs \<longleftrightarrow> b < length bs \<and> b \<notin> set q \<and> sl_held pid (b_lock (bs ! b))
     \<and> b_flags (bs ! b) AND (B_VALID OR B_DIRTY) \<noteq> B_VALID \<and> (b_dev (bs ! b) \<noteq> 0 \<longrightarrow> have1)
     \<and> b_blockno (bs ! b) < of_nat FSSIZE"

text \<open>The transfer of a block that an interrupt stands for. After an error nothing is transferred, but
  the flags are set all the same.\<close>

definition transfer :: "bool \<Rightarrow> nat \<Rightarrow> buf list \<times> (u32 \<Rightarrow> u32 \<Rightarrow> block) \<Rightarrow> buf list \<times> (u32 \<Rightarrow> u32 \<Rightarrow> block)" where
  "transfer err b = (\<lambda>(bs, disk).
     let x = bs ! b; dev = b_dev x AND 1; dirty = (b_flags x AND B_DIRTY \<noteq> 0);
         y = (if dirty \<or> err then x else x\<lparr>b_data := disk dev (b_blockno x)\<rparr>) in
     (bs[b := y\<lparr>b_flags := (b_flags x OR B_VALID) AND NOT B_DIRTY\<rparr>],
      if dirty \<and> \<not> err then disk(dev := (disk dev)(b_blockno x := b_data x)) else disk))"

lemma queue_length: "distinct q \<Longrightarrow> \<forall>b \<in> set q. b < n \<Longrightarrow> length q \<le> n"
proof -
  assume d: "distinct q" and "\<forall>b \<in> set q. b < n"
  then have "set q \<subseteq> {..<n}" by auto
  then have "card (set q) \<le> n" using card_mono [of "{..<n}" "set q"] by simp
  then show ?thesis using d by (simp add: distinct_card)
qed

lemma ide_append_ok:
  assumes ok: "ide_ok s q" and b: "b \<notin> set q" and l: "id_lock t = True" "id_queue t = id_queue s" "id_qnext t = id_qnext s" "length (id_bufs t) = length (id_bufs s)"
  shows "\<exists>p nx. ide_append b t = Ok (t\<lparr>id_queue := p, id_qnext := nx\<rparr>) \<and> qchain nx p (q @ [b])"
proof (cases q)
  case Nil
  then have "id_queue t = None" using ok l by (simp add: ide_ok_def)
  then show ?thesis using Nil
    by (intro exI [of _ "Some b"] exI [of _ "(id_qnext t)(b := None)"]) (simp add: ide_append_def Let_def)
next
  case (Cons h r)
  let ?nx = "(id_qnext t)(b := None)"
  have c: "qchain ?nx (id_queue t) q" "id_queue t = Some h" "distinct q" using ok l b Cons by (simp_all add: ide_ok_def)
  have "length q \<le> length (id_bufs t)" using queue_length [of q "length (id_bufs s)"] ok l(4) by (simp add: ide_ok_def)
  then have "queue_end (Suc (length (id_bufs t))) ?nx h = Ok (last q)"
    using queue_end_last [of ?nx h r "Suc (length (id_bufs t))"] c Cons by simp
  then have "ide_append b t = Ok (t\<lparr>id_queue := id_queue t, id_qnext := ?nx(last q := Some b)\<rparr>)"
    using c(2) by (simp add: ide_append_def Let_def)
  moreover have "qchain (?nx(last q := Some b)) (id_queue t) (q @ [b])"
    using qchain_append [OF c(1) _ c(3) b] Cons by simp
  ultimately show ?thesis by blast
qed

lemma iderw_out_ok:
  assumes ok: "ide_ok s q" and r: "request_ok pid b (id_have1 s) q (id_bufs s)"
  shows "\<exists>s'. iderw_out pid b s = Ok s' \<and> ide_ok s' (q @ [b]) \<and> id_bufs s' = id_bufs s \<and> id_disk s' = id_disk s \<and> id_have1 s' = id_have1 s"
proof -
  let ?x = "id_bufs s ! b" and ?t = "s\<lparr>id_lock := True\<rparr>"
  have h: "holdingsleep pid (b_lock ?x) = Ok (True, b_lock ?x)" using r sl.holds_held [of pid "b_lock ?x" pid] by (simp add: request_ok_def)
  have u: "id_upd b (\<lambda>x. x\<lparr>b_lock := b_lock ?x\<rparr>) s = s" by (simp add: id_upd_def)
  have b: "b \<notin> set q" "b_blockno ?x < of_nat FSSIZE" "b < length (id_bufs s)" using r by (simp_all add: request_ok_def)
  obtain p nx where a: "ide_append b ?t = Ok (?t\<lparr>id_queue := p, id_qnext := nx\<rparr>)" "qchain nx p (q @ [b])"
    using ide_append_ok [OF ok b(1), of ?t] by auto
  let ?u = "?t\<lparr>id_queue := p, id_qnext := nx\<rparr>"
  have e: "iderw_out pid b s = rbind (if p = Some b then idestart (Some b) ?u else Ok ?u) (\<lambda>s.
      rbind (lk_release (id_lock s)) (\<lambda>l. Ok (s\<lparr>id_lock := l\<rparr>)))"
    using r ok a(1) h by (auto simp: iderw_out_def request_ok_def ide_ok_def u Let_def)
  show ?thesis
  proof (cases q)
    case Nil
    then have p: "p = Some b" using a(2) by simp
    obtain at where "idestart (Some b) ?u = Ok (?u\<lparr>id_ata := at\<rparr>)" "start_regs ?x at"
      using idestart_regs [of ?u b] b(2) by auto
    then show ?thesis using e p Nil b a(2) by (simp add: ide_ok_def)
  next
    case (Cons h r)
    then have "p \<noteq> Some b" using a(2) b(1) by auto
    then show ?thesis using e ok Cons b a(2) by (simp add: ide_ok_def)
  qed
qed

lemma complete_transfer:
  fixes err :: bool
  assumes "start_regs (id_bufs s ! b) (id_ata s)" "b < length (id_bufs s)"
  defines "c \<equiv> ata_complete err s"
  shows "transfer err b (id_bufs s, id_disk s) =
      ((id_bufs s)[b := (id_bufs s ! b)\<lparr>b_data := (if b_flags (id_bufs s ! b) AND B_DIRTY = 0 \<and> \<not> err then a_data (id_ata c) else b_data (id_bufs s ! b)),
          b_flags := (b_flags (id_bufs s ! b) OR B_VALID) AND NOT B_DIRTY\<rparr>], id_disk c)"
    "id_bufs c = id_bufs s" "id_queue c = id_queue s" "id_qnext c = id_qnext s" "id_lock c = id_lock s" "\<not> a_busy (id_ata c)" "id_have1 c = id_have1 s"
proof -
  have "IDE_CMD_READ \<noteq> IDE_CMD_WRITE" by (simp add: IDE_CMD_READ_def IDE_CMD_WRITE_def)
  then show "transfer err b (id_bufs s, id_disk s) =
      ((id_bufs s)[b := (id_bufs s ! b)\<lparr>b_data := (if b_flags (id_bufs s ! b) AND B_DIRTY = 0 \<and> \<not> err then a_data (id_ata c) else b_data (id_bufs s ! b)),
          b_flags := (b_flags (id_bufs s ! b) OR B_VALID) AND NOT B_DIRTY\<rparr>], id_disk c)"
    using assms(1) unfolding c_def by (auto simp: transfer_def Let_def ata_complete_def start_regs_def split: if_splits)
qed (auto simp: c_def ata_complete_def Let_def)

lemma ideintr_idle:
  assumes "ide_ok s []"
  shows "\<exists>s'. ideintr err (ata_complete err s) = Ok (s', []) \<and> ide_ok s' [] \<and> id_bufs s' = id_bufs s \<and> id_disk s' = id_disk s \<and> id_have1 s' = id_have1 s"
  using assms by (auto simp: ide_ok_def ideintr_def ata_complete_def Let_def)

lemma ideintr_ok:
  assumes ok: "ide_ok s (b # q)"
  shows "\<exists>s'. ideintr err (ata_complete err s) = Ok (s', [BufChan b]) \<and> ide_ok s' q
     \<and> (id_bufs s', id_disk s') = transfer err b (id_bufs s, id_disk s) \<and> id_have1 s' = id_have1 s"
proof -
  let ?c = "ata_complete err s" and ?x = "id_bufs s ! b"
  have b: "start_regs ?x (id_ata s)" "b < length (id_bufs s)" "b \<notin> set q" "id_queue s = Some b" "qchain (id_qnext s) (id_qnext s b) q" "distinct q"
    using ok by (simp_all add: ide_ok_def)
  note c = complete_transfer [OF b(1,2), of err]
  let ?y = "?x\<lparr>b_data := (if b_flags ?x AND B_DIRTY = 0 \<and> \<not> err then a_data (id_ata ?c) else b_data ?x), b_flags := (b_flags ?x OR B_VALID) AND NOT B_DIRTY\<rparr>"
  let ?t = "?c\<lparr>id_lock := True, id_queue := id_qnext s b, id_bufs := (id_bufs s)[b := ?y]\<rparr>"
  have e: "ideintr err ?c = rbind (if id_queue ?t \<noteq> None then idestart (id_queue ?t) ?t else Ok ?t) (\<lambda>s.
         rbind (lk_release (id_lock s)) (\<lambda>l. Ok (s\<lparr>id_lock := l\<rparr>, [BufChan b])))"
    using ok b c(2-) by (cases "id_qnext s b"; cases "b_flags ?x AND B_DIRTY = 0 \<and> \<not> err")
      (auto simp: ideintr_def ide_ok_def Let_def id_upd_def)
  have q: "\<forall>d \<in> set q. d < length (id_bufs ?t) \<and> b_blockno (id_bufs ?t ! d) < of_nat FSSIZE"
    using ok b(3) by (auto simp: ide_ok_def nth_list_update)
  show ?thesis
  proof (cases q)
    case Nil
    then have "id_queue ?t = None" using b(5) by simp
    then show ?thesis unfolding e using c q b Nil by (simp add: ide_ok_def)
  next
    case (Cons d r)
    then have d: "id_queue ?t = Some d" using b(5) by simp
    obtain a where "idestart (Some d) ?t = Ok (?t\<lparr>id_ata := a\<rparr>)" "start_regs (id_bufs ?t ! d) a"
      using idestart_regs [of ?t d] q Cons by auto
    then show ?thesis unfolding e d using c q b Cons by (simp add: ide_ok_def)
  qed
qed

subsection \<open>Requests and interrupts in any order\<close>

datatype ide_event = Request int nat | Interrupt bool

fun ide_step :: "ide_event \<Rightarrow> idest \<Rightarrow> idest res" where
  "ide_step (Request pid b) s = iderw_out pid b s"
| "ide_step (Interrupt err) s = rbind (ideintr err (ata_complete err s)) (\<lambda>(s, w). Ok s)"

fun ide_run :: "ide_event list \<Rightarrow> idest \<Rightarrow> idest res" where
  "ide_run [] s = Ok s"
| "ide_run (e # es) s = rbind (ide_step e s) (ide_run es)"

type_synonym transfers = "nat list \<times> buf list \<times> (u32 \<Rightarrow> u32 \<Rightarrow> block)"

fun spec_step :: "ide_event \<Rightarrow> transfers \<Rightarrow> transfers" where
  "spec_step (Request pid b) (q, bs, disk) = (q @ [b], bs, disk)"
| "spec_step (Interrupt err) ([], bs, disk) = ([], bs, disk)"
| "spec_step (Interrupt err) (b # q, bs, disk) = (q, transfer err b (bs, disk))"

fun allowed :: "bool \<Rightarrow> ide_event list \<Rightarrow> transfers \<Rightarrow> bool" where
  "allowed have1 [] t = True"
| "allowed have1 (e # es) t =
     ((case e of Request pid b \<Rightarrow> request_ok pid b have1 (fst t) (fst (snd t)) | Interrupt _ \<Rightarrow> True)
      \<and> allowed have1 es (spec_step e t))"

lemma ide_step_simulates:
  assumes "ide_ok s q" "case e of Request pid b \<Rightarrow> request_ok pid b (id_have1 s) q (id_bufs s) | Interrupt _ \<Rightarrow> True"
  shows "\<exists>s' q'. ide_step e s = Ok s' \<and> ide_ok s' q' \<and> (q', id_bufs s', id_disk s') = spec_step e (q, id_bufs s, id_disk s) \<and> id_have1 s' = id_have1 s"
proof (cases e)
  case (Request pid b)
  then show ?thesis using iderw_out_ok [OF assms(1), of pid b] assms(2) by auto
next
  case (Interrupt err)
  show ?thesis
  proof (cases q)
    case Nil
    then show ?thesis using ideintr_idle [of s err] assms(1) Interrupt by auto
  next
    case (Cons b r)
    then obtain s' where "ideintr err (ata_complete err s) = Ok (s', [BufChan b])" "ide_ok s' r"
        "(id_bufs s', id_disk s') = transfer err b (id_bufs s, id_disk s)" "id_have1 s' = id_have1 s"
      using ideintr_ok [of s b r err] assms(1) by auto
    then show ?thesis using Interrupt Cons by auto
  qed
qed

text \<open>C9. The driver refines a queue of block transfers. Whatever the order in which processes make
  requests and the controller interrupts, the driver never panics and never loses a request, and
  the buffers and the disk are at every moment what the transfers of the requests served so far,
  in the order in which they were made, have produced.\<close>

theorem ide_refines_transfers:
  assumes "ide_ok s q" "allowed (id_have1 s) evs (q, id_bufs s, id_disk s)"
  shows "\<exists>s' q'. ide_run evs s = Ok s' \<and> ide_ok s' q' \<and> (q', id_bufs s', id_disk s') = fold spec_step evs (q, id_bufs s, id_disk s)"
  using assms
proof (induction evs arbitrary: s q)
  case Nil
  then show ?case by auto
next
  case (Cons e es)
  have r: "case e of Request pid b \<Rightarrow> request_ok pid b (id_have1 s) q (id_bufs s) | Interrupt _ \<Rightarrow> True"
    using Cons.prems(2) by (cases e) simp_all
  obtain s1 q1 where s1: "ide_step e s = Ok s1" "ide_ok s1 q1" "(q1, id_bufs s1, id_disk s1) = spec_step e (q, id_bufs s, id_disk s)" "id_have1 s1 = id_have1 s"
    using ide_step_simulates [OF Cons.prems(1) r] by blast
  then show ?case using Cons.IH [of s1 q1] Cons.prems(2) by auto
qed

subsection \<open>The memory disk does the same transfers\<close>

lemma flag_bits: "\<not> (bit B_VALID n \<and> bit B_DIRTY n)"
  unfolding bit_and_iff [symmetric] by (simp add: B_VALID_def B_DIRTY_def)

lemma flags_order: "(f AND NOT B_DIRTY) OR B_VALID = (f OR B_VALID) AND NOT B_DIRTY"
proof (rule bit_word_eqI)
  fix n
  assume "n < LENGTH(32)"
  then show "bit ((f AND NOT B_DIRTY) OR B_VALID) n = bit ((f OR B_VALID) AND NOT B_DIRTY) n"
    using flag_bits [of n] by (auto simp: bit_simps)
qed

lemma clean_flags: "f AND B_DIRTY = 0 \<Longrightarrow> f OR B_VALID = (f OR B_VALID) AND NOT B_DIRTY"
proof (rule bit_word_eqI)
  fix n
  assume "f AND B_DIRTY = 0" "n < LENGTH(32)"
  moreover from this(1) have "\<not> (bit f n \<and> bit B_DIRTY n)" unfolding bit_and_iff [symmetric] by simp
  ultimately show "bit (f OR B_VALID) n = bit ((f OR B_VALID) AND NOT B_DIRTY) n"
    using flag_bits [of n] by (auto simp: bit_simps)
qed

text \<open>The driver of \<^verbatim>\<open>memide.c\<close>, over which the buffer cache is modelled, does in one step what this driver
  does between a request and its interrupt.\<close>

lemma iderw_is_transfer:
  assumes "iderw b s = Ok s'" "b < length (bufs s)" "sl_held (cur_pid s) (b_lock (buf_at s b))"
  shows "(bufs s', \<lambda>d. if d = 1 then memdisk s' else other d) = transfer False b (bufs s, \<lambda>d. if d = 1 then memdisk s else other d)"
proof -
  let ?x = "buf_at s b"
  have h: "holds_buf b s = Ok (True, s)"
    using sl.holds_held [OF assms(3), of "cur_pid s"] by (simp add: holds_buf_def upd_buf_def)
  have d: "b_dev ?x = 1" using assms(1) h by (auto simp: iderw_def split: if_splits)
  have n: "b_flags ?x AND (B_VALID OR B_DIRTY) \<noteq> B_VALID" "\<not> b_blockno ?x \<ge> disksize s"
    using assms(1) h by (auto simp: iderw_def split: if_splits)
  show ?thesis
  proof (cases "b_flags ?x AND B_DIRTY = 0")
    case True
    then show ?thesis using assms(1,2) h d n clean_flags [OF True]
      by (auto simp: iderw_def Let_def upd_buf_def transfer_def)
  next
    case False
    then show ?thesis using assms(1,2) h d n flags_order [of "b_flags ?x"]
      by (auto simp: iderw_def Let_def upd_buf_def transfer_def)
  qed
qed

text \<open>Two processes: the first writes its buffer to block 5, the second reads block 5. The
  first interrupt comes before the second request.\<close>

definition demo_buf :: "u32 \<Rightarrow> int \<Rightarrow> u8 \<Rightarrow> buf" where
  "demo_buf flags pid byte = \<lparr>b_flags = flags, b_dev = 1, b_blockno = 5,
     b_lock = \<lparr>sl_locked = 1, sl_lk = False, sl_name = ''buffer'', sl_pid = pid\<rparr>,
     b_refcnt = 1, b_prev = 0, b_next = 0, b_data = replicate BSIZE byte\<rparr>"

definition demo_ide :: idest where
  "demo_ide = \<lparr>id_lock = False, id_queue = None, id_qnext = (\<lambda>_. None), id_have1 = True,
     id_bufs = [demo_buf B_DIRTY 1 7, demo_buf 0 2 0],
     id_ata = \<lparr>a_count = 0, a_lba0 = 0, a_lba1 = 0, a_lba2 = 0, a_drive = 0, a_cmd = 0, a_data = [], a_busy = False\<rparr>,
     id_disk = (\<lambda>_ _. [])\<rparr>"

lemma demo_ide_ok: "ide_ok demo_ide []"
  by (simp add: ide_ok_def demo_ide_def)

lemma demo_flags: "(0 :: u32) AND (B_VALID OR B_DIRTY) \<noteq> B_VALID" "B_DIRTY AND (B_VALID OR B_DIRTY) \<noteq> B_VALID" "B_DIRTY AND B_DIRTY \<noteq> 0"
  by (simp_all add: B_VALID_def B_DIRTY_def)

theorem ide_refines_transfers_witness:
  "\<exists>s'. ide_run [Request 1 0, Interrupt False, Request 2 1, Interrupt False] demo_ide = Ok s' \<and> ide_ok s' []
     \<and> b_data (id_bufs s' ! 1) = replicate BSIZE 7"
proof -
  let ?evs = "[Request 1 0, Interrupt False, Request 2 1, Interrupt False]"
  have "allowed (id_have1 demo_ide) ?evs ([], id_bufs demo_ide, id_disk demo_ide)"
    using demo_flags by (simp add: request_ok_def demo_ide_def demo_buf_def sl_held_def FSSIZE_def transfer_def Let_def)
  moreover have "fst (fold spec_step ?evs ([], id_bufs demo_ide, id_disk demo_ide)) = []
      \<and> b_data (fst (snd (fold spec_step ?evs ([], id_bufs demo_ide, id_disk demo_ide))) ! 1) = replicate BSIZE 7"
    using demo_flags by (simp add: demo_ide_def demo_buf_def transfer_def Let_def)
  ultimately show ?thesis using ide_refines_transfers [OF demo_ide_ok, of ?evs] by (metis fst_conv snd_conv)
qed

end
