(* ===== verification/Shell.thy ===== *)
theory Shell
  imports Sysfile "HOL-Library.Sublist"
begin

section \<open>The shell's parser (\<^verbatim>\<open>sh.c\<close>)\<close>

text \<open>
  The parser works on pointers into the command line. A pointer is modelled by the string from it
  to the end \<^verbatim>\<open>es\<close> of the line, so that \<^verbatim>\<open>s < es\<close> is \<open>s \<noteq> []\<close> and \<^verbatim>\<open>*s == 0\<close> is \<open>s = []\<close>. A counted string,
  from \<^verbatim>\<open>q\<close> to \<^verbatim>\<open>eq\<close>, is its text together with the distance of \<^verbatim>\<open>eq\<close> from \<^verbatim>\<open>es\<close>, which is where \<^verbatim>\<open>nulterminate\<close>
  stores a NUL. A syntax error is a call of the shell's \<^verbatim>\<open>panic\<close>. An \<^verbatim>\<open>execcmd\<close> collects arguments
  while redirections are already wrapped around it; the model collects both and wraps at the end.

  The lemmas show that the recursive descent ends on every line, that every command tree can be
  written and is read back, and that the strings are cut without damage to each other.
\<close>

definition MAXARGS :: nat where "MAXARGS = 10"

datatype 'w cmd =
    EXEC "'w list"
  | REDIR "'w cmd" 'w u32 int
  | PIPE "'w cmd" "'w cmd"
  | LIST "'w cmd" "'w cmd"
  | BACK "'w cmd"

type_synonym counted = "string \<times> nat"

definition whitespace :: string where
  "whitespace = [CHR '' '', CHR 0x09, CHR 0x0D, CHR 0x0A, CHR 0x0B]"

definition symbols :: string where
  "symbols = ''<|>&;()''"

definition skip_white :: "string \<Rightarrow> string" where
  "skip_white s = dropWhile (\<lambda>c. c \<in> set whitespace) s"

definition word_char :: "char \<Rightarrow> bool" where
  "word_char c \<longleftrightarrow> c \<notin> set whitespace \<and> c \<notin> set symbols"

text \<open>\<^verbatim>\<open>gettoken\<close>: the kind of the token, the counted string, and the rest of the line.\<close>

definition gettoken :: "string \<Rightarrow> char \<times> counted \<times> string" where
  "gettoken s =
     (case skip_white s of
        [] \<Rightarrow> (CHR 0x00, ([], 0), [])
      | c # r \<Rightarrow>
          if c \<in> set ''|();&<'' then (c, ([c], length r), skip_white r)
          else if c = CHR ''>'' then
            if r \<noteq> [] \<and> hd r = CHR ''>'' then (CHR ''+'', (''>>'', length (tl r)), skip_white (tl r))
            else (CHR ''>'', ([c], length r), skip_white r)
          else
            let e = dropWhile word_char (c # r) in
            (CHR ''a'', (takeWhile word_char (c # r), length e), skip_white e))"

abbreviation tok_kind :: "string \<Rightarrow> char" where
  "tok_kind s \<equiv> fst (gettoken s)"

abbreviation tok_text :: "string \<Rightarrow> counted" where
  "tok_text s \<equiv> fst (snd (gettoken s))"

definition tok_rest :: "string \<Rightarrow> string" where
  "tok_rest s = snd (snd (gettoken s))"

text \<open>\<^verbatim>\<open>peek\<close> also moves the pointer past white space.\<close>

definition peek :: "string \<Rightarrow> string \<Rightarrow> bool" where
  "peek s toks = (case skip_white s of [] \<Rightarrow> False | c # r \<Rightarrow> c \<in> set toks)"

lemma length_skip: "length (skip_white s) \<le> length s"
  by (simp add: skip_white_def length_dropWhile_le)

lemma skip_idem [simp]: "skip_white (skip_white s) = skip_white s"
  by (simp add: skip_white_def)

lemma gettoken_shorter:
  assumes "skip_white s \<noteq> []"
  shows "length (tok_rest s) < length s"
proof -
  obtain c r where s: "skip_white s = c # r" using assms by (cases "skip_white s") auto
  have l: "Suc (length r) \<le> length s" using length_skip [of s] by (simp add: s)
  have "length (skip_white (dropWhile word_char (c # r))) \<le> length r" if "c \<notin> set ''|();&<''" "c \<noteq> CHR ''>''"
  proof -
    have "c \<notin> set whitespace" using s by (simp add: skip_white_def dropWhile_eq_Cons_conv)
    then have "word_char c" using that by (simp add: word_char_def symbols_def)
    then have "length (dropWhile word_char (c # r)) \<le> length r" by (simp add: length_dropWhile_le)
    then show ?thesis using length_skip [of "dropWhile word_char (c # r)"] by simp
  qed
  moreover have "length (skip_white r) \<le> length r" "length (skip_white (tl r)) \<le> length r"
    using length_skip [of r] length_skip [of "tl r"] by auto
  ultimately show ?thesis using l by (auto simp: tok_rest_def gettoken_def s Let_def)
qed

lemma peek_nonempty: "peek s toks \<Longrightarrow> skip_white s \<noteq> []"
  by (auto simp: peek_def)

lemma tok_rest_le: "length (tok_rest s) \<le> length s"
  using gettoken_shorter [of s] by (cases "skip_white s = []") (auto simp: tok_rest_def gettoken_def)

text \<open>A counted string is a run of word characters of the line that something else, or the end, follows.\<close>

definition counted_in :: "string \<Rightarrow> counted \<Rightarrow> bool" where
  "counted_in s x \<longleftrightarrow> (\<exists>pre suf. s = pre @ fst x @ suf \<and> length suf = snd x \<and> (\<forall>c \<in> set (fst x). word_char c)
     \<and> (suf = [] \<or> \<not> word_char (hd suf)))"

lemma counted_in_suffix: "counted_in s x \<Longrightarrow> suffix s t \<Longrightarrow> counted_in t x"
  unfolding counted_in_def suffix_def by (metis append.assoc)

lemma skip_suffix: "suffix (skip_white s) s"
  by (simp add: skip_white_def suffix_dropWhile)

lemma tok_rest_suffix: "suffix (tok_rest s) s"
proof -
  have "suffix (tok_rest s) (skip_white s)"
  proof (cases "skip_white s")
    case (Cons c r)
    have "suffix (skip_white r) (c # r)" "suffix (skip_white (tl r)) (c # r)"
      "suffix (skip_white (dropWhile word_char (c # r))) (c # r)"
      using skip_suffix [of r] skip_suffix [of "tl r"] skip_suffix [of "dropWhile word_char (c # r)"] suffix_dropWhile [of word_char "c # r"] suffix_tl [of r]
      by (metis suffix_Cons suffix_order.trans)+
    then show ?thesis using Cons by (auto simp: tok_rest_def gettoken_def Let_def)
  qed (simp add: tok_rest_def gettoken_def)
  then show ?thesis using skip_suffix [of s] by (rule suffix_order.trans)
qed

lemma tok_text_counted:
  assumes "tok_kind s = CHR ''a''"
  shows "counted_in s (tok_text s)"
proof -
  obtain c r where s: "skip_white s = c # r" using assms by (cases "skip_white s") (auto simp: gettoken_def)
  let ?e = "dropWhile word_char (c # r)"
  have t: "tok_text s = (takeWhile word_char (c # r), length ?e)"
    using assms by (auto simp: gettoken_def s Let_def split: if_splits)
  have "?e = [] \<or> \<not> word_char (hd ?e)" using hd_dropWhile [of word_char "c # r"] by (cases "?e = []") auto
  then have "counted_in (c # r) (tok_text s)"
    unfolding counted_in_def t by (intro exI [of _ "[]"] exI [of _ ?e]) (auto dest: set_takeWhileD simp del: takeWhile.simps dropWhile.simps)
  then show ?thesis using counted_in_suffix skip_suffix s by metis
qed

subsection \<open>Redirections and arguments\<close>

type_synonym redir = "counted \<times> u32 \<times> int"

definition redircmd :: "counted cmd \<Rightarrow> redir \<Rightarrow> counted cmd" where
  "redircmd c = (\<lambda>(f, mode, fd). REDIR c f mode fd)"

lemma tok_rest2: "peek s toks \<Longrightarrow> length (tok_rest (tok_rest s)) < length s"
  using gettoken_shorter [OF peek_nonempty] tok_rest_le [of "tok_rest s"] by (meson le_less_trans)

function parseredirs :: "string \<Rightarrow> (redir list \<times> string) res" where
  "parseredirs s =
     (if peek s ''<>'' then
        let s1 = tok_rest s in
        if tok_kind s1 \<noteq> CHR ''a'' then Panic ''missing file for redirection''
        else
          rbind (parseredirs (tok_rest s1)) (\<lambda>(rs, s2).
          Ok ((tok_text s1, if tok_kind s = CHR ''<'' then (of_int O_RDONLY, 0) else (O_WRONLY OR O_CREATE, 1)) # rs, s2))
      else Ok ([], skip_white s))"
  by pat_completeness auto
termination
  by (relation "measure length") (auto intro: tok_rest2)

declare parseredirs.simps [simp del]

lemma parseredirs_in:
  "parseredirs s = Ok (rs, r) \<Longrightarrow> suffix r s \<and> (\<forall>x \<in> set rs. counted_in s (fst x))"
proof (induction s arbitrary: rs r rule: parseredirs.induct)
  case (1 s)
  show ?case
  proof (cases "peek s ''<>''")
    case True
    let ?s1 = "tok_rest s"
    obtain rs' m where p: "parseredirs (tok_rest ?s1) = Ok (rs', r)" "tok_kind ?s1 = CHR ''a''" "rs = (tok_text ?s1, m) # rs'"
      using 1(2) True by (subst (asm) parseredirs.simps) (auto simp: Let_def res_simps split: if_splits)
    have "suffix r (tok_rest ?s1) \<and> (\<forall>x \<in> set rs'. counted_in (tok_rest ?s1) (fst x))" using 1(1) [OF True refl _ p(1)] p(2) by simp
    moreover have "suffix (tok_rest ?s1) s" "suffix ?s1 s" using tok_rest_suffix suffix_order.trans by blast+
    ultimately show ?thesis using tok_text_counted [OF p(2)] p(3) by (auto intro: counted_in_suffix suffix_order.trans)
  next
    case False
    then show ?thesis using 1(2) skip_suffix [of s] by (subst (asm) parseredirs.simps) auto
  qed
qed

text \<open>The loop of \<^verbatim>\<open>parseexec\<close>, with \<open>argc\<close> arguments so far.\<close>

function parseargs :: "nat \<Rightarrow> string \<Rightarrow> (counted list \<times> redir list \<times> string) res" where
  "parseargs argc s =
     (if peek s ''|)&;'' then Ok ([], [], skip_white s)
      else if tok_kind s = CHR 0x00 then Ok ([], [], skip_white s)
      else if tok_kind s \<noteq> CHR ''a'' then Panic ''syntax''
      else if argc + 1 \<ge> MAXARGS then Panic ''too many args''
      else
        rbind (parseredirs (tok_rest s)) (\<lambda>(rs, s1).
        rbind (parseargs (argc + 1) s1) (\<lambda>(args, rs', s2). Ok (tok_text s # args, rs @ rs', s2))))"
  by pat_completeness auto
termination
  by (relation "measure (\<lambda>(argc, s). MAXARGS - argc)") auto

declare parseargs.simps [simp del]

lemma parseargs_in:
  "parseargs argc s = Ok (args, rs, r) \<Longrightarrow> suffix r s \<and> (\<forall>x \<in> set args. counted_in s x) \<and> (\<forall>x \<in> set rs. counted_in s (fst x))"
proof (induction argc s arbitrary: args rs r rule: parseargs.induct)
  case (1 argc s)
  show ?case
  proof (cases "peek s ''|)&;'' \<or> tok_kind s = CHR 0x00")
    case True
    then show ?thesis using 1(2) skip_suffix [of s] by (subst (asm) parseargs.simps) (auto split: if_splits)
  next
    case False
    then obtain rs1 s1 a rs2 where c: "tok_kind s = CHR ''a''" "\<not> argc + 1 \<ge> MAXARGS" "parseredirs (tok_rest s) = Ok (rs1, s1)"
        "parseargs (argc + 1) s1 = Ok (a, rs2, r)" "args = tok_text s # a" "rs = rs1 @ rs2"
      using 1(2) by (subst (asm) parseargs.simps) (auto simp: res_simps split: if_splits)
    have i: "suffix r s1 \<and> (\<forall>x \<in> set a. counted_in s1 x) \<and> (\<forall>x \<in> set rs2. counted_in s1 (fst x))"
      using 1(1) [of "(rs1, s1)" rs1 s1] False c by auto
    have t: "suffix (tok_rest s) s" by (rule tok_rest_suffix)
    then have "suffix s1 s" "\<forall>x \<in> set rs1. counted_in s (fst x)"
      using parseredirs_in [OF c(3)] by (auto intro: suffix_order.trans counted_in_suffix)
    then show ?thesis using i c(5,6) tok_text_counted [OF c(1)] by (auto intro: suffix_order.trans counted_in_suffix)
  qed
qed

function parsebacks :: "counted cmd \<Rightarrow> string \<Rightarrow> counted cmd \<times> string" where
  "parsebacks c s = (if peek s ''&'' then parsebacks (BACK c) (tok_rest s) else (c, skip_white s))"
  by pat_completeness auto
termination
  by (relation "measure (\<lambda>(c, s). length s)") (auto intro: gettoken_shorter dest: peek_nonempty)

declare parsebacks.simps [simp del]

lemma parsebacks_in: "suffix (snd (parsebacks c s)) s \<and> set_cmd (fst (parsebacks c s)) = set_cmd c"
proof (induction c s rule: parsebacks.induct)
  case (1 c s)
  then show ?case using tok_rest_suffix [of s] skip_suffix [of s]
    by (subst (1 2) parsebacks.simps) (auto intro: suffix_order.trans)
qed

lemma set_redirs: "set_cmd (foldl redircmd c rs) = set_cmd c \<union> fst ` set rs"
  by (induction rs arbitrary: c) (auto simp: redircmd_def)

subsection \<open>Recursive descent\<close>

function parseline :: "string \<Rightarrow> (counted cmd \<times> string) res"
  and parsepipe :: "string \<Rightarrow> (counted cmd \<times> string) res"
  and parseblock :: "string \<Rightarrow> (counted cmd \<times> string) res"
  and parseexec :: "string \<Rightarrow> (counted cmd \<times> string) res" where
  "parseline s =
     rbind (parsepipe s) (\<lambda>(c, s1).
     let (c, s2) = parsebacks c s1 in
     if peek s2 '';'' then
       rbind (parseline (tok_rest s2)) (\<lambda>(d, s3). Ok (LIST c d, s3))
     else Ok (c, skip_white s2))"
| "parsepipe s =
     rbind (parseexec s) (\<lambda>(c, s1).
     if peek s1 ''|'' then
       rbind (parsepipe (tok_rest s1)) (\<lambda>(d, s2). Ok (PIPE c d, s2))
     else Ok (c, skip_white s1))"
| "parseblock s =
     (if \<not> peek s ''('' then Panic ''parseblock''
      else
        rbind (parseline (tok_rest s)) (\<lambda>(c, s1).
        if \<not> peek s1 '')'' then Panic ''syntax - missing )''
        else rbind (parseredirs (tok_rest s1)) (\<lambda>(rs, s2). Ok (foldl redircmd c rs, s2))))"
| "parseexec s =
     (if peek s ''('' then parseblock s
      else
        rbind (parseredirs s) (\<lambda>(rs, s1).
        rbind (parseargs 0 s1) (\<lambda>(args, rs', s2). Ok (foldl redircmd (EXEC args) (rs @ rs'), s2))))"
  by pat_completeness auto

abbreviation parse_dom where "parse_dom \<equiv> parseline_parsepipe_parseblock_parseexec_dom"

definition reads_from :: "string \<Rightarrow> counted cmd \<Rightarrow> string \<Rightarrow> bool" where
  "reads_from s c r \<longleftrightarrow> suffix r s \<and> (\<forall>x \<in> set_cmd c. counted_in s x)"

lemma reads_from_trans: "reads_from t c r \<Longrightarrow> suffix t s \<Longrightarrow> reads_from s c r"
  by (auto simp: reads_from_def intro: counted_in_suffix suffix_order.trans)

lemma parse_in:
  "parse_dom (Inl (Inl s)) \<Longrightarrow> parseline s = Ok (c, r) \<Longrightarrow> reads_from s c r"
  "parse_dom (Inl (Inr s)) \<Longrightarrow> parsepipe s = Ok (c, r) \<Longrightarrow> reads_from s c r"
  "parse_dom (Inr (Inl s)) \<Longrightarrow> parseblock s = Ok (c, r) \<Longrightarrow> reads_from s c r"
  "parse_dom (Inr (Inr s)) \<Longrightarrow> parseexec s = Ok (c, r) \<Longrightarrow> reads_from s c r"
proof (induction s and s and s and s arbitrary: c r and c r and c r and c r rule: parseline_parsepipe_parseblock_parseexec.pinduct)
  case (1 s)
  obtain c1 s1 where p: "parsepipe s = Ok (c1, s1)"
    using 1(4) unfolding parseline.psimps [OF 1(1)] by (auto simp: res_simps)
  obtain c2 s2 where b: "parsebacks c1 s1 = (c2, s2)" by fastforce
  have l: "reads_from s c2 s2" using 1(2) [OF p] parsebacks_in [of c1 s1] b by (auto simp: reads_from_def intro: suffix_order.trans)
  show ?case
  proof (cases "peek s2 '';''")
    case True
    then obtain d where d: "parseline (tok_rest s2) = Ok (d, r)" "c = LIST c2 d"
      using 1(4) unfolding parseline.psimps [OF 1(1)] by (auto simp: res_simps p b)
    then have "reads_from (tok_rest s2) d r" using 1(3) [OF p refl] b True by auto
    then have "reads_from s2 d r" using tok_rest_suffix by (rule reads_from_trans)
    then show ?thesis using l d(2) reads_from_trans [of s2 d r s] by (auto simp: reads_from_def)
  next
    case False
    then have "c = c2" "r = skip_white s2" using 1(4) unfolding parseline.psimps [OF 1(1)] by (simp_all add: p b)
    then show ?thesis using skip_suffix [of s2] l by (auto simp: reads_from_def intro: suffix_order.trans)
  qed
next
  case (2 s)
  obtain c1 s1 where p: "parseexec s = Ok (c1, s1)"
    using 2(4) unfolding parsepipe.psimps [OF 2(1)] by (auto simp: res_simps)
  have l: "reads_from s c1 s1" using 2(2) [OF p] .
  show ?case
  proof (cases "peek s1 ''|''")
    case True
    then obtain d where d: "parsepipe (tok_rest s1) = Ok (d, r)" "c = PIPE c1 d"
      using 2(4) unfolding parsepipe.psimps [OF 2(1)] by (auto simp: res_simps p)
    then have "reads_from (tok_rest s1) d r" using 2(3) [OF p refl] True by auto
    then have "reads_from s1 d r" using tok_rest_suffix by (rule reads_from_trans)
    then show ?thesis using l d(2) reads_from_trans [of s1 d r s] by (auto simp: reads_from_def)
  next
    case False
    then have "c = c1" "r = skip_white s1" using 2(4) unfolding parsepipe.psimps [OF 2(1)] by (simp_all add: p)
    then show ?thesis using skip_suffix [of s1] l by (auto simp: reads_from_def intro: suffix_order.trans)
  qed
next
  case (3 s)
  then have k: "peek s ''(''" unfolding parseblock.psimps [OF 3(1)] by (auto split: if_splits)
  obtain c1 s1 rs where p: "parseline (tok_rest s) = Ok (c1, s1)" "parseredirs (tok_rest s1) = Ok (rs, r)" "c = foldl redircmd c1 rs"
    using 3(3) unfolding parseblock.psimps [OF 3(1)] by (auto simp: res_simps split: if_splits)
  have "reads_from (tok_rest s) c1 s1" using 3(2) p(1) k by blast
  then have l: "reads_from s c1 s1" using tok_rest_suffix by (rule reads_from_trans)
  moreover have t: "suffix (tok_rest s1) s" using l tok_rest_suffix [of s1] by (auto simp: reads_from_def intro: suffix_order.trans)
  moreover have "suffix r s" "\<forall>x \<in> set rs. counted_in s (fst x)"
    using parseredirs_in [OF p(2)] t counted_in_suffix [OF _ t] by (auto intro: suffix_order.trans)
  ultimately show ?case using p(3) by (auto simp: reads_from_def set_redirs)
next
  case (4 s)
  show ?case
  proof (cases "peek s ''(''")
    case True
    then show ?thesis using 4 unfolding parseexec.psimps [OF 4(1)] by simp
  next
    case False
    then obtain rs s1 args rs' where p: "parseredirs s = Ok (rs, s1)" "parseargs 0 s1 = Ok (args, rs', r)"
        "c = foldl redircmd (EXEC args) (rs @ rs')"
      using 4(3) unfolding parseexec.psimps [OF 4(1)] by (auto simp: res_simps)
    have i: "suffix s1 s" "\<forall>x \<in> set rs. counted_in s (fst x)" using parseredirs_in [OF p(1)] by simp_all
    then have "suffix r s" "\<forall>x \<in> set args. counted_in s x" "\<forall>x \<in> set rs'. counted_in s (fst x)"
      using parseargs_in [OF p(2)] counted_in_suffix [OF _ i(1)] by (auto intro: suffix_order.trans)
    then show ?thesis using p(3) i by (auto simp: reads_from_def set_redirs)
  qed
qed

lemma reads_from_le: "reads_from s c r \<Longrightarrow> length r \<le> length s"
  by (simp add: reads_from_def suffix_length_le)

lemma shorter_after:
  assumes "length s1 \<le> length s" "peek s1 toks"
  shows "length (tok_rest s1) < length s"
  using gettoken_shorter [OF peek_nonempty [OF assms(2)]] assms(1) by simp

lemma parse_total: "All parse_dom"
proof (relation "measures [case_sum (case_sum length length) (case_sum length length),
    case_sum (case_sum (\<lambda>_. 3) (\<lambda>_. 2)) (case_sum (\<lambda>_. 0) (\<lambda>_. 1))]", goal_cases)
  case (3 s x c s1 y c2 s2)
  then have "length s2 \<le> length s" using parse_in(2) [THEN reads_from_le] parsebacks_in [of c s1] suffix_length_le by (metis le_trans snd_conv)
  then show ?case using 3 shorter_after by simp
next
  case (5 s x c s1)
  then have "length s1 \<le> length s" using parse_in(4) [THEN reads_from_le] by metis
  then show ?case using 5 shorter_after by simp
qed (auto intro: shorter_after)

termination parseline
  by (rule parse_total)

lemma parsed_counted: "parseline s = Ok (c, r) \<Longrightarrow> x \<in> set_cmd c \<Longrightarrow> counted_in s x"
  using parse_in(1) [OF spec [OF parse_total]] by (auto simp: reads_from_def)

lemmas parser_simps = parseline.simps parsepipe.simps parseblock.simps parseexec.simps
declare parser_simps [simp del]

text \<open>\<^verbatim>\<open>nulterminate\<close> works on the line with its final NUL.\<close>

definition cut :: "counted \<Rightarrow> string \<Rightarrow> string" where
  "cut x buf = buf[length buf - 1 - snd x := CHR 0x00]"

primrec nulterminate :: "counted cmd \<Rightarrow> string \<Rightarrow> string" where
  "nulterminate (EXEC argv) buf = fold cut argv buf"
| "nulterminate (REDIR c f mode fd) buf = cut f (nulterminate c buf)"
| "nulterminate (PIPE l r) buf = nulterminate r (nulterminate l buf)"
| "nulterminate (LIST l r) buf = nulterminate r (nulterminate l buf)"
| "nulterminate (BACK c) buf = nulterminate c buf"

definition parsecmd :: "string \<Rightarrow> (counted cmd \<times> string) res" where
  "parsecmd s =
     rbind (parseline s) (\<lambda>(c, r).
     if skip_white r \<noteq> [] then Panic ''syntax'' else Ok (c, nulterminate c (s @ [CHR 0x00])))"

text \<open>The C string that a counted string is after \<^verbatim>\<open>nulterminate\<close>.\<close>

definition text_at :: "string \<Rightarrow> counted \<Rightarrow> string" where
  "text_at buf x = takeWhile (\<lambda>c. c \<noteq> CHR 0x00) (drop (length buf - 1 - snd x - length (fst x)) buf)"

subsection \<open>Cutting the line\<close>

lemma cut_nth: "i < length buf \<Longrightarrow> cut x buf ! i = (if i = length buf - 1 - snd x then CHR 0x00 else buf ! i)"
  by (auto simp: cut_def nth_list_update)

lemma length_cut [simp]: "length (cut x buf) = length buf"
  by (simp add: cut_def)

lemma fold_cut:
  "length (fold cut xs buf) = length buf"
  "i < length buf \<Longrightarrow> fold cut xs buf ! i = (if \<exists>x \<in> set xs. i = length buf - 1 - snd x then CHR 0x00 else buf ! i)"
proof -
  show l: "length (fold cut xs buf) = length buf" for xs by (induction xs arbitrary: buf) simp_all
  show "i < length buf \<Longrightarrow> fold cut xs buf ! i = (if \<exists>x \<in> set xs. i = length buf - 1 - snd x then CHR 0x00 else buf ! i)"
    by (induction xs arbitrary: buf) (auto simp: cut_nth)
qed

lemma nulterminate_nth:
  "length (nulterminate c buf) = length buf \<and> (i < length buf \<longrightarrow>
     nulterminate c buf ! i = (if \<exists>x \<in> set_cmd c. i = length buf - 1 - snd x then CHR 0x00 else buf ! i))"
  by (induction c arbitrary: buf) (auto simp: fold_cut cut_nth)

lemma text_at_cut:
  assumes c: "\<forall>y \<in> set_cmd c. counted_in s y" and x: "x \<in> set_cmd c" and z: "CHR 0x00 \<notin> set s"
  shows "text_at (nulterminate c (s @ [CHR 0x00])) x = fst x"
proof -
  let ?b = "nulterminate c (s @ [CHR 0x00])"
  obtain pre suf where s: "s = pre @ fst x @ suf" "length suf = snd x" and w: "\<forall>c \<in> set (fst x). word_char c"
    using c x unfolding counted_in_def by blast
  have lb: "length ?b = Suc (length s)" using nulterminate_nth [of c "s @ [CHR 0x00]"] by simp
  have q: "length ?b - 1 - snd x - length (fst x) = length pre"
    unfolding lb using arg_cong [OF s(1), of length] s(2) by simp
  have n: "?b ! i = (if \<exists>y \<in> set_cmd c. i = length s - snd y then CHR 0x00 else (s @ [CHR 0x00]) ! i)" if "i \<le> length s" for i
    using nulterminate_nth [of c "s @ [CHR 0x00]" i] that by simp
  have keep: "?b ! (length pre + j) = fst x ! j" if j: "j < length (fst x)" for j
  proof -
    have i: "s ! (length pre + j) = fst x ! j" "length pre + j < length s" using j s by (simp_all add: nth_append)
    have "length pre + j \<noteq> length s - snd y" if y: "y \<in> set_cmd c" for y
    proof
      assume e: "length pre + j = length s - snd y"
      obtain pre' suf' where y': "s = pre' @ fst y @ suf'" "length suf' = snd y" "suf' = [] \<or> \<not> word_char (hd suf')"
        using c y unfolding counted_in_def by blast
      have "suf' \<noteq> []" using e i(2) y'(1,2) by auto
      then have "s ! (length s - snd y) = hd suf'" using y'(1,2) by (simp add: nth_append hd_conv_nth)
      then show False using i(1) e w j y'(3) \<open>suf' \<noteq> []\<close> by (metis nth_mem)
    qed
    then show ?thesis using n [of "length pre + j"] i by (auto simp: nth_append)
  qed
  have stop: "?b ! (length pre + length (fst x)) = CHR 0x00"
    using n [of "length pre + length (fst x)"] x s by (auto intro!: bexI [of _ x])
  have nz: "fst x ! j \<noteq> CHR 0x00" if "j < length (fst x)" for j using that z s(1) by (auto simp: in_set_conv_nth)
  have "takeWhile (\<lambda>c. c \<noteq> CHR 0x00) (drop (length pre) ?b) = take (length (fst x)) (drop (length pre) ?b)"
    by (rule takeWhile_eq_take_P_nth) (use lb s keep nz stop in auto)
  also have "\<dots> = fst x" by (rule nth_equalityI) (use lb s keep in auto)
  finally show ?thesis unfolding text_at_def q .
qed

lemma parsecmd_texts:
  assumes "parsecmd s = Ok (c, buf)" "CHR 0x00 \<notin> set s"
  shows "map_cmd (text_at buf) c = map_cmd fst c \<and> (\<forall>x \<in> set_cmd c. counted_in s x)"
proof -
  obtain r where p: "parseline s = Ok (c, r)" and b: "buf = nulterminate c (s @ [CHR 0x00])"
    using assms(1) by (auto simp: parsecmd_def res_simps split: if_splits)
  have c: "\<forall>y \<in> set_cmd c. counted_in s y" using parsed_counted [OF p] by blast
  then show ?thesis using text_at_cut [OF c _ assms(2)] unfolding b by (auto intro: cmd.map_cong)
qed

text \<open>C28. Cutting the line into strings in place does no damage: in whatever line the parser accepts,
  each argument and file name is, after \<^verbatim>\<open>nulterminate\<close>, the C string that the parser had delimited,
  although the NULs are stored in the line that all the strings share.\<close>

theorem parsecmd_strings_intact:
  assumes "parsecmd s = Ok (c, buf)" "CHR 0x00 \<notin> set s"
  shows "map_cmd (text_at buf) c = map_cmd fst c \<and> (\<forall>x \<in> set_cmd c. counted_in s x)"
  by (rule parsecmd_texts [OF assms])

subsection \<open>Writing a command and reading it back\<close>

definition word_ok :: "string \<Rightarrow> bool" where
  "word_ok w \<longleftrightarrow> w \<noteq> [] \<and> (\<forall>c \<in> set w. word_char c \<and> c \<noteq> CHR 0x00)"

definition redir_ok :: "string \<times> u32 \<times> int \<Rightarrow> bool" where
  "redir_ok = (\<lambda>(f, m). word_ok f \<and> (m = (of_int O_RDONLY, 0) \<or> m = (O_WRONLY OR O_CREATE, 1)))"

primrec cmd_ok :: "string cmd \<Rightarrow> bool" where
  "cmd_ok (EXEC ws) \<longleftrightarrow> length ws < MAXARGS \<and> (\<forall>w \<in> set ws. word_ok w)"
| "cmd_ok (REDIR c f m fd) \<longleftrightarrow> cmd_ok c \<and> redir_ok (f, m, fd)"
| "cmd_ok (PIPE a b) \<longleftrightarrow> cmd_ok a \<and> cmd_ok b"
| "cmd_ok (LIST a b) \<longleftrightarrow> cmd_ok a \<and> cmd_ok b"
| "cmd_ok (BACK a) \<longleftrightarrow> cmd_ok a"

definition args_text :: "string list \<Rightarrow> string" where
  "args_text ws = concat (map (\<lambda>w. CHR '' '' # w) ws)"

definition redir_text :: "string \<times> u32 \<times> int \<Rightarrow> string" where
  "redir_text x = CHR '' '' # (if snd (snd x) = 0 then CHR ''<'' else CHR ''>'') # CHR '' '' # fst x"

definition paren :: "bool \<Rightarrow> string \<Rightarrow> string" where
  "paren b t = (if b then ''('' @ t @ '')'' else t)"

text \<open>The text of a command. Its first argument is 0 where a line may stand, 1 for what an
  ampersand may follow, 2 for a pipeline and 3 for a member of one.\<close>

primrec unparse :: "string cmd \<Rightarrow> nat \<Rightarrow> string" where
  "unparse (EXEC ws) l = args_text ws"
| "unparse (REDIR c f m fd) l = unparse c 3 @ redir_text (f, m, fd)"
| "unparse (PIPE a b) l = paren (l > 2) (unparse a 3 @ '' |'' @ unparse b 2)"
| "unparse (BACK a) l = paren (l > 1) (unparse a 1 @ '' &'')"
| "unparse (LIST a b) l = paren (l > 0) (unparse a 1 @ '' ;'' @ unparse b 0)"

lemma skip_normal [simp]:
  "gettoken (skip_white s) = gettoken s" "peek (skip_white s) toks = peek s toks" "tok_rest (skip_white s) = tok_rest s"
  by (simp_all add: gettoken_def peek_def tok_rest_def)

lemma parse_skip [simp]:
  "parseredirs (skip_white s) = parseredirs s" "parseargs n (skip_white s) = parseargs n s"
  "parsebacks c (skip_white s) = parsebacks c s" "parseblock (skip_white s) = parseblock s"
  "parseexec (skip_white s) = parseexec s" "parsepipe (skip_white s) = parsepipe s" "parseline (skip_white s) = parseline s"
proof -
  show r: "parseredirs (skip_white s) = parseredirs s" by (subst (1 2) parseredirs.simps) simp
  show "parseargs n (skip_white s) = parseargs n s" by (subst (1 2) parseargs.simps) simp
  show "parsebacks c (skip_white s) = parsebacks c s" by (subst (1 2) parsebacks.simps) simp
  show b: "parseblock (skip_white s) = parseblock s" by (subst (1 2) parseblock.simps) simp
  show e: "parseexec (skip_white s) = parseexec s" by (subst (1 2) parseexec.simps) (simp add: r b)
  show p: "parsepipe (skip_white s) = parsepipe s" by (subst (1 2) parsepipe.simps) (simp add: e)
  show "parseline (skip_white s) = parseline s" by (subst (1 2) parseline.simps) (simp add: p)
qed

definition follows :: "string \<Rightarrow> string \<Rightarrow> bool" where
  "follows toks rest \<longleftrightarrow> (rest = [] \<or> \<not> word_char (hd rest)) \<and> (skip_white rest = [] \<or> peek rest toks)"

lemma follows_mono: "follows t rest \<Longrightarrow> set t \<subseteq> set u \<Longrightarrow> follows u rest"
  by (auto simp: follows_def peek_def split: list.splits)

lemma skip_space [simp]: "skip_white (CHR '' '' # s) = skip_white s"
  by (simp add: skip_white_def whitespace_def)

lemma parse_space [simp]: "parseredirs (CHR '' '' # s) = parseredirs s" "parseargs n (CHR '' '' # s) = parseargs n s"
    "parseexec (CHR '' '' # s) = parseexec s" "parsepipe (CHR '' '' # s) = parsepipe s" "parseline (CHR '' '' # s) = parseline s"
  using parse_skip [where s = "CHR '' '' # s"] by simp_all

lemma skip_symbol: "c \<in> set symbols \<Longrightarrow> skip_white (c # s) = c # s"
  by (auto simp: skip_white_def whitespace_def symbols_def)

lemma skip_word: "word_ok w \<Longrightarrow> skip_white (w @ s) = w @ s"
  by (cases w) (auto simp: word_ok_def word_char_def skip_white_def)

lemma peek_symbol: "c \<in> set symbols \<Longrightarrow> peek (c # s) toks \<longleftrightarrow> c \<in> set toks"
  by (simp add: peek_def skip_symbol)

lemma peek_word: "word_ok w \<Longrightarrow> set toks \<subseteq> set symbols \<Longrightarrow> \<not> peek (w @ s) toks"
proof -
  assume a: "word_ok w" "set toks \<subseteq> set symbols"
  then obtain c v where "w = c # v" "c \<notin> set symbols" by (cases w) (auto simp: word_ok_def word_char_def)
  then show ?thesis using skip_word [OF a(1), of s] a(2) by (auto simp: peek_def)
qed

lemma peek_space [simp]: "peek (CHR '' '' # s) toks = peek s toks" "gettoken (CHR '' '' # s) = gettoken s" "tok_rest (CHR '' '' # s) = tok_rest s"
  by (simp_all add: peek_def gettoken_def tok_rest_def)

lemma tok_symbol: "c \<in> set ''|();&<'' \<Longrightarrow> tok_kind (c # s) = c \<and> tok_rest (c # s) = skip_white s"
  using skip_symbol [of c s] by (auto simp: gettoken_def tok_rest_def symbols_def)

lemma tok_greater: "s = [] \<or> hd s \<noteq> CHR ''>'' \<Longrightarrow> tok_kind (CHR ''>'' # s) = CHR ''>'' \<and> tok_rest (CHR ''>'' # s) = skip_white s"
  using skip_symbol [of "CHR ''>''" s] by (auto simp: gettoken_def tok_rest_def symbols_def)

lemma tok_word:
  assumes "word_ok w" "rest = [] \<or> \<not> word_char (hd rest)"
  shows "gettoken (w @ rest) = (CHR ''a'', (w, length rest), skip_white rest)"
proof -
  obtain c v where w: "w = c # v" using assms(1) by (cases w) (auto simp: word_ok_def)
  have "c \<notin> set symbols" using assms(1) by (simp add: w word_ok_def word_char_def)
  then have c: "c \<notin> set ''|();&<''" "c \<noteq> CHR ''>''" by (auto simp: symbols_def)
  have "\<forall>c \<in> set w. word_char c" using assms(1) by (simp add: word_ok_def)
  then have t: "takeWhile word_char (w @ rest) = w" "dropWhile word_char (w @ rest) = rest"
    using assms(2) by (cases rest; auto)+
  have "skip_white (w @ rest) = c # v @ rest" using skip_word [OF assms(1)] by (simp add: w)
  then show ?thesis using c t unfolding gettoken_def by (simp add: w Let_def del: takeWhile.simps dropWhile.simps)
qed

lemma redir_step:
  assumes "peek s ''<>''" "tok_rest s = f @ rest" "word_ok f" "rest = [] \<or> \<not> word_char (hd rest)"
  shows "parseredirs s = rbind (parseredirs rest) (\<lambda>(rs, r).
      Ok (((f, length rest), if tok_kind s = CHR ''<'' then (of_int O_RDONLY, 0) else (O_WRONLY OR O_CREATE, 1)) # rs, r))"
proof -
  note t = tok_word [OF assms(3,4)]
  have "tok_rest (f @ rest) = skip_white rest" unfolding tok_rest_def t by simp
  then show ?thesis unfolding parseredirs.simps [of s] if_P [OF assms(1)] Let_def assms(2) t by simp
qed

lemma redir_tokens:
  assumes "redir_ok x" "rest = [] \<or> \<not> word_char (hd rest)"
  shows "parseredirs (redir_text x @ rest) = rbind (parseredirs rest) (\<lambda>(rs, s). Ok (((fst x, length rest), snd x) # rs, s))"
proof -
  obtain f m where x: "x = (f, m)" and f: "word_ok f" and m: "m = (of_int O_RDONLY, 0) \<or> m = (O_WRONLY OR O_CREATE, 1)"
    using assms(1) by (cases x) (auto simp: redir_ok_def)
  let ?r = "CHR '' '' # f @ rest"
  have r: "skip_white ?r = f @ rest" using skip_word [OF f] by simp
  from m show ?thesis
  proof
    assume m: "m = (of_int O_RDONLY, 0)"
    have "redir_text x @ rest = CHR '' '' # CHR ''<'' # ?r" by (simp add: x m redir_text_def)
    moreover have "peek (CHR ''<'' # ?r) ''<>''" by (subst peek_symbol) (simp_all add: symbols_def)
    moreover have "tok_kind (CHR ''<'' # ?r) = CHR ''<'' \<and> tok_rest (CHR ''<'' # ?r) = f @ rest"
      using tok_symbol [of "CHR ''<''" ?r] unfolding r by simp
    ultimately show ?thesis using redir_step [of "CHR '' '' # CHR ''<'' # ?r", OF _ _ f assms(2)] by (simp add: x m)
  next
    assume m: "m = (O_WRONLY OR O_CREATE, 1)"
    have "redir_text x @ rest = CHR '' '' # CHR ''>'' # ?r" by (simp add: x m redir_text_def)
    moreover have "peek (CHR ''>'' # ?r) ''<>''" by (subst peek_symbol) (simp_all add: symbols_def)
    moreover have "tok_kind (CHR ''>'' # ?r) = CHR ''>'' \<and> tok_rest (CHR ''>'' # ?r) = f @ rest"
      using tok_greater [of ?r] unfolding r by simp
    ultimately show ?thesis using redir_step [of "CHR '' '' # CHR ''>'' # ?r", OF _ _ f assms(2)] by (simp add: x m)
  qed
qed

definition redirs_text :: "(string \<times> u32 \<times> int) list \<Rightarrow> string" where
  "redirs_text rs = concat (map redir_text rs)"

definition wrap :: "string cmd \<Rightarrow> (string \<times> u32 \<times> int) list \<Rightarrow> string cmd" where
  "wrap = foldl (\<lambda>c (f, m, fd). REDIR c f m fd)"

abbreviation texts :: "redir list \<Rightarrow> (string \<times> u32 \<times> int) list" where
  "texts \<equiv> map (\<lambda>x. (fst (fst x), snd x))"

lemma sep_space: "CHR '' '' # s = [] \<or> \<not> word_char (hd (CHR '' '' # s))"
  by (simp add: word_char_def whitespace_def)

lemma sep_redirs:
  assumes "rest = [] \<or> \<not> word_char (hd rest)"
  shows "redirs_text rs @ rest = [] \<or> \<not> word_char (hd (redirs_text rs @ rest))"
  using assms by (cases rs) (auto simp: redirs_text_def redir_text_def word_char_def whitespace_def)

lemma redirs_read:
  assumes "\<forall>x \<in> set rs. redir_ok x" "rest = [] \<or> \<not> word_char (hd rest)" "\<not> peek rest ''<>''"
  shows "\<exists>rs'. parseredirs (redirs_text rs @ rest) = Ok (rs', skip_white rest) \<and> texts rs' = rs"
  using assms(1)
proof (induction rs)
  case Nil
  then show ?case using assms(3) by (subst parseredirs.simps) (simp add: redirs_text_def)
next
  case (Cons x rs)
  then obtain rs' where r: "parseredirs (redirs_text rs @ rest) = Ok (rs', skip_white rest)" "texts rs' = rs" by auto
  have "redirs_text (x # rs) @ rest = redir_text x @ (redirs_text rs @ rest)" by (simp add: redirs_text_def)
  then show ?case using redir_tokens [of x, OF _ sep_redirs [OF assms(2)], of rs] Cons.prems r by simp
qed

lemma wrap_read: "map_cmd fst (foldl redircmd c rs) = wrap (map_cmd fst c) (texts rs)"
  by (induction rs arbitrary: c) (auto simp: wrap_def redircmd_def)

lemma peek_disjoint: "peek rest t \<Longrightarrow> set t \<inter> set u = {} \<Longrightarrow> \<not> peek rest u"
  by (auto simp: peek_def split: list.splits)

lemma peek_end: "skip_white rest = [] \<Longrightarrow> \<not> peek rest u"
  by (simp add: peek_def)

lemma follows_peek: "follows t rest \<Longrightarrow> set t \<inter> set u = {} \<Longrightarrow> \<not> peek rest u"
  unfolding follows_def using peek_disjoint peek_end by blast

lemma args_end: "follows ''|)&;'' rest \<Longrightarrow> parseargs n rest = Ok ([], [], skip_white rest)"
  by (subst parseargs.simps) (auto simp: follows_def gettoken_def)

lemma args_step:
  assumes "word_ok w" "rest = [] \<or> \<not> word_char (hd rest)" "n + 1 < MAXARGS"
  shows "parseargs n (CHR '' '' # w @ rest) = rbind (parseredirs rest) (\<lambda>(rs, s1).
     rbind (parseargs (n + 1) s1) (\<lambda>(args, rs', s2). Ok ((w, length rest) # args, rs @ rs', s2)))"
proof -
  let ?s = "CHR '' '' # w @ rest"
  have t: "gettoken ?s = (CHR ''a'', (w, length rest), skip_white rest)" using tok_word [OF assms(1,2)] by simp
  have "\<not> peek ?s ''|)&;''" using peek_word [OF assms(1), of "''|)&;''"] by (simp add: symbols_def)
  moreover have "tok_rest ?s = skip_white rest" unfolding tok_rest_def t by simp
  ultimately show ?thesis unfolding parseargs.simps [of n ?s] t using assms(3) by simp
qed

lemma args_read:
  assumes "\<forall>w \<in> set ws. word_ok w" "ws \<noteq> []" "n + length ws < MAXARGS" "\<forall>x \<in> set rs. redir_ok x" "follows ''|)&;'' rest"
  shows "\<exists>as rs'. parseargs n (args_text ws @ redirs_text rs @ rest) = Ok (as, rs', skip_white rest) \<and> map fst as = ws \<and> texts rs' = rs"
  using assms(1-3)
proof (induction ws arbitrary: n)
  case (Cons w ws)
  have sr: "rest = [] \<or> \<not> word_char (hd rest)" using assms(5) by (simp add: follows_def)
  let ?r = "args_text ws @ redirs_text rs @ rest"
  have w: "word_ok w" "n + 1 < MAXARGS" using Cons.prems by auto
  have sep: "?r = [] \<or> \<not> word_char (hd ?r)"
    using sep_redirs [OF sr] by (cases ws) (auto simp: args_text_def word_char_def whitespace_def)
  have e: "args_text (w # ws) @ redirs_text rs @ rest = CHR '' '' # w @ ?r" by (simp add: args_text_def)
  show ?case
  proof (cases "ws = []")
    case True
    obtain rs' where "parseredirs (redirs_text rs @ rest) = Ok (rs', skip_white rest)" "texts rs' = rs"
      using redirs_read [OF assms(4) sr follows_peek [OF assms(5)]] by auto
    then show ?thesis unfolding e args_step [OF w(1) sep w(2)] using True args_end [OF assms(5)] by (simp add: args_text_def)
  next
    case False
    then obtain v vs where v: "ws = v # vs" by (cases ws) auto
    have "\<not> peek (v @ args_text vs @ redirs_text rs @ rest) ''<>''"
      by (rule peek_word) (use Cons.prems v in \<open>auto simp: symbols_def\<close>)
    then have "\<not> peek ?r ''<>''" by (simp add: v args_text_def)
    then have "parseredirs ?r = Ok ([], skip_white ?r)" by (subst parseredirs.simps) simp
    moreover obtain as rs' where "parseargs (n + 1) ?r = Ok (as, rs', skip_white rest)" "map fst as = ws" "texts rs' = rs"
      using Cons.IH [of "n + 1"] Cons.prems False by auto
    ultimately show ?thesis unfolding e args_step [OF w(1) sep w(2)] by simp
  qed
qed simp

definition reads :: "(counted cmd \<times> string) res \<Rightarrow> string cmd \<Rightarrow> string \<Rightarrow> bool" where
  "reads m c r \<longleftrightarrow> (\<exists>p. m = Ok (p, r) \<and> map_cmd fst p = c)"

lemma exec_args:
  assumes "\<forall>w \<in> set ws. word_ok w" "length ws < MAXARGS" "\<forall>x \<in> set rs. redir_ok x" "follows ''|)&;'' rest"
  shows "reads (parseexec (args_text ws @ redirs_text rs @ rest)) (wrap (EXEC ws) rs) (skip_white rest)"
proof -
  let ?s = "args_text ws @ redirs_text rs @ rest"
  have sr: "rest = [] \<or> \<not> word_char (hd rest)" using assms(4) by (simp add: follows_def)
  have nr: "\<not> peek rest ''<>''" "\<not> peek rest ''(''" using follows_peek [OF assms(4)] by simp_all
  show ?thesis
  proof (cases ws)
    case Nil
    obtain rs' where r: "parseredirs (redirs_text rs @ rest) = Ok (rs', skip_white rest)" "texts rs' = rs"
      using redirs_read [OF assms(3) sr nr(1)] by auto
    have "\<not> peek ?s ''(''" using nr(2) peek_symbol [of "CHR ''<''"] peek_symbol [of "CHR ''>''"]
      by (cases rs) (auto simp: Nil args_text_def redirs_text_def redir_text_def symbols_def)
    then have "parseexec ?s = Ok (foldl redircmd (EXEC []) rs', skip_white rest)"
      using r args_end [OF assms(4)] by (subst parseexec.simps) (simp add: Nil args_text_def)
    then show ?thesis using r(2) by (simp add: reads_def wrap_read Nil)
  next
    case (Cons w vs)
    let ?t = "w @ args_text vs @ redirs_text rs @ rest"
    have s: "?s = CHR '' '' # ?t" by (simp add: Cons args_text_def)
    have w: "word_ok w" using assms(1) Cons by simp
    have p: "\<not> peek ?t ''(''" "\<not> peek ?t ''<>''" by (rule peek_word [OF w]; simp add: symbols_def)+
    obtain as rs' where a: "parseargs 0 ?s = Ok (as, rs', skip_white rest)" "map fst as = ws" "texts rs' = rs"
      using args_read [OF assms(1) _ _ assms(3,4), of 0] assms(2) Cons by auto
    have "parseredirs ?s = Ok ([], skip_white ?s)" using p by (subst parseredirs.simps) (simp add: s)
    then have "parseexec ?s = Ok (foldl redircmd (EXEC as) rs', skip_white rest)"
      using a p by (subst parseexec.simps) (simp add: s)
    then show ?thesis using a(2,3) by (simp add: reads_def wrap_read)
  qed
qed

lemma exec_block:
  assumes "\<And>r. follows '')'' r \<Longrightarrow> reads (parseline (t @ r)) b (skip_white r)"
    and "\<forall>x \<in> set rs. redir_ok x" "follows ''|)&;'' rest"
  shows "reads (parseexec (''('' @ t @ '')'' @ redirs_text rs @ rest)) (wrap b rs) (skip_white rest)"
proof -
  let ?r = "CHR '')'' # redirs_text rs @ rest" and ?s = "''('' @ t @ '')'' @ redirs_text rs @ rest"
  have sr: "rest = [] \<or> \<not> word_char (hd rest)" using assms(3) by (simp add: follows_def)
  have s: "?s = CHR ''('' # t @ ?r" by simp
  have o: "peek (CHR ''('' # t @ ?r) ''(''" "tok_rest (CHR ''('' # t @ ?r) = skip_white (t @ ?r)"
    using peek_symbol [of "CHR ''(''"] tok_symbol [of "CHR ''(''" "t @ ?r"] by (simp_all add: symbols_def)
  have c: "peek ?r '')''" "tok_rest ?r = skip_white (redirs_text rs @ rest)" "skip_white ?r = ?r"
    using peek_symbol [of "CHR '')''"] tok_symbol [of "CHR '')''" "redirs_text rs @ rest"] skip_symbol [of "CHR '')''"] by (simp_all add: symbols_def)
  then have "follows '')'' ?r" by (simp add: follows_def word_char_def symbols_def)
  from assms(1) [OF this] obtain p where p: "parseline (t @ ?r) = Ok (p, ?r)" "map_cmd fst p = b" unfolding c(3) by (auto simp: reads_def)
  obtain rs' where r: "parseredirs (redirs_text rs @ rest) = Ok (rs', skip_white rest)" "texts rs' = rs"
    using redirs_read [OF assms(2) sr follows_peek [OF assms(3)]] by auto
  have "parseexec ?s = parseblock ?s" unfolding s by (subst parseexec.simps) (simp only: o(1) if_True)
  also have "\<dots> = Ok (foldl redircmd p rs', skip_white rest)"
    unfolding s by (subst parseblock.simps) (use o c p r in simp)
  finally show ?thesis using p(2) r(2) by (simp add: reads_def wrap_read)
qed

fun is_redir :: "'w cmd \<Rightarrow> bool" where
  "is_redir (REDIR _ _ _ _) = True"
| "is_redir _ = False"

lemma redirs_split:
  "\<exists>b rs. c = wrap b rs \<and> \<not> is_redir b \<and> unparse c 3 = unparse b 3 @ redirs_text rs \<and> size b \<le> size c
     \<and> (is_redir c \<longrightarrow> size b < size c) \<and> (cmd_ok c \<longrightarrow> cmd_ok b \<and> (\<forall>x \<in> set rs. redir_ok x))"
proof (induction c)
  case (REDIR c f m fd)
  then obtain b rs where "c = wrap b rs" "\<not> is_redir b" "unparse c 3 = unparse b 3 @ redirs_text rs" "size b \<le> size c"
      "cmd_ok c \<longrightarrow> cmd_ok b \<and> (\<forall>x \<in> set rs. redir_ok x)"
    by blast
  then show ?case by (intro exI [of _ b] exI [of _ "rs @ [(f, m, fd)]"]) (auto simp: wrap_def redirs_text_def)
qed (auto intro!: exI [of _ "[]"] simp: wrap_def redirs_text_def)

definition back_reads :: "string cmd \<Rightarrow> string \<Rightarrow> string \<Rightarrow> bool" where
  "back_reads c t r \<longleftrightarrow> (\<exists>p s q. parsepipe t = Ok (p, s) \<and> parsebacks p s = parsebacks q r \<and> map_cmd fst q = c)"

definition line_at where "line_at c \<longleftrightarrow> (\<forall>r. follows '')'' r \<longrightarrow> reads (parseline (unparse c 0 @ r)) c (skip_white r))"
definition back_at where "back_at c \<longleftrightarrow> (\<forall>r. follows '')&;'' r \<longrightarrow> back_reads c (unparse c 1 @ r) (skip_white r))"
definition pipe_at where "pipe_at c \<longleftrightarrow> (\<forall>r. follows '')&;'' r \<longrightarrow> reads (parsepipe (unparse c 2 @ r)) c (skip_white r))"
definition exec_at where "exec_at c \<longleftrightarrow> (\<forall>r. follows ''|)&;'' r \<longrightarrow> reads (parseexec (unparse c 3 @ r)) c (skip_white r))"

lemma follows_symbol:
  assumes "c \<in> set symbols" "c \<in> set t"
  shows "follows t (CHR '' '' # c # s)" "peek (CHR '' '' # c # s) t"
  using assms by (simp_all add: follows_def word_char_def whitespace_def peek_symbol)

lemma exec_pipe:
  assumes "exec_at c" "unparse c 2 = unparse c 3"
  shows "pipe_at c"
  unfolding pipe_at_def
proof (intro allI impI)
  fix r
  assume f: "follows '')&;'' r"
  then have "follows ''|)&;'' r" by (rule follows_mono) auto
  then obtain p where "parseexec (unparse c 2 @ r) = Ok (p, skip_white r)" "map_cmd fst p = c"
    using assms by (auto simp: exec_at_def reads_def)
  moreover have "\<not> peek r ''|''" by (rule follows_peek [OF f]) simp
  ultimately show "reads (parsepipe (unparse c 2 @ r)) c (skip_white r)" by (subst parsepipe.simps) (simp add: reads_def)
qed

lemma pipe_back: "pipe_at c \<Longrightarrow> unparse c 1 = unparse c 2 \<Longrightarrow> back_at c"
  unfolding pipe_at_def back_at_def back_reads_def reads_def by metis

lemma back_line:
  assumes "back_at c" "unparse c 0 = unparse c 1"
  shows "line_at c"
  unfolding line_at_def
proof (intro allI impI)
  fix r
  assume f: "follows '')'' r"
  then have "follows '')&;'' r" by (rule follows_mono) auto
  then obtain p s q where p: "parsepipe (unparse c 0 @ r) = Ok (p, s)" "parsebacks p s = parsebacks q (skip_white r)" "map_cmd fst q = c"
    unfolding assms(2) using assms(1) unfolding back_at_def back_reads_def by blast
  have n: "\<not> peek r ''&''" "\<not> peek r '';''" by (rule follows_peek [OF f]; simp)+
  then have "parsebacks q (skip_white r) = (q, skip_white r)" by (subst parsebacks.simps) simp
  then show "reads (parseline (unparse c 0 @ r)) c (skip_white r)" using p n by (subst parseline.simps) (simp add: reads_def)
qed

lemma line_exec:
  assumes "line_at c" "unparse c 3 = ''('' @ unparse c 0 @ '')''"
  shows "exec_at c"
  unfolding exec_at_def using exec_block [of "unparse c 0" c "[]"] assms
  by (auto simp: line_at_def redirs_text_def wrap_def)

lemma pipe_pipe:
  assumes "exec_at a" "pipe_at b"
  shows "pipe_at (PIPE a b)"
  unfolding pipe_at_def
proof (intro allI impI)
  fix r
  assume f: "follows '')&;'' r"
  let ?t = "CHR '' '' # CHR ''|'' # unparse b 2 @ r"
  note y = follows_symbol [of "CHR ''|''", where s = "unparse b 2 @ r"]
  have "follows ''|)&;'' ?t" "peek ?t ''|''" by (rule y; simp add: symbols_def)+
  moreover have "tok_rest ?t = skip_white (unparse b 2 @ r)" using tok_symbol [of "CHR ''|''" "unparse b 2 @ r"] by simp
  moreover obtain q where "parsepipe (unparse b 2 @ r) = Ok (q, skip_white r)" "map_cmd fst q = b"
    using assms(2) f by (auto simp: pipe_at_def reads_def)
  moreover obtain p where "parseexec (unparse a 3 @ ?t) = Ok (p, skip_white ?t)" "map_cmd fst p = a"
    using assms(1) calculation(1) by (auto simp: exec_at_def reads_def)
  moreover have "unparse (PIPE a b) 2 @ r = unparse a 3 @ ?t" by (simp add: paren_def)
  ultimately show "reads (parsepipe (unparse (PIPE a b) 2 @ r)) (PIPE a b) (skip_white r)"
    by (subst parsepipe.simps) (simp add: reads_def)
qed

lemma back_back:
  assumes "back_at c"
  shows "back_at (BACK c)"
  unfolding back_at_def
proof (intro allI impI)
  fix r
  assume f: "follows '')&;'' r"
  let ?t = "CHR '' '' # CHR ''&'' # r"
  note y = follows_symbol [of "CHR ''&''", where s = r]
  have t: "follows '')&;'' ?t" "peek ?t ''&''" by (rule y; simp add: symbols_def)+
  have k: "tok_rest ?t = skip_white r" using tok_symbol [of "CHR ''&''" r] by simp
  obtain p s q where p: "parsepipe (unparse c 1 @ ?t) = Ok (p, s)" "parsebacks p s = parsebacks q (skip_white ?t)" "map_cmd fst q = c"
    using assms t(1) unfolding back_at_def back_reads_def by blast
  have "parsebacks q (skip_white ?t) = parsebacks (BACK q) (skip_white r)"
    using t(2) k unfolding parse_skip by (subst parsebacks.simps) simp
  moreover have "unparse (BACK c) 1 @ r = unparse c 1 @ ?t" by (simp add: paren_def)
  ultimately show "back_reads (BACK c) (unparse (BACK c) 1 @ r) (skip_white r)"
    using p unfolding back_reads_def by (intro exI [of _ p] exI [of _ s] exI [of _ "BACK q"]) simp
qed

lemma line_list:
  assumes "back_at a" "line_at b"
  shows "line_at (LIST a b)"
  unfolding line_at_def
proof (intro allI impI)
  fix r
  assume f: "follows '')'' r"
  let ?t = "CHR '' '' # CHR '';'' # unparse b 0 @ r"
  note y = follows_symbol [of "CHR '';''", where s = "unparse b 0 @ r"]
  have t: "follows '')&;'' ?t" "peek ?t '';''" by (rule y; simp add: symbols_def)+
  have na: "\<not> peek ?t ''&''" by (rule peek_disjoint [OF t(2)]) simp
  have k: "tok_rest ?t = skip_white (unparse b 0 @ r)" using tok_symbol [of "CHR '';''" "unparse b 0 @ r"] by simp
  obtain p s q where p: "parsepipe (unparse a 1 @ ?t) = Ok (p, s)" "parsebacks p s = parsebacks q (skip_white ?t)" "map_cmd fst q = a"
    using assms(1) t(1) unfolding back_at_def back_reads_def by blast
  have "parsebacks q (skip_white ?t) = (q, skip_white ?t)" using na by (subst parsebacks.simps) simp
  moreover obtain q' where "parseline (unparse b 0 @ r) = Ok (q', skip_white r)" "map_cmd fst q' = b"
    using assms(2) f by (auto simp: line_at_def reads_def)
  moreover have "unparse (LIST a b) 0 @ r = unparse a 1 @ ?t" by (simp add: paren_def)
  ultimately show "reads (parseline (unparse (LIST a b) 0 @ r)) (LIST a b) (skip_white r)"
    using p t(2) k by (subst parseline.simps) (simp add: reads_def)
qed

lemma read_back: "cmd_ok c \<Longrightarrow> line_at c \<and> back_at c \<and> pipe_at c \<and> exec_at c"
proof (induction "size c" arbitrary: c rule: less_induct)
  case less
  show ?case
  proof (cases c)
    case (PIPE a b)
    then have "exec_at a" "pipe_at b" using less by auto
    then have p: "pipe_at c" unfolding PIPE by (rule pipe_pipe)
    then have b: "back_at c" by (rule pipe_back) (simp add: PIPE paren_def)
    then have l: "line_at c" by (rule back_line) (simp add: PIPE paren_def)
    then have "exec_at c" by (rule line_exec) (simp add: PIPE paren_def)
    then show ?thesis using p b l by simp
  next
    case (BACK a)
    then have "back_at a" using less by auto
    then have b: "back_at c" unfolding BACK by (rule back_back)
    then have l: "line_at c" by (rule back_line) (simp add: BACK paren_def)
    then have e: "exec_at c" by (rule line_exec) (simp add: BACK paren_def)
    then have "pipe_at c" by (rule exec_pipe) (simp add: BACK paren_def)
    then show ?thesis using e b l by simp
  next
    case (LIST a b)
    then have "back_at a" "line_at b" using less by auto
    then have l: "line_at c" unfolding LIST by (rule line_list)
    then have e: "exec_at c" by (rule line_exec) (simp add: LIST paren_def)
    then have p: "pipe_at c" by (rule exec_pipe) (simp add: LIST paren_def)
    then have "back_at c" by (rule pipe_back) (simp add: LIST paren_def)
    then show ?thesis using e p l by simp
  next
    case (EXEC ws)
    then have ok: "\<forall>w \<in> set ws. word_ok w" "length ws < MAXARGS" using less(2) by simp_all
    have e: "exec_at c" unfolding exec_at_def EXEC using exec_args [OF ok, of "[]"] by (simp add: redirs_text_def wrap_def)
    then have p: "pipe_at c" by (rule exec_pipe) (simp add: EXEC)
    then have b: "back_at c" by (rule pipe_back) (simp add: EXEC)
    then have "line_at c" by (rule back_line) (simp add: EXEC)
    then show ?thesis using e p b by simp
  next
    case (REDIR d f m fd)
    then have r: "is_redir c" by simp
    obtain b rs where s: "c = wrap b rs" "\<not> is_redir b" "unparse c 3 = unparse b 3 @ redirs_text rs" "size b < size c"
        "cmd_ok b" "\<forall>x \<in> set rs. redir_ok x"
      using redirs_split [of c] less(2) r by blast
    have e: "exec_at c"
    proof (cases b)
      case (EXEC ws)
      then show ?thesis using exec_args [of ws rs] s by (simp add: exec_at_def)
    qed (use exec_block [of "unparse b 0" b rs] less(1) [OF s(4,5)] s in \<open>auto simp: exec_at_def line_at_def paren_def\<close>)
    then have p: "pipe_at c" by (rule exec_pipe) (simp add: REDIR)
    then have b: "back_at c" by (rule pipe_back) (simp add: REDIR)
    then have "line_at c" by (rule back_line) (simp add: REDIR)
    then show ?thesis using e p b by simp
  qed
qed

lemma unparse_no_nul: "cmd_ok c \<Longrightarrow> CHR 0x00 \<notin> set (unparse c l)"
  by (induction c arbitrary: l) (auto simp: args_text_def redir_text_def redir_ok_def paren_def word_ok_def)

text \<open>C6. Every command tree that the shell can represent has a text, with parentheses where the
  grammar needs them, that the parser reads back as this tree: the arguments, file names and modes,
  and the grouping of pipelines, lists and background commands are those of the tree, with the
  strings as they are after \<^verbatim>\<open>nulterminate\<close>. In particular the parser returns on it.\<close>

theorem parse_unparse:
  assumes "cmd_ok c"
  shows "\<exists>p buf. parsecmd (unparse c 0) = Ok (p, buf) \<and> map_cmd (text_at buf) p = c"
proof -
  have "line_at c" using read_back [OF assms] by blast
  then have "reads (parseline (unparse c 0 @ [])) c (skip_white [])"
    unfolding line_at_def by (rule allE [of _ "[]"]) (simp add: follows_def skip_white_def)
  then obtain p where "parseline (unparse c 0) = Ok (p, [])" "map_cmd fst p = c" by (auto simp: reads_def skip_white_def)
  then have "parsecmd (unparse c 0) = Ok (p, nulterminate p (unparse c 0 @ [CHR 0x00]))" "map_cmd fst p = c"
    by (simp_all add: parsecmd_def skip_white_def)
  then show ?thesis using parsecmd_texts [OF _ unparse_no_nul [OF assms]] by blast
qed

text \<open>The line is \<^verbatim>\<open>( ls ; cat < in ) | wc > out &\<close>.\<close>

definition demo_cmd :: "string cmd" where
  "demo_cmd = BACK (PIPE (LIST (EXEC [''ls'']) (REDIR (EXEC [''cat'']) ''in'' (of_int O_RDONLY) 0))
     (REDIR (EXEC [''wc'']) ''out'' (O_WRONLY OR O_CREATE) 1))"

lemma demo_cmd_ok: "cmd_ok demo_cmd"
  by (simp add: demo_cmd_def redir_ok_def word_ok_def word_char_def whitespace_def symbols_def MAXARGS_def)

theorem parse_unparse_witness:
  "unparse demo_cmd 0 = ''( ls ; cat < in) | wc > out &'' \<and> (\<exists>p buf. parsecmd ''( ls ; cat < in) | wc > out &'' = Ok (p, buf)
     \<and> map_cmd (text_at buf) p = demo_cmd)"
proof -
  have t: "unparse demo_cmd 0 = ''( ls ; cat < in) | wc > out &''"
    by (simp add: demo_cmd_def args_text_def redir_text_def paren_def)
  show ?thesis using parse_unparse [OF demo_cmd_ok] unfolding t by simp
qed

lemma demo_line: "\<exists>c buf. parsecmd ''ls>a'' = Ok (c, buf) \<and> buf = [CHR ''l'', CHR ''s'', CHR 0x00, CHR ''a'', CHR 0x00]
    \<and> c = REDIR (EXEC [(''ls'', 2)]) (''a'', 0) (O_WRONLY OR O_CREATE) 1"
  by (simp add: parsecmd_def parser_simps parseredirs.simps parseargs.simps parsebacks.simps peek_def gettoken_def tok_rest_def skip_white_def
      word_char_def whitespace_def symbols_def Let_def redircmd_def MAXARGS_def cut_def)

theorem parsecmd_strings_intact_witness:
  "\<exists>c buf. parsecmd ''ls>a'' = Ok (c, buf) \<and> map_cmd (text_at buf) c = map_cmd fst c \<and> (\<forall>x \<in> set_cmd c. counted_in ''ls>a'' x)"
proof -
  obtain c buf where p: "parsecmd ''ls>a'' = Ok (c, buf)" using demo_line by blast
  show ?thesis using parsecmd_strings_intact [OF p] p by (intro exI [of _ c] exI [of _ buf]) simp
qed

end
