(* ===== verification/ShellRun.thy ===== *)
theory ShellRun
  imports Shell
begin

section \<open>Running commands (\<^verbatim>\<open>runcmd\<close> of \<^verbatim>\<open>sh.c\<close>)\<close>

text \<open>
  \<^verbatim>\<open>runcmd\<close> never returns: it is modelled by the tree of the system calls that the process makes, with
  a branch for each outcome that the code distinguishes. \<open>Fork\<close> has the failing case, the child and
  the parent; \<open>Exec\<close> goes on only if it fails. \<^verbatim>\<open>panic\<close> prints its argument and exits.

  The meaning of a tree when the calls succeed is given on tables of open descriptors, in which
  \<^verbatim>\<open>open\<close>, \<^verbatim>\<open>dup\<close> and \<^verbatim>\<open>pipe\<close> take the lowest free ones, as \<^verbatim>\<open>fdalloc\<close> does. The result shows that no
  program is started with a descriptor of a pipe left open.
\<close>

datatype act =
    Exit
  | Print string act
  | Exec "string list" act
  | Close nat act
  | Open string u32 act act
  | Dup nat act
  | MkPipe act "nat \<times> nat \<Rightarrow> act"
  | Fork act act act
  | Wait act

definition sh_panic :: "string \<Rightarrow> act" where
  "sh_panic s = Print (s @ [CHR 0x0A]) Exit"

primrec runcmd :: "string cmd \<Rightarrow> act" where
  "runcmd (EXEC argv) = (if argv = [] then Exit else Exec argv (Print (''exec '' @ hd argv @ '' failed'' @ [CHR 0x0A]) Exit))"
| "runcmd (REDIR c f mode fd) = Close (nat fd) (Open f mode (Print (''open '' @ f @ '' failed'' @ [CHR 0x0A]) Exit) (runcmd c))"
| "runcmd (LIST l r) = Fork (sh_panic ''fork'') (runcmd l) (Wait (runcmd r))"
| "runcmd (PIPE l r) = MkPipe (sh_panic ''pipe'') (\<lambda>(p0, p1).
     Fork (sh_panic ''fork'') (Close 1 (Dup p1 (Close p0 (Close p1 (runcmd l)))))
    (Fork (sh_panic ''fork'') (Close 0 (Dup p0 (Close p0 (Close p1 (runcmd r)))))
    (Close p0 (Close p1 (Wait (Wait Exit))))))"
| "runcmd (BACK c) = Fork (sh_panic ''fork'') (runcmd c) Exit"

text \<open>\<^verbatim>\<open>main\<close> reads lines. What it does with one: change the directory itself, or parse and run the line
  in a child. \<^verbatim>\<open>strlen(buf)-1\<close> is the last byte of the line, for \<^verbatim>\<open>gets\<close> never stores an empty one
  here. A line that does not parse makes the child panic.\<close>

datatype 'a job = Chdir string | Child 'a | Parse_error string

definition sh_line :: "string \<Rightarrow> act job" where
  "sh_line buf =
     (if take 3 buf = ''cd '' then Chdir (drop 3 (butlast buf))
      else case parsecmd buf of
             Ok (c, s) \<Rightarrow> Child (runcmd (map_cmd (text_at s) c))
           | Panic m \<Rightarrow> Parse_error m
           | _ \<Rightarrow> Parse_error [])"

subsection \<open>Descriptors\<close>

datatype fobj = Std nat | Named string u32 | ReadEnd nat | WriteEnd nat

type_synonym fdtable = "nat \<rightharpoonup> fobj"

fun low_from :: "nat \<Rightarrow> nat \<Rightarrow> fdtable \<Rightarrow> nat" where
  "low_from 0 i t = i"
| "low_from (Suc k) i t = (if t i = None then i else low_from k (Suc i) t)"

definition lowest :: "fdtable \<Rightarrow> nat" where
  "lowest t = low_from NOFILE 0 t"

text \<open>The programs that a process and its descendants start, with their descriptors; \<open>n\<close> numbers the
  pipes.\<close>

primrec started :: "act \<Rightarrow> nat \<Rightarrow> fdtable \<Rightarrow> (string list \<times> fdtable) list" where
  "started Exit n t = []"
| "started (Print m k) n t = started k n t"
| "started (Exec argv k) n t = [(argv, t)]"
| "started (Close fd k) n t = started k n (t(fd := None))"
| "started (Open f mode bad k) n t = started k n (t(lowest t \<mapsto> Named f mode))"
| "started (Dup fd k) n t = started k n (t(lowest t := t fd))"
| "started (MkPipe bad k) n t =
     (let p0 = lowest t; t0 = t(p0 \<mapsto> ReadEnd n); p1 = lowest t0; t1 = t0(p1 \<mapsto> WriteEnd n) in
      (\<lambda>p. started (k p)) (p0, p1) (Suc n) t1)"
| "started (Fork bad child parent) n t = started child n t @ started parent n t"
| "started (Wait k) n t = started k n t"

definition std_only :: "fdtable \<Rightarrow> bool" where
  "std_only t \<longleftrightarrow> dom t = {0, 1, 2}"

lemma std_only_iff: "std_only t \<longleftrightarrow> t 0 \<noteq> None \<and> t 1 \<noteq> None \<and> t 2 \<noteq> None \<and> (\<forall>i > 2. t i = None)"
proof
  assume "std_only t"
  then have d: "dom t = {0, 1, 2}" by (simp add: std_only_def)
  have "i \<notin> dom t" if "i > 2" for i using that unfolding d by simp
  moreover have "0 \<in> dom t" "1 \<in> dom t" "2 \<in> dom t" unfolding d by simp_all
  ultimately show "t 0 \<noteq> None \<and> t 1 \<noteq> None \<and> t 2 \<noteq> None \<and> (\<forall>i > 2. t i = None)" unfolding domIff by blast
next
  assume a: "t 0 \<noteq> None \<and> t 1 \<noteq> None \<and> t 2 \<noteq> None \<and> (\<forall>i > 2. t i = None)"
  have "dom t \<subseteq> {0, 1, 2}"
  proof
    fix i
    assume "i \<in> dom t"
    then have "t i \<noteq> None" by (simp add: domIff)
    then have "\<not> i > 2" using a by metis
    then show "i \<in> {0, 1, 2}" by simp linarith
  qed
  moreover have "{0, 1, 2} \<subseteq> dom t" using a by (simp add: domIff)
  ultimately show "std_only t" unfolding std_only_def by (rule subset_antisym)
qed

lemma lowest_simps:
  "t 0 = None \<Longrightarrow> lowest t = 0"
  "t 0 \<noteq> None \<Longrightarrow> t 1 = None \<Longrightarrow> lowest t = 1"
  "t 0 \<noteq> None \<Longrightarrow> t 1 \<noteq> None \<Longrightarrow> t 2 \<noteq> None \<Longrightarrow> t 3 = None \<Longrightarrow> lowest t = 3"
  "t 0 \<noteq> None \<Longrightarrow> t 1 \<noteq> None \<Longrightarrow> t 2 \<noteq> None \<Longrightarrow> t 3 \<noteq> None \<Longrightarrow> t 4 = None \<Longrightarrow> lowest t = 4"
  by (simp_all add: lowest_def NOFILE_def numeral_eq_Suc)

fun cmd_fds :: "string cmd \<Rightarrow> bool" where
  "cmd_fds (EXEC _) = True"
| "cmd_fds (REDIR c f mode fd) \<longleftrightarrow> (fd = 0 \<or> fd = 1) \<and> cmd_fds c"
| "cmd_fds (PIPE l r) \<longleftrightarrow> cmd_fds l \<and> cmd_fds r"
| "cmd_fds (LIST l r) \<longleftrightarrow> cmd_fds l \<and> cmd_fds r"
| "cmd_fds (BACK c) \<longleftrightarrow> cmd_fds c"

lemma pipe_started:
  assumes "std_only t"
  shows "started (runcmd (PIPE l r)) n t = started (runcmd l) (Suc n) (t(1 \<mapsto> WriteEnd n)) @ started (runcmd r) (Suc n) (t(0 \<mapsto> ReadEnd n))"
proof -
  have t: "t 0 \<noteq> None" "t 1 \<noteq> None" "t 2 \<noteq> None" "t 3 = None" "t 4 = None" using assms by (simp_all add: std_only_iff)
  have 3: "lowest t = 3" using t by (intro lowest_simps)
  have 4: "lowest (t(3 \<mapsto> ReadEnd n)) = 4" by (rule lowest_simps(4)) (use t in simp_all)
  let ?t = "t(3 \<mapsto> ReadEnd n, 4 \<mapsto> WriteEnd n)"
  have l: "lowest (?t(1 := None)) = 1" by (rule lowest_simps(2)) (use t in simp_all)
  have r: "lowest (?t(0 := None)) = 0" by (rule lowest_simps(1)) simp
  have "?t(1 := None, 1 := (?t(1 := None)) 4, 3 := None, 4 := None) = t(1 \<mapsto> WriteEnd n)"
    "?t(0 := None, 0 := (?t(0 := None)) 3, 3 := None, 4 := None) = t(0 \<mapsto> ReadEnd n)"
    using t by (auto simp: fun_eq_iff)
  then show ?thesis by (simp add: Let_def 3 4 l [simplified] r)
qed

lemma redir_table:
  assumes "std_only t" "fd = 0 \<or> fd = (1 :: int)"
  shows "lowest (t(nat fd := None)) = nat fd" "std_only (t(nat fd \<mapsto> x))"
  using assms by (auto simp: std_only_iff lowest_simps)

lemma started_std:
  "cmd_fds c \<Longrightarrow> std_only t \<Longrightarrow> \<forall>p \<in> set (started (runcmd c) n t). std_only (snd p)"
proof (induction c arbitrary: t n)
  case (EXEC argv)
  then show ?case by simp
next
  case (REDIR c f mode fd)
  then have f: "cmd_fds c" "fd = 0 \<or> fd = 1" by simp_all
  note r = redir_table [OF REDIR.prems(2) f(2)]
  have "started (runcmd (REDIR c f mode fd)) n t = started (runcmd c) n (t(nat fd \<mapsto> Named f mode))" by (simp add: r(1))
  then show ?case using REDIR.IH [OF f(1) r(2)] by presburger
next
  case (PIPE l r)
  have "std_only (t(1 \<mapsto> WriteEnd n))" "std_only (t(0 \<mapsto> ReadEnd n))" "cmd_fds l" "cmd_fds r"
    using PIPE.prems by (simp_all add: std_only_iff)
  then show ?case using PIPE.IH(1) [of _ "Suc n"] PIPE.IH(2) [of _ "Suc n"] unfolding pipe_started [OF PIPE.prems(2)] set_append
    by blast
next
  case (LIST l r)
  then have "cmd_fds l" "cmd_fds r" by simp_all
  then show ?case using LIST.IH(1) [of t n] LIST.IH(2) [of t n] LIST.prems(2) by (simp add: ball_Un)
next
  case (BACK c)
  then show ?case by simp
qed



end
