(* ===== verification/Mp.thy ===== *)
theory Mp
  imports Syscall Spinlock
begin

section \<open>The multiprocessor tables (\<^verbatim>\<open>mp.c\<close>)\<close>

text \<open>
  The kernel searches low memory for the tables in which the firmware lists the processors. Memory
  is the function from addresses to bytes of theory \<open>Strings\<close>. The loops compare and advance
  pointers that may wrap around, so they are partial functions: \<open>None\<close> is a loop that never ends.
  A null pointer is the word 0.

  The lemmas show which structure the search returns, that a table of known entries gives the
  processors in the order of the table, and that an entry of an unknown type makes \<^verbatim>\<open>mpinit\<close> run
  for ever: the test after its loop is never reached with \<^verbatim>\<open>ismp\<close> cleared.
\<close>

unbundle bit_operations_syntax

definition load16 :: "mem \<Rightarrow> u32 \<Rightarrow> u16" where
  "load16 m a = ucast (m a) OR push_bit 8 (ucast (m (a + 1)))"

text \<open>Sizes and offsets of the structures of \<^verbatim>\<open>mp.h\<close>.\<close>

definition sizeof_mp :: u32 where "sizeof_mp = 16"
definition sizeof_mpconf :: u32 where "sizeof_mpconf = 44"
definition sizeof_mpproc :: u32 where "sizeof_mpproc = 20"
definition sizeof_mpioapic :: u32 where "sizeof_mpioapic = 8"

definition NCPU :: nat where "NCPU = 8"

definition MPPROC :: u8 where "MPPROC = 0"
definition MPBUS :: u8 where "MPBUS = 1"
definition MPIOAPIC :: u8 where "MPIOAPIC = 2"
definition MPIOINTR :: u8 where "MPIOINTR = 3"
definition MPLINTR :: u8 where "MPLINTR = 4"

definition mp_physaddr :: "mem \<Rightarrow> u32 \<Rightarrow> u32" where "mp_physaddr m mp = load32 m (mp + 4)"
definition mp_imcrp :: "mem \<Rightarrow> u32 \<Rightarrow> u8" where "mp_imcrp m mp = m (mp + 12)"
definition conf_length :: "mem \<Rightarrow> u32 \<Rightarrow> u16" where "conf_length m conf = load16 m (conf + 4)"
definition conf_version :: "mem \<Rightarrow> u32 \<Rightarrow> u8" where "conf_version m conf = m (conf + 6)"
definition conf_lapicaddr :: "mem \<Rightarrow> u32 \<Rightarrow> u32" where "conf_lapicaddr m conf = load32 m (conf + 36)"

record mpstate =
  mp_cpus :: "cpu list"
  mp_ncpu :: nat
  mp_ioapicid :: u8
  mp_lapic :: u32
  mp_imcr :: u8

definition mp_sum :: "mem \<Rightarrow> u32 \<Rightarrow> nat \<Rightarrow> u8" where
  "mp_sum m a len = fold (\<lambda>i s. s + m (a + of_nat i)) [0..<len] 0"

definition mp_here :: "mem \<Rightarrow> u32 \<Rightarrow> bool" where
  "mp_here m p \<longleftrightarrow> bytes_at m p 4 = map of_char ''_MP_'' \<and> mp_sum m p (unat sizeof_mp) = 0"

partial_function (option) mpsearch1_loop :: "mem \<Rightarrow> u32 \<Rightarrow> u32 \<Rightarrow> u32 option" where
  "mpsearch1_loop m e p =
     (if p < e then if mp_here m p then Some p else mpsearch1_loop m e (p + sizeof_mp) else Some 0)"

definition mpsearch1 :: "mem \<Rightarrow> u32 \<Rightarrow> u32 \<Rightarrow> u32 option" where
  "mpsearch1 m a len = (let addr = P2V a in mpsearch1_loop m (addr + len) addr)"

definition mpsearch :: "mem \<Rightarrow> u32 option" where
  "mpsearch m =
     (let bda = P2V 0x400; rom = mpsearch1 m 0xF0000 0x10000;
          p = push_bit 4 (push_bit 8 (ucast (m (bda + 0x0F))) OR ucast (m (bda + 0x0E))) in
      if p \<noteq> 0 then
        Option.bind (mpsearch1 m p 1024) (\<lambda>mp. if mp \<noteq> 0 then Some mp else rom)
      else
        let p = (push_bit 8 (ucast (m (bda + 0x14))) OR ucast (m (bda + 0x13))) * 1024 in
        Option.bind (mpsearch1 m (p - 1024) 1024) (\<lambda>mp. if mp \<noteq> 0 then Some mp else rom))"

text \<open>The result is the pair of \<^verbatim>\<open>*pmp\<close> and the pointer returned, \<open>None\<close> inside for the null pointer.\<close>

definition mpconfig :: "mem \<Rightarrow> (u32 \<times> u32) option option" where
  "mpconfig m =
     Option.bind (mpsearch m) (\<lambda>mp.
     if mp = 0 \<or> mp_physaddr m mp = 0 then Some None
     else
       let conf = P2V (mp_physaddr m mp) in
       if bytes_at m conf 4 \<noteq> map of_char ''PCMP'' then Some None
       else if conf_version m conf \<noteq> 1 \<and> conf_version m conf \<noteq> 4 then Some None
       else if mp_sum m conf (unat (conf_length m conf)) \<noteq> 0 then Some None
       else Some (Some (mp, conf)))"

definition add_cpu :: "u8 \<Rightarrow> mpstate \<Rightarrow> mpstate" where
  "add_cpu a s =
     (if mp_ncpu s < NCPU
      then s\<lparr>mp_cpus := (mp_cpus s)[mp_ncpu s := (mp_cpus s ! mp_ncpu s)\<lparr>apicid := a\<rparr>], mp_ncpu := mp_ncpu s + 1\<rparr>
      else s)"

partial_function (option) mpinit_loop :: "mem \<Rightarrow> u32 \<Rightarrow> u32 \<Rightarrow> bool \<Rightarrow> mpstate \<Rightarrow> (bool \<times> mpstate) option" where
  "mpinit_loop m e p ismp s =
     (if p < e then
        if m p = MPPROC then mpinit_loop m e (p + sizeof_mpproc) ismp (add_cpu (m (p + 1)) s)
        else if m p = MPIOAPIC then mpinit_loop m e (p + sizeof_mpioapic) ismp (s\<lparr>mp_ioapicid := m (p + 1)\<rparr>)
        else if m p = MPBUS \<or> m p = MPIOINTR \<or> m p = MPLINTR then mpinit_loop m e (p + 8) ismp s
        else mpinit_loop m e p False s
      else Some (ismp, s))"

definition mpinit :: "mem \<Rightarrow> mpstate \<Rightarrow> mpstate res option" where
  "mpinit m s =
     Option.bind (mpconfig m) (\<lambda>c. case c of
       None \<Rightarrow> Some (Panic ''Expect to run on an SMP'')
     | Some (mp, conf) \<Rightarrow>
         Option.bind (mpinit_loop m (conf + ucast (conf_length m conf)) (conf + sizeof_mpconf) True (s\<lparr>mp_lapic := conf_lapicaddr m conf\<rparr>))
           (\<lambda>(ismp, s).
           Some (if \<not> ismp then Panic ''Didn't find a suitable machine''
                 else Ok (if mp_imcrp m mp \<noteq> 0 then s\<lparr>mp_imcr := mp_imcr s OR 1\<rparr> else s))))"

subsection \<open>The search\<close>

lemma find_map_image: "find Q (map f xs) = map_option f (find (\<lambda>x. Q (f x)) xs)"
  by (induction xs) auto

lemma find_upt_Suc: "find Q [0..<Suc k] = (if Q 0 then Some 0 else map_option Suc (find (\<lambda>i. Q (Suc i)) [0..<k]))"
proof -
  have "[0..<Suc k] = 0 # map Suc [0..<k]" by (simp add: map_Suc_upt upt_conv_Cons del: upt_Suc)
  then show ?thesis by (simp add: find_map_image del: upt_Suc)
qed

lemma mpsearch1_steps:
  assumes "unat p + 16 * k \<le> unat e" "unat e \<le> unat p + 16 * k" "k < 2 ^ 28"
  shows "mpsearch1_loop m e p =
    Some (case find (\<lambda>i. mp_here m (p + 16 * of_nat i)) [0..<k] of Some i \<Rightarrow> p + 16 * of_nat i | None \<Rightarrow> 0)"
  using assms
proof (induction k arbitrary: p)
  case 0
  then have "\<not> p < e" by (simp add: word_less_nat_alt)
  then show ?case by (subst mpsearch1_loop.simps) simp
next
  case (Suc k)
  then have l: "p < e" by (simp add: word_less_nat_alt)
  have e: "unat e < 2 ^ 32" using unsigned_less [of e] by simp
  have u: "unat (p + sizeof_mp) = unat p + 16" using Suc.prems e by (simp add: sizeof_mp_def unat_word_ariths)
  have a: "p + sizeof_mp + 16 * of_nat i = p + 16 * of_nat (Suc i)" for i by (simp add: sizeof_mp_def algebra_simps)
  have i: "mpsearch1_loop m e (p + sizeof_mp) =
    Some (case find (\<lambda>i. mp_here m (p + 16 * of_nat (Suc i))) [0..<k] of Some i \<Rightarrow> p + 16 * of_nat (Suc i) | None \<Rightarrow> 0)"
    using Suc.IH [of "p + sizeof_mp"] Suc.prems unfolding u a by simp
  show ?case by (subst mpsearch1_loop.simps) (simp add: l i find_upt_Suc option.case_eq_if option.map_sel del: upt_Suc of_nat_Suc)
qed

text \<open>A search returns the first structure, at the steps of 16 bytes, that has the signature and the
  checksum, and the null pointer if there is none.\<close>

theorem mpsearch1_first:
  assumes "unat (P2V a) + 16 * k < 2 ^ 32" "P2V a \<noteq> 0"
  shows "\<exists>p. mpsearch1 m a (of_nat (16 * k)) = Some p
    \<and> (p = 0 \<longrightarrow> (\<forall>i < k. \<not> mp_here m (P2V a + 16 * of_nat i)))
    \<and> (p \<noteq> 0 \<longrightarrow> (\<exists>i < k. p = P2V a + 16 * of_nat i \<and> mp_here m p \<and> (\<forall>j < i. \<not> mp_here m (P2V a + 16 * of_nat j))))"
proof -
  have k: "16 * k < 2 ^ 32" using assms(1) by linarith
  have ue: "unat (P2V a + of_nat (16 * k)) = unat (P2V a) + 16 * k"
    using assms(1) k by (simp add: unat_word_ariths unsigned_of_nat take_bit_eq_mod)
  have nz: "P2V a + 16 * of_nat i \<noteq> 0" if "i < k" for i
  proof -
    have "unat (P2V a + 16 * of_nat i) = unat (P2V a) + 16 * i"
      using assms(1) that by (simp add: unat_word_ariths unsigned_of_nat take_bit_eq_mod)
    moreover have "unat (P2V a) \<noteq> 0" using assms(2) by (simp add: unsigned_eq_0_iff)
    ultimately show ?thesis by (metis add_is_0 unsigned_0)
  qed
  have r: "mpsearch1 m a (of_nat (16 * k)) =
    Some (case find (\<lambda>i. mp_here m (P2V a + 16 * of_nat i)) [0..<k] of Some i \<Rightarrow> P2V a + 16 * of_nat i | None \<Rightarrow> 0)"
    unfolding mpsearch1_def Let_def by (rule mpsearch1_steps) (use ue k in simp_all)
  show ?thesis
  proof (cases "find (\<lambda>i. mp_here m (P2V a + 16 * of_nat i)) [0..<k]")
    case None
    moreover have "\<forall>i < k. \<not> mp_here m (P2V a + 16 * of_nat i)" using None by (simp add: find_None_iff)
    ultimately show ?thesis unfolding r by simp
  next
    case (Some i)
    then have "i < k" "mp_here m (P2V a + 16 * of_nat i)" "\<forall>j < i. \<not> mp_here m (P2V a + 16 * of_nat j)"
      by (auto simp: find_Some_iff)
    then show ?thesis unfolding r Some using nz [of i] by auto
  qed
qed

subsection \<open>Reading the table\<close>

datatype mpentry = Processor u8 | IoApic u8 | OtherEntry u8

fun entry_in :: "mem \<Rightarrow> u32 \<Rightarrow> mpentry \<Rightarrow> bool" where
  "entry_in m p (Processor a) \<longleftrightarrow> m p = MPPROC \<and> m (p + 1) = a"
| "entry_in m p (IoApic a) \<longleftrightarrow> m p = MPIOAPIC \<and> m (p + 1) = a"
| "entry_in m p (OtherEntry t) \<longleftrightarrow> m p = t \<and> t \<in> {MPBUS, MPIOINTR, MPLINTR}"

fun entry_size :: "mpentry \<Rightarrow> u32" where
  "entry_size (Processor a) = sizeof_mpproc"
| "entry_size (IoApic a) = sizeof_mpioapic"
| "entry_size (OtherEntry t) = 8"

text \<open>The entries read from \<open>p\<close> on, and the address behind them.\<close>

fun table :: "mem \<Rightarrow> u32 \<Rightarrow> u32 \<Rightarrow> mpentry list \<Rightarrow> u32 \<Rightarrow> bool" where
  "table m e p [] q \<longleftrightarrow> q = p"
| "table m e p (x # xs) q \<longleftrightarrow> p < e \<and> entry_in m p x \<and> table m e (p + entry_size x) xs q"

fun note_entry :: "mpentry \<Rightarrow> mpstate \<Rightarrow> mpstate" where
  "note_entry (Processor a) s = add_cpu a s"
| "note_entry (IoApic a) s = s\<lparr>mp_ioapicid := a\<rparr>"
| "note_entry (OtherEntry t) s = s"

lemmas mp_types = MPPROC_def MPBUS_def MPIOAPIC_def MPIOINTR_def MPLINTR_def

lemma mpinit_loop_entry:
  "p < e \<Longrightarrow> entry_in m p x \<Longrightarrow> mpinit_loop m e p b s = mpinit_loop m e (p + entry_size x) b (note_entry x s)"
  by (subst mpinit_loop.simps, cases x) (auto simp: mp_types)

lemma mpinit_loop_table:
  "table m e p es q \<Longrightarrow> mpinit_loop m e p b s = mpinit_loop m e q b (fold note_entry es s)"
proof (induction es arbitrary: p s)
  case (Cons x es)
  then show ?case using mpinit_loop_entry [of p e m x b s] by simp
qed simp

lemma mpinit_loop_end: "\<not> q < e \<Longrightarrow> mpinit_loop m e q b s = Some (b, s)"
  by (subst mpinit_loop.simps) simp

definition unknown :: "u8 \<Rightarrow> bool" where
  "unknown t \<longleftrightarrow> t \<notin> {MPPROC, MPBUS, MPIOAPIC, MPIOINTR, MPLINTR}"

lemma mpinit_loop_returns: "mpinit_loop m e q b s = Some r \<Longrightarrow> \<not> (q < e \<and> unknown (m q))"
proof (rule mpinit_loop.raw_induct [of "\<lambda>m e q b s r. \<not> (q < e \<and> unknown (m q))"], goal_cases)
  case (1 f m e q b s r)
  show ?case
  proof
    assume a: "q < e \<and> unknown (m q)"
    then have "f m e q False s = Some r" using 1(3) by (simp add: unknown_def)
    then show False using 1(2) a by blast
  qed
qed

lemma mpinit_loop_stuck: "q < e \<Longrightarrow> unknown (m q) \<Longrightarrow> mpinit_loop m e q b s = None"
  using mpinit_loop_returns [of m e q b s] by (cases "mpinit_loop m e q b s") auto

definition processors :: "mpentry list \<Rightarrow> u8 list" where
  "processors es = concat (map (\<lambda>x. case x of Processor a \<Rightarrow> [a] | _ \<Rightarrow> []) es)"

definition ioapics :: "mpentry list \<Rightarrow> u8 list" where
  "ioapics es = concat (map (\<lambda>x. case x of IoApic a \<Rightarrow> [a] | _ \<Rightarrow> []) es)"

definition cpu_ids :: "mpstate \<Rightarrow> u8 list" where
  "cpu_ids s = map apicid (take (mp_ncpu s) (mp_cpus s))"

definition mp_ok :: "mpstate \<Rightarrow> bool" where
  "mp_ok s \<longleftrightarrow> length (mp_cpus s) = NCPU \<and> mp_ncpu s \<le> NCPU"

lemma mp_ok_other [simp]:
  "mp_ok (s\<lparr>mp_imcr := x\<rparr>) = mp_ok s" "mp_ok (s\<lparr>mp_lapic := l\<rparr>) = mp_ok s" "mp_ok (s\<lparr>mp_ioapicid := a\<rparr>) = mp_ok s"
  "cpu_ids (s\<lparr>mp_imcr := x\<rparr>) = cpu_ids s" "cpu_ids (s\<lparr>mp_lapic := l\<rparr>) = cpu_ids s" "cpu_ids (s\<lparr>mp_ioapicid := a\<rparr>) = cpu_ids s"
  by (simp_all add: mp_ok_def cpu_ids_def)

lemma length_cpu_ids: "mp_ok s \<Longrightarrow> length (cpu_ids s) = mp_ncpu s"
  by (simp add: mp_ok_def cpu_ids_def)

lemma add_cpu_ids:
  assumes "mp_ok s"
  shows "mp_ok (add_cpu a s)" "cpu_ids (add_cpu a s) = take NCPU (cpu_ids s @ [a])" "mp_ioapicid (add_cpu a s) = mp_ioapicid s"
    "mp_lapic (add_cpu a s) = mp_lapic s" "mp_imcr (add_cpu a s) = mp_imcr s"
  using assms by (auto simp: mp_ok_def cpu_ids_def add_cpu_def take_Suc_conv_app_nth)

lemma note_entries:
  assumes "mp_ok s"
  shows "mp_ok (fold note_entry es s) \<and> cpu_ids (fold note_entry es s) = take NCPU (cpu_ids s @ processors es)
    \<and> mp_ioapicid (fold note_entry es s) = last (mp_ioapicid s # ioapics es)
    \<and> mp_lapic (fold note_entry es s) = mp_lapic s \<and> mp_imcr (fold note_entry es s) = mp_imcr s"
  using assms
proof (induction es arbitrary: s)
  case Nil
  then show ?case using length_cpu_ids [of s] by (simp add: processors_def ioapics_def mp_ok_def)
next
  case (Cons x es)
  show ?case
  proof (cases x)
    case (Processor a)
    note c = add_cpu_ids [OF Cons.prems, of a]
    have "take NCPU (take NCPU (cpu_ids s @ [a]) @ processors es) = take NCPU (cpu_ids s @ a # processors es)"
      by (cases "length (cpu_ids s) < NCPU") (simp_all add: not_less)
    then show ?thesis using Cons.IH [OF c(1)] c by (simp add: Processor processors_def ioapics_def)
  next
    case (IoApic a)
    then show ?thesis using Cons.prems Cons.IH [of "s\<lparr>mp_ioapicid := a\<rparr>"] by (simp add: processors_def ioapics_def)
  next
    case (OtherEntry t)
    then show ?thesis using Cons.IH [OF Cons.prems] by (simp add: processors_def ioapics_def)
  qed
qed

text \<open>C31. When the configuration table consists of entries of the known types, \<^verbatim>\<open>mpinit\<close> returns with the
  first \<^verbatim>\<open>NCPU\<close> processors of the table, in its order, and the last I/O APIC. When an entry of
  another type follows, \<^verbatim>\<open>mpinit\<close> never returns: it does not come to its panic.\<close>

theorem mpinit_reads_table:
  assumes "mpconfig m = Some (Some (mp, conf))" "mp_ok s" "mp_ncpu s = 0"
    and t: "table m (conf + ucast (conf_length m conf)) (conf + sizeof_mpconf) es q"
  shows "(\<not> q < conf + ucast (conf_length m conf) \<longrightarrow> (\<exists>s'. mpinit m s = Some (Ok s') \<and> mp_ok s'
      \<and> cpu_ids s' = take NCPU (processors es) \<and> mp_ncpu s' = min NCPU (length (processors es))
      \<and> mp_ioapicid s' = last (mp_ioapicid s # ioapics es) \<and> mp_lapic s' = conf_lapicaddr m conf))
    \<and> (q < conf + ucast (conf_length m conf) \<and> unknown (m q) \<longrightarrow> mpinit m s = None)"
proof -
  let ?s = "s\<lparr>mp_lapic := conf_lapicaddr m conf\<rparr>"
  let ?f = "fold note_entry es ?s"
  have ok: "mp_ok ?s" "cpu_ids ?s = []" using assms by (simp_all add: cpu_ids_def)
  note n = note_entries [OF ok(1), of es]
  have "\<exists>s'. mpinit m s = Some (Ok s') \<and> mp_ok s' \<and> cpu_ids s' = take NCPU (processors es)
      \<and> mp_ncpu s' = min NCPU (length (processors es))
      \<and> mp_ioapicid s' = last (mp_ioapicid s # ioapics es) \<and> mp_lapic s' = conf_lapicaddr m conf"
    if "\<not> q < conf + ucast (conf_length m conf)"
  proof -
    have "mp_ncpu ?f = min NCPU (length (processors es))" using n ok(2) length_cpu_ids [of ?f] by simp
    then show ?thesis using n ok(2) assms(1) mpinit_loop_table [OF t] mpinit_loop_end [OF that]
      by (simp add: mpinit_def)
  qed
  moreover have "mpinit m s = None" if "q < conf + ucast (conf_length m conf)" "unknown (m q)"
    using assms(1) mpinit_loop_table [OF t] mpinit_loop_stuck [of q _ m] that by (simp add: mpinit_def)
  ultimately show ?thesis by blast
qed

definition demo_tables :: mem where
  "demo_tables = (\<lambda>_. 0)(
     0x8000040E := 0x10,
     0x80000100 := 0x5F, 0x80000101 := 0x4D, 0x80000102 := 0x50, 0x80000103 := 0x5F, 0x80000105 := 2, 0x80000108 := 1,
     0x80000109 := 4, 0x8000010A := 0x9E,
     0x80000200 := 0x50, 0x80000201 := 0x43, 0x80000202 := 0x4D, 0x80000203 := 0x50, 0x80000204 := 72, 0x80000206 := 4,
     0x80000207 := 0x72, 0x8000022D := 7, 0x80000240 := 2, 0x80000241 := 9)"

lemma demo_config: "mpconfig demo_tables = Some (Some (0x80000100, 0x80000200))"
proof -
  have h: "mp_here demo_tables 0x80000100"
    by (simp add: mp_here_def bytes_at_def mp_sum_def sizeof_mp_def demo_tables_def upt_conv_Cons)
  have "mpsearch1 demo_tables 0x100 1024 = Some 0x80000100"
    unfolding mpsearch1_def by (subst mpsearch1_loop.simps) (simp add: h P2V_def KERNBASE_def Let_def)
  then have m: "mpsearch demo_tables = Some 0x80000100"
    by (simp add: mpsearch_def P2V_def KERNBASE_def demo_tables_def)
  have p: "mp_physaddr demo_tables 0x80000100 = 0x200" by (simp add: mp_physaddr_def load32_def demo_tables_def)
  have l: "conf_length demo_tables 0x80000200 = 72" by (simp add: conf_length_def load16_def demo_tables_def)
  have "mp_sum demo_tables 0x80000200 72 = 0" by (simp add: mp_sum_def demo_tables_def upt_conv_Cons)
  then show ?thesis using m p l
    by (simp add: mpconfig_def P2V_def KERNBASE_def bytes_at_def upt_conv_Cons conf_version_def) (simp add: demo_tables_def)
qed

theorem mpsearch1_first_witness:
  "unat (P2V 0x100) + 16 * 64 < 2 ^ 32 \<and> P2V 0x100 \<noteq> 0 \<and> (\<exists>p. mpsearch1 demo_tables 0x100 (of_nat (16 * 64)) = Some p)"
  using mpsearch1_first [of "0x100" 64 demo_tables] by (auto simp: P2V_def KERNBASE_def)

definition boot_mp :: mpstate where
  "boot_mp = \<lparr>mp_cpus = replicate NCPU \<lparr>apicid = 0, ncli = 0, intena = False, cpu_proc = None\<rparr>,
     mp_ncpu = 0, mp_ioapicid = 0, mp_lapic = 0, mp_imcr = 0\<rparr>"

theorem mpinit_reads_table_witness:
  "\<exists>s. mpinit demo_tables boot_mp = Some (Ok s) \<and> cpu_ids s = [7] \<and> mp_ncpu s = 1 \<and> mp_ioapicid s = 9"
proof -
  have l: "conf_length demo_tables 0x80000200 = 72" by (simp add: conf_length_def load16_def demo_tables_def)
  have ok: "mp_ok boot_mp" "mp_ncpu boot_mp = 0" by (simp_all add: mp_ok_def boot_mp_def)
  have "table demo_tables 0x80000248 0x8000022C [Processor 7, IoApic 9] 0x80000248"
    by (simp add: sizeof_mpproc_def sizeof_mpioapic_def mp_types) (simp add: demo_tables_def)
  then have t: "table demo_tables (0x80000200 + ucast (conf_length demo_tables 0x80000200)) (0x80000200 + sizeof_mpconf)
      [Processor 7, IoApic 9] 0x80000248"
    by (simp add: l sizeof_mpconf_def)
  have "\<not> 0x80000248 < 0x80000200 + (ucast (conf_length demo_tables 0x80000200) :: u32)" by (simp add: l)
  with mpinit_reads_table [OF demo_config ok t] show ?thesis
    by (auto simp: processors_def ioapics_def NCPU_def)
qed

end
