(* ===== verification/Umalloc.thy ===== *)
theory Umalloc
  imports Xv6_Prelude
begin

section \<open>The user-level allocator (\<^verbatim>\<open>umalloc.c\<close>)\<close>

text \<open>
  A pointer to a \<^verbatim>\<open>Header\<close> is counted in units of \<^verbatim>\<open>sizeof(Header)\<close>, 8 bytes, as its arithmetic is in C;
  the break, which starts at a page boundary and moves by whole units, too. The headers are the two
  fields \<open>h_ptr\<close> and \<open>h_size\<close> of the units. \<open>h_base\<close> is the address of the static \<^verbatim>\<open>base\<close>, below the
  heap. The kernel grants the growth of the process up to \<open>h_lim\<close>. Requests are 32-bit words, so
  the computation of the number of units wraps as in the code. The searches along the circular list
  are partial functions; \<open>None\<close> is a search that never ends.

  The invariant is that the free blocks, in a circular list sorted by address in which no block
  touches the next, and the allocated blocks cover each unit of the heap exactly once. It gives
  that every call returns, that allocated blocks are disjoint, and that no unit is lost.
\<close>

record heap =
  h_ptr :: "nat \<Rightarrow> nat"
  h_size :: "nat \<Rightarrow> nat"
  h_freep :: nat
  h_base :: nat
  h_brk :: nat
  h_lim :: nat

definition set_ptr :: "nat \<Rightarrow> nat \<Rightarrow> heap \<Rightarrow> heap" where
  "set_ptr a x s = s\<lparr>h_ptr := (h_ptr s)(a := x)\<rparr>"

definition set_size :: "nat \<Rightarrow> nat \<Rightarrow> heap \<Rightarrow> heap" where
  "set_size a x s = s\<lparr>h_size := (h_size s)(a := x)\<rparr>"

partial_function (option) free_search :: "heap \<Rightarrow> nat \<Rightarrow> nat \<Rightarrow> nat option" where
  "free_search s bp p =
     (if bp > p \<and> bp < h_ptr s p then Some p
      else if p \<ge> h_ptr s p \<and> (bp > p \<or> bp < h_ptr s p) then Some p
      else free_search s bp (h_ptr s p))"

definition free_at :: "nat \<Rightarrow> nat \<Rightarrow> heap \<Rightarrow> heap" where
  "free_at bp p s =
     (let q = h_ptr s p;
          s = (if bp + h_size s bp = q then set_ptr bp (h_ptr s q) (set_size bp (h_size s bp + h_size s q) s)
               else set_ptr bp q s);
          s = (if p + h_size s p = bp then set_ptr p (h_ptr s bp) (set_size p (h_size s p + h_size s bp) s)
               else set_ptr p bp s)
      in s\<lparr>h_freep := p\<rparr>)"

definition ufree :: "nat \<Rightarrow> heap \<Rightarrow> heap option" where
  "ufree ap s = (let bp = ap - 1 in Option.bind (free_search s bp (h_freep s)) (\<lambda>p. Some (free_at bp p s)))"

text \<open>\<^verbatim>\<open>sbrk\<close> with a number of bytes that is a multiple of 8: the old break, or \<open>None\<close> for -1. A negative
  argument shrinks the process.\<close>

definition sbrk :: "int \<Rightarrow> heap \<Rightarrow> nat option \<times> heap" where
  "sbrk n s =
     (if 8 * int (h_lim s) < 8 * int (h_brk s) + n then (None, s)
      else (Some (h_brk s), s\<lparr>h_brk := nat ((8 * int (h_brk s) + n) div 8)\<rparr>))"

definition morecore :: "nat \<Rightarrow> heap \<Rightarrow> (nat \<times> heap) option" where
  "morecore nu s =
     (let nu = (if nu < 4096 then 4096 else nu) in
      case sbrk (sint (of_nat (nu * 8) :: u32)) s of
        (None, s) \<Rightarrow> Some (0, s)
      | (Some hp, s) \<Rightarrow>
          Option.bind (ufree (hp + 1) (set_size hp nu s)) (\<lambda>s. Some (h_freep s, s)))"

definition take_block :: "nat \<Rightarrow> nat \<Rightarrow> nat \<Rightarrow> heap \<Rightarrow> nat \<times> heap" where
  "take_block nunits prevp p s =
     (if h_size s p = nunits then (p + 1, (set_ptr prevp (h_ptr s p) s)\<lparr>h_freep := prevp\<rparr>)
      else
        let s = set_size p (h_size s p - nunits) s; p = p + h_size s p; s = set_size p nunits s
        in (p + 1, s\<lparr>h_freep := prevp\<rparr>))"

partial_function (option) malloc_loop :: "nat \<Rightarrow> nat \<Rightarrow> nat \<Rightarrow> heap \<Rightarrow> (nat \<times> heap) option" where
  "malloc_loop nunits prevp p s =
     (if h_size s p \<ge> nunits then Some (take_block nunits prevp p s)
      else if p = h_freep s then
        Option.bind (morecore nunits s) (\<lambda>(p, s). if p = 0 then Some (0, s) else malloc_loop nunits p (h_ptr s p) s)
      else malloc_loop nunits p (h_ptr s p) s)"

definition units_for :: "u32 \<Rightarrow> nat" where
  "units_for nbytes = unat ((nbytes + 8 - 1) div 8 + 1)"

definition malloc :: "u32 \<Rightarrow> heap \<Rightarrow> (nat \<times> heap) option" where
  "malloc nbytes s =
     (let s = (if h_freep s = 0
               then set_size (h_base s) 0 ((set_ptr (h_base s) (h_base s) s)\<lparr>h_freep := h_base s\<rparr>) else s)
      in malloc_loop (units_for nbytes) (h_freep s) (h_ptr s (h_freep s)) s)"

lemmas set_defs = set_ptr_def set_size_def

subsection \<open>The free list\<close>

type_synonym block = "nat \<times> nat"

fun links :: "(nat \<Rightarrow> nat) \<Rightarrow> nat list \<Rightarrow> nat \<Rightarrow> bool" where
  "links ptr [] z \<longleftrightarrow> True"
| "links ptr (a # as) z \<longleftrightarrow> ptr a = hd (as @ [z]) \<and> links ptr as z"

fun spaced :: "block list \<Rightarrow> bool" where
  "spaced [] \<longleftrightarrow> True"
| "spaced [x] \<longleftrightarrow> True"
| "spaced ((a, n) # (b, m) # fs) \<longleftrightarrow> a + n < b \<and> spaced ((b, m) # fs)"

lemma links_append: "links ptr (xs @ ys) z \<longleftrightarrow> links ptr xs (hd (ys @ [z])) \<and> links ptr ys z"
  by (induction xs) (auto simp: hd_append)

lemma links_cong: "\<forall>a \<in> set as. ptr a = ptr' a \<Longrightarrow> links ptr as z = links ptr' as z"
  by (induction as) auto

lemma links_next: "links ptr as z \<Longrightarrow> i < length as \<Longrightarrow> ptr (as ! i) = (as @ [z]) ! Suc i"
proof (induction as arbitrary: i)
  case (Cons a as)
  then show ?case by (cases i) (auto simp: hd_conv_nth nth_append)
qed simp

lemma ring_next:
  assumes "links ptr as (as ! 0)" "i < length as"
  shows "ptr (as ! i) = as ! (Suc i mod length as)"
  using links_next [OF assms] assms(2) by (cases "Suc i = length as") (auto simp: nth_append)

lemma spaced_append: "spaced (xs @ ys) \<longleftrightarrow> spaced xs \<and> spaced ys \<and> (xs \<noteq> [] \<and> ys \<noteq> [] \<longrightarrow> fst (last xs) + snd (last xs) < fst (hd ys))"
proof (induction xs rule: spaced.induct)
  case (2 x)
  then show ?case by (cases ys; cases x) auto
next
  case (3 a n b m fs)
  then show ?case by auto
qed simp

lemma spaced_sorted: "spaced fs \<Longrightarrow> i < j \<Longrightarrow> j < length fs \<Longrightarrow> fst (fs ! i) + snd (fs ! i) < fst (fs ! j)"
proof (induction fs arbitrary: i j rule: spaced.induct)
  case (3 a n b m fs)
  show ?case
  proof (cases i)
    case 0
    show ?thesis
    proof (cases "j = 1")
      case False
      then have "b + m < fst (((b, m) # fs) ! (j - 1))" using 3(1) [of 0 "j - 1"] 3(2-4) 0 by simp
      then show ?thesis using 3(2,3) 0 by (simp add: nth_Cons')
    qed (use 0 3(2) in simp)
  next
    case (Suc i')
    then show ?thesis using 3(1) [of i' "j - 1"] 3(2-4) by (cases j) auto
  qed
qed auto

subsection \<open>Searching the list\<close>

lemma cycle_steps:
  fixes k :: nat
  assumes "i < k" "j < k"
  obtains e where "(i + e) mod k = j" "e < k" "\<forall>e' < e. (i + e') mod k \<noteq> j"
proof -
  let ?R = "\<lambda>e. (i + e) mod k = j"
  have "?R (if i \<le> j then j - i else j + k - i)" using assms by auto
  then obtain e where e: "?R e" "\<forall>e' < e. \<not> ?R e'" using exists_least_iff [of ?R] by blast
  moreover have "e < k"
  proof (rule ccontr)
    assume "\<not> e < k"
    then have "(i + (e - k)) mod k = j" "e - k < e" using e(1) assms by (auto simp: le_mod_geq)
    then show False using e(2) by blast
  qed
  ultimately show ?thesis using that by blast
qed

lemma free_search_ring:
  assumes r: "links (h_ptr s) (map fst fs) (fst (fs ! 0))" and sp: "spaced fs" and j: "j < length fs" and i: "i < length fs"
    and lo: "fst (fs ! j) < bp" and hi: "Suc j < length fs \<Longrightarrow> bp < fst (fs ! Suc j)"
  shows "free_search s bp (fst (fs ! i)) = Some (fst (fs ! j))"
proof -
  let ?k = "length fs"
  have nx: "h_ptr s (fst (fs ! i)) = fst (fs ! (Suc i mod ?k))" if "i < ?k" for i
  proof -
    have "0 < ?k" using that by linarith
    moreover from this have "Suc i mod ?k < ?k" by (rule mod_less_divisor)
    ultimately show ?thesis using ring_next [of "h_ptr s" "map fst fs" i] r that by simp
  qed
  have lt: "fst (fs ! i) < fst (fs ! l)" if "i < l" "l < ?k" for i l using spaced_sorted [OF sp that] by simp
  have step: "free_search s bp (fst (fs ! i)) = free_search s bp (fst (fs ! (Suc i mod ?k)))" if "i < ?k" "i \<noteq> j" for i
  proof -
    have "\<not> (bp > fst (fs ! i) \<and> bp < fst (fs ! (Suc i mod ?k)))
      \<and> \<not> (fst (fs ! i) \<ge> fst (fs ! (Suc i mod ?k)) \<and> (bp > fst (fs ! i) \<or> bp < fst (fs ! (Suc i mod ?k))))"
    proof (cases "i < j")
      case True
      then have "Suc i mod ?k = Suc i" "fst (fs ! i) < fst (fs ! Suc i)" "fst (fs ! Suc i) \<le> fst (fs ! j)"
        using j lt [of i "Suc i"] lt [of "Suc i" j] by (cases "Suc i = j"; simp)+
      then show ?thesis using lo by simp
    next
      case False
      then have b: "bp < fst (fs ! i)" using that hi lt [of "Suc j" i] by (cases "Suc j = i") auto
      show ?thesis
      proof (cases "Suc i < ?k")
        case True
        then show ?thesis using b lt [of i "Suc i"] by simp
      next
        case False
        then have "Suc i = ?k" using that by linarith
        then have z: "Suc i mod ?k = 0" by simp
        have "fst (fs ! 0) \<le> fst (fs ! j)" using lt [of 0 j] j by (cases j) auto
        then show ?thesis unfolding z using b lo by simp
      qed
    qed
    then show ?thesis by (subst free_search.simps) (auto simp: nx [OF that(1)])
  qed
  obtain e where e: "(i + e) mod ?k = j" "e < ?k" "\<forall>e' < e. (i + e') mod ?k \<noteq> j" using cycle_steps [OF i j] .
  have "free_search s bp (fst (fs ! i)) = free_search s bp (fst (fs ! ((i + d) mod ?k)))" if "d \<le> e" for d
    using that
  proof (induction d)
    case (Suc d)
    moreover have "(i + d) mod ?k < ?k" using i by (intro mod_less_divisor) linarith
    ultimately show ?case using step [of "(i + d) mod ?k"] e(3) by (simp add: mod_Suc_eq)
  qed (use i in simp)
  from this [of e] have "free_search s bp (fst (fs ! i)) = free_search s bp (fst (fs ! j))" using e(1) by simp
  also have "\<dots> = Some (fst (fs ! j))"
  proof (cases "Suc j < ?k")
    case True
    then show ?thesis using lo hi nx [OF j] by (subst free_search.simps) simp
  next
    case False
    then have "Suc j = ?k" using j by linarith
    then have "Suc j mod ?k = 0" by simp
    moreover have "fst (fs ! 0) \<le> fst (fs ! j)" using lt [of 0 j] j by (cases j) auto
    ultimately show ?thesis using lo nx [OF j] by (subst free_search.simps) simp
  qed
  finally show ?thesis .
qed

subsection \<open>The invariant\<close>

definition covers :: "block list \<Rightarrow> nat \<Rightarrow> nat" where
  "covers bs x = length (filter (\<lambda>(a, n). a \<le> x \<and> x < a + n) bs)"

definition heap_ok :: "nat \<Rightarrow> heap \<Rightarrow> block list \<Rightarrow> block list \<Rightarrow> bool" where
  "heap_ok st s fs us \<longleftrightarrow>
     fs \<noteq> [] \<and> hd fs = (h_base s, 0) \<and> 0 < h_base s \<and> h_base s < st \<and> st \<le> h_brk s
     \<and> links (h_ptr s) (map fst fs) (h_base s) \<and> spaced fs \<and> h_freep s \<in> fst ` set fs
     \<and> (\<forall>a n. (a, n) \<in> set fs \<union> set us \<longrightarrow> h_size s a = n) \<and> (\<forall>a n. (a, n) \<in> set (tl fs) \<union> set us \<longrightarrow> 0 < n)
     \<and> (\<forall>x. covers (fs @ us) x = (if st \<le> x \<and> x < h_brk s then 1 else 0))"

definition keeps :: "block list \<Rightarrow> heap \<Rightarrow> heap \<Rightarrow> bool" where
  "keeps us s t \<longleftrightarrow> (\<forall>(a, n) \<in> set us. \<forall>x. a \<le> x \<and> x < a + n \<longrightarrow> h_ptr t x = h_ptr s x \<and> h_size t x = h_size s x)"

lemma covers_simps [simp]:
  "covers [] x = 0" "covers ((a, n) # bs) x = (if a \<le> x \<and> x < a + n then 1 else 0) + covers bs x"
  "covers (bs @ cs) x = covers bs x + covers cs x"
  by (simp_all add: covers_def)

lemma covers_pos: "(a, n) \<in> set bs \<Longrightarrow> a \<le> x \<Longrightarrow> x < a + n \<Longrightarrow> 1 \<le> covers bs x"
  by (induction bs) auto

fun join :: "block \<Rightarrow> block list \<Rightarrow> block list" where
  "join x [] = [x]"
| "join (a, n) ((b, m) # bs) = (if a + n = b then (a, n + m) # bs else (a, n) # (b, m) # bs)"

lemma covers_join [simp]: "covers (join (a, n) bs) x = covers ((a, n) # bs) x"
  by (cases bs) auto

lemma hd_join: "\<exists>k bs'. join (a, n) bs = (a, k) # bs' \<and> n \<le> k"
  by (cases bs) auto

lemma spaced_join: "spaced bs \<Longrightarrow> (bs \<noteq> [] \<Longrightarrow> a + n \<le> fst (hd bs)) \<Longrightarrow> spaced (join (a, n) bs)"
proof (cases bs)
  case (Cons x xs)
  obtain b m where x: "x = (b, m)" by fastforce
  assume "spaced bs" "bs \<noteq> [] \<Longrightarrow> a + n \<le> fst (hd bs)"
  then show ?thesis unfolding Cons x by (cases xs) auto
qed simp

lemma join_links:
  assumes l: "links (h_ptr s) (map fst bs) z" and sz: "\<forall>(b, k) \<in> set bs. h_size s b = k" "h_size s a = n"
    and a: "a \<notin> fst ` set bs" "bs = [] \<Longrightarrow> a + n \<noteq> z" and q: "q = hd (map fst bs @ [z])"
  defines "t \<equiv> (if a + n = q then set_ptr a (h_ptr s q) (set_size a (n + h_size s q) s) else set_ptr a q s)"
  shows "links (h_ptr t) (map fst (join (a, n) bs)) z" "\<forall>(b, k) \<in> set (join (a, n) bs). h_size t b = k"
proof -
  have same: "links ((h_ptr s)(a := y)) (map fst cs) z = links (h_ptr s) (map fst cs) z" if "set cs \<subseteq> set bs" for cs y
    using a that by (intro links_cong) auto
  show "links (h_ptr t) (map fst (join (a, n) bs)) z"
    using l q a same [of bs] same [of "tl bs"] by (cases bs) (auto simp: t_def set_defs)
  have k: "h_size t b = k" if "(b, k) \<in> set bs" for b k
  proof -
    have "b \<noteq> a" using a(1) that by force
    then show ?thesis using sz(1) that by (auto simp: t_def set_defs)
  qed
  have "h_size t a = (if a + n = q then n + h_size s q else n)" using sz(2) by (simp add: t_def set_defs)
  then show "\<forall>(b, k) \<in> set (join (a, n) bs). h_size t b = k"
    using k sz(1) q a(2) by (cases bs) (auto split: if_splits)
qed

lemma split_at:
  "fs \<noteq> [] \<Longrightarrow> fst (hd fs) < (b :: nat) \<Longrightarrow> b \<notin> fst ` set fs \<Longrightarrow>
    \<exists>l p n r. fs = l @ (p, n) # r \<and> p < b \<and> (r \<noteq> [] \<longrightarrow> b < fst (hd r))"
proof (induction fs)
  case (Cons x fs)
  show ?case
  proof (cases "fs = [] \<or> b < fst (hd fs)")
    case True
    then show ?thesis using Cons.prems by (intro exI [of _ "[]"] exI [of _ "fst x"] exI [of _ "snd x"] exI [of _ fs]) auto
  next
    case False
    then have "b \<noteq> fst (hd fs)" using Cons.prems(3) by (cases fs) auto
    then have "fst (hd fs) < b" using False by auto
    then obtain l p n r where "fs = l @ (p, n) # r \<and> p < b \<and> (r \<noteq> [] \<longrightarrow> b < fst (hd r))"
      using Cons.IH Cons.prems False by auto
    then show ?thesis by (intro exI [of _ "x # l"]) auto
  qed
qed simp

lemma heap_okD:
  assumes "heap_ok st s fs us"
  shows "fs \<noteq> []" "hd fs = (h_base s, 0)" "0 < h_base s" "h_base s < st" "links (h_ptr s) (map fst fs) (h_base s)"
    "spaced fs" "h_freep s \<in> fst ` set fs" "\<And>a n. (a, n) \<in> set fs \<union> set us \<Longrightarrow> h_size s a = n"
    "\<And>a n. (a, n) \<in> set (tl fs) \<union> set us \<Longrightarrow> 0 < n"
    "\<And>x. covers fs x + covers us x = (if st \<le> x \<and> x < h_brk s then 1 else 0)" "st \<le> h_brk s"
  using assms by (simp_all add: heap_ok_def del: Un_iff)

lemma heap_okI:
  assumes "fs \<noteq> []" "hd fs = (h_base s, 0)" "0 < h_base s" "h_base s < st" "links (h_ptr s) (map fst fs) (h_base s)"
    "spaced fs" "h_freep s \<in> fst ` set fs" "\<And>a n. (a, n) \<in> set fs \<union> set us \<Longrightarrow> h_size s a = n"
    "\<And>a n. (a, n) \<in> set (tl fs) \<union> set us \<Longrightarrow> 0 < n"
    "\<And>x. covers fs x + covers us x = (if st \<le> x \<and> x < h_brk s then 1 else 0)" "st \<le> h_brk s"
  shows "heap_ok st s fs us"
  using assms by (simp add: heap_ok_def del: Un_iff)

text \<open>An allocated block holds no header of the list and no unit of another block.\<close>

lemma used_apart:
  assumes h: "heap_ok st s fs us" and b: "(b, m) \<in> set us" "b \<le> x" "x < b + m"
  shows "x \<notin> fst ` set fs" "covers fs x = 0" "covers us x = 1" "st \<le> x" "x < h_brk s"
proof -
  note d = heap_okD [OF h]
  show c: "covers fs x = 0" "covers us x = 1" "st \<le> x" "x < h_brk s"
    using covers_pos [OF b] d(10) [of x] by (auto split: if_splits)
  show "x \<notin> fst ` set fs"
  proof
    assume "x \<in> fst ` set fs"
    then obtain n where f: "(x, n) \<in> set fs" by auto
    have "x \<noteq> h_base s" using c(3) d(4) by simp
    then have "(x, n) \<in> set (tl fs)" using f d(1,2) by (cases fs) auto
    then have "1 \<le> covers fs x" using d(9) [of x n] covers_pos [OF f, of x] by simp
    then show False using c(1) by simp
  qed
qed

lemma used_place:
  assumes h: "heap_ok st s fs us" and b: "(b, m) \<in> set us"
  obtains l p n r where "fs = l @ (p, n) # r" "p + n \<le> b" "p < b" "r \<noteq> [] \<longrightarrow> b + m \<le> fst (hd r)"
    "p + n = b \<longrightarrow> l \<noteq> []"
proof -
  note d = heap_okD [OF h]
  have m: "0 < m" using d(9) b by blast
  note a = used_apart [OF h b]
  have nb: "b \<notin> fst ` set fs" "st \<le> b" "covers fs b = 0" using a [of b] m by auto
  obtain l p n r where f: "fs = l @ (p, n) # r" "p < b" "r \<noteq> [] \<longrightarrow> b < fst (hd r)"
    using split_at [OF d(1) _ nb(1)] d(2,4) nb(2) by auto
  have "p + n \<le> b" using covers_pos [of p n fs b] nb(3) f(1,2) by (cases "b < p + n") auto
  moreover have "b + m \<le> fst (hd r)" if "r \<noteq> []"
  proof (rule ccontr)
    assume "\<not> b + m \<le> fst (hd r)"
    then have "fst (hd r) \<notin> fst ` set fs" using a(1) [of "fst (hd r)"] f(3) that by simp
    then show False using f(1) that by simp
  qed
  moreover have "l \<noteq> []" if "p + n = b" using that f(1) d(2,4) nb(2) by (cases l) auto
  ultimately show ?thesis using that f by blast
qed

lemma set_join: "fst ` set (join (a, n) bs) \<subseteq> insert a (fst ` set bs)"
  by (cases bs) (auto split: if_splits)

lemma join_pos: "0 < n \<Longrightarrow> \<forall>x \<in> set bs. 0 < snd x \<Longrightarrow> \<forall>x \<in> set (join (a, n) bs). 0 < snd x"
  by (cases bs) (auto split: if_splits)

lemma spaced_distinct: "spaced fs \<Longrightarrow> distinct (map fst fs)"
  unfolding distinct_conv_nth using spaced_sorted [of fs] by (metis length_map nth_map linorder_neqE_nat add_lessD1 less_irrefl)

lemma free_at_links:
  assumes h: "heap_ok st s fs ((b, m) # us)" and f: "fs = l @ (p, n) # r" and pl: "p + n \<le> b" "p < b"
    "r \<noteq> [] \<longrightarrow> b + m \<le> fst (hd r)"
  defines "t \<equiv> free_at b p s" and "gs \<equiv> join (p, n) (join (b, m) r)"
  shows "links (h_ptr t) (map fst (l @ gs)) (h_base s)" "\<forall>(a, k) \<in> set gs. h_size t a = k"
    "\<And>x. x \<noteq> b \<Longrightarrow> x \<noteq> p \<Longrightarrow> h_ptr t x = h_ptr s x \<and> h_size t x = h_size s x"
proof -
  note d = heap_okD [OF h]
  let ?q = "h_ptr s p"
  define s1 where "s1 = (if b + m = ?q then set_ptr b (h_ptr s ?q) (set_size b (m + h_size s ?q) s) else set_ptr b ?q s)"
  define s2 where "s2 = (if p + n = b then set_ptr p (h_ptr s1 b) (set_size p (n + h_size s1 b) s1) else set_ptr p b s1)"
  have sz: "h_size s b = m" "h_size s p = n" using d(8) [of b m] d(8) [of p n] f by auto
  have m: "0 < m" using d(9) [of b m] by simp
  note a = used_apart [OF h, of b m b]
  have nb: "b \<notin> fst ` set fs" "st \<le> b" using a m by auto
  have l: "links (h_ptr s) (map fst l) p" "?q = hd (map fst r @ [h_base s])" "links (h_ptr s) (map fst r) (h_base s)"
    using d(5) unfolding f by (simp_all add: links_append)
  have dist: "p \<notin> fst ` set l" "p \<notin> fst ` set r" using spaced_distinct [OF d(6)] unfolding f by auto
  have j1: "links (h_ptr s1) (map fst (join (b, m) r)) (h_base s)" "\<forall>(a, k) \<in> set (join (b, m) r). h_size s1 a = k"
    unfolding s1_def using d(4) nb
    by (intro join_links [OF l(3) _ sz(1) _ _ l(2)]; use d(8) f in auto)+
  have sz1: "h_size s1 p = n" using sz(2) pl(2) by (simp add: s1_def set_defs)
  obtain k bs where jb: "join (b, m) r = (b, k) # bs" using hd_join [of b m r] by blast
  have j2: "links (h_ptr s2) (map fst gs) (h_base s)" "\<forall>(a, k) \<in> set gs. h_size s2 a = k"
    unfolding s2_def gs_def using dist(2) pl(2) set_join [of b m r]
    by (intro join_links [OF j1 sz1]; use jb in auto)+
  have t: "t = s2\<lparr>h_freep := p\<rparr>"
    unfolding t_def free_at_def Let_def sz s1_def [symmetric] sz1 s2_def [symmetric] ..
  show o: "h_ptr t x = h_ptr s x \<and> h_size t x = h_size s x" if "x \<noteq> b" "x \<noteq> p" for x
    using that by (simp add: t s2_def s1_def set_defs)
  have "fst (hd gs) = p" "gs \<noteq> []" using hd_join [of p n "join (b, m) r"] by (auto simp: gs_def)
  then have hd: "hd (map fst gs @ [h_base s]) = p" by (simp add: hd_map)
  have "links (h_ptr t) (map fst l) p = links (h_ptr s) (map fst l) p"
  proof (intro links_cong ballI)
    fix x
    assume "x \<in> set (map fst l)"
    then have "x \<noteq> b" "x \<noteq> p" using nb(1) dist(1) f by auto
    then show "h_ptr t x = h_ptr s x" using o by simp
  qed
  then show "links (h_ptr t) (map fst (l @ gs)) (h_base s)" using l(1) j2(1) hd by (simp add: links_append t)
  show "\<forall>(a, k) \<in> set gs. h_size t a = k" using j2(2) by (simp add: t)
qed

lemma free_at_ok:
  assumes h: "heap_ok st s fs ((b, m) # us)" and f: "fs = l @ (p, n) # r" and pl: "p + n \<le> b" "p < b"
    "r \<noteq> [] \<longrightarrow> b + m \<le> fst (hd r)" "p + n = b \<longrightarrow> l \<noteq> []"
  shows "heap_ok st (free_at b p s) (l @ join (p, n) (join (b, m) r)) us \<and> keeps us s (free_at b p s)"
proof -
  note d = heap_okD [OF h]
  note fl = free_at_links [OF h f pl(1-3)]
  define t where "t = free_at b p s"
  define gs where "gs = join (p, n) (join (b, m) r)"
  note fl = fl [folded t_def gs_def]
  have same: "h_base t = h_base s" "h_brk t = h_brk s" "h_freep t = p"
    by (simp_all add: t_def free_at_def Let_def set_defs)
  have m: "0 < m" using d(9) [of b m] by simp
  have nb: "b \<notin> fst ` set fs" using used_apart(1) [OF h, of b m b] m by simp
  have apart: "x \<noteq> b \<and> x \<noteq> p" if "(a, k) \<in> set us" "a \<le> x" "x < a + k" for a k x
  proof -
    have "covers ((b, m) # us) x = 1" "x \<notin> fst ` set fs" using used_apart [OF h, of a k x] that by auto
    moreover have "1 \<le> covers us x" using that by (rule covers_pos)
    ultimately show ?thesis using f m by (auto split: if_splits)
  qed
  have keep: "keeps us s t" unfolding keeps_def using apart fl(3) by fast
  obtain k bs where jb: "join (b, m) r = (b, k) # bs" using hd_join [of b m r] by blast
  obtain k' bs' where jp: "gs = (p, k') # bs'" using hd_join [of p n "join (b, m) r"] unfolding gs_def by blast
  have hd: "hd (l @ gs) = (h_base s, 0)"
  proof (cases l)
    case Nil
    then show ?thesis using pl(4) d(2) f by (auto simp: gs_def jb)
  next
    case (Cons x xs)
    then show ?thesis using d(2) f by simp
  qed
  have pos: "\<forall>x \<in> set (join (b, m) r). 0 < snd x"
    by (rule join_pos) (use m d(9) f in \<open>cases l; auto\<close>)+
  have pos2: "0 < k" if "(a, k) \<in> set (tl (l @ gs))" for a k
  proof (cases l)
    case Nil
    then have "gs = (p, n) # join (b, m) r" using pl(4) by (auto simp: gs_def jb)
    then show ?thesis using that pos Nil by auto
  next
    case (Cons x xs)
    have "\<forall>x \<in> set gs. 0 < snd x" unfolding gs_def by (rule join_pos) (use d(9) [of p n] f Cons pos in auto)
    then show ?thesis using that d(9) [of a k] f Cons by auto
  qed
  have pos3: "0 < k" if "(a, k) \<in> set (tl (l @ gs)) \<union> set us" for a k using that pos2 d(9) [of a k] by auto
  have sp: "spaced (l @ gs)"
  proof -
    have s0: "spaced l" "spaced r" "l \<noteq> [] \<Longrightarrow> fst (last l) + snd (last l) < p"
      using d(6) unfolding f spaced_append by (auto simp: spaced_append [of "[_]", simplified])
    then have "spaced (join (b, m) r)" using pl(3) by (auto intro: spaced_join)
    then have "spaced gs" unfolding gs_def by (rule spaced_join) (use pl(1) jb in auto)
    then show ?thesis using s0 jp by (simp add: spaced_append)
  qed
  have sz: "h_size t a = k" if "(a, k) \<in> set (l @ gs) \<union> set us" for a k
  proof (cases "(a, k) \<in> set gs")
    case False
    have "a \<noteq> b \<and> a \<noteq> p \<and> h_size s a = k"
    proof (cases "(a, k) \<in> set us")
      case True
      then show ?thesis using apart [of a k a] d(8,9) by auto
    next
      case us: False
      then have l: "(a, k) \<in> set l" using that False by auto
      then have "a \<noteq> p" using spaced_distinct [OF d(6)] f by force
      moreover have "a \<noteq> b" using nb f l by force
      ultimately show ?thesis using d(8) [of a k] f l by simp
    qed
    then show ?thesis using fl(3) by simp
  qed (use fl(2) in auto)
  have "covers (l @ gs) x + covers us x = (if st \<le> x \<and> x < h_brk s then 1 else 0)" for x
    using d(10) [of x] by (simp add: f gs_def)
  then have "heap_ok st t (l @ gs) us"
    by (intro heap_okI) (use hd d(3,4,11) fl(1) sp sz pos3 jp in \<open>auto simp: same simp del: covers_simps\<close>)
  then show ?thesis using keep by (simp add: t_def gs_def)
qed

lemma ufree_ok:
  assumes h: "heap_ok st s fs ((b, m) # us)"
  shows "\<exists>fs' s'. ufree (b + 1) s = Some s' \<and> heap_ok st s' fs' us \<and> keeps us s s'
    \<and> h_brk s' = h_brk s \<and> h_lim s' = h_lim s \<and> h_base s' = h_base s \<and> (\<exists>x \<in> set fs'. m \<le> snd x)"
proof -
  note d = heap_okD [OF h]
  obtain l p n r where f: "fs = l @ (p, n) # r" "p + n \<le> b" "p < b" "r \<noteq> [] \<longrightarrow> b + m \<le> fst (hd r)" "p + n = b \<longrightarrow> l \<noteq> []"
    by (rule used_place [OF h list.set_intros(1)])
  have m: "0 < m" using d(9) [of b m] by simp
  obtain i where i: "i < length fs" "h_freep s = fst (fs ! i)" using d(7) by (auto simp: in_set_conv_nth)
  have z: "links (h_ptr s) (map fst fs) (fst (fs ! 0))" using d(1,2,5) by (simp add: hd_conv_nth)
  have "free_search s b (h_freep s) = Some (fst (fs ! length l))" unfolding i(2)
    by (rule free_search_ring [OF z d(6) _ i(1)]) (use f m in \<open>auto simp: nth_append hd_conv_nth\<close>)
  then have "ufree (b + 1) s = Some (free_at b p s)" by (simp add: ufree_def f(1) nth_append)
  moreover have "heap_ok st (free_at b p s) (l @ join (p, n) (join (b, m) r)) us \<and> keeps us s (free_at b p s)"
    by (rule free_at_ok [OF h f])
  moreover have "\<exists>x \<in> set (l @ join (p, n) (join (b, m) r)). m \<le> snd x"
  proof -
    obtain k bs where jb: "join (b, m) r = (b, k) # bs" "m \<le> k" using hd_join [of b m r] by blast
    then show ?thesis by (cases "p + n = b") auto
  qed
  moreover have "h_brk (free_at b p s) = h_brk s" "h_lim (free_at b p s) = h_lim s" "h_base (free_at b p s) = h_base s"
    by (simp_all add: free_at_def Let_def set_defs)
  ultimately show ?thesis by blast
qed

lemma free_addr:
  assumes h: "heap_ok st s fs us" and x: "a \<in> fst ` set fs"
  shows "0 < a" "a < h_brk s"
proof -
  note d = heap_okD [OF h]
  obtain n where n: "(a, n) \<in> set fs" using x by auto
  obtain g where g: "fs = (h_base s, 0) # g" using d(1,2) by (cases fs) auto
  show "a < h_brk s"
  proof (cases "a = h_base s")
    case False
    then have "(a, n) \<in> set (tl fs)" using n g by auto
    then have "1 \<le> covers fs a" using d(9) [of a n] covers_pos [OF n, of a] by simp
    then show ?thesis using d(10) [of a] by (auto split: if_splits)
  qed (use d(4,11) in simp)
  show "0 < a"
  proof (cases "a = h_base s")
    case False
    then have "(a, n) \<in> set (tl fs)" using n g by auto
    then have "1 \<le> covers fs a" using d(9) [of a n] covers_pos [OF n, of a] by simp
    then show ?thesis using d(10) [of a] d(4) by (auto split: if_splits)
  qed (use d(3) in simp)
qed

lemma used_addr: "heap_ok st s fs us \<Longrightarrow> (a, n) \<in> set us \<Longrightarrow> a + n \<le> h_brk s"
  using used_apart(5) [of st s fs us a n "a + n - 1"] heap_okD(9) [of st s fs us a n] by (cases n) auto

lemma grown_ok:
  assumes h: "heap_ok st s fs us" and n: "0 < n"
  defines "t \<equiv> set_size (h_brk s) n (s\<lparr>h_brk := h_brk s + n\<rparr>)"
  shows "heap_ok st t fs ((h_brk s, n) # us)" "keeps us s t"
proof -
  note d = heap_okD [OF h]
  have o: "h_size t a = h_size s a" "h_ptr t = h_ptr s" if "a \<noteq> h_brk s" for a using that by (simp_all add: t_def set_defs)
  have fa: "a < h_brk s" if "(a, k) \<in> set fs" for a k using free_addr(2) [OF h, of a] that by force
  have ua: "x < h_brk s" if "(a, k) \<in> set us" "x < a + k" for a k x using used_addr [OF h that(1)] that(2) by simp
  have sz: "h_size t a = k" if "(a, k) \<in> set fs \<union> set ((h_brk s, n) # us)" for a k
  proof (cases "(a, k) \<in> set fs \<union> set us")
    case True
    then have "a < h_brk s" using fa ua [of a k a] d(9) [of a k] by auto
    then show ?thesis using o d(8) [OF True] by simp
  qed (use that in \<open>auto simp: t_def set_defs\<close>)
  have "covers fs x + covers ((h_brk s, n) # us) x = (if st \<le> x \<and> x < h_brk s + n then 1 else 0)" for x
    using d(10) [of x] d(11) by (auto split: if_splits)
  moreover have "h_base t = h_base s" "h_freep t = h_freep s" "h_brk t = h_brk s + n" "h_ptr t = h_ptr s"
    by (simp_all add: t_def set_defs)
  ultimately show "heap_ok st t fs ((h_brk s, n) # us)"
    by (intro heap_okI) (use d(1-7,9,11) sz n in \<open>auto simp del: covers_simps\<close>)
  show "keeps us s t" unfolding keeps_def using o ua by (fastforce simp: t_def set_defs)
qed

lemma keeps_trans: "keeps us s t \<Longrightarrow> keeps us t u \<Longrightarrow> keeps us s u"
  unfolding keeps_def by fastforce

lemma keeps_tl: "keeps (x # us) s t \<Longrightarrow> keeps us s t"
  by (simp add: keeps_def)

lemma morecore_ok:
  assumes h: "heap_ok st s fs us" and n: "8 * n < 2 ^ 31"
  defines "nu \<equiv> max n 4096"
  shows "h_lim s < h_brk s + nu \<Longrightarrow> morecore n s = Some (0, s)"
    and "h_brk s + nu \<le> h_lim s \<Longrightarrow> \<exists>fs' s'. morecore n s = Some (h_freep s', s') \<and> h_freep s' \<noteq> 0 \<and> heap_ok st s' fs' us
      \<and> keeps us s s' \<and> (\<exists>x \<in> set fs'. n \<le> snd x)"
proof -
  have nu: "(if n < 4096 then 4096 else n) = nu" "8 * nu < 2 ^ 31" "0 < nu" "n \<le> nu" using n by (auto simp: nu_def)
  have "sint (of_nat (nu * 8) :: u32) = int (8 * nu)"
    using nu(2) by (simp add: signed_of_nat signed_take_bit_int_eq_self mult.commute del: of_nat_mult)
  then have b: "sbrk (sint (of_nat (nu * 8) :: u32)) s = (if h_lim s < h_brk s + nu then (None, s) else (Some (h_brk s), s\<lparr>h_brk := h_brk s + nu\<rparr>))"
    by (auto simp: sbrk_def nat_add_distrib)
  show "morecore n s = Some (0, s)" if "h_lim s < h_brk s + nu"
    using that by (simp add: morecore_def nu(1) b Let_def del: of_nat_mult)
  assume lim: "h_brk s + nu \<le> h_lim s"
  note g = grown_ok [OF h nu(3)]
  obtain fs' s' where f: "ufree (h_brk s + 1) (set_size (h_brk s) nu (s\<lparr>h_brk := h_brk s + nu\<rparr>)) = Some s'"
    "heap_ok st s' fs' us" "keeps us (set_size (h_brk s) nu (s\<lparr>h_brk := h_brk s + nu\<rparr>)) s'" "\<exists>x \<in> set fs'. nu \<le> snd x"
    using ufree_ok [OF g(1)] by blast
  have "h_freep s' \<noteq> 0" using free_addr(1) [OF f(2) heap_okD(7) [OF f(2)]] by simp
  moreover have "morecore n s = Some (h_freep s', s')"
    using lim f(1) by (simp add: morecore_def nu(1) b Let_def del: of_nat_mult)
  moreover have "\<exists>x \<in> set fs'. n \<le> snd x" using f(4) nu(4) by force
  ultimately show "\<exists>fs' s'. morecore n s = Some (h_freep s', s') \<and> h_freep s' \<noteq> 0 \<and> heap_ok st s' fs' us
      \<and> keeps us s s' \<and> (\<exists>x \<in> set fs'. n \<le> snd x)"
    using f(2) keeps_trans [OF g(2) f(3)] by blast
qed

subsection \<open>Allocation\<close>

lemma free_apart:
  assumes h: "heap_ok st s (l @ (p, m) # r) us" and x: "p \<le> x" "x < p + m"
  shows "(a, j) \<in> set l \<union> set r \<union> set us \<Longrightarrow> a \<noteq> x" "covers us x = 0"
proof -
  note d = heap_okD [OF h]
  have c: "covers l x = 0" "covers r x = 0" "covers us x = 0" "st \<le> x" using d(10) [of x] x by (auto split: if_splits)
  show "covers us x = 0" by (rule c(3))
  show "a \<noteq> x" if a: "(a, j) \<in> set l \<union> set r \<union> set us"
  proof
    assume "a = x"
    then have "a \<noteq> h_base s" using c(4) d(4) by simp
    then have "(a, j) \<in> set (tl (l @ (p, m) # r)) \<union> set us" using a d(2) by (cases l) auto
    then have "0 < j" by (rule d(9))
    then show False using a c \<open>a = x\<close> covers_pos [of a j _ x] by fastforce
  qed
qed

lemma used_outside: "keeps us s t" if h: "heap_ok st s fs us"
    and o: "\<And>x. covers us x \<noteq> 0 \<Longrightarrow> x \<notin> fst ` set fs \<Longrightarrow> h_ptr t x = h_ptr s x \<and> h_size t x = h_size s x"
proof -
  have "h_ptr t x = h_ptr s x \<and> h_size t x = h_size s x" if "(a, n) \<in> set us" "a \<le> x" "x < a + n" for a n x
    using o [of x] used_apart(1,3) [OF h that] by simp
  then show ?thesis unfolding keeps_def by blast
qed

lemma take_whole:
  assumes h: "heap_ok st s (l @ (q, k) # (p, n) # r) us" and n: "0 < n"
  defines "t \<equiv> (set_ptr q (h_ptr s p) s)\<lparr>h_freep := q\<rparr>"
  shows "heap_ok st t (l @ (q, k) # r) ((p, n) # us)" "keeps us s t"
proof -
  note d = heap_okD [OF h]
  have same: "h_base t = h_base s" "h_brk t = h_brk s" "h_freep t = q" "h_size t = h_size s" "h_ptr t = (h_ptr s)(q := h_ptr s p)"
    by (simp_all add: t_def set_defs)
  have "distinct (map fst (l @ (q, k) # (p, n) # r))" using d(6) by (rule spaced_distinct)
  then have c: "links ((h_ptr s)(q := y)) (map fst l) z = links (h_ptr s) (map fst l) z"
    "links ((h_ptr s)(q := y)) (map fst r) z = links (h_ptr s) (map fst r) z" for y z
    by (auto intro!: links_cong)
  have "links (h_ptr t) (map fst (l @ (q, k) # r)) (h_base s)"
    using d(5) by (simp add: links_append same c)
  moreover have "spaced (l @ (q, k) # r)"
    using d(6) by (cases r) (auto simp: spaced_append)
  moreover have "hd (l @ (q, k) # r) = (h_base s, 0)" using d(2) by (cases l) auto
  moreover have "0 < j" if "(a, j) \<in> set (tl (l @ (q, k) # r)) \<union> set ((p, n) # us)" for a j
    using that d(9) [of a j] n by (cases l) auto
  moreover have "covers (l @ (q, k) # r) x + covers ((p, n) # us) x = (if st \<le> x \<and> x < h_brk s then 1 else 0)" for x
    using d(10) [of x] by simp
  ultimately show "heap_ok st t (l @ (q, k) # r) ((p, n) # us)"
    by (intro heap_okI) (use d(3,4,8,11) in \<open>auto simp: same simp del: covers_simps\<close>)
  show "keeps us s t" by (rule used_outside [OF h]) (simp add: same)
qed

lemma take_tail:
  assumes h: "heap_ok st s (l @ (p, m) # r) us" and n: "0 < n" "n < m" "l \<noteq> []" "q \<in> fst ` set l"
  defines "t \<equiv> (set_size (p + (m - n)) n (set_size p (m - n) s))\<lparr>h_freep := q\<rparr>"
  shows "heap_ok st t (l @ (p, m - n) # r) ((p + (m - n), n) # us)" "keeps us s t"
proof -
  note d = heap_okD [OF h]
  let ?p = "p + (m - n)"
  have same: "h_base t = h_base s" "h_brk t = h_brk s" "h_freep t = q" "h_ptr t = h_ptr s"
    "h_size t = (h_size s)(p := m - n, ?p := n)"
    by (simp_all add: t_def set_defs)
  have sp: "spaced (l @ (p, m - n) # r)" using d(6) n by (cases r) (auto simp: spaced_append)
  have sz: "h_size t a = j" if a: "(a, j) \<in> set (l @ (p, m - n) # r) \<union> set ((?p, n) # us)" for a j
  proof (cases "(a, j) \<in> set l \<union> set r \<union> set us")
    case True
    then have "a \<noteq> p" "a \<noteq> ?p" using free_apart(1) [OF h _ _ True, of p] free_apart(1) [OF h _ _ True, of ?p] n by auto
    then show ?thesis using True d(8) [of a j] by (auto simp: same)
  qed (use a n in \<open>auto simp: same\<close>)
  have pos: "0 < j" if "(a, j) \<in> set (tl (l @ (p, m - n) # r)) \<union> set ((?p, n) # us)" for a j
    using that d(9) [of a j] n by (cases l) auto
  have cov: "covers (l @ (p, m - n) # r) x + covers ((?p, n) # us) x = (if st \<le> x \<and> x < h_brk s then 1 else 0)" for x
    using d(10) [of x] n by (auto split: if_splits)
  have "hd (l @ (p, m - n) # r) = (h_base s, 0)" "links (h_ptr s) (map fst (l @ (p, m - n) # r)) (h_base s)"
    using d(2,5) n(3) by simp_all
  then show "heap_ok st t (l @ (p, m - n) # r) ((?p, n) # us)"
    by (intro heap_okI) (use d(3,4,11) n(4) sp sz pos cov in \<open>auto simp: same simp del: covers_simps\<close>)
  show "keeps us s t"
    by (rule used_outside [OF h]) (use free_apart(2) [OF h, of ?p] free_apart(2) [OF h, of p] n in \<open>auto simp: same\<close>)
qed

lemma take_block_ok:
  assumes h: "heap_ok st s (l @ (q, k) # (p, m) # r) us" and n: "0 < n" "n \<le> m"
  shows "\<exists>a s' fs'. take_block n q p s = (a + 1, s') \<and> heap_ok st s' fs' ((a, n) # us) \<and> keeps us s s'"
proof -
  have sz: "h_size s p = m" using heap_okD(8) [OF h, of p m] by simp
  show ?thesis
  proof (cases "m = n")
    case True
    have "take_block n q p s = (p + 1, (set_ptr q (h_ptr s p) s)\<lparr>h_freep := q\<rparr>)" using True sz by (simp add: take_block_def)
    then show ?thesis using take_whole [of st s l q k p n r us] h n(1) True by blast
  next
    case False
    have "take_block n q p s = (p + (m - n) + 1, (set_size (p + (m - n)) n (set_size p (m - n) s))\<lparr>h_freep := q\<rparr>)"
      using False sz by (simp add: take_block_def Let_def set_defs)
    moreover have "heap_ok st s ((l @ [(q, k)]) @ (p, m) # r) us" using h by simp
    note take_tail [OF this n(1), of q]
    ultimately show ?thesis using n False by fastforce
  qed
qed

text \<open>The search of \<^verbatim>\<open>malloc\<close> finds a block that is large enough, or has seen every block when it comes to
  \<^verbatim>\<open>morecore\<close>.\<close>

abbreviation more :: "nat \<Rightarrow> heap \<Rightarrow> (nat \<times> heap) option" where
  "more n s \<equiv> Option.bind (morecore n s) (\<lambda>(p, s). if p = 0 then Some (0, s) else malloc_loop n p (h_ptr s p) s)"

lemma malloc_loop_steps:
  "n \<le> h_size s p \<Longrightarrow> malloc_loop n q p s = Some (take_block n q p s)"
  "h_size s p < n \<Longrightarrow> p = h_freep s \<Longrightarrow> malloc_loop n q p s = more n s"
  "h_size s p < n \<Longrightarrow> p \<noteq> h_freep s \<Longrightarrow> malloc_loop n q p s = malloc_loop n p (h_ptr s p) s"
  by (subst malloc_loop.simps, simp)+

lemma malloc_scan:
  assumes h: "heap_ok st s fs us" and f: "f < length fs" "h_freep s = fst (fs ! f)"
    and i: "i < length fs" "j < length fs" "Suc j mod length fs = i"
    and d: "(i + d) mod length fs = f" "\<forall>e < d. (i + e) mod length fs \<noteq> f"
  shows "(\<exists>g < length fs. n \<le> snd (fs ! (Suc g mod length fs))
      \<and> malloc_loop n (fst (fs ! j)) (fst (fs ! i)) s = Some (take_block n (fst (fs ! g)) (fst (fs ! (Suc g mod length fs))) s))
    \<or> (\<forall>e \<le> d. snd (fs ! ((i + e) mod length fs)) < n) \<and> malloc_loop n (fst (fs ! j)) (fst (fs ! i)) s = more n s"
  using i d
proof (induction d arbitrary: i j)
  case 0
  have "h_size s (fst (fs ! i)) = snd (fs ! i)" using heap_okD(8) [OF h, of "fst (fs ! i)" "snd (fs ! i)"] 0(1) by simp
  then show ?case using 0 f malloc_loop_steps(1) [of n s "fst (fs ! i)" "fst (fs ! j)"] malloc_loop_steps(2) [of s "fst (fs ! i)" n "fst (fs ! j)"]
    by (cases "n \<le> snd (fs ! i)") auto
next
  case (Suc d)
  let ?k = "length fs"
  note hd = heap_okD [OF h]
  have sz: "h_size s (fst (fs ! i)) = snd (fs ! i)" using hd(8) [of "fst (fs ! i)" "snd (fs ! i)"] Suc.prems(1) by simp
  have "i \<noteq> f" using Suc.prems(1,5) by auto
  then have nf: "fst (fs ! i) \<noteq> h_freep s" using spaced_distinct [OF hd(6)] f Suc.prems(1) by (simp add: distinct_conv_nth)
  have k: "0 < ?k" "Suc i mod ?k < ?k" using Suc.prems(1) by (linarith, intro mod_less_divisor) linarith
  have nx: "h_ptr s (fst (fs ! i)) = fst (fs ! (Suc i mod ?k))"
    using ring_next [of "h_ptr s" "map fst fs" i] hd(1,2,5) Suc.prems(1) k by (simp add: hd_conv_nth)
  show ?case
  proof (cases "n \<le> snd (fs ! i)")
    case True
    then show ?thesis using Suc.prems sz malloc_loop_steps(1) [of n s "fst (fs ! i)" "fst (fs ! j)"] by auto
  next
    case False
    then have l: "malloc_loop n (fst (fs ! j)) (fst (fs ! i)) s = malloc_loop n (fst (fs ! i)) (fst (fs ! (Suc i mod ?k))) s"
      using sz nf nx malloc_loop_steps(3) [of s "fst (fs ! i)" n "fst (fs ! j)"] by simp
    have m: "(Suc i mod ?k + e) mod ?k = (i + Suc e) mod ?k" for e by (simp add: mod_add_left_eq)
    have "\<forall>e < d. (Suc i mod ?k + e) mod ?k \<noteq> f" "(Suc i mod ?k + d) mod ?k = f"
      unfolding m using Suc.prems(4,5) by auto
    note ih = Suc.IH [OF k(2) Suc.prems(1) refl this(2,1)]
    have "\<forall>e \<le> Suc d. snd (fs ! ((i + e) mod ?k)) < n" if "\<forall>e \<le> d. snd (fs ! ((Suc i mod ?k + e) mod ?k)) < n"
    proof (intro allI impI)
      fix e
      assume "e \<le> Suc d"
      then show "snd (fs ! ((i + e) mod ?k)) < n" using that False Suc.prems(1) unfolding m by (cases e) auto
    qed
    then show ?thesis using ih unfolding l by blast
  qed
qed

lemma ring_last:
  assumes "f < (k :: nat)"
  shows "(Suc f mod k + (k - 1)) mod k = f" "\<forall>e < k - 1. (Suc f mod k + e) mod k \<noteq> f"
    "i < k \<Longrightarrow> \<exists>e \<le> k - 1. (Suc f mod k + e) mod k = i"
proof -
  have "(Suc f mod k + (k - 1)) mod k = (Suc f + (k - 1)) mod k" by (rule mod_add_left_eq)
  then show "(Suc f mod k + (k - 1)) mod k = f" using assms by simp
  show "\<forall>e < k - 1. (Suc f mod k + e) mod k \<noteq> f"
  proof (intro allI impI)
    fix e
    assume e: "e < k - 1"
    have "(Suc f mod k + e) mod k = (f + Suc e) mod k" by (simp add: mod_add_left_eq)
    also have "\<dots> \<noteq> f" using e assms by (cases "f + Suc e < k") (simp_all add: le_mod_geq)
    finally show "(Suc f mod k + e) mod k \<noteq> f" .
  qed
  show "\<exists>e \<le> k - 1. (Suc f mod k + e) mod k = i" if "i < k"
  proof -
    have "Suc f mod k < k" using assms by (intro mod_less_divisor) linarith
    from cycle_steps [OF this that] show ?thesis by (metis Suc_diff_1 assms less_Suc_eq_le less_nat_zero_code not_gr_zero)
  qed
qed

lemma malloc_round:
  assumes h: "heap_ok st s fs us" and n: "0 < n"
  shows "(\<exists>a s' fs'. malloc_loop n (h_freep s) (h_ptr s (h_freep s)) s = Some (a + 1, s') \<and> heap_ok st s' fs' ((a, n) # us) \<and> keeps us s s')
    \<or> (\<forall>x \<in> set fs. snd x < n) \<and> malloc_loop n (h_freep s) (h_ptr s (h_freep s)) s = more n s"
proof -
  note d = heap_okD [OF h]
  let ?k = "length fs"
  obtain f where f: "f < ?k" "h_freep s = fst (fs ! f)" using d(7) by (auto simp: in_set_conv_nth)
  have k: "Suc f mod ?k < ?k" using f(1) by (intro mod_less_divisor) linarith
  have nx: "h_ptr s (h_freep s) = fst (fs ! (Suc f mod ?k))"
    using ring_next [of "h_ptr s" "map fst fs" f] d(1,2,5) f k by (simp add: hd_conv_nth)
  have all: "\<forall>x \<in> set fs. snd x < n" if "\<forall>e \<le> ?k - 1. snd (fs ! ((Suc f mod ?k + e) mod ?k)) < n"
    using that ring_last(3) [OF f(1)] by (metis in_set_conv_nth)
  have "\<exists>a s' fs'. take_block n (fst (fs ! j)) (fst (fs ! (Suc j mod ?k))) s = (a + 1, s') \<and> heap_ok st s' fs' ((a, n) # us) \<and> keeps us s s'"
    if j: "j < ?k" "n \<le> snd (fs ! (Suc j mod ?k))" for j
  proof -
    have "fs ! 0 = (h_base s, 0)" using d(1,2) by (simp add: hd_conv_nth)
    then have "Suc j mod ?k \<noteq> 0" using j(2) n by (metis less_le_trans less_irrefl snd_conv)
    then have s: "Suc j < ?k" "Suc j mod ?k = Suc j" using j(1) by (cases "Suc j = ?k"; simp)+
    have "fs = take j fs @ (fst (fs ! j), snd (fs ! j)) # (fst (fs ! Suc j), snd (fs ! Suc j)) # drop (Suc (Suc j)) fs"
      using s(1) j(1) by (simp add: Cons_nth_drop_Suc id_take_nth_drop [symmetric])
    then have "heap_ok st s (take j fs @ (fst (fs ! j), snd (fs ! j)) # (fst (fs ! Suc j), snd (fs ! Suc j)) # drop (Suc (Suc j)) fs) us"
      using h by simp
    from take_block_ok [OF this n] show ?thesis using j(2) unfolding s(2) by blast
  qed
  then show ?thesis
    using malloc_scan [OF h f k f(1) refl ring_last(1,2) [OF f(1)], of n] all unfolding nx f(2) [symmetric] by fastforce
qed

definition grantable :: "u32 \<Rightarrow> bool" where
  "grantable nbytes \<longleftrightarrow> unat nbytes + 16 \<le> 2 ^ 31"

lemma units_for_grantable:
  assumes "grantable nbytes"
  shows "units_for nbytes = (unat nbytes + 7) div 8 + 1" "0 < units_for nbytes" "8 * units_for nbytes < 2 ^ 31" "unat nbytes + 8 \<le> 8 * units_for nbytes"
proof -
  have b: "unat nbytes + 16 \<le> 2 ^ 31" using assms by (simp add: grantable_def)
  have "unat (nbytes + 8 - 1) = unat nbytes + 7" using b by (simp add: unat_word_ariths)
  then have "unat ((nbytes + 8 - 1) div 8) = (unat nbytes + 7) div 8" by (simp add: unat_div)
  then show u: "units_for nbytes = (unat nbytes + 7) div 8 + 1"
    using b by (simp add: units_for_def unat_word_ariths)
  show "0 < units_for nbytes" "8 * units_for nbytes < 2 ^ 31" "unat nbytes + 8 \<le> 8 * units_for nbytes"
    unfolding u using b by auto
qed

definition heap_inv :: "nat \<Rightarrow> heap \<Rightarrow> block list \<Rightarrow> bool" where
  "heap_inv st s us \<longleftrightarrow> (if h_freep s = 0 then us = [] \<and> h_brk s = st \<and> 0 < h_base s \<and> h_base s < st else \<exists>fs. heap_ok st s fs us)"

lemma heap_inv_ok: "heap_ok st s fs us \<Longrightarrow> heap_inv st s us"
  using free_addr(1) [of st s fs us "h_freep s"] heap_okD(7) [of st s fs us] by (auto simp: heap_inv_def)

lemma malloc_ok:
  assumes h: "heap_ok st s fs us" and n: "0 < n" "8 * n < 2 ^ 31"
  shows "\<exists>p s' fs'. malloc_loop n (h_freep s) (h_ptr s (h_freep s)) s = Some (p, s') \<and> keeps us s s'
    \<and> (if p = 0 then heap_ok st s' fs' us \<and> h_lim s < h_brk s + max n 4096 else heap_ok st s' fs' ((p - 1, n) # us))"
proof -
  let ?m = "malloc_loop n (h_freep s) (h_ptr s (h_freep s)) s"
  have found: ?thesis if "\<exists>a s' fs'. ?m = Some (a + 1, s') \<and> heap_ok st s' fs' ((a, n) # us) \<and> keeps us s s'"
    using that by fastforce
  consider "?m = more n s" | ?thesis using malloc_round [OF h n(1)] found by blast
  then show ?thesis
  proof cases
    case 1
    note mc = morecore_ok [OF h n(2)]
    show ?thesis
    proof (cases "h_lim s < h_brk s + max n 4096")
      case True
      then have "?m = Some (0, s)" using 1 mc(1) by simp
      moreover have "keeps us s s" by (simp add: keeps_def)
      ultimately show ?thesis using h True by fastforce
    next
      case False
      then obtain gs t where t: "morecore n s = Some (h_freep t, t)" "h_freep t \<noteq> 0" "heap_ok st t gs us" "keeps us s t" "\<exists>x \<in> set gs. n \<le> snd x"
        using mc(2) by auto
      then have "?m = malloc_loop n (h_freep t) (h_ptr t (h_freep t)) t" using 1 by simp
      moreover have "\<not> (\<forall>x \<in> set gs. snd x < n)" using t(5) by (metis leD)
      ultimately show ?thesis using malloc_round [OF t(3) n(1)] keeps_trans [OF t(4)] by (intro found) auto
    qed
  qed
qed

lemma malloc_spec:
  assumes h: "heap_inv st s us" and g: "grantable nb"
  shows "\<exists>p s'. malloc nb s = Some (p, s') \<and> keeps us s s'
    \<and> (if p = 0 then heap_inv st s' us \<and> h_lim s < h_brk s + max (units_for nb) 4096 else \<exists>fs. heap_ok st s' fs ((p - 1, units_for nb) # us))"
proof -
  define t where "t = (if h_freep s = 0 then set_size (h_base s) 0 ((set_ptr (h_base s) (h_base s) s)\<lparr>h_freep := h_base s\<rparr>) else s)"
  have m: "malloc nb s = malloc_loop (units_for nb) (h_freep t) (h_ptr t (h_freep t)) t" by (simp add: malloc_def t_def Let_def)
  have l: "h_lim t = h_lim s" "h_brk t = h_brk s" by (simp_all add: t_def set_defs)
  have k: "keeps us s t" using h by (auto simp: heap_inv_def t_def keeps_def split: if_splits)
  have "\<exists>fs. heap_ok st t fs us"
  proof (cases "h_freep s = 0")
    case True
    then have "heap_ok st t [(h_base s, 0)] us" using h by (intro heap_okI) (auto simp: heap_inv_def t_def set_defs)
    then show ?thesis by blast
  next
    case False
    then show ?thesis using h by (simp add: heap_inv_def t_def)
  qed
  then obtain fs where "heap_ok st t fs us" by blast
  from malloc_ok [OF this units_for_grantable(2,3) [OF g]] show ?thesis
    unfolding m l using keeps_trans [OF k] heap_inv_ok by (metis (no_types, lifting))
qed

subsection \<open>Histories of calls\<close>

inductive heap_reach :: "nat \<Rightarrow> heap \<Rightarrow> block list \<Rightarrow> bool" for st where
  start: "h_freep s = 0 \<Longrightarrow> 0 < h_base s \<Longrightarrow> h_base s < st \<Longrightarrow> h_brk s = st \<Longrightarrow> heap_reach st s []"
| alloc: "heap_reach st s us \<Longrightarrow> grantable nb \<Longrightarrow> malloc nb s = Some (p, s')
    \<Longrightarrow> heap_reach st s' (if p = 0 then us else (p - 1, units_for nb) # us)"
| release: "heap_reach st s (us @ b # vs) \<Longrightarrow> ufree (fst b + 1) s = Some s' \<Longrightarrow> heap_reach st s' (us @ vs)"

lemma heap_ok_rotate: "heap_ok st s fs (us @ b # vs) \<Longrightarrow> heap_ok st s fs (b # us @ vs)"
proof -
  have "covers (fs @ us @ b # vs) x = covers (fs @ b # us @ vs) x" for x by (cases b) simp
  moreover have "set (us @ b # vs) = set (b # us @ vs)" by auto
  ultimately show "heap_ok st s fs (us @ b # vs) \<Longrightarrow> heap_ok st s fs (b # us @ vs)" unfolding heap_ok_def by presburger
qed

lemma heap_inv_free:
  assumes "heap_inv st s (us @ (b, m) # vs)"
  shows "\<exists>s'. ufree (b + 1) s = Some s' \<and> heap_inv st s' (us @ vs) \<and> keeps (us @ vs) s s'"
proof -
  obtain fs where "heap_ok st s fs (us @ (b, m) # vs)" using assms by (auto simp: heap_inv_def split: if_splits)
  from ufree_ok [OF heap_ok_rotate [OF this]] show ?thesis using heap_inv_ok by blast
qed

lemma heap_reach_inv: "heap_reach st s us \<Longrightarrow> heap_inv st s us"
proof (induction rule: heap_reach.induct)
  case (start s)
  then show ?case by (simp add: heap_inv_def)
next
  case (alloc s us nb p s')
  then show ?case using malloc_spec [OF alloc.IH alloc.hyps(2)] heap_inv_ok by fastforce
next
  case (release s us b vs s')
  then show ?case using heap_inv_free [of st s us "fst b" "snd b" vs] by simp
qed

lemma heap_inv_blocks:
  assumes "heap_inv st s us" "(a, n) \<in> set us" "a \<le> x" "x < a + n"
  shows "covers us x = 1 \<and> st \<le> x \<and> x < h_brk s"
proof -
  obtain fs where "heap_ok st s fs us" using assms(1,2) by (auto simp: heap_inv_def split: if_splits)
  from used_apart [OF this assms(2-4)] show ?thesis by simp
qed



text \<open>A request of nearly 4 GB wraps to a single unit: the block given out has no room at all.\<close>

lemma malloc_overflow: "units_for 0xFFFFFFFF = 1"
  by (simp add: units_for_def)

subsection \<open>No fragmentation is left behind\<close>

lemma spaced_from: "spaced ((a, n) # g) \<Longrightarrow> (b, m) \<in> set g \<Longrightarrow> a + n < b"
proof (induction g arbitrary: a n)
  case (Cons y g)
  obtain c k where y: "y = (c, k)" by fastforce
  have "a + n < c" "spaced ((c, k) # g)" using Cons.prems(1) by (simp_all add: y)
  then show ?case using Cons.IH [of c k] Cons.prems(2) y by (cases "(b, m) = y") auto
qed simp

lemma covers_below:
  assumes "spaced ((a, n) # g)" "x < a"
  shows "covers ((a, n) # g) x = 0"
proof -
  have "covers g x = 0" unfolding covers_def length_0_conv filter_empty_conv
  proof clarify
    fix b m
    assume "(b, m) \<in> set g" "b \<le> x"
    then show False using spaced_from [OF assms(1)] assms(2) by fastforce
  qed
  then show ?thesis using assms(2) by simp
qed

text \<open>When every block has been released, the free list is a single block with all the memory
  that was ever obtained from the system.\<close>

theorem all_freed_coalesced:
  assumes "heap_reach st s []" "h_freep s \<noteq> 0" "st < h_brk s"
  shows "h_ptr s (h_base s) = st \<and> h_ptr s st = h_base s \<and> h_size s st = h_brk s - st"
proof -
  obtain fs where h: "heap_ok st s fs []" using heap_reach_inv [OF assms(1)] assms(2) by (auto simp: heap_inv_def)
  note d = heap_okD [OF h]
  obtain g where f: "fs = (h_base s, 0) # g" using d(1,2) by (cases fs) auto
  have c: "covers g x = (if st \<le> x \<and> x < h_brk s then 1 else 0)" for x
    using d(10) [of x] unfolding f covers_simps by (cases "x < h_base s") simp_all
  obtain a n g' where g: "g = (a, n) # g'" using c [of st] assms(3) by (cases g) auto
  have sp: "spaced ((a, n) # g')" using d(6) by (simp add: f g)
  have n: "0 < n" using d(9) [of a n] by (simp add: f g)
  have a: "a = st"
  proof (rule ccontr)
    assume "a \<noteq> st"
    moreover have "st \<le> a" using c [of a] n by (auto simp: g split: if_splits)
    ultimately have "covers g st = 0" using covers_below [OF sp] by (simp add: g del: covers_simps)
    then show False using c [of st] assms(3) by simp
  qed
  have "g' = [] \<and> h_brk s \<le> a + n"
  proof (cases g')
    case Nil
    then show ?thesis using c [of "a + n"] a by (auto simp: g split: if_splits)
  next
    case (Cons y g'')
    obtain b m where y: "y = (b, m)" by fastforce
    have b: "a + n < b" "spaced ((b, m) # g'')" "0 < m" using sp d(9) [of b m] by (auto simp: Cons y f g)
    have "covers g (a + n) = 0" using covers_below [OF b(2,1)] by (simp add: g Cons y)
    moreover have "b < h_brk s" using c [of b] b(3) by (auto simp: g Cons y split: if_splits)
    ultimately show ?thesis using c [of "a + n"] a b(1) by simp
  qed
  moreover have "a + n \<le> h_brk s" using c [of "a + n - 1"] n by (auto simp: g split: if_splits)
  ultimately show ?thesis using d(5) d(8) [of a n] a by (simp add: f g)
qed

end
