(* ===== verification/Mkfs.thy ===== *)
theory Mkfs
  imports FsInodes
begin

section \<open>Building the disk image (\<^verbatim>\<open>mkfs.c\<close>)\<close>

text \<open>
  The program that writes the file system the kernel boots from. The image is a function from
  sectors to blocks; reading and writing a sector always succeed. The offset in a file and the
  lengths are natural numbers; block numbers are words, as in the inodes. An assertion that fails
  is a \<open>Panic\<close>. \<^verbatim>\<open>main\<close> gets the names and contents of the files.

  The lemmas are stated with the kernel's own readings of the image: the superblock that \<^verbatim>\<open>readsb\<close>
  decodes, the bits that \<^verbatim>\<open>balloc\<close> tests and the inodes that \<^verbatim>\<open>ilock\<close> loads.
\<close>

unbundle bit_operations_syntax

definition NINODES :: nat where "NINODES = 200"

definition nbitmap :: nat where "nbitmap = FSSIZE div (BSIZE * 8) + 1"
definition ninodeblocks :: nat where "ninodeblocks = NINODES div IPB + 1"
definition nlog :: nat where "nlog = LOGSIZE"
definition nmeta :: nat where "nmeta = 2 + nlog + ninodeblocks + nbitmap"

record image =
  im_disk :: "u32 \<Rightarrow> block"
  im_freeinode :: u32
  im_freeblock :: u32

text \<open>\<^verbatim>\<open>xshort\<close> and \<^verbatim>\<open>xint\<close> give the number whose bytes in memory are the little-endian ones of their argument.\<close>

definition xshort :: "u16 \<Rightarrow> u16" where
  "xshort x = get16 [ucast x, ucast (drop_bit 8 x)] 0"

definition xint :: "u32 \<Rightarrow> u32" where
  "xint x = get32 [ucast x, ucast (drop_bit 8 x), ucast (drop_bit 16 x), ucast (drop_bit 24 x)] 0"

definition mk_sb :: superblock where
  "mk_sb = \<lparr>sb_size = xint (of_nat FSSIZE), sb_nblocks = xint (of_nat (FSSIZE - nmeta)), sb_ninodes = xint (of_nat NINODES),
     sb_nlog = xint (of_nat nlog), sb_logstart = xint 2, sb_inodestart = xint (of_nat (2 + nlog)),
     sb_bmapstart = xint (of_nat (2 + nlog + ninodeblocks))\<rparr>"

definition zeroes :: block where "zeroes = replicate BSIZE 0"

definition wsect :: "u32 \<Rightarrow> block \<Rightarrow> image \<Rightarrow> image" where
  "wsect sec buf s = s\<lparr>im_disk := (im_disk s)(sec := buf)\<rparr>"

definition rsect :: "u32 \<Rightarrow> image \<Rightarrow> block" where
  "rsect sec s = im_disk s sec"

definition winode :: "u32 \<Rightarrow> dinode \<Rightarrow> image \<Rightarrow> image" where
  "winode inum d s = (let bn = IBLOCK inum mk_sb in wsect bn (put_dinode (dinode_off inum) d (rsect bn s)) s)"

definition rinode :: "u32 \<Rightarrow> image \<Rightarrow> dinode" where
  "rinode inum s = get_dinode (rsect (IBLOCK inum mk_sb) s) (dinode_off inum)"

definition mk_ialloc :: "u16 \<Rightarrow> image \<Rightarrow> u32 \<times> image" where
  "mk_ialloc type s =
     (let inum = im_freeinode s; s = s\<lparr>im_freeinode := inum + 1\<rparr>;
          din = \<lparr>d_type = xshort type, d_major = 0, d_minor = 0, d_nlink = xshort 1, d_size = xint 0, d_addrs = replicate (NDIRECT + 1) 0\<rparr>
      in (inum, winode inum din s))"

definition mk_balloc :: "nat \<Rightarrow> image \<Rightarrow> image res" where
  "mk_balloc used s =
     (if \<not> used < BSIZE * 8 then Panic ''assert''
      else Ok (wsect (sb_bmapstart mk_sb) (fold bit_set [0..<used] zeroes) s))"

text \<open>The block of a file to write to, allocated if it is not there.\<close>

definition block_for :: "nat \<Rightarrow> dinode \<Rightarrow> image \<Rightarrow> u32 \<times> dinode \<times> image" where
  "block_for fbn din s =
     (if fbn < NDIRECT then
        let (din, s) = (if xint (d_addrs din ! fbn) = 0
                        then (din\<lparr>d_addrs := (d_addrs din)[fbn := xint (im_freeblock s)]\<rparr>, s\<lparr>im_freeblock := im_freeblock s + 1\<rparr>)
                        else (din, s))
        in (xint (d_addrs din ! fbn), din, s)
      else
        let (din, s) = (if xint (d_addrs din ! NDIRECT) = 0
                        then (din\<lparr>d_addrs := (d_addrs din)[NDIRECT := xint (im_freeblock s)]\<rparr>, s\<lparr>im_freeblock := im_freeblock s + 1\<rparr>)
                        else (din, s));
            ib = xint (d_addrs din ! NDIRECT); indirect = rsect ib s; k = 4 * (fbn - NDIRECT);
            (indirect, s) = (if get32 indirect k = 0
                             then let indirect = put32 k (xint (im_freeblock s)) indirect
                                  in (indirect, wsect ib indirect (s\<lparr>im_freeblock := im_freeblock s + 1\<rparr>))
                             else (indirect, s))
        in (xint (get32 indirect k), din, s))"

definition put_bytes :: "nat \<Rightarrow> u8 list \<Rightarrow> block \<Rightarrow> block" where
  "put_bytes i p buf = take i buf @ p @ drop (i + length p) buf"

function iappend_loop :: "nat \<Rightarrow> u8 list \<Rightarrow> dinode \<Rightarrow> image \<Rightarrow> (nat \<times> dinode \<times> image) res" where
  "iappend_loop off p din s =
     (if p = [] then Ok (off, din, s)
      else let fbn = off div BSIZE in
        if \<not> fbn < MAXFILE then Panic ''assert''
        else
          let (x, din, s) = block_for fbn din s;
              n1 = min (length p) ((fbn + 1) * BSIZE - off);
              s = wsect x (put_bytes (off - fbn * BSIZE) (take n1 p) (rsect x s)) s
          in iappend_loop (off + n1) (drop n1 p) din s)"
  by pat_completeness auto
termination
proof (relation "measure (\<lambda>(off, p, din, s). length p)", goal_cases)
  case (2 off p din s)
  have "off < off div BSIZE * BSIZE + BSIZE" by (metis BSIZE_def div_mult_mod_eq mod_less_divisor add_strict_left_mono zero_less_numeral)
  then have "off < (off div BSIZE + 1) * BSIZE" by simp
  then show ?case using 2 by simp
qed simp

declare iappend_loop.simps [simp del]

definition iappend :: "u32 \<Rightarrow> u8 list \<Rightarrow> image \<Rightarrow> image res" where
  "iappend inum p s =
     (let din = rinode inum s in
      rbind (iappend_loop (unat (xint (d_size din))) p din s) (\<lambda>(off, din, s).
      Ok (winode inum (din\<lparr>d_size := xint (of_nat off)\<rparr>) s)))"

definition mk_dirent :: "u32 \<Rightarrow> u8 list \<Rightarrow> u8 list" where
  "mk_dirent inum name =
     (let n = take DIRSIZ name in put16 0 (xshort (ucast inum)) [0, 0] @ n @ replicate (DIRSIZ - length n) 0)"

function chunks_in :: "u8 list \<Rightarrow> u32 \<Rightarrow> image \<Rightarrow> image res" where
  "chunks_in p inum s =
     (if p = [] then Ok s else rbind (iappend inum (take BSIZE p) s) (\<lambda>s. chunks_in (drop BSIZE p) inum s))"
  by pat_completeness auto
termination
  by (relation "measure (\<lambda>(p, inum, s). length p)") (simp_all add: BSIZE_def)

declare chunks_in.simps [simp del]

text \<open>One file of the command line; the leading underscore of its name is dropped. The file is read in
  pieces of \<^verbatim>\<open>BSIZE\<close>.\<close>

definition add_file :: "u8 list \<times> u8 list \<Rightarrow> image \<Rightarrow> image res" where
  "add_file f s =
     (let (name, content) = f in
      if 0x2F \<in> set name then Panic ''assert''
      else
        let name = (if name \<noteq> [] \<and> hd name = 0x5F then tl name else name); (inum, s) = mk_ialloc T_FILE s in
        rbind (iappend ROOTINO (mk_dirent inum name) s) (\<lambda>s.
        chunks_in content inum s))"

definition sb_block :: block where
  "sb_block = put32 24 (sb_bmapstart mk_sb) (put32 20 (sb_inodestart mk_sb) (put32 16 (sb_logstart mk_sb) (put32 12 (sb_nlog mk_sb)
     (put32 8 (sb_ninodes mk_sb) (put32 4 (sb_nblocks mk_sb) (put32 0 (sb_size mk_sb) zeroes))))))"

definition mkfs_main :: "(u8 list \<times> u8 list) list \<Rightarrow> image \<Rightarrow> image res" where
  "mkfs_main files s =
     (let s = s\<lparr>im_freeinode := 1, im_freeblock := of_nat nmeta,
            im_disk := (\<lambda>i. if unat i < FSSIZE then zeroes else im_disk s i)\<rparr>;
          s = wsect 1 sb_block s; (rootino, s) = mk_ialloc T_DIR s in
      if rootino \<noteq> ROOTINO then Panic ''assert''
      else
        rbind (iappend rootino (mk_dirent rootino [0x2E]) s) (\<lambda>s.
        rbind (iappend rootino (mk_dirent rootino [0x2E, 0x2E]) s) (\<lambda>s.
        rbind (fold (\<lambda>f r. rbind r (add_file f)) files (Ok s)) (\<lambda>s.
        let din = rinode rootino s; off = unat (xint (d_size din)); off = (off div BSIZE + 1) * BSIZE;
            s = winode rootino (din\<lparr>d_size := xint (of_nat off)\<rparr>) s in
        mk_balloc (unat (im_freeblock s)) s))))"

subsection \<open>Metadata as the kernel reads it\<close>

lemma xint_id [simp]: "xint x = x"
  using get32_put32 [of 0 "[0, 0, 0, 0]" x] by (simp add: xint_def put32_def)

lemma xshort_id [simp]: "xshort x = x"
  using get16_put16 [of 0 "[0, 0]" x] by (simp add: xshort_def put16_def)

lemma fold_bit_set:
  assumes "used \<le> BPB"
  shows "length (fold bit_set [0..<used] zeroes) = BSIZE \<and> (\<forall>b. b < BPB \<longrightarrow> bit_used (fold bit_set [0..<used] zeroes) b = (b < used))"
  using assms
proof (induction used)
  case 0
  have "b div 8 < BSIZE" if "b < BPB" for b using that by (simp add: BPB_def BSIZE_def)
  then show ?case by (simp add: zeroes_def bit_used_def)
next
  case (Suc n)
  let ?d = "fold bit_set [0..<n] zeroes"
  have d: "length ?d = BSIZE" "\<forall>b. b < BPB \<longrightarrow> bit_used ?d b = (b < n)" using Suc by simp_all
  have "n div 8 < length ?d" using Suc.prems d(1) by (simp add: BPB_def BSIZE_def)
  from bit_set_used [OF this] show ?case using d by (auto simp: bit_set_def [of n ?d])
qed

text \<open>What the bitmap that \<^verbatim>\<open>mkfs\<close> writes says to the kernel: exactly the first \<open>used\<close> blocks are in use.\<close>

theorem mk_balloc_marks:
  assumes "used < BSIZE * 8" "b < FSSIZE"
  shows "\<exists>t. mk_balloc used s = Ok t \<and> bit_used (im_disk t (BBLOCK b mk_sb)) (b mod BPB) = (b < used)
    \<and> (\<forall>i. i \<noteq> sb_bmapstart mk_sb \<longrightarrow> im_disk t i = im_disk s i)"
proof -
  have "b < BPB" "used \<le> BPB" using assms by (simp_all add: BPB_def BSIZE_def FSSIZE_def)
  then show ?thesis using assms(1) fold_bit_set [of used]
    by (simp add: mk_balloc_def wsect_def BBLOCK_def)
qed

lemma rinode_winode:
  assumes "length (im_disk s (IBLOCK inum mk_sb)) = BSIZE" "length (d_addrs d) = NDIRECT + 1"
  shows "rinode inum (winode inum d s) = d" "j \<noteq> inum \<Longrightarrow> rinode j (winode inum d s) = rinode j s"
proof -
  show "rinode inum (winode inum d s) = d"
    using get_put_dinode [of "dinode_off inum" "im_disk s (IBLOCK inum mk_sb)" d] dinode_off_bound [of inum] assms
    by (simp add: rinode_def winode_def rsect_def wsect_def Let_def)
  assume j: "j \<noteq> inum"
  show "rinode j (winode inum d s) = rinode j s"
  proof (cases "IBLOCK j mk_sb = IBLOCK inum mk_sb")
    case True
    then show ?thesis using dinode_off_apart [OF IBLOCK_inj [OF True] j] get_put_dinode_other [of "dinode_off j" "dinode_off inum"]
      by (simp add: rinode_def winode_def rsect_def wsect_def Let_def)
  qed (simp add: rinode_def winode_def rsect_def wsect_def Let_def)
qed

lemma decode_sb_block: "decode_sb sb_block = mk_sb"
  by (simp add: decode_sb_def sb_block_def zeroes_def BSIZE_def)

subsection \<open>Appending to a file\<close>

text \<open>\<open>file_rep\<close>: the blocks of a file in order, as its inode and its indirect block name them. \<open>ind\<close> is the
  list with the indirect block, if there is one.\<close>

definition ind :: "dinode \<Rightarrow> u32 list \<Rightarrow> u32 list" where
  "ind din bs = (if length bs \<le> NDIRECT then [] else [d_addrs din ! NDIRECT])"

definition file_rep :: "dinode \<Rightarrow> (u32 \<Rightarrow> block) \<Rightarrow> u32 list \<Rightarrow> bool" where
  "file_rep din disk bs \<longleftrightarrow>
     length (d_addrs din) = NDIRECT + 1 \<and> length bs \<le> MAXFILE \<and> 0 \<notin> set bs
     \<and> (\<forall>k < NDIRECT. d_addrs din ! k = (if k < length bs then bs ! k else 0))
     \<and> (if length bs \<le> NDIRECT then d_addrs din ! NDIRECT = 0
        else d_addrs din ! NDIRECT \<noteq> 0 \<and> length (disk (d_addrs din ! NDIRECT)) = BSIZE
          \<and> (\<forall>k < NINDIRECT. get32 (disk (d_addrs din ! NDIRECT)) (4 * k) = (if k + NDIRECT < length bs then bs ! (k + NDIRECT) else 0)))"

definition img_ok :: "dinode \<Rightarrow> image \<Rightarrow> u32 list \<Rightarrow> bool" where
  "img_ok din s bs \<longleftrightarrow> file_rep din (im_disk s) bs \<and> distinct (bs @ ind din bs)
     \<and> (\<forall>b \<in> set (bs @ ind din bs). b < im_freeblock s) \<and> im_freeblock s \<noteq> 0
     \<and> (\<forall>b. im_freeblock s \<le> b \<longrightarrow> im_disk s b = zeroes) \<and> (\<forall>b \<in> set bs. length (im_disk s b) = BSIZE)"

lemma length_zeroes [simp]: "length zeroes = BSIZE"
  by (simp add: zeroes_def)

lemmas file_sizes = NDIRECT_def NINDIRECT_def MAXFILE_def BSIZE_def

lemma block_for_old:
  assumes "file_rep din (im_disk s) bs" "fbn < length bs"
  shows "block_for fbn din s = (bs ! fbn, din, s)"
proof (cases "fbn < NDIRECT")
  case True
  then have "d_addrs din ! fbn = bs ! fbn" "bs ! fbn \<noteq> 0" using assms by (auto simp: file_rep_def in_set_conv_nth)
  then show ?thesis using True by (simp add: block_for_def)
next
  case False
  then have "fbn - NDIRECT < NINDIRECT" "\<not> length bs \<le> NDIRECT" "bs ! fbn \<noteq> 0"
    using assms by (auto simp: file_rep_def in_set_conv_nth MAXFILE_def)
  then have "get32 (im_disk s (d_addrs din ! NDIRECT)) (4 * (fbn - NDIRECT)) = bs ! fbn" "d_addrs din ! NDIRECT \<noteq> 0"
    using assms False by (auto simp: file_rep_def)
  then show ?thesis using False \<open>bs ! fbn \<noteq> 0\<close> by (simp add: block_for_def rsect_def Let_def)
qed

lemma fresh_facts:
  assumes "img_ok din s bs" "unat (im_freeblock s) + 2 < 2 ^ 32"
  shows "im_freeblock s \<notin> set (bs @ ind din bs)" "im_freeblock s < im_freeblock s + 1" "im_freeblock s + 1 < im_freeblock s + 2"
    "im_freeblock s + 1 \<noteq> 0" "im_freeblock s + 2 \<noteq> 0" "b < im_freeblock s \<Longrightarrow> b < im_freeblock s + 1 \<and> b < im_freeblock s + 2"
    "im_freeblock s + 2 \<le> b \<Longrightarrow> im_freeblock s + 1 \<le> b" "im_freeblock s + 1 \<le> b \<Longrightarrow> im_freeblock s < b"
proof -
  show "im_freeblock s \<notin> set (bs @ ind din bs)" using assms(1) unfolding img_ok_def by blast
  have u: "unat (im_freeblock s + 1) = unat (im_freeblock s) + 1" "unat (im_freeblock s + 2) = unat (im_freeblock s) + 2"
    using assms(2) by (simp_all add: unat_word_ariths)
  show "im_freeblock s < im_freeblock s + 1" "im_freeblock s + 1 < im_freeblock s + 2"
    "b < im_freeblock s \<Longrightarrow> b < im_freeblock s + 1 \<and> b < im_freeblock s + 2"
    "im_freeblock s + 2 \<le> b \<Longrightarrow> im_freeblock s + 1 \<le> b" "im_freeblock s + 1 \<le> b \<Longrightarrow> im_freeblock s < b"
    by (simp_all add: word_less_nat_alt word_le_nat_alt u)
  show "im_freeblock s + 1 \<noteq> 0" "im_freeblock s + 2 \<noteq> 0" using u by (metis add_is_0 unsigned_0 one_neq_zero zero_neq_numeral)+
qed

definition grown :: "dinode \<Rightarrow> image \<Rightarrow> u32 list \<Rightarrow> u32 \<times> dinode \<times> image \<Rightarrow> bool" where
  "grown din s bs = (\<lambda>(x, din', s'). img_ok din' s' (bs @ [x]) \<and> d_size din' = d_size din \<and> im_freeblock s \<le> x
     \<and> unat (im_freeblock s') \<le> unat (im_freeblock s) + 2
     \<and> (\<forall>b < im_freeblock s. b \<notin> set (ind din bs) \<longrightarrow> im_disk s' b = im_disk s b \<and> b \<notin> set (ind din' (bs @ [x]))))"

lemma block_for_direct:
  assumes ok: "img_ok din s bs" and r: "unat (im_freeblock s) + 2 < 2 ^ 32" and n: "length bs < NDIRECT"
  shows "grown din s bs (block_for (length bs) din s)"
proof -
  note f = fresh_facts [OF ok r]
  let ?f = "im_freeblock s"
  let ?d = "din\<lparr>d_addrs := (d_addrs din)[length bs := ?f]\<rparr>"
  have z: "d_addrs din ! length bs = 0" "length (d_addrs din) = NDIRECT + 1" using ok n by (auto simp: img_ok_def file_rep_def)
  have e: "block_for (length bs) din s = (?f, ?d, s\<lparr>im_freeblock := ?f + 1\<rparr>)"
    using z n by (simp add: block_for_def)
  have i: "ind din bs = []" "ind ?d (bs @ [?f]) = []" using n by (simp_all add: ind_def)
  have "file_rep ?d (im_disk s) (bs @ [?f])"
    using ok n z by (auto simp: img_ok_def file_rep_def nth_append nth_list_update file_sizes)
  then have "img_ok ?d (s\<lparr>im_freeblock := ?f + 1\<rparr>) (bs @ [?f])"
    using ok f unfolding img_ok_def i by (auto simp: zeroes_def less_imp_le)
  moreover have "unat (?f + 1) \<le> unat ?f + 2" using r by (simp add: unat_word_ariths)
  ultimately show ?thesis unfolding e grown_def by (simp add: i)
qed

lemma block_for_first:
  assumes ok: "img_ok din s bs" and r: "unat (im_freeblock s) + 2 < 2 ^ 32" and n: "length bs = NDIRECT"
  shows "grown din s bs (block_for (length bs) din s)"
proof -
  note f = fresh_facts [OF ok r]
  let ?f = "im_freeblock s"
  let ?d = "din\<lparr>d_addrs := (d_addrs din)[NDIRECT := ?f]\<rparr>"
  let ?b = "put32 0 (?f + 1) zeroes"
  let ?s = "s\<lparr>im_freeblock := ?f + 2, im_disk := (im_disk s)(?f := ?b)\<rparr>"
  have z: "d_addrs din ! NDIRECT = 0" "length (d_addrs din) = NDIRECT + 1" "im_disk s ?f = zeroes" using ok n by (auto simp: img_ok_def file_rep_def)
  have g: "get32 zeroes (4 * k) = 0" if "k < NINDIRECT" for k using that by (simp add: zeroes_def get32_def file_sizes)
  have gb: "get32 ?b (4 * k) = (if k = 0 then ?f + 1 else 0)" if "k < NINDIRECT" for k
    using that g [of k] by (simp add: zeroes_def file_sizes)
  have e: "block_for (length bs) din s = (?f + 1, ?d, ?s)"
    using z n g [of 0] gb [of 0] by (simp add: block_for_def rsect_def wsect_def Let_def file_sizes)
  have i: "ind din bs = []" "ind ?d (bs @ [?f + 1]) = [?f]" using n z by (simp_all add: ind_def)
  have "file_rep ?d (im_disk ?s) (bs @ [?f + 1])"
    using ok n z gb f by (auto simp: img_ok_def file_rep_def nth_append zeroes_def file_sizes)
  moreover have "\<not> ?f + 2 \<le> ?f" using f(2,3) by (simp add: not_le)
  ultimately have "img_ok ?d ?s (bs @ [?f + 1])"
    using ok f unfolding img_ok_def i by (auto simp: zeroes_def less_imp_le)
  moreover have "unat (?f + 2) \<le> unat ?f + 2" using r by (simp add: unat_word_ariths)
  ultimately show ?thesis unfolding e grown_def using f by (auto simp: less_imp_le i)
qed

lemma block_for_later:
  assumes ok: "img_ok din s bs" and r: "unat (im_freeblock s) + 2 < 2 ^ 32" and n: "NDIRECT < length bs" "length bs < MAXFILE"
  shows "grown din s bs (block_for (length bs) din s)"
proof -
  note f = fresh_facts [OF ok r]
  let ?f = "im_freeblock s" and ?i = "d_addrs din ! NDIRECT"
  let ?k = "length bs - NDIRECT"
  let ?b = "put32 (4 * ?k) ?f (im_disk s ?i)"
  let ?s = "s\<lparr>im_freeblock := ?f + 1, im_disk := (im_disk s)(?i := ?b)\<rparr>"
  have i: "ind din bs = [?i]" "ind din (bs @ [?f]) = [?i]" using n by (simp_all add: ind_def)
  have k: "?k < NINDIRECT" using n by (simp add: MAXFILE_def)
  have z: "?i \<noteq> 0" "length (im_disk s ?i) = BSIZE" "?i < ?f" "?i \<notin> set bs" using ok n unfolding img_ok_def file_rep_def i by auto
  have g: "get32 (im_disk s ?i) (4 * k) = (if k + NDIRECT < length bs then bs ! (k + NDIRECT) else 0)" if "k < NINDIRECT" for k
    using ok n that by (simp add: img_ok_def file_rep_def)
  have gb: "get32 ?b (4 * k) = (if k = ?k then ?f else get32 (im_disk s ?i) (4 * k))" if "k < NINDIRECT" for k
  proof (cases "k = ?k")
    case True
    then show ?thesis using k z(2) by (simp add: file_sizes)
  next
    case False
    then have "4 * k + 4 \<le> 4 * ?k \<or> 4 * ?k + 4 \<le> 4 * k" by linarith
    then show ?thesis using False get32_put32_other [of "4 * k" "4 * ?k"] by simp
  qed
  have e: "block_for (length bs) din s = (?f, din, ?s)"
    using z n g [OF k] gb [OF k] by (simp add: block_for_def rsect_def wsect_def Let_def)
  have "file_rep din (im_disk ?s) (bs @ [?f])"
    using ok n z gb g by (auto simp: img_ok_def file_rep_def nth_append)
  moreover have "\<not> ?f + 1 \<le> ?i" using f(6) [OF z(3)] by (simp add: not_le)
  ultimately have "img_ok din ?s (bs @ [?f])"
    using ok f z unfolding img_ok_def i by (auto simp: less_imp_le)
  moreover have "unat (?f + 1) \<le> unat ?f + 2" using r by (simp add: unat_word_ariths)
  ultimately show ?thesis unfolding e grown_def by (simp add: i)
qed

lemma block_for_new:
  assumes "img_ok din s bs" "unat (im_freeblock s) + 2 < 2 ^ 32" "length bs < MAXFILE"
  shows "grown din s bs (block_for (length bs) din s)"
  using block_for_direct [OF assms(1,2)] block_for_first [OF assms(1,2)] block_for_later [OF assms(1,2)] assms(3)
  by (cases "length bs" NDIRECT rule: linorder_cases) auto

definition fdata :: "image \<Rightarrow> u32 list \<Rightarrow> u8 list" where
  "fdata s bs = concat (map (im_disk s) bs)"

lemma fdata_length: "\<forall>b \<in> set bs. length (im_disk s b) = BSIZE \<Longrightarrow> length (fdata s bs) = BSIZE * length bs"
  by (induction bs) (simp_all add: fdata_def)

lemma fdata_cong: "\<forall>b \<in> set bs. im_disk s b = im_disk t b \<Longrightarrow> fdata s bs = fdata t bs"
  by (simp add: fdata_def cong: map_cong)

lemma write_last:
  assumes ok: "img_ok din s (l @ [x])" and off: "off = BSIZE * length l + i" "i + length q \<le> BSIZE"
  defines "t \<equiv> wsect x (put_bytes i q (im_disk s x)) s"
  shows "img_ok din t (l @ [x])" "take (off + length q) (fdata t (l @ [x])) = take off (fdata s (l @ [x])) @ q"
proof -
  have x: "x \<notin> set l" "x \<notin> set (ind din (l @ [x]))" "x < im_freeblock s" "length (im_disk s x) = BSIZE" "\<forall>b \<in> set l. length (im_disk s b) = BSIZE"
    using ok by (auto simp: img_ok_def)
  have d: "im_disk t = (im_disk s)(x := put_bytes i q (im_disk s x))" "im_freeblock t = im_freeblock s" by (simp_all add: t_def wsect_def)
  have lp: "length (put_bytes i q (im_disk s x)) = BSIZE" using x(4) off(2) by (simp add: put_bytes_def)
  have "file_rep din (im_disk t) (l @ [x])"
    using ok x(2) unfolding img_ok_def file_rep_def d by (auto simp: ind_def split: if_splits)
  then show "img_ok din t (l @ [x])"
    using ok x(1,3) lp unfolding img_ok_def d by auto
  have "fdata t l = fdata s l" by (rule fdata_cong) (use x(1) in \<open>auto simp: d\<close>)
  then have f: "fdata t (l @ [x]) = fdata s l @ put_bytes i q (im_disk s x)" "fdata s (l @ [x]) = fdata s l @ im_disk s x"
    by (simp_all add: fdata_def d)
  show "take (off + length q) (fdata t (l @ [x])) = take off (fdata s (l @ [x])) @ q"
    unfolding f using fdata_length [OF x(5)] x(4) off by (simp add: put_bytes_def)
qed

text \<open>One turn of the loop: the block for the offset is there afterwards, and the bytes are in it.\<close>

definition fits :: "nat \<Rightarrow> u32 list \<Rightarrow> bool" where
  "fits off bs \<longleftrightarrow> off \<le> BSIZE * length bs \<and> BSIZE * length bs < off + BSIZE"

definition appended :: "nat \<Rightarrow> u8 list \<Rightarrow> dinode \<Rightarrow> image \<Rightarrow> u32 list \<Rightarrow> dinode \<Rightarrow> image \<Rightarrow> u32 list \<Rightarrow> bool" where
  "appended off q din s bs din' s' bs' \<longleftrightarrow> img_ok din' s' bs' \<and> fits (off + length q) bs'
     \<and> take (off + length q) (fdata s' bs') = take off (fdata s bs) @ q \<and> d_size din' = d_size din
     \<and> (\<forall>b < im_freeblock s. b \<notin> set (bs @ ind din bs) \<longrightarrow> im_disk s' b = im_disk s b \<and> b \<notin> set (bs' @ ind din' bs'))
     \<and> im_freeblock s \<le> im_freeblock s'"

lemma last_block:
  assumes ok: "img_ok din s bs" and fb: "fits off bs" "off div BSIZE < MAXFILE" and r: "unat (im_freeblock s) + 2 < 2 ^ 32"
  obtains l x din' s' where "block_for (off div BSIZE) din s = (x, din', s')" "length l = off div BSIZE" "img_ok din' s' (l @ [x])"
    "take off (fdata s' (l @ [x])) = take off (fdata s bs)" "d_size din' = d_size din"
    "\<forall>b < im_freeblock s. b \<notin> set (bs @ ind din bs) \<longrightarrow> im_disk s' b = im_disk s b \<and> b \<notin> set ((l @ [x]) @ ind din' (l @ [x]))"
    "unat (im_freeblock s') \<le> unat (im_freeblock s) + 2" "im_freeblock s \<le> im_freeblock s'"
proof (cases "off < BSIZE * length bs")
  case True
  then have k: "off div BSIZE < length bs" by (intro less_mult_imp_div_less) (simp add: mult.commute)
  have "BSIZE * length bs < off + BSIZE" using fb(1) by (simp add: fits_def)
  then have "length bs = off div BSIZE + 1" using k by (simp add: BSIZE_def)
  then obtain l x where e: "bs = l @ [x]" "length l = off div BSIZE" by (cases bs rule: rev_cases) auto
  moreover have "block_for (off div BSIZE) din s = (bs ! (off div BSIZE), din, s)"
    by (rule block_for_old) (use ok k in \<open>simp_all add: img_ok_def\<close>)
  ultimately have "block_for (off div BSIZE) din s = (x, din, s)" by (metis nth_append_length)
  then show ?thesis using that [of x din s l] ok e by simp
next
  case False
  then have off: "off = BSIZE * length bs" using fb(1) by (simp add: fits_def)
  then have k: "off div BSIZE = length bs" by (simp add: BSIZE_def)
  obtain x d' s' where b: "block_for (length bs) din s = (x, d', s')" by (metis prod_cases3)
  then have g: "grown din s bs (x, d', s')" using block_for_new [OF ok r] fb(2) k by metis
  have bs: "\<forall>b \<in> set bs. b < im_freeblock s \<and> b \<notin> set (ind din bs) \<and> length (im_disk s b) = BSIZE" using ok by (auto simp: img_ok_def)
  have "fdata s' bs = fdata s bs" by (rule fdata_cong) (use g bs in \<open>auto simp: grown_def\<close>)
  then have "take off (fdata s' (bs @ [x])) = take off (fdata s bs)" using bs fdata_length [of bs s] off by (simp add: fdata_def)
  moreover have "im_freeblock s \<le> im_freeblock s'" "im_freeblock s \<le> x" using g by (auto simp: grown_def img_ok_def)
  ultimately show ?thesis using that [of x d' s' bs] g b k by (fastforce simp: grown_def)
qed

lemma iappend_loop_appends:
  assumes "img_ok din s bs" "fits off bs" "off + length p \<le> MAXFILE * BSIZE" "unat (im_freeblock s) + 2 * length p + 2 < 2 ^ 32"
  shows "\<exists>din' s' bs'. iappend_loop off p din s = Ok (off + length p, din', s') \<and> appended off p din s bs din' s' bs'"
  using assms
proof (induction off p din s arbitrary: bs rule: iappend_loop.induct)
  case (1 off p din s)
  show ?case
  proof (cases "p = []")
    case True
    then show ?thesis using 1(2,3) by (subst iappend_loop.simps) (auto simp: appended_def)
  next
    case False
    let ?k = "off div BSIZE"
    have k: "?k < MAXFILE" using 1(4) False by (intro less_mult_imp_div_less) (cases p; simp)
    have r: "unat (im_freeblock s) + 2 < 2 ^ 32" using 1(5) by simp
    obtain l x d1 s1 where b: "block_for ?k din s = (x, d1, s1)" "length l = ?k" "img_ok d1 s1 (l @ [x])"
      "take off (fdata s1 (l @ [x])) = take off (fdata s bs)" "d_size d1 = d_size din"
      "\<forall>b < im_freeblock s. b \<notin> set (bs @ ind din bs) \<longrightarrow> im_disk s1 b = im_disk s b \<and> b \<notin> set ((l @ [x]) @ ind d1 (l @ [x]))"
      "unat (im_freeblock s1) \<le> unat (im_freeblock s) + 2" "im_freeblock s \<le> im_freeblock s1"
      using last_block [OF 1(2,3) k r] .
    let ?n = "min (length p) ((?k + 1) * BSIZE - off)" and ?i = "off - ?k * BSIZE"
    let ?t = "wsect x (put_bytes ?i (take ?n p) (im_disk s1 x)) s1"
    have i: "?k * BSIZE \<le> off" "off < (?k + 1) * BSIZE" by (simp_all add: BSIZE_def)
    have n: "0 < ?n" "?i + ?n \<le> BSIZE" "off = BSIZE * length l + ?i" using False i b(2) by auto
    have q: "length (take ?n p) = ?n" by simp
    have w: "img_ok d1 ?t (l @ [x])" "take (off + ?n) (fdata ?t (l @ [x])) = take off (fdata s1 (l @ [x])) @ take ?n p"
      using write_last [OF b(3) n(3), of "take ?n p"] n(2) by (simp_all add: q)
    have m: "BSIZE * length (l @ [x]) = ?k * BSIZE + BSIZE" "(?k + 1) * BSIZE = ?k * BSIZE + BSIZE" using b(2) by simp_all
    have "?n \<le> (?k + 1) * BSIZE - off" by (rule min.cobounded2)
    then have fit: "fits (off + ?n) (l @ [x])" using n(1) i unfolding fits_def m by linarith
    have rm: "unat (im_freeblock ?t) + 2 * length (drop ?n p) + 2 < 2 ^ 32"
    proof -
      have "?n \<le> length p" by (rule min.cobounded1)
      then have "length (drop ?n p) + 1 \<le> length p" using n(1) unfolding length_drop by linarith
      then show ?thesis using 1(5) b(7) by (simp add: wsect_def del: length_drop)
    qed
    have step: "iappend_loop off p din s = iappend_loop (off + ?n) (drop ?n p) d1 ?t"
      using False k b(1) by (subst iappend_loop.simps) (simp add: Let_def rsect_def)
    have "\<exists>din' s' bs'. iappend_loop (off + ?n) (drop ?n p) d1 ?t = Ok (off + ?n + length (drop ?n p), din', s')
        \<and> appended (off + ?n) (drop ?n p) d1 ?t (l @ [x]) din' s' bs'"
      by (rule 1(1) [OF False refl _ b(1) [symmetric] refl refl refl, unfolded rsect_def])
        (use k w(1) fit rm 1(4) in auto)
    then obtain d2 s2 bs2 where a: "iappend_loop (off + ?n) (drop ?n p) d1 ?t = Ok (off + length p, d2, s2)"
      "appended (off + ?n) (drop ?n p) d1 ?t (l @ [x]) d2 s2 bs2" by auto
    have "appended off p din s bs d2 s2 bs2"
      unfolding appended_def
    proof (intro conjI allI impI)
      fix c
      assume c: "c < im_freeblock s" "c \<notin> set (bs @ ind din bs)"
      then have "im_disk ?t c = im_disk s c" "c \<notin> set ((l @ [x]) @ ind d1 (l @ [x]))" "c < im_freeblock ?t"
        using b(6,8) by (auto simp: wsect_def)
      then show "im_disk s2 c = im_disk s c" "c \<notin> set (bs2 @ ind d2 bs2)" using a(2) unfolding appended_def by metis+
    qed (use a(2) w(2) b(4,5,8) in \<open>auto simp: appended_def wsect_def min_def split: if_splits\<close>)
    then show ?thesis using a(1) step by auto
  qed
qed

lemma img_ok_wsect:
  "img_ok din s bs \<Longrightarrow> c \<notin> set (bs @ ind din bs) \<Longrightarrow> c < im_freeblock s \<Longrightarrow> img_ok din (wsect c buf s) bs"
  by (auto simp: img_ok_def file_rep_def wsect_def ind_def split: if_splits)

lemma img_ok_size: "img_ok (din\<lparr>d_size := n\<rparr>) s bs = img_ok din s bs" "ind (din\<lparr>d_size := n\<rparr>) bs = ind din bs"
  by (simp_all add: img_ok_def file_rep_def ind_def)

definition content :: "u32 \<Rightarrow> image \<Rightarrow> u32 list \<Rightarrow> u8 list" where
  "content inum s bs = take (unat (d_size (rinode inum s))) (fdata s bs)"

text \<open>A file of the image: its inode names the blocks \<open>bs\<close>, as many as its size needs, and its inode block
  is not one of them.\<close>

definition file_in :: "u32 \<Rightarrow> image \<Rightarrow> u32 list \<Rightarrow> bool" where
  "file_in inum s bs \<longleftrightarrow> img_ok (rinode inum s) s bs \<and> fits (unat (d_size (rinode inum s))) bs
     \<and> IBLOCK inum mk_sb < im_freeblock s \<and> IBLOCK inum mk_sb \<notin> set (bs @ ind (rinode inum s) bs)
     \<and> length (im_disk s (IBLOCK inum mk_sb)) = BSIZE"


definition blank_image :: image where
  "blank_image = \<lparr>im_disk = \<lambda>_. zeroes, im_freeinode = 1, im_freeblock = of_nat nmeta\<rparr>"

lemma layout_numbers: "nmeta = 59" "IBLOCK 1 mk_sb = 32"
  by (simp_all add: nmeta_def nlog_def ninodeblocks_def nbitmap_def FSSIZE_def BSIZE_def LOGSIZE_def NINODES_def IPB_def
      DINODE_SIZE_def IBLOCK_def mk_sb_def MAXOPBLOCKS_def)


end
