(* ===== verification/Cmos.thy ===== *)
theory Cmos
  imports Xv6_Prelude
begin

section \<open>The real-time clock (\<^verbatim>\<open>cmostime\<close> of \<^verbatim>\<open>lapic.c\<close>)\<close>

text \<open>
  The clock runs while it is read: \<open>clk n reg\<close> is what the \<open>n\<close>-th read of the chip finds in register
  \<open>reg\<close>. The routines pass the number of reads made. \<^verbatim>\<open>cmostime\<close> reads the date twice until both are the
  same and no update is in progress; the loop is a partial function. The lemmas show what the
  date that is returned was at two moments, and that the code is decoded.
\<close>

unbundle bit_operations_syntax

definition CMOS_STATA :: u8 where "CMOS_STATA = 0x0A"
definition CMOS_STATB :: u8 where "CMOS_STATB = 0x0B"
definition CMOS_UIP :: u32 where "CMOS_UIP = 0x80"

definition SECS :: u8 where "SECS = 0"
definition MINS :: u8 where "MINS = 2"
definition HOURS :: u8 where "HOURS = 4"
definition DAY :: u8 where "DAY = 7"
definition MONTH :: u8 where "MONTH = 8"
definition YEAR :: u8 where "YEAR = 9"

type_synonym clock = "nat \<Rightarrow> u8 \<Rightarrow> u8"

record rtcdate =
  second :: u32
  minute :: u32
  hour :: u32
  day :: u32
  month :: u32
  year :: u32

definition cmos_read :: "clock \<Rightarrow> u8 \<Rightarrow> nat \<Rightarrow> u32 \<times> nat" where
  "cmos_read clk reg n = (ucast (clk n reg), n + 1)"

definition fill_rtcdate :: "clock \<Rightarrow> nat \<Rightarrow> rtcdate \<times> nat" where
  "fill_rtcdate clk n =
     (let (s, n) = cmos_read clk SECS n; (mi, n) = cmos_read clk MINS n; (h, n) = cmos_read clk HOURS n;
          (d, n) = cmos_read clk DAY n; (mo, n) = cmos_read clk MONTH n; (y, n) = cmos_read clk YEAR n
      in (\<lparr>second = s, minute = mi, hour = h, day = d, month = mo, year = y\<rparr>, n))"

partial_function (option) cmos_loop :: "clock \<Rightarrow> nat \<Rightarrow> (rtcdate \<times> nat) option" where
  "cmos_loop clk n =
     (let (t1, n) = fill_rtcdate clk n; (sa, n) = cmos_read clk CMOS_STATA n in
      if sa AND CMOS_UIP \<noteq> 0 then cmos_loop clk n
      else let (t2, n) = fill_rtcdate clk n in if t1 = t2 then Some (t1, n) else cmos_loop clk n)"

definition conv :: "u32 \<Rightarrow> u32" where
  "conv x = drop_bit 4 x * 10 + (x AND 0xF)"

definition cmostime :: "clock \<Rightarrow> nat \<Rightarrow> (rtcdate \<times> nat) option" where
  "cmostime clk n =
     (let (sb, n) = cmos_read clk CMOS_STATB n; bcd = (sb AND 4 = 0) in
      Option.bind (cmos_loop clk n) (\<lambda>(t1, n).
      let t1 = (if bcd then t1\<lparr>second := conv (second t1), minute := conv (minute t1), hour := conv (hour t1),
                   day := conv (day t1), month := conv (month t1), year := conv (year t1)\<rparr> else t1)
      in Some (t1\<lparr>year := year t1 + 2000\<rparr>, n)))"

subsection \<open>What is returned\<close>

lemma fill_next: "snd (fill_rtcdate clk n) = n + 6"
  by (simp add: fill_rtcdate_def cmos_read_def)

text \<open>The date as the registers have it when it is read from the \<open>n\<close>-th read on.\<close>

definition shown :: "clock \<Rightarrow> nat \<Rightarrow> rtcdate" where
  "shown clk n = fst (fill_rtcdate clk n)"

lemma cmos_loop_unfold:
  "cmos_loop clk n =
     (if ucast (clk (n + 6) CMOS_STATA) AND CMOS_UIP \<noteq> 0 then cmos_loop clk (n + 7)
      else if shown clk n = shown clk (n + 7) then Some (shown clk n, n + 13) else cmos_loop clk (n + 13))"
  by (subst cmos_loop.simps) (simp add: shown_def fill_next cmos_read_def split_beta Let_def add.commute [of n 7] add.commute [of n 13])

lemma cmos_loop_twice:
  "cmos_loop clk n = Some r \<Longrightarrow> \<exists>m \<ge> n. shown clk m = fst r \<and> shown clk (m + 7) = fst r \<and> ucast (clk (m + 6) CMOS_STATA) AND CMOS_UIP = 0"
proof (rule cmos_loop.raw_induct [of "\<lambda>clk n r. \<exists>m \<ge> n. shown clk m = fst r \<and> shown clk (m + 7) = fst r \<and> ucast (clk (m + 6) CMOS_STATA) AND CMOS_UIP = 0"], goal_cases)
  case (1 f clk n r)
  show ?case
  proof (cases "ucast (clk (n + 6) CMOS_STATA) AND CMOS_UIP = 0 \<and> shown clk n = shown clk (n + 7)")
    case True
    then have "fst r = shown clk n" using 1(3) by (auto simp: shown_def fill_next cmos_read_def split_beta Let_def add.commute [of n 7] add.commute [of n 13])
    then show ?thesis using True by auto
  next
    case False
    then have "f clk (n + 7) = Some r \<or> f clk (n + 13) = Some r"
      using 1(3) by (auto simp: shown_def fill_next cmos_read_def split_beta Let_def add.commute [of n 7] add.commute [of n 13] split: if_splits)
    then show ?thesis using 1(2) [of clk "n + 7" r] 1(2) [of clk "n + 13" r] by (meson le_add1 order_trans)
  qed
qed

definition bcd_of :: "nat \<Rightarrow> u8" where
  "bcd_of d = of_nat (16 * (d div 10) + d mod 10)"

lemma conv_bcd:
  assumes "d < 100"
  shows "conv (ucast (bcd_of d)) = of_nat d"
proof -
  let ?a = "d div 10" and ?b = "d mod 10"
  have a: "?a < 10" "?b < 10" using assms by auto
  have u: "unat (ucast (bcd_of d) :: u32) = 16 * ?a + ?b"
    using a by (simp add: bcd_of_def unsigned_ucast_eq unsigned_of_nat take_bit_eq_mod del: of_nat_add of_nat_mult)
  have h: "unat (drop_bit 4 (ucast (bcd_of d) :: u32)) = ?a" using u a by (simp add: drop_bit_eq_div unat_div)
  have "(ucast (bcd_of d) :: u32) AND 0xF = take_bit 4 (ucast (bcd_of d))" by (simp add: take_bit_eq_mask mask_eq_exp_minus_1)
  then have l: "unat ((ucast (bcd_of d) :: u32) AND 0xF) = ?b" using u a by (simp add: take_bit_eq_mod unat_mod)
  have "unat (conv (ucast (bcd_of d))) = unat (of_nat d :: u32)"
    using a assms by (simp add: conv_def unat_word_ariths h l unsigned_of_nat take_bit_eq_mod)
  then show ?thesis by (simp add: word_unat_eq_iff)
qed

text \<open>While the clock stands still and is not being updated, its date is returned, decoded from its
  binary-coded digits and with the century.\<close>

theorem cmostime_decodes:
  assumes still: "\<forall>m. n < m \<and> m \<le> n + 13 \<longrightarrow> clk m = regs" and "(ucast (regs CMOS_STATA) :: u32) AND CMOS_UIP = 0"
    and b: "(ucast (clk n CMOS_STATB) :: u32) AND 4 = 0"
    and r: "regs SECS = bcd_of s" "regs MINS = bcd_of mi" "regs HOURS = bcd_of h" "regs DAY = bcd_of d" "regs MONTH = bcd_of mo" "regs YEAR = bcd_of y"
    and "s < 100" "mi < 100" "h < 100" "d < 100" "mo < 100" "y < 100"
  shows "cmostime clk n = Some (\<lparr>second = of_nat s, minute = of_nat mi, hour = of_nat h, day = of_nat d, month = of_nat mo,
      year = of_nat y + 2000\<rparr>, n + 14)"
proof -
  have sh: "shown clk m = \<lparr>second = ucast (bcd_of s), minute = ucast (bcd_of mi), hour = ucast (bcd_of h), day = ucast (bcd_of d),
      month = ucast (bcd_of mo), year = ucast (bcd_of y)\<rparr>" if "n < m" "m + 5 \<le> n + 13" for m
    using still that r by (simp add: shown_def fill_rtcdate_def cmos_read_def)
  have "clk (n + 1 + 6) = regs" using still by simp
  then have "cmos_loop clk (n + 1) = Some (shown clk (n + 1), n + 14)"
    using sh [of "n + 1"] sh [of "8 + n"] assms(2) by (subst cmos_loop_unfold) simp
  then show ?thesis using sh [of "n + 1"] b assms(10-) by (simp add: cmostime_def cmos_read_def conv_bcd)
qed

end
