(* ===== verification/Spec2Isabelle.thy ===== *)
theory Spec2Isabelle
  imports ProcExit SchedulerProps Lottery Sysproc FsInodes Exec Kbd Ulib Ide ShellRun Mp Umalloc Mkfs Cmos
begin

text \<open>
  \<^bold>\<open>A verification development of xv6 with a four-level feedback scheduler\<close>

  The program is the xv6 teaching kernel for the x86, in C, whose scheduler was replaced by four
  ready queues served by different policies, with aging between them. The sources are under
  \<^verbatim>\<open>src/files\<close>; the theories model the kernel, and the shell and small programs
  that run on it, routine by routine, with the names of the code.

  \<^bold>\<open>The parts and how they interact.\<close> A process runs until the timer interrupt, a system call or an
  exit takes it to the scheduler of its CPU, which picks the next process from the ready queues.
  System calls fetch their arguments from the user stack and call the process routines or the
  file routines. Files are pipes, or inodes of the file system, which reads and writes blocks
  through a log and a buffer cache. Page tables, pipes and kernel stacks are pages of the page
  allocator. Spin locks guard the tables, sleep locks guard buffers and inodes. The keyboard and
  the serial port feed the console, whose lines a read of the device returns; the disk driver
  queues the block requests of the buffer cache. The shell parses a line, forks and executes.

  \<^bold>\<open>Conventions.\<close> A kernel routine is a function from states to \<open>'a res\<close> (theory \<open>Xv6_Prelude\<close>): \<open>Ok\<close>
  with the result and the new state, \<open>Panic\<close> with the message, \<open>Blocked\<close> when the caller spins or
  sleeps, \<open>Fault\<close> where C gives the program no meaning. An \<^verbatim>\<open>int\<close> is an \<open>int\<close> where it cannot
  overflow, a \<^verbatim>\<open>uint\<close> or an address a 32-bit word, so that wrap-around is the code's. A pointer
  into a table is an index; \<open>None\<close>, or the word 0, is the null pointer. A routine that calls
  \<^verbatim>\<open>swtch\<close> is cut there: \<open>_out\<close> up to the switch, \<open>_in\<close> from it on.

  \<^bold>\<open>Theories, sources and what the lemmas show.\<close>

  \<^item> \<open>Spinlock\<close> (\<^verbatim>\<open>spinlock.c\<close>, \<^verbatim>\<open>mycpu\<close>, \<^verbatim>\<open>myproc\<close>): per-CPU records and the nesting of \<^verbatim>\<open>pushcli\<close>; mutual
    exclusion, and that matched \<^verbatim>\<open>popcli\<close> restore the interrupt flag.
  \<^item> \<open>ReadyQueue\<close> (\<^verbatim>\<open>queue_ready\<close>, \<^verbatim>\<open>count_queue\<close> of \<^verbatim>\<open>proc.c\<close>): the array queues refine lists.
  \<^item> \<open>Proc\<close>, \<open>ProcTable\<close>, \<open>ProcLife\<close>, \<open>ProcExit\<close> (\<^verbatim>\<open>proc.c\<close>, \<^verbatim>\<open>proc.h\<close>): the process table and its invariants;
    creation, blocking without lost wakeups, waking, killing, exiting and reaping. The services
    of the other components are the record \<open>kops\<close>.
  \<^item> \<open>Scheduler\<close>, \<open>SchedulerProps\<close>, \<open>Lottery\<close> (\<^verbatim>\<open>scheduler\<close>, \<^verbatim>\<open>shortestBurst\<close>, the lottery): the highest level
    is served first, round robin rotates, the draw selects the holder of the ticket; the branch
    of the lottery decrements the wrong counter, and the generator falls into a short cycle.
  \<^item> \<open>Aging\<close>, \<open>Trap\<close> (\<^verbatim>\<open>updateClock\<close>, \<^verbatim>\<open>upgradePriority_Aging\<close>, \<^verbatim>\<open>change_prio\<close>, \<^verbatim>\<open>trap.c\<close>): the accounting of a
    tick, the exact length of a quantum, and that a waiting process is promoted in bounded time.
  \<^item> \<open>Strings\<close> (\<^verbatim>\<open>string.c\<close>): the memory and string routines on a byte memory, overlapping copies and
    truncation included.
  \<^item> \<open>Kalloc\<close> (\<^verbatim>\<open>kalloc.c\<close>): the free list as links inside the free pages; boot frees every page once
    and no page is given out twice. The locale \<open>page_allocator\<close> is the contract the rest uses.
  \<^item> \<open>Vm\<close>, \<open>VmProps\<close> (\<^verbatim>\<open>vm.c\<close>): page directories and tables as words in the allocator's pages; \<^verbatim>\<open>mappages\<close>
    produces the mapping that the hardware walk then finds, and changes no other.
  \<^item> \<open>Sleeplock\<close> (\<^verbatim>\<open>sleeplock.c\<close>): at most one holder, the one recorded. Locale \<open>sleep_lock\<close>.
  \<^item> \<open>Bio\<close> (\<^verbatim>\<open>bio.c\<close>, \<^verbatim>\<open>memide.c\<close>): the buffer cache with its linked list; coherence with the disk and LRU
    recycling. The locale \<open>block_cache\<close> is what the log and the file system use of it.
  \<^item> \<open>Bytes\<close>, \<open>Log\<close>, \<open>LogProps\<close> (\<^verbatim>\<open>log.c\<close>): a commit interrupted after any disk write is recovered as a whole
    or not at all; the reservation of \<^verbatim>\<open>begin_op\<close> exceeds what \<^verbatim>\<open>log_write\<close> accepts by one block.
  \<^item> \<open>Fs\<close>, \<open>FsBlocks\<close>, \<open>FsInodes\<close> (\<^verbatim>\<open>fs.c\<close>): block allocation, the layout of disk inodes, the inode cache,
    content, directories and paths.
  \<^item> \<open>Ring\<close>, \<open>Pipe\<close> (\<^verbatim>\<open>pipe.c\<close>): free-running counters modulo the buffer size; bytes leave in the order in
    which they enter, across the wrap-around of the counters.
  \<^item> \<open>File\<close>, \<open>Sysfile\<close>, \<open>SysfileProps\<close> (\<^verbatim>\<open>file.c\<close>, \<^verbatim>\<open>sysfile.c\<close>): open files and the calls on them; reference
    counts stay equal to the number of descriptors.
  \<^item> \<open>Syscall\<close>, \<open>Sysproc\<close> (\<^verbatim>\<open>syscall.c\<close>, \<^verbatim>\<open>sysproc.c\<close>): argument checks keep the kernel inside the process.
  \<^item> \<open>Exec\<close> (\<^verbatim>\<open>exec.c\<close>): loading a program is all or nothing for the calling process.
  \<^item> \<open>Digits\<close>, \<open>Console\<close>, \<open>Kbd\<close> (\<^verbatim>\<open>console.c\<close>, \<^verbatim>\<open>kbd.c\<close>, \<^verbatim>\<open>uart.c\<close>): the screen, formatted printing, the
    keyboard tables and the line discipline; the interrupt handler refines a line editor on
    lists, and a printed number reads back.
  \<^item> \<open>Ide\<close> (\<^verbatim>\<open>ide.c\<close>): the linked queue of requests and the registers of the controller refine a queue
    of block transfers, those that \<^verbatim>\<open>iderw\<close> of \<open>Bio\<close> does at once.
  \<^item> \<open>Mkfs\<close> (\<^verbatim>\<open>mkfs.c\<close>): the builder of the disk image, on the kernel's layout of inodes, bitmap and superblock;
    appending to a file keeps its bytes and the other files.
  \<^item> \<open>Mp\<close> (\<^verbatim>\<open>mp.c\<close>): the search for the firmware's tables and the processors found in them; an entry of
    an unknown type makes \<^verbatim>\<open>mpinit\<close> loop for ever.
  \<^item> \<open>Cmos\<close> (\<^verbatim>\<open>cmostime\<close> of \<^verbatim>\<open>lapic.c\<close>): the date returned was shown at two moments, and is decoded.
  \<^item> \<open>Shell\<close>, \<open>ShellRun\<close> (\<^verbatim>\<open>sh.c\<close>): the parser reads back what is written for a command and cuts the line
    without damage; no program is started with an end of a pipe left open.
  \<^item> \<open>Grep\<close> (\<^verbatim>\<open>grep.c\<close>): the matcher decides the declarative meaning of patterns; the lines printed are
    the matching ones.
  \<^item> \<open>Umalloc\<close> (\<^verbatim>\<open>umalloc.c\<close>): the circular free list sorted by address; blocks given out are disjoint, every
    call returns, and releasing everything leaves one free block.
  \<^item> \<open>Ulib\<close> (\<^verbatim>\<open>ulib.c\<close>, \<^verbatim>\<open>printf.c\<close> and small programs): numbers read back, words are counted across reads.

  \<^bold>\<open>Bounds and fuel.\<close> Loops over tables recurse over the list of indices or addresses the code
  runs through. Two loops have fuel. That of \<^verbatim>\<open>deallocuvm\<close> raises its address by at least a page in
  each turn, and \<open>deallocuvm_fuel\<close> in \<open>VmProps\<close> shows that the fuel it starts with gives the
  result of any larger amount. The loop to the end of the request queue in \<^verbatim>\<open>iderw\<close> has one more
  than the number of buffers, which \<open>ide_append_ok\<close> in \<open>Ide\<close> shows to be enough. A loop that may run for
  ever is a \<open>partial_function\<close> (in \<open>Strings\<close>, \<open>Mp\<close>, \<open>Umalloc\<close> and \<open>Cmos\<close>); every other loop is a total function.

  \<^bold>\<open>Parameters.\<close> The linker symbols \<^verbatim>\<open>end\<close> and \<^verbatim>\<open>data\<close>, the table \<^verbatim>\<open>devsw\<close> of device functions, the memory
  a process sees through its page table (\<open>kf_um\<close>), the services \<open>kops\<close> where the process routines
  call the other components, and for the user programs the results of their system calls.

  \<^bold>\<open>Not modelled.\<close> Assembly and boot code (\<^verbatim>\<open>bootasm.S\<close>, \<^verbatim>\<open>entry.S\<close>, \<^verbatim>\<open>swtch.S\<close>, \<^verbatim>\<open>trapasm.S\<close>, \<^verbatim>\<open>bootmain.c\<close>), the
  bring-up of the machine (\<^verbatim>\<open>main.c\<close> beyond the two calls of the allocator, \<^verbatim>\<open>lapic.c\<close> but for the clock, \<^verbatim>\<open>ioapic.c\<close>,
  \<^verbatim>\<open>picirq.c\<close>), which is accesses to device registers; the initialisation of the serial port and of
  the disk controller, and the busy waits for them; \<^verbatim>\<open>ls.c\<close>, \<^verbatim>\<open>init.c\<close> and the prompting
  loop of the shell; the test programs. Inside a modelled file of
  the kernel, what is left out is printing (\<^verbatim>\<open>procdump\<close>, the messages of \<^verbatim>\<open>cprintf\<close>) and the loading of
  constant descriptors (\<^verbatim>\<open>seginit\<close>, \<^verbatim>\<open>tvinit\<close>). A file-system call that sleeps midway is \<open>Blocked\<close> as a
  whole: the state at that moment is not part of the result.
\<close>

end
